(* ===== verification/CMem.thy ===== *)
theory CMem
  imports Main "HOL-Library.Word" "HOL-Library.Monad_Syntax"
begin

unbundle bit_operations_syntax

text \<open>
  The prelude of the development: the byte-addressed memory that the C library of
  llxvm works on, and the vocabulary in which its string and memory routines are specified.

  The library is compiled by \<^verbatim>\<open>clang -m32\<close> for the llxvm runtime, so \<^verbatim>\<open>char\<close> has 8 bits,
  \<^verbatim>\<open>int\<close>, \<^verbatim>\<open>long\<close>, \<^verbatim>\<open>size_t\<close> and pointers have 32, and memory is little endian
  (\<^verbatim>\<open>ENDIANNESS = LITTLE_ENDIAN\<close> in the runtime's \<^verbatim>\<open>Memory.java\<close>).  An address is a natural
  number, \<open>0\<close> is \<^verbatim>\<open>NULL\<close>, and a memory maps the addresses that exist to the byte they hold.
  Reading or writing an address that does not exist is a fault: the operation is \<open>None\<close>, and
  so is every computation that contains it.  A loop that would never end is \<open>None\<close> too.
  A theorem that a routine returns \<open>Some r\<close> therefore says that it stops, touches existing
  memory only, and returns \<open>r\<close>.
\<close>

section \<open>Memory\<close>

type_synonym byte = "8 word"
type_synonym u32 = "32 word"
type_synonym u64 = "64 word"
type_synonym addr = nat
type_synonym mem = "addr \<rightharpoonup> byte"

abbreviation (input) NULL :: addr where
  "NULL \<equiv> 0"

named_theorems mem_simps \<open>what loads see after stores, and what stores do\<close>

definition load8 :: "mem \<Rightarrow> addr \<Rightarrow> byte option" where
  "load8 m p = m p"

definition store8 :: "mem \<Rightarrow> addr \<Rightarrow> byte \<Rightarrow> mem option" where
  "store8 m p b = (case m p of None \<Rightarrow> None | Some _ \<Rightarrow> Some (m(p \<mapsto> b)))"

text \<open>A 32-bit word is made of its four bytes, the lowest address first.\<close>

definition word32 :: "byte \<Rightarrow> byte \<Rightarrow> byte \<Rightarrow> byte \<Rightarrow> u32" where
  "word32 b0 b1 b2 b3 =
     ucast b0 OR push_bit 8 (ucast b1) OR push_bit 16 (ucast b2) OR push_bit 24 (ucast b3)"

definition byte_of :: "u32 \<Rightarrow> nat \<Rightarrow> byte" where
  "byte_of w i = ucast (drop_bit (8 * i) w)"

definition load32 :: "mem \<Rightarrow> addr \<Rightarrow> u32 option" where
  "load32 m p =
     do { b0 \<leftarrow> load8 m p; b1 \<leftarrow> load8 m (p + 1); b2 \<leftarrow> load8 m (p + 2); b3 \<leftarrow> load8 m (p + 3);
          Some (word32 b0 b1 b2 b3) }"

definition store32 :: "mem \<Rightarrow> addr \<Rightarrow> u32 \<Rightarrow> mem option" where
  "store32 m p w =
     do { m \<leftarrow> store8 m p (byte_of w 0); m \<leftarrow> store8 m (p + 1) (byte_of w 1);
          m \<leftarrow> store8 m (p + 2) (byte_of w 2); store8 m (p + 3) (byte_of w 3) }"

section \<open>Regions and strings\<close>

text \<open>\<open>bytes m p xs\<close>: the memory holds the bytes \<open>xs\<close> from address \<open>p\<close> on.\<close>

primrec bytes :: "mem \<Rightarrow> addr \<Rightarrow> byte list \<Rightarrow> bool" where
  "bytes m p [] = True"
| "bytes m p (x # xs) = (m p = Some x \<and> bytes m (p + 1) xs)"

text \<open>\<open>mapped m p n\<close>: the \<open>n\<close> addresses from \<open>p\<close> on exist.\<close>

primrec mapped :: "mem \<Rightarrow> addr \<Rightarrow> nat \<Rightarrow> bool" where
  "mapped m p 0 = True"
| "mapped m p (Suc n) = (m p \<noteq> None \<and> mapped m (p + 1) n)"

text \<open>\<open>cstr m p s\<close>: a NUL-terminated string with the characters \<open>s\<close> is stored at \<open>p\<close>.\<close>

definition cstr :: "mem \<Rightarrow> addr \<Rightarrow> byte list \<Rightarrow> bool" where
  "cstr m p s = (0 \<notin> set s \<and> bytes m p (s @ [0]))"

text \<open>The memory after the bytes \<open>xs\<close> were written at \<open>p\<close>.\<close>

definition wr :: "mem \<Rightarrow> addr \<Rightarrow> byte list \<Rightarrow> mem" where
  "wr m p xs = (\<lambda>a. if p \<le> a \<and> a < p + length xs then Some (xs ! (a - p)) else m a)"

text \<open>
  The runtime hands out memory in pages whose size is a multiple of four, so an aligned word
  exists as a whole or not at all.  This is what makes the word-at-a-time loops safe that read
  up to three bytes beyond the end of a string.
\<close>

definition paged :: "mem \<Rightarrow> bool" where
  "paged m = (\<forall>p. m p \<noteq> None \<longrightarrow> mapped m (p - p mod 4) 4)"

text \<open>Two regions that have no address in common.\<close>

definition disjoint_regions :: "addr \<Rightarrow> nat \<Rightarrow> addr \<Rightarrow> nat \<Rightarrow> bool" where
  "disjoint_regions p n q k = (p + n \<le> q \<or> q + k \<le> p)"

section \<open>Lemmas on lists\<close>

lemma takeWhile_neq_nth:
  "x \<in> set t \<Longrightarrow>
     length (takeWhile (\<lambda>b. b \<noteq> x) t) < length t \<and> t ! length (takeWhile (\<lambda>b. b \<noteq> x) t) = x"
  by (induction t) auto

lemma takeWhile_neq_split:
  "x \<in> set t \<Longrightarrow> \<exists>u. t = takeWhile (\<lambda>b. b \<noteq> x) t @ x # u"
  by (induction t) auto

section \<open>Lemmas on regions\<close>

lemma bytes_append [simp]: "bytes m p (xs @ ys) \<longleftrightarrow> bytes m p xs \<and> bytes m (p + length xs) ys"
  by (induction xs arbitrary: p) auto

lemma bytes_nth: "bytes m p xs \<longleftrightarrow> (\<forall>i < length xs. m (p + i) = Some (xs ! i))"
proof (induction xs arbitrary: p)
  case (Cons x xs)
  show ?case
    by (simp only: bytes.simps Cons.IH) (auto simp: nth_Cons' less_Suc_eq_0_disj)
qed simp

lemma bytesD: "bytes m p xs \<Longrightarrow> i < length xs \<Longrightarrow> m (p + i) = Some (xs ! i)"
  by (simp add: bytes_nth)

lemma bytesD': "bytes m p xs \<Longrightarrow> p \<le> a \<Longrightarrow> a < p + length xs \<Longrightarrow> m a = Some (xs ! (a - p))"
  using bytesD [of m p xs "a - p"] by simp

lemma bytes_unique: "bytes m p xs \<Longrightarrow> bytes m p ys \<Longrightarrow> length xs = length ys \<Longrightarrow> xs = ys"
  by (rule nth_equalityI) (auto simp: bytes_nth)

lemma bytes_take: "bytes m p xs \<Longrightarrow> bytes m p (take n xs)"
  by (simp add: bytes_nth)

lemma bytes_drop: "bytes m p xs \<Longrightarrow> n \<le> length xs \<Longrightarrow> bytes m (p + n) (drop n xs)"
  by (auto simp: bytes_nth add.assoc)

lemma mapped_nth: "mapped m p n \<longleftrightarrow> (\<forall>i < n. m (p + i) \<noteq> None)"
proof (induction n arbitrary: p)
  case (Suc n)
  show ?case
    by (simp only: mapped.simps Suc.IH) (auto simp: less_Suc_eq_0_disj)
qed simp

lemma mappedD: "mapped m p n \<Longrightarrow> p \<le> a \<Longrightarrow> a < p + n \<Longrightarrow> \<exists>b. m a = Some b"
  using mapped_nth [of m p n] by (metis le_add_diff_inverse nat_add_left_cancel_less not_None_eq)

lemma mapped_add: "mapped m p (n + k) \<longleftrightarrow> mapped m p n \<and> mapped m (p + n) k"
  by (induction n arbitrary: p) auto

lemma mapped_le: "mapped m p n \<Longrightarrow> k \<le> n \<Longrightarrow> mapped m p k"
  by (auto simp: mapped_nth)

lemma mapped_16:
  "mapped m p 16 \<Longrightarrow> mapped m p 4 \<and> mapped m (p + 4) 4 \<and> mapped m (p + 8) 4 \<and> mapped m (p + 12) 4"
  by (auto simp: mapped_nth add.assoc)

lemma bytes_mapped: "bytes m p xs \<Longrightarrow> mapped m p (length xs)"
  by (auto simp: bytes_nth mapped_nth)

lemma mapped_ex_bytes: "mapped m p n \<Longrightarrow> \<exists>xs. length xs = n \<and> bytes m p xs"
proof (induction n arbitrary: p)
  case (Suc n)
  then obtain b xs where "m p = Some b" "length xs = n" "bytes m (p + 1) xs"
    by (metis mapped.simps(2) option.exhaust)
  then show ?case by (intro exI [of _ "b # xs"]) simp
qed simp

lemma cstr_Nil: "cstr m p [] \<longleftrightarrow> m p = Some 0"
  by (simp add: cstr_def)

lemma cstr_Cons: "cstr m p (c # s) \<longleftrightarrow> c \<noteq> 0 \<and> m p = Some c \<and> cstr m (p + 1) s"
  by (auto simp: cstr_def)

lemma cstr_drop: "cstr m p s \<Longrightarrow> n \<le> length s \<Longrightarrow> cstr m (p + n) (drop n s)"
proof (induction n arbitrary: p s)
  case (Suc n)
  then obtain c t where s: "s = c # t" by (cases s) auto
  with Suc show ?case using Suc.IH [of "p + 1" t] by (simp add: cstr_Cons)
qed simp

lemma cstr_unique: "cstr m p s \<Longrightarrow> cstr m p t \<Longrightarrow> s = t"
proof (induction s arbitrary: p t)
  case Nil
  then show ?case by (cases t) (auto simp: cstr_Nil cstr_Cons)
next
  case (Cons c s)
  then show ?case by (cases t) (auto simp: cstr_Nil cstr_Cons)
qed

lemma cstr_mapped: "cstr m p s \<Longrightarrow> mapped m p (Suc (length s))"
  using bytes_mapped [of m p "s @ [0]"] by (simp add: cstr_def)

section \<open>Lemmas on writing\<close>

lemma load8_eq [mem_simps]: "load8 m p = m p"
  by (simp add: load8_def)

lemma wr_Nil [simp]: "wr m p [] = m"
  by (rule ext) (auto simp: wr_def)

lemma wr_apply_in: "p \<le> a \<Longrightarrow> a < p + length xs \<Longrightarrow> wr m p xs a = Some (xs ! (a - p))"
  by (simp add: wr_def)

lemma wr_apply_out [simp]: "a < p \<or> p + length xs \<le> a \<Longrightarrow> wr m p xs a = m a"
  by (auto simp: wr_def)

lemma wr_Cons: "wr m p (x # xs) = wr (m(p \<mapsto> x)) (p + 1) xs"
proof
  fix a
  show "wr m p (x # xs) a = wr (m(p \<mapsto> x)) (p + 1) xs a"
    by (cases "a = p") (auto simp: wr_def nth_Cons')
qed

lemma wr_append: "wr m p (xs @ ys) = wr (wr m p xs) (p + length xs) ys"
  by (induction xs arbitrary: m p) (auto simp: wr_Cons)

lemma wr_snoc: "wr m p (xs @ [y]) = (wr m p xs)(p + length xs \<mapsto> y)"
  by (simp add: wr_append wr_Cons)

lemma wr_single: "wr m p [x] = m(p \<mapsto> x)"
  by (simp add: wr_Cons)

lemma store8_wr [mem_simps]: "m p \<noteq> None \<Longrightarrow> store8 m p b = Some (wr m p [b])"
  by (auto simp: store8_def wr_single)

lemma wr_wr_step [mem_simps]: "wr (wr m p [x]) (p + 1) xs = wr m p (x # xs)"
  "wr (wr m p [x]) (Suc p) xs = wr m p (x # xs)"
  by (simp_all add: wr_Cons)

lemma wr_at: "wr m p [x] a = (if a = p then Some x else m a)"
  by (simp add: wr_single)

lemma wr_mapped: "mapped m p (length xs) \<Longrightarrow> wr m p xs a = None \<longleftrightarrow> m a = None"
  using mappedD [of m p "length xs" a] by (auto simp: wr_def)

lemma mapped_wr [simp]: "mapped m p (length xs) \<Longrightarrow> mapped (wr m p xs) q n \<longleftrightarrow> mapped m q n"
  by (simp add: mapped_nth wr_mapped)

lemma mapped_upd [simp]: "m p \<noteq> None \<Longrightarrow> mapped (m(p \<mapsto> b)) q n \<longleftrightarrow> mapped m q n"
  by (auto simp: mapped_nth)

lemma bytes_wr_same [simp]: "bytes (wr m p xs) p xs"
  by (simp add: bytes_nth wr_def)

lemma bytes_wr_disjoint:
  "disjoint_regions p (length xs) q (length ys) \<Longrightarrow> bytes (wr m p xs) q ys \<longleftrightarrow> bytes m q ys"
proof -
  assume "disjoint_regions p (length xs) q (length ys)"
  then have "wr m p xs (q + i) = m (q + i)" if "i < length ys" for i
    using that by (intro wr_apply_out) (auto simp: disjoint_regions_def)
  then show ?thesis by (simp add: bytes_nth)
qed

lemma bytes_upd_out: "p < q \<or> q + length ys \<le> p \<Longrightarrow> bytes (m(p \<mapsto> b)) q ys \<longleftrightarrow> bytes m q ys"
  using bytes_wr_disjoint [of p "[b]" q ys m] by (auto simp: wr_Cons disjoint_regions_def)

lemma cstr_wr_disjoint:
  "disjoint_regions p (length xs) q (Suc (length s)) \<Longrightarrow> cstr (wr m p xs) q s \<longleftrightarrow> cstr m q s"
  using bytes_wr_disjoint [of p xs q "s @ [0]" m] by (auto simp: cstr_def)

lemma wr_same [simp]: "bytes m p xs \<Longrightarrow> wr m p xs = m"
  by (rule ext) (simp add: wr_def bytesD')

lemma paged_wr: "mapped m p (length xs) \<Longrightarrow> paged m \<Longrightarrow> paged (wr m p xs)"
  by (simp add: paged_def wr_mapped)

lemma disjoint_regions_commute: "disjoint_regions p n q k = disjoint_regions q k p n"
  by (auto simp: disjoint_regions_def)

section \<open>Words\<close>

lemma unat_byte_lt: "unat (b :: byte) < 256"
  using unsigned_less [of b] by simp

lemma unat_ucast8 [simp]: "unat (ucast (b :: byte) :: u32) = unat b"
  proof -
  have "unat b < 4294967296" using unat_byte_lt [of b] by linarith
  then show ?thesis by (simp add: unsigned_ucast_eq take_bit_eq_mod)
qed

lemma byte_of_word32 [simp]:
  "byte_of (word32 b0 b1 b2 b3) 0 = b0" "byte_of (word32 b0 b1 b2 b3) (Suc 0) = b1"
  "byte_of (word32 b0 b1 b2 b3) 2 = b2" "byte_of (word32 b0 b1 b2 b3) 3 = b3"
  by (rule bit_word_eqI; simp add: byte_of_def word32_def bit_simps; fastforce simp: bit_simps dest: bit_imp_le_length)+

lemma word32_sum:
  "word32 b0 b1 b2 b3 = ucast b0 + 256 * ucast b1 + 65536 * ucast b2 + 16777216 * ucast b3"
proof -
  have "word32 b0 b1 b2 b3 =
     ucast b0 + (push_bit 8 (ucast b1) + (push_bit 16 (ucast b2) + push_bit 24 (ucast b3)))"
    unfolding word32_def
    by (subst disjunctive_add; (auto simp: bit_simps dest: bit_imp_le_length)?)+
  then show ?thesis by (simp add: push_bit_eq_mult mult.commute)
qed

lemma unat_word32:
  "unat (word32 b0 b1 b2 b3) = unat b0 + 256 * unat b1 + 65536 * unat b2 + 16777216 * unat b3"
proof -
  let ?n = "unat b0 + 256 * unat b1 + 65536 * unat b2 + 16777216 * unat b3"
  have "?n < 2 ^ LENGTH(32)"
    using unat_byte_lt [of b0] unat_byte_lt [of b1] unat_byte_lt [of b2] unat_byte_lt [of b3]
    by simp
  then have "unat (of_nat ?n :: u32) = ?n" by (simp only: unat_of_nat mod_less)
  moreover have "word32 b0 b1 b2 b3 = of_nat ?n"
    by (simp add: word32_sum)
  ultimately show ?thesis by simp
qed

lemma word32_byte_of: "word32 (byte_of w 0) (byte_of w 1) (byte_of w 2) (byte_of w 3) = w"
proof (rule bit_word_eqI)
  fix n :: nat
  assume "n < LENGTH(32)"
  then consider "n < 8" | "8 \<le> n" "n < 16" | "16 \<le> n" "n < 24" | "24 \<le> n" "n < 32" by force
  then show "bit (word32 (byte_of w 0) (byte_of w 1) (byte_of w 2) (byte_of w 3)) n = bit w n"
    by cases (auto simp: byte_of_def word32_def bit_simps dest: bit_imp_le_length)
qed

lemma bit_word32_iff:
  "bit (word32 b0 b1 b2 b3) n \<longleftrightarrow>
     (if n < 8 then bit b0 n else if n < 16 then bit b1 (n - 8)
      else if n < 24 then bit b2 (n - 16) else bit b3 (n - 24))"
  by (auto simp: word32_def bit_simps dest: bit_imp_le_length)

lemma word32_inject:
  "word32 a0 a1 a2 a3 = word32 b0 b1 b2 b3 \<longleftrightarrow> a0 = b0 \<and> a1 = b1 \<and> a2 = b2 \<and> a3 = b3"
  by (metis byte_of_word32)

lemma load32_bytes: "bytes m p [b0, b1, b2, b3] \<Longrightarrow> load32 m p = Some (word32 b0 b1 b2 b3)"
  by (simp add: load32_def load8_def numeral_eq_Suc)

lemma store32_word32:
  "mapped m p 4 \<Longrightarrow> store32 m p (word32 b0 b1 b2 b3) = Some (wr m p [b0, b1, b2, b3])"
proof -
  assume "mapped m p 4"
  then have "m p \<noteq> None" "m (p + 1) \<noteq> None" "m (p + 2) \<noteq> None" "m (p + 3) \<noteq> None"
    by (simp_all add: numeral_eq_Suc)
  moreover have "p + 3 = Suc (Suc (Suc p))" by simp
  note this [simp]
  ultimately show ?thesis by (simp add: store32_def store8_def wr_Cons split: option.split)
qed

section \<open>Concrete memories\<close>

text \<open>The memory that holds the bytes \<open>xs\<close> from \<open>p\<close> on and nothing else.\<close>

definition mem_image :: "addr \<Rightarrow> byte list \<Rightarrow> mem" where
  "mem_image p xs = wr (\<lambda>_. None) p xs"

lemma mem_image_apply [simp]:
  "mem_image p xs a = (if p \<le> a \<and> a < p + length xs then Some (xs ! (a - p)) else None)"
  by (simp add: mem_image_def wr_def)

lemma mapped_mem_image:
  "mapped (mem_image p xs) q n \<longleftrightarrow> n = 0 \<or> p \<le> q \<and> q + n \<le> p + length xs"
proof (cases "n = 0")
  case False
  have "(\<forall>i < n. p \<le> q + i \<and> q + i < p + length xs) \<longleftrightarrow> p \<le> q \<and> q + n \<le> p + length xs"
  proof
    assume h: "\<forall>i < n. p \<le> q + i \<and> q + i < p + length xs"
    show "p \<le> q \<and> q + n \<le> p + length xs" using h [rule_format, of 0] h [rule_format, of "n - 1"] False by auto
  qed auto
  moreover have "mapped (mem_image p xs) q n \<longleftrightarrow> (\<forall>i < n. p \<le> q + i \<and> q + i < p + length xs)"
    by (auto simp: mapped_nth split: if_splits)
  ultimately show ?thesis using False by simp
qed simp

lemma paged_mem_image:
  assumes "p mod 4 = 0" "length xs mod 4 = 0"
  shows "paged (mem_image p xs)"
proof -
  obtain k j where kj: "p = 4 * k" "length xs = 4 * j" using assms by (meson mod_0_imp_dvd dvdE)
  have "p \<le> a - a mod 4 \<and> a - a mod 4 + 4 \<le> p + length xs" if "p \<le> a" "a < p + length xs" for a
  proof -
    have "k \<le> a div 4" "a div 4 < k + j" using that kj by auto
    moreover have "a - a mod 4 = 4 * (a div 4)" by (metis minus_mod_eq_mult_div)
    ultimately show ?thesis using kj by simp
  qed
  then show ?thesis by (simp add: paged_def mapped_mem_image del: mapped.simps)
qed

end
