(* ===== verification/WordScan.thy ===== *)
theory WordScan
  imports CMem
begin

unbundle bit_operations_syntax

text \<open>
  The word-at-a-time technique of the string library: the \<^verbatim>\<open>DETECTNULL\<close> and \<^verbatim>\<open>DETECTCHAR\<close>
  macros of \<^verbatim>\<open>src/runtime/libc/string\<close>, the scanning loops built on them, and the contract
  (\<open>block_test\<close>) between a test of a whole word and the test of one byte it stands for.
\<close>

section \<open>The macros\<close>

definition detectnull :: "u32 \<Rightarrow> u32" where
  "detectnull X = (X - 0x01010101) AND NOT X AND 0x80808080"

definition detectchar :: "u32 \<Rightarrow> u32 \<Rightarrow> u32" where
  "detectchar X msk = detectnull (X XOR msk)"

text \<open>The word filled with one byte, as \<^verbatim>\<open>strchr\<close>, \<^verbatim>\<open>memchr\<close> and \<^verbatim>\<open>memset\<close> build it by doubling.\<close>

definition fill_mask :: "byte \<Rightarrow> u32" where
  "fill_mask c =
     (let msk = ucast c; msk = push_bit 8 msk OR msk in push_bit 16 msk OR msk)"

text \<open>Is the address (or one of two addresses) not on a word boundary?\<close>

definition unaligned :: "addr \<Rightarrow> bool" where
  "unaligned p = (p mod 4 \<noteq> 0)"

definition unaligned2 :: "addr \<Rightarrow> addr \<Rightarrow> bool" where
  "unaligned2 p q = (p mod 4 \<noteq> 0 \<or> q mod 4 \<noteq> 0)"

section \<open>The loops\<close>

text \<open>\<^verbatim>\<open>while (!hit (*p)) p++\<close> over bytes, and over words.\<close>

partial_function (option) byte_scan :: "(byte \<Rightarrow> bool) \<Rightarrow> mem \<Rightarrow> addr \<Rightarrow> addr option" where
  "byte_scan hit m p =
     do { b \<leftarrow> load8 m p; if hit b then Some p else byte_scan hit m (p + 1) }"

partial_function (option) word_scan :: "(u32 \<Rightarrow> bool) \<Rightarrow> mem \<Rightarrow> addr \<Rightarrow> addr option" where
  "word_scan hitw m p =
     do { w \<leftarrow> load32 m p; if hitw w then Some p else word_scan hitw m (p + 4) }"

text \<open>
  \<^verbatim>\<open>while (UNALIGNED (p)) { if (hit (*p)) return ...; p++; }\<close>: \<open>Inl q\<close> when the loop returns at
  \<open>q\<close>, \<open>Inr p\<close> when it ends with the aligned address \<open>p\<close>.
\<close>

partial_function (option) align_scan :: "(byte \<Rightarrow> bool) \<Rightarrow> mem \<Rightarrow> addr \<Rightarrow> (addr + addr) option" where
  "align_scan hit m p =
     (if unaligned p
      then do { b \<leftarrow> load8 m p; if hit b then Some (Inl p) else align_scan hit m (p + 1) }
      else Some (Inr p))"

section \<open>What the macros detect\<close>

lemma bit_low_byte:
  "n < 32 \<Longrightarrow> bit (ucast (b :: byte) + 256 * W :: u32) n = (if n < 8 then bit b n else bit W (n - 8))"
proof -
  assume n: "n < 32"
  have "ucast b OR push_bit 8 W = ucast b + push_bit 8 W"
    by (rule disjunctive_add [symmetric]) (auto simp: bit_simps dest: bit_imp_le_length)
  then have "ucast b + 256 * W = ucast b OR push_bit 8 W"
    by (simp add: push_bit_eq_mult mult.commute)
  with n show ?thesis by (auto simp: bit_simps dest: bit_imp_le_length)
qed

lemma low_byte_minus:
  "ucast (b :: byte) + 256 * W - (1 + 256 * V) =
   ucast (b - 1) + 256 * (W - V - (if b = 0 then 1 else 0) :: u32)"
proof (cases "b = 0")
  case False
  then have "unat (b - 1) = unat b - 1" by (simp add: unat_minus_one)
  have "(ucast (b - 1) :: u32) = of_nat (unat (b - 1))" by simp
  also have "\<dots> = of_nat (unat b - 1)" using \<open>unat (b - 1) = unat b - 1\<close> by simp
  also have "\<dots> = ucast b - 1" using False by (simp add: of_nat_diff unat_gt_0 Suc_le_eq)
  finally show ?thesis using False by (simp add: algebra_simps)
next
  case True
  have "(ucast (- 1 :: byte) :: u32) = 255" by code_simp
  with True show ?thesis by (simp add: algebra_simps)
qed

lemma bit7_iff: "bit x 7 \<longleftrightarrow> 128 \<le> unat (x :: byte)"
proof -
  have "bit x 7 \<longleftrightarrow> bit (unat x) 7" by (simp add: bit_unsigned_iff)
  also have "\<dots> \<longleftrightarrow> odd (unat x div 128)" by (simp add: bit_iff_odd)
  also have "unat x div 128 = (if 128 \<le> unat x then 1 else 0)"
    using unat_byte_lt [of x] by (auto intro: div_nat_eqI)
  then have "odd (unat x div 128) \<longleftrightarrow> 128 \<le> unat x" by simp
  finally show ?thesis .
qed

lemma bit7_minus_one: "bit (b - 1) 7 \<and> \<not> bit b 7 \<longleftrightarrow> b = (0 :: byte)"
proof (cases "b = 0")
  case True
  moreover have "unat (- 1 :: byte) = 255" by code_simp
  ultimately show ?thesis by (simp add: bit7_iff)
next
  case False
  then show ?thesis by (auto simp: bit7_iff unat_minus_one)
qed

lemma bit_80808080: "bit (0x80808080 :: u32) n \<longleftrightarrow> n \<in> {7, 15, 23, 31}"
proof -
  have "(0x80808080 :: u32) = push_bit 7 1 OR push_bit 15 1 OR push_bit 23 1 OR push_bit 31 1"
    by simp
  then have "bit (0x80808080 :: u32) n \<longleftrightarrow>
    bit (push_bit 7 1 OR push_bit 15 1 OR push_bit 23 1 OR push_bit 31 (1 :: u32)) n" by simp
  also have "\<dots> \<longleftrightarrow> n \<in> {7, 15, 23, 31}"
    unfolding bit_or_iff bit_push_bit_iff bit_1_iff by auto
  finally show ?thesis .
qed

lemma detectnull_bits:
  "detectnull X \<noteq> 0 \<longleftrightarrow> (\<exists>n \<in> {7, 15, 23, 31}. bit (X - 0x01010101) n \<and> \<not> bit X n)"
proof -
  have "bit (detectnull X) n \<longleftrightarrow> n \<in> {7, 15, 23, 31} \<and> bit (X - 0x01010101) n \<and> \<not> bit X n" for n
    unfolding detectnull_def bit_and_iff bit_80808080 by (auto simp: bit_not_iff)
  then show ?thesis by (metis bit_0_eq bit_eq_iff bot_apply bot_bool_def)
qed

lemma bit_word32:
  "bit (word32 b0 b1 b2 b3) 7 = bit b0 7"
  "bit (word32 b0 b1 b2 b3) 15 = bit b1 7"
  "bit (word32 b0 b1 b2 b3) 23 = bit b2 7"
  "bit (word32 b0 b1 b2 b3) 31 = bit b3 7"
  by (auto simp: word32_def bit_simps dest: bit_imp_le_length)

lemma detectnull_word32:
  "detectnull (word32 b0 b1 b2 b3) \<noteq> 0 \<longleftrightarrow> b0 = 0 \<or> b1 = 0 \<or> b2 = 0 \<or> b3 = 0"
proof -
  define W3 :: u32 where "W3 = ucast b3 + 256 * 0"
  define W2 where "W2 = ucast b2 + 256 * W3"
  define W1 where "W1 = ucast b1 + 256 * W2"
  define X where "X = word32 b0 b1 b2 b3"
  have X: "X = ucast b0 + 256 * W1"
    by (simp add: X_def word32_sum W1_def W2_def W3_def)
  define k0 k1 k2 :: u32 where "k0 = (if b0 = 0 then 1 else 0)" 
    and "k1 = (if b1 = 0 then 1 else 0)" and "k2 = (if b2 = 0 then 1 else 0)"
  have D0: "X - 0x01010101 = ucast (b0 - 1) + 256 * (W1 - 0x010101 - k0)"
    using low_byte_minus [of b0 W1 "0x010101"] by (simp add: X k0_def)
  have D1: "W1 - 0x010101 = ucast (b1 - 1) + 256 * (W2 - 0x0101 - k1)"
    using low_byte_minus [of b1 W2 "0x0101"] by (simp add: W1_def k1_def)
  have D2: "W2 - 0x0101 = ucast (b2 - 1) + 256 * (W3 - 1 - k2)"
    using low_byte_minus [of b2 W3 1] by (simp add: W2_def k2_def)
  have D3: "W3 - 1 = ucast (b3 - 1) + 256 * (if b3 = 0 then - 1 else 0)"
    using low_byte_minus [of b3 0 0] by (simp add: W3_def)
  have n0: "bit (X - 0x01010101) 7 = bit (b0 - 1) 7"
    unfolding D0 by (subst bit_low_byte) simp_all
  have s1: "bit (X - 0x01010101) (n + 8) = bit (W1 - 0x010101 - k0) n" if "n < 24" for n
    unfolding D0 using that by (subst bit_low_byte) simp_all
  have s2: "bit (W1 - 0x010101) (n + 8) = bit (W2 - 0x0101 - k1) n" if "n < 24" for n
    unfolding D1 using that by (subst bit_low_byte) simp_all
  have s3: "bit (W2 - 0x0101) (n + 8) = bit (W3 - 1 - k2) n" if "n < 24" for n
    unfolding D2 using that by (subst bit_low_byte) simp_all
  have t1: "bit (W1 - 0x010101) 7 = bit (b1 - 1) 7"
    unfolding D1 by (subst bit_low_byte) simp_all
  have t2: "bit (W2 - 0x0101) 7 = bit (b2 - 1) 7"
    unfolding D2 by (subst bit_low_byte) simp_all
  have t3: "bit (W3 - 1) 7 = bit (b3 - 1) 7"
    unfolding D3 by (subst bit_low_byte) simp_all
  have n1: "bit (X - 0x01010101) 15 = bit (b1 - 1) 7" if "b0 \<noteq> 0"
    using that s1 [of 7] t1 by (simp add: k0_def)
  have n2: "bit (X - 0x01010101) 23 = bit (b2 - 1) 7" if "b0 \<noteq> 0" "b1 \<noteq> 0"
    using that s1 [of 15] s2 [of 7] t2 by (simp add: k0_def k1_def)
  have n3: "bit (X - 0x01010101) 31 = bit (b3 - 1) 7" if "b0 \<noteq> 0" "b1 \<noteq> 0" "b2 \<noteq> 0"
    using that s1 [of 23] s2 [of 15] s3 [of 7] t3 by (simp add: k0_def k1_def k2_def)
  show ?thesis
    unfolding detectnull_bits X_def [symmetric]
    using n0 n1 n2 n3 bit7_minus_one [of b0] bit7_minus_one [of b1] bit7_minus_one [of b2]
      bit7_minus_one [of b3] bit_word32 [of b0 b1 b2 b3, folded X_def]
    by (cases "b0 = 0"; cases "b1 = 0"; cases "b2 = 0"; simp; blast)
qed
lemma word32_xor:
  "word32 a0 a1 a2 a3 XOR word32 b0 b1 b2 b3 =
   word32 (a0 XOR b0) (a1 XOR b1) (a2 XOR b2) (a3 XOR b3)"
  by (rule bit_word_eqI) (auto simp: bit_word32_iff bit_xor_iff)

lemma fill_mask_eq: "fill_mask c = word32 c c c c"
  by (simp add: fill_mask_def Let_def word32_def push_bit_or push_bit_push_bit ac_simps)

lemma word_xor_eq_0: "a XOR b = 0 \<longleftrightarrow> a = (b :: 'a :: len word)"
  by (metis xor.assoc xor.right_neutral xor_self_eq)

lemma detectchar_word32:
  "detectchar (word32 b0 b1 b2 b3) (fill_mask c) \<noteq> 0 \<longleftrightarrow> b0 = c \<or> b1 = c \<or> b2 = c \<or> b3 = c"
  by (simp add: detectchar_def fill_mask_eq word32_xor detectnull_word32 word_xor_eq_0)

section \<open>What the loops find\<close>

text \<open>\<open>q\<close> is the first address from \<open>p\<close> on whose byte passes the test, and all before it exist.\<close>

definition first_hit :: "(byte \<Rightarrow> bool) \<Rightarrow> mem \<Rightarrow> addr \<Rightarrow> addr \<Rightarrow> bool" where
  "first_hit hit m p q \<longleftrightarrow>
     p \<le> q \<and> (\<forall>a. p \<le> a \<and> a < q \<longrightarrow> (\<exists>b. m a = Some b \<and> \<not> hit b)) \<and> (\<exists>b. m q = Some b \<and> hit b)"

lemma first_hit_here: "m p = Some b \<Longrightarrow> hit b \<Longrightarrow> first_hit hit m p q \<longleftrightarrow> q = p"
  unfolding first_hit_def by (metis le_antisym linorder_not_le option.inject order_refl)

lemma first_hit_shift: "first_hit hit m p q \<Longrightarrow> p \<le> p' \<Longrightarrow> p' \<le> q \<Longrightarrow> first_hit hit m p' q"
  by (auto simp: first_hit_def)

lemma first_hit_next:
  assumes "m p = Some b" "\<not> hit b"
  shows "first_hit hit m p q \<longleftrightarrow> first_hit hit m (p + 1) q"
proof
  assume h: "first_hit hit m p q"
  then have "p \<noteq> q" using assms by (auto simp: first_hit_def)
  with h show "first_hit hit m (p + 1) q" by (auto intro: first_hit_shift simp: first_hit_def)
next
  assume h: "first_hit hit m (p + 1) q"
  have "\<exists>b. m a = Some b \<and> \<not> hit b" if "p \<le> a" "a < q" for a
    using that assms h by (cases "a = p") (auto simp: first_hit_def)
  with h show "first_hit hit m p q" by (simp add: first_hit_def)
qed

lemma first_hit_le: "first_hit hit m p q \<Longrightarrow> p \<le> q"
  by (simp add: first_hit_def)

lemma first_hit_load: "first_hit hit m p q \<Longrightarrow> \<exists>b. m p = Some b \<and> (hit b \<longleftrightarrow> p = q)"
  by (cases "p = q") (auto simp: first_hit_def)

lemma byte_scan_first_hit:
  assumes "first_hit hit m p q" shows "byte_scan hit m p = Some q"
  using assms
proof (induction "q - p" arbitrary: p)
  case 0
  then show ?case
    using first_hit_load [OF 0(2)] first_hit_le [OF 0(2)]
    by (subst byte_scan.simps) (auto simp: load8_def)
next
  case (Suc d)
  then obtain b where b: "m p = Some b" "\<not> hit b" using first_hit_load [OF Suc.prems] by auto
  then have "byte_scan hit m (p + 1) = Some q"
    using Suc by (intro Suc.hyps(1)) (auto simp: first_hit_next [of m p b hit] b)
  with b show ?case by (subst byte_scan.simps) (simp add: load8_def)
qed

lemma align_scan_first_hit:
  assumes "first_hit hit m p q"
  shows "align_scan hit m p = Some (Inl q) \<or>
    (\<exists>p'. align_scan hit m p = Some (Inr p') \<and> \<not> unaligned p' \<and> p \<le> p' \<and> first_hit hit m p' q)"
  using assms
proof (induction "q - p" arbitrary: p)
  case 0
  then show ?case
    using first_hit_load [OF 0(2)] first_hit_le [OF 0(2)]
    by (subst (1 2) align_scan.simps) (auto simp: load8_def)
next
  case (Suc d)
  then obtain b where b: "m p = Some b" "\<not> hit b" using first_hit_load [OF Suc.prems] by auto
  show ?case
  proof (cases "unaligned p")
    case True
    have "first_hit hit m (p + 1) q" using Suc.prems by (simp add: first_hit_next [of m p b hit] b)
    moreover have "d = q - (p + 1)" using Suc.hyps(2) by simp
    moreover have "align_scan hit m p = align_scan hit m (p + 1)"
      using True b by (subst align_scan.simps) (simp add: load8_def)
    ultimately show ?thesis using Suc.hyps(1) [of "p + 1"] by (metis add_leD1)
  next
    case False
    with Suc.prems show ?thesis by (subst (2) align_scan.simps) simp
  qed
qed

text \<open>
  The contract between the test of a word and the test of a byte: the word passes when one of
  its four bytes does.
\<close>

locale block_test =
  fixes hitw :: "u32 \<Rightarrow> bool"
    and hit :: "byte \<Rightarrow> bool"
  assumes hitw_word32: "hitw (word32 b0 b1 b2 b3) \<longleftrightarrow> hit b0 \<or> hit b1 \<or> hit b2 \<or> hit b3"
begin

lemma four_nth:
  "[b0, b1, b2, b3] ! 0 = b0 \<and> (0 :: nat) < 4" "[b0, b1, b2, b3] ! 1 = b1 \<and> (1 :: nat) < 4"
  "[b0, b1, b2, b3] ! 2 = b2 \<and> (2 :: nat) < 4" "[b0, b1, b2, b3] ! 3 = b3 \<and> (3 :: nat) < 4"
  by simp_all

lemma hitw_block:
  assumes "bytes m p [b0, b1, b2, b3]" "first_hit hit m p q"
  shows "hitw (word32 b0 b1 b2 b3) \<longleftrightarrow> q < p + 4"
proof
  assume "hitw (word32 b0 b1 b2 b3)"
  then obtain i where i: "i < 4" "hit ([b0, b1, b2, b3] ! i)"
    unfolding hitw_word32 by (metis (no_types) four_nth)
  have "m (p + i) = Some ([b0, b1, b2, b3] ! i)" using bytesD [OF assms(1)] i by simp
  with i assms(2) have "\<not> p + i < q" unfolding first_hit_def by (metis le_add1 option.inject)
  with i show "q < p + 4" by simp
next
  assume "q < p + 4"
  then have "q - p < 4" "p + (q - p) = q" using first_hit_le [OF assms(2)] by simp_all
  then have "m q = Some ([b0, b1, b2, b3] ! (q - p))" using bytesD [OF assms(1), of "q - p"] by simp
  then have "hit ([b0, b1, b2, b3] ! (q - p))" using assms(2) by (auto simp: first_hit_def)
  with \<open>q - p < 4\<close> show "hitw (word32 b0 b1 b2 b3)"
    unfolding hitw_word32 by (auto simp: numeral_eq_Suc less_Suc_eq)
qed

lemma word_scan_first_hit:
  assumes "paged m" "\<not> unaligned p" "first_hit hit m p q"
  shows "word_scan hitw m p = Some (q - q mod 4) \<and> p \<le> q - q mod 4"
  using assms(2,3)
proof (induction "q - p" arbitrary: p rule: less_induct)
  case less
  have al: "p mod 4 = 0" using less.prems by (simp add: unaligned_def)
  have "m p \<noteq> None" using first_hit_load [OF less.prems(2)] by auto
  then have "mapped m p 4" using \<open>paged m\<close> al by (metis minus_nat.diff_0 paged_def)
  then obtain xs where "length xs = 4" "bytes m p xs" using mapped_ex_bytes by blast
  then obtain b0 b1 b2 b3 where bs: "bytes m p [b0, b1, b2, b3]"
    by (auto simp: numeral_eq_Suc length_Suc_conv)
  note ld = load32_bytes [OF bs] and hw = hitw_block [OF bs less.prems(2)]
  have pq: "p \<le> q" using first_hit_le [OF less.prems(2)] .
  show ?case
  proof (cases "q < p + 4")
    case True
    have "q - q mod 4 = p"
      using True pq al by presburger
    with True ld hw show ?thesis by (subst word_scan.simps) simp
  next
    case False
    have "first_hit hit m (p + 4) q" using first_hit_shift [OF less.prems(2), of "p + 4"] False by simp
    moreover have "\<not> unaligned (p + 4)" using al by (simp add: unaligned_def)
    ultimately have "word_scan hitw m (p + 4) = Some (q - q mod 4) \<and> p + 4 \<le> q - q mod 4"
      using False by (intro less.hyps) auto
    with False ld hw show ?thesis by (subst word_scan.simps) simp
  qed
qed

text \<open>Scanning words up to the block of the first hit, then bytes, finds the first hit.\<close>

lemma word_then_byte_scan:
  assumes "paged m" "\<not> unaligned p" "first_hit hit m p q"
  shows "do { s \<leftarrow> word_scan hitw m p; byte_scan hit m s } = Some q"
proof -
  have w: "word_scan hitw m p = Some (q - q mod 4)" "p \<le> q - q mod 4"
    using word_scan_first_hit [OF assms] by auto
  have "byte_scan hit m (q - q mod 4) = Some q"
    by (intro byte_scan_first_hit first_hit_shift [OF assms(3)]) (use w in auto)
  with w show ?thesis by simp
qed

end

interpretation null_test: block_test "\<lambda>w. detectnull w \<noteq> 0" "\<lambda>b. b = 0"
  by unfold_locales (rule detectnull_word32)

interpretation null_or_char_test:
  block_test "\<lambda>w. detectnull w \<noteq> 0 \<or> detectchar w (fill_mask c) \<noteq> 0" "\<lambda>b. b = 0 \<or> b = c" for c
  by unfold_locales (auto simp: detectnull_word32 detectchar_word32)

interpretation char_test: block_test "\<lambda>w. detectchar w (fill_mask c) \<noteq> 0" "\<lambda>b. b = c" for c
  by unfold_locales (rule detectchar_word32)

text \<open>The string whose NUL the loops look for.\<close>

lemma cstr_first_hit: "cstr m p s \<Longrightarrow> first_hit (\<lambda>b. b = 0) m p (p + length s)"
proof -
  assume "cstr m p s"
  then have nz: "0 \<notin> set s" and bs: "bytes m p (s @ [0])" by (simp_all add: cstr_def)
  have "\<exists>b. m a = Some b \<and> b \<noteq> 0" if "p \<le> a" "a < p + length s" for a
  proof -
    have "m a = Some (s ! (a - p))" "a - p < length s" using bytesD' [of m p s a] bs that by auto
    with nz show ?thesis by (metis nth_mem)
  qed
  with bs show ?thesis by (simp add: first_hit_def)
qed

end
