(* ===== verification/StrScan.thy ===== *)
theory StrScan
  imports WordScan
begin

unbundle bit_operations_syntax

text \<open>
  The searching routines of \<^verbatim>\<open>src/runtime/libc/string\<close>: \<^verbatim>\<open>strlen\<close>, \<^verbatim>\<open>strnlen\<close>, \<^verbatim>\<open>strchr\<close>,
  \<^verbatim>\<open>index\<close>, \<^verbatim>\<open>strrchr\<close>, \<^verbatim>\<open>rindex\<close>, \<^verbatim>\<open>memchr\<close>, \<^verbatim>\<open>strcspn\<close>, \<^verbatim>\<open>strspn\<close> and \<^verbatim>\<open>strpbrk\<close>.  Each is
  proved to compute, on the bytes stored in memory, a list function that says what it is for.
  A size is a natural number; an \<^verbatim>\<open>int\<close> character argument is a 32-bit word that the code
  converts to \<^verbatim>\<open>unsigned char\<close>.
\<close>

section \<open>The routines\<close>

definition strlen :: "mem \<Rightarrow> addr \<Rightarrow> nat option" where
  "strlen m str =
     (let start = str in
      do { r \<leftarrow> align_scan (\<lambda>b. b = 0) m str;
           case r of
             Inl str \<Rightarrow> Some (str - start)
           | Inr str \<Rightarrow>
               do { str \<leftarrow> word_scan (\<lambda>w. detectnull w \<noteq> 0) m str;
                    str \<leftarrow> byte_scan (\<lambda>b. b = 0) m str;
                    Some (str - start) } })"

primrec strnlen_loop :: "nat \<Rightarrow> mem \<Rightarrow> addr \<Rightarrow> addr option" where
  "strnlen_loop 0 m str = Some str"
| "strnlen_loop (Suc n) m str =
     do { b \<leftarrow> load8 m str; if b \<noteq> 0 then strnlen_loop n m (str + 1) else Some str }"

definition strnlen :: "mem \<Rightarrow> addr \<Rightarrow> nat \<Rightarrow> nat option" where
  "strnlen m str n = (let start = str in do { str \<leftarrow> strnlen_loop n m str; Some (str - start) })"

partial_function (option) strchr_align :: "byte \<Rightarrow> mem \<Rightarrow> addr \<Rightarrow> (addr + addr) option" where
  "strchr_align c m s =
     (if unaligned s
      then do { b \<leftarrow> load8 m s;
                if b = 0 then Some (Inl NULL)
                else if b = c then Some (Inl s)
                else strchr_align c m (s + 1) }
      else Some (Inr s))"

definition strchr :: "mem \<Rightarrow> addr \<Rightarrow> u32 \<Rightarrow> addr option" where
  "strchr m s1 i =
     (let s = s1; c = ucast i :: byte in
      if c = 0
      then do { r \<leftarrow> align_scan (\<lambda>b. b = 0) m s;
                case r of
                  Inl s \<Rightarrow> Some s
                | Inr s \<Rightarrow> do { s \<leftarrow> word_scan (\<lambda>w. detectnull w \<noteq> 0) m s;
                               byte_scan (\<lambda>b. b = 0) m s } }
      else do { r \<leftarrow> strchr_align c m s;
                case r of
                  Inl s \<Rightarrow> Some s
                | Inr s \<Rightarrow>
                    do { s \<leftarrow> word_scan
                           (\<lambda>w. detectnull w \<noteq> 0 \<or> detectchar w (fill_mask c) \<noteq> 0) m s;
                         s \<leftarrow> byte_scan (\<lambda>b. b = 0 \<or> b = c) m s;
                         b \<leftarrow> load8 m s;
                         Some (if b = c then s else NULL) } })"

definition index :: "mem \<Rightarrow> addr \<Rightarrow> u32 \<Rightarrow> addr option" where
  "index m s c = strchr m s c"

partial_function (option) strrchr_loop :: "mem \<Rightarrow> addr \<Rightarrow> u32 \<Rightarrow> addr \<Rightarrow> addr option" where
  "strrchr_loop m s i lst =
     do { s \<leftarrow> strchr m s i;
          if s \<noteq> NULL then strrchr_loop m (s + 1) i s else Some lst }"

definition strrchr :: "mem \<Rightarrow> addr \<Rightarrow> u32 \<Rightarrow> addr option" where
  "strrchr m s i = (if i \<noteq> 0 then strrchr_loop m s i NULL else strchr m s i)"

definition rindex :: "mem \<Rightarrow> addr \<Rightarrow> u32 \<Rightarrow> addr option" where
  "rindex m s c = strrchr m s c"

fun memchr_align :: "byte \<Rightarrow> mem \<Rightarrow> addr \<Rightarrow> nat \<Rightarrow> (addr + addr \<times> nat) option" where
  "memchr_align d m src len =
     (if unaligned src
      then if len = 0 then Some (Inl NULL)
           else do { b \<leftarrow> load8 m src;
                     if b = d then Some (Inl src) else memchr_align d m (src + 1) (len - 1) }
      else Some (Inr (src, len)))"

fun memchr_words :: "u32 \<Rightarrow> mem \<Rightarrow> addr \<Rightarrow> nat \<Rightarrow> (addr \<times> nat) option" where
  "memchr_words msk m asrc len =
     (if len \<ge> 4
      then do { w \<leftarrow> load32 m asrc;
                if detectchar w msk \<noteq> 0 then Some (asrc, len)
                else memchr_words msk m (asrc + 4) (len - 4) }
      else Some (asrc, len))"

primrec memchr_bytes :: "byte \<Rightarrow> mem \<Rightarrow> nat \<Rightarrow> addr \<Rightarrow> addr option" where
  "memchr_bytes d m 0 src = Some NULL"
| "memchr_bytes d m (Suc len) src =
     do { b \<leftarrow> load8 m src; if b = d then Some src else memchr_bytes d m len (src + 1) }"

definition memchr :: "mem \<Rightarrow> addr \<Rightarrow> u32 \<Rightarrow> nat \<Rightarrow> addr option" where
  "memchr m src_void c len =
     (let src = src_void; d = ucast c :: byte in
      do { r \<leftarrow> memchr_align d m src len;
           case r of
             Inl q \<Rightarrow> Some q
           | Inr (src, len) \<Rightarrow>
               do { (src, len) \<leftarrow>
                      (if \<not> len < 4 then memchr_words (fill_mask d) m src len else Some (src, len));
                    memchr_bytes d m len src } })"

text \<open>
  The inner loop of the three span routines, \<^verbatim>\<open>for (c = s2; *c; c++) if (*s1 == *c) break;\<close>,
  leaves \<^verbatim>\<open>c\<close> at the first byte of \<^verbatim>\<open>s2\<close> that is NUL or \<^verbatim>\<open>*s1\<close>.
\<close>

definition span_find :: "mem \<Rightarrow> byte \<Rightarrow> addr \<Rightarrow> addr option" where
  "span_find m x s2 = byte_scan (\<lambda>b. b = 0 \<or> x = b) m s2"

partial_function (option) strcspn_loop :: "mem \<Rightarrow> addr \<Rightarrow> addr \<Rightarrow> addr option" where
  "strcspn_loop m s1 s2 =
     do { x \<leftarrow> load8 m s1;
          if x = 0 then Some s1
          else do { c \<leftarrow> span_find m x s2; cb \<leftarrow> load8 m c;
                    if cb \<noteq> 0 then Some s1 else strcspn_loop m (s1 + 1) s2 } }"

definition strcspn :: "mem \<Rightarrow> addr \<Rightarrow> addr \<Rightarrow> nat option" where
  "strcspn m s1 s2 = (let s = s1 in do { s1 \<leftarrow> strcspn_loop m s1 s2; Some (s1 - s) })"

partial_function (option) strspn_loop :: "mem \<Rightarrow> addr \<Rightarrow> addr \<Rightarrow> addr option" where
  "strspn_loop m s1 s2 =
     do { x \<leftarrow> load8 m s1;
          if x = 0 then Some s1
          else do { c \<leftarrow> span_find m x s2; cb \<leftarrow> load8 m c;
                    if cb = 0 then Some s1 else strspn_loop m (s1 + 1) s2 } }"

definition strspn :: "mem \<Rightarrow> addr \<Rightarrow> addr \<Rightarrow> nat option" where
  "strspn m s1 s2 = (let s = s1 in do { s1 \<leftarrow> strspn_loop m s1 s2; Some (s1 - s) })"

partial_function (option) strpbrk_loop ::
    "mem \<Rightarrow> addr \<Rightarrow> addr \<Rightarrow> addr \<Rightarrow> (addr \<times> addr) option" where
  "strpbrk_loop m s1 s2 c =
     do { x \<leftarrow> load8 m s1;
          if x = 0 then Some (s1, c)
          else do { c \<leftarrow> span_find m x s2; cb \<leftarrow> load8 m c;
                    if cb \<noteq> 0 then Some (s1, c) else strpbrk_loop m (s1 + 1) s2 c } }"

definition strpbrk :: "mem \<Rightarrow> addr \<Rightarrow> addr \<Rightarrow> addr option" where
  "strpbrk m s1 s2 =
     (let c = s2 in
      do { x \<leftarrow> load8 m s1;
           if x = 0 then Some NULL
           else do { (s1, c) \<leftarrow> strpbrk_loop m s1 s2 c; cb \<leftarrow> load8 m c;
                     Some (if cb = 0 then NULL else s1) } })"

section \<open>What they compute\<close>

text \<open>The address of the first, and of the last, \<open>c\<close> among the bytes \<open>xs\<close> stored at \<open>p\<close>.\<close>

definition find_byte :: "addr \<Rightarrow> byte \<Rightarrow> byte list \<Rightarrow> addr" where
  "find_byte p c xs = (if c \<in> set xs then p + length (takeWhile (\<lambda>b. b \<noteq> c) xs) else NULL)"

definition rfind_byte :: "addr \<Rightarrow> byte \<Rightarrow> byte list \<Rightarrow> addr" where
  "rfind_byte p c xs =
     (if c \<in> set xs then p + (length xs - 1 - length (takeWhile (\<lambda>b. b \<noteq> c) (rev xs))) else NULL)"

lemma find_byte_Nil [simp]: "find_byte p c [] = NULL"
  by (simp add: find_byte_def)

lemma find_byte_Cons: "find_byte p c (x # xs) = (if x = c then p else find_byte (p + 1) c xs)"
  by (auto simp: find_byte_def)

lemma find_byte_append:
  "c \<notin> set xs \<Longrightarrow> find_byte p c (xs @ ys) = find_byte (p + length xs) c ys"
  by (induction xs arbitrary: p) (auto simp: find_byte_Cons)

lemma rfind_byte_split: "c \<notin> set ys \<Longrightarrow> rfind_byte p c (xs @ c # ys) = p + length xs"
  by (simp add: rfind_byte_def takeWhile_append)

text \<open>The three-phase scan that \<^verbatim>\<open>strlen\<close> and \<^verbatim>\<open>strchr\<close> share finds the NUL of a string.\<close>

lemma null_scan:
  assumes "paged m" "cstr m p s"
  shows "do { r \<leftarrow> align_scan (\<lambda>b. b = 0) m p;
              case r of Inl q \<Rightarrow> Some q
              | Inr q \<Rightarrow> do { q \<leftarrow> word_scan (\<lambda>w. detectnull w \<noteq> 0) m q; byte_scan (\<lambda>b. b = 0) m q } }
         = Some (p + length s)"
  using align_scan_first_hit [OF cstr_first_hit [OF assms(2)]]
    null_test.word_then_byte_scan [OF assms(1)]
  by auto

lemma strlen_scan:
  "strlen m p =
     do { q \<leftarrow> do { r \<leftarrow> align_scan (\<lambda>b. b = 0) m p;
                   case r of Inl q \<Rightarrow> Some q
                   | Inr q \<Rightarrow> do { q \<leftarrow> word_scan (\<lambda>w. detectnull w \<noteq> 0) m q;
                                  byte_scan (\<lambda>b. b = 0) m q } };
          Some (q - p) }"
  by (cases "align_scan (\<lambda>b. b = 0) m p") (auto simp: strlen_def split: sum.split)

lemma strlen_cstr: "paged m \<Longrightarrow> cstr m p s \<Longrightarrow> strlen m p = Some (length s)"
  by (simp add: strlen_scan null_scan)

lemma strnlen_loop_cstr: "cstr m p s \<Longrightarrow> strnlen_loop n m p = Some (p + min n (length s))"
proof (induction n arbitrary: p s)
  case (Suc n)
  then show ?case by (cases s) (auto simp: cstr_Nil cstr_Cons load8_def)
qed simp

lemma strnlen_loop_bytes:
  "bytes m p xs \<Longrightarrow> 0 \<notin> set xs \<Longrightarrow> strnlen_loop (length xs) m p = Some (p + length xs)"
  by (induction xs arbitrary: p) (auto simp: load8_def)

lemma strnlen_cstr: "cstr m p s \<Longrightarrow> strnlen m p n = Some (min n (length s))"
  by (simp add: strnlen_def strnlen_loop_cstr)

lemma strnlen_bytes: "bytes m p xs \<Longrightarrow> 0 \<notin> set xs \<Longrightarrow> strnlen m p (length xs) = Some (length xs)"
  by (simp add: strnlen_def strnlen_loop_bytes)

lemma first_hit_find_byte:
  assumes "cstr m p s"
  shows "first_hit (\<lambda>b. b = 0 \<or> b = c) m p (p + length (takeWhile (\<lambda>b. b \<noteq> c) s))"
  using assms
proof (induction s arbitrary: p)
  case Nil
  then show ?case by (simp add: cstr_Nil first_hit_here)
next
  case (Cons x s)
  then have x: "x \<noteq> 0" "m p = Some x" "cstr m (p + 1) s" by (simp_all add: cstr_Cons)
  show ?case
  proof (cases "x = c")
    case True
    then show ?thesis using first_hit_here [of m p x "\<lambda>b. b = 0 \<or> b = c"] x by simp
  next
    case False
    then show ?thesis
      using first_hit_next [of m p x "\<lambda>b. b = 0 \<or> b = c"] x Cons.IH [of "p + 1"] by simp
  qed
qed

lemma strchr_align_first_hit:
  assumes "c \<noteq> 0" "first_hit (\<lambda>b. b = 0 \<or> b = c) m p q"
  shows "strchr_align c m p = Some (Inl (if m q = Some c then q else NULL)) \<or>
    (\<exists>p'. strchr_align c m p = Some (Inr p') \<and> \<not> unaligned p' \<and>
       first_hit (\<lambda>b. b = 0 \<or> b = c) m p' q)"
  using assms(2)
proof (induction "q - p" arbitrary: p)
  case 0
  then have "p = q" using first_hit_le [OF 0(2)] by simp
  with 0 \<open>c \<noteq> 0\<close> show ?case
    using first_hit_load [OF 0(2)] by (subst (1 2) strchr_align.simps) (auto simp: load8_def)
next
  case (Suc d)
  then obtain b where b: "m p = Some b" "\<not> (b = 0 \<or> b = c)"
    using first_hit_load [OF Suc.prems] by auto
  show ?case
  proof (cases "unaligned p")
    case True
    have "first_hit (\<lambda>b. b = 0 \<or> b = c) m (p + 1) q"
      using Suc.prems first_hit_next [of m p b "\<lambda>b. b = 0 \<or> b = c"] b by simp
    moreover have "d = q - (p + 1)" using Suc.hyps(2) by simp
    moreover have "strchr_align c m p = strchr_align c m (p + 1)"
      using True b by (subst strchr_align.simps) (simp add: load8_def)
    ultimately show ?thesis using Suc.hyps(1) [of "p + 1"] by metis
  next
    case False
    with Suc.prems show ?thesis by (subst (2) strchr_align.simps) simp
  qed
qed

lemma find_byte_cstr:
  assumes "cstr m p s" "c \<noteq> 0" "q = p + length (takeWhile (\<lambda>b. b \<noteq> c) s)"
  shows "find_byte p c (s @ [0]) = (if m q = Some c then q else NULL)"
  using assms(1,3)
proof (induction s arbitrary: p)
  case Nil
  then show ?case using \<open>c \<noteq> 0\<close> by (auto simp: cstr_Nil find_byte_def)
next
  case (Cons x s)
  then show ?case by (auto simp: cstr_Cons find_byte_Cons)
qed

lemma strchr_cstr:
  assumes "paged m" "cstr m p s"
  shows "strchr m p i = Some (find_byte p (ucast i) (s @ [0]))"
proof (cases "ucast i = (0 :: byte)")
  case True
  moreover have "0 \<notin> set s" using assms(2) by (simp add: cstr_def)
  ultimately show ?thesis
    using null_scan [OF assms]
    by (simp add: strchr_def find_byte_append find_byte_Cons)
next
  case False
  let ?c = "ucast i :: byte"
  let ?q = "p + length (takeWhile (\<lambda>b. b \<noteq> ?c) s)"
  have h: "first_hit (\<lambda>b. b = 0 \<or> b = ?c) m p ?q" by (rule first_hit_find_byte [OF assms(2)])
  then obtain b where "m ?q = Some b" by (auto simp: first_hit_def)
  with strchr_align_first_hit [OF False h] null_or_char_test.word_then_byte_scan [OF assms(1)] False
  show ?thesis
    by (auto simp: strchr_def find_byte_cstr [OF assms(2) False refl] load8_def
          simp flip: Option.bind_assoc)
qed

declare memchr_align.simps [simp del] memchr_words.simps [simp del]

lemma memchr_bytes_eq: "bytes m p xs \<Longrightarrow> memchr_bytes d m (length xs) p = Some (find_byte p d xs)"
  by (induction xs arbitrary: p) (auto simp: load8_def find_byte_Cons)

lemma memchr_align_eq:
  assumes "bytes m p xs"
  shows "memchr_align d m p (length xs) = Some (Inl (find_byte p d xs)) \<or>
    (\<exists>n \<le> length xs. d \<notin> set (take n xs) \<and>
       memchr_align d m p (length xs) = Some (Inr (p + n, length xs - n)))"
  using assms
proof (induction xs arbitrary: p)
  case (Cons x xs)
  then have x: "m p = Some x" "bytes m (p + 1) xs" by simp_all
  show ?case
  proof (cases "unaligned p \<and> x \<noteq> d")
    case True
    then have "memchr_align d m p (length (x # xs)) = memchr_align d m (p + 1) (length xs)"
      using x by (subst memchr_align.simps) (simp add: load8_def)
    with Cons.IH [OF x(2)] True show ?thesis
      by (auto simp: find_byte_Cons)
  next
    case False
    with x show ?thesis
      by (subst (1 2) memchr_align.simps) (auto simp: load8_def find_byte_Cons intro!: exI [of _ 0])
  qed
qed (auto simp: memchr_align.simps)

lemma memchr_words_eq:
  assumes "bytes m p xs"
  shows "\<exists>n \<le> length xs. d \<notin> set (take n xs) \<and>
       memchr_words (fill_mask d) m p (length xs) = Some (p + n, length xs - n)"
  using assms
proof (induction "length xs" arbitrary: p xs rule: less_induct)
  case less
  show ?case
  proof (cases "4 \<le> length xs")
    case True
    then obtain b0 b1 b2 b3 ys where xs: "xs = [b0, b1, b2, b3] @ ys"
      by (auto simp: numeral_eq_Suc Suc_le_length_iff)
    with less.prems have ld: "load32 m p = Some (word32 b0 b1 b2 b3)" and ys: "bytes m (p + 4) ys"
      by (auto intro!: load32_bytes simp: numeral_eq_Suc)
    obtain n where n: "n \<le> length ys" "d \<notin> set (take n ys)"
      "memchr_words (fill_mask d) m (p + 4) (length ys) = Some (p + 4 + n, length ys - n)"
      using less.hyps [OF _ ys] xs by auto
    show ?thesis
    proof (cases "d \<in> {b0, b1, b2, b3}")
      case True
      then show ?thesis using xs ld
        by (subst memchr_words.simps) (auto simp: detectchar_word32 intro!: exI [of _ 0])
    next
      case False
      moreover have "take (4 + n) xs = [b0, b1, b2, b3] @ take n ys"
        using xs by (simp add: numeral_eq_Suc)
      ultimately show ?thesis using xs ld n
        by (subst memchr_words.simps) (auto simp: detectchar_word32 intro!: exI [of _ "4 + n"])
    qed
  next
    case False
    then show ?thesis by (subst memchr_words.simps) (auto intro!: exI [of _ 0])
  qed
qed

lemma find_byte_take:
  "d \<notin> set (take n xs) \<Longrightarrow> n \<le> length xs \<Longrightarrow> find_byte p d xs = find_byte (p + n) d (drop n xs)"
  using find_byte_append [of d "take n xs" p "drop n xs"] by simp

lemma memchr_eq:
  assumes "bytes m p xs"
  shows "memchr m p c (length xs) = Some (find_byte p (ucast c) xs)"
proof -
  let ?d = "ucast c :: byte"
  have tail: "do { (src, len) \<leftarrow> (if \<not> length xs - n < 4 then memchr_words (fill_mask ?d) m (p + n) (length xs - n)
                                else Some (p + n, length xs - n));
                   memchr_bytes ?d m len src } = Some (find_byte p ?d xs)"
    if n: "n \<le> length xs" "?d \<notin> set (take n xs)" for n
  proof (cases "length xs - n < 4")
    case True
    with n bytes_drop [OF assms n(1)] memchr_bytes_eq [of m "p + n" "drop n xs" ?d]
    show ?thesis by (simp add: find_byte_take [of ?d n xs p])
  next
    case False
    obtain k where k: "k \<le> length (drop n xs)" "?d \<notin> set (take k (drop n xs))"
      "memchr_words (fill_mask ?d) m (p + n) (length (drop n xs)) = Some (p + n + k, length (drop n xs) - k)"
      using memchr_words_eq [OF bytes_drop [OF assms n(1)]] by metis
    have "?d \<notin> set (take (n + k) xs)" using n(2) k(2) by (simp add: take_add)
    with k n False assms memchr_bytes_eq [of m "p + (n + k)" "drop (n + k) xs" ?d]
    show ?thesis
      by (simp add: find_byte_take [of ?d "n + k" xs p] bytes_drop add.assoc)
  qed
  show ?thesis
    using memchr_align_eq [OF assms, of ?d] tail by (auto simp: memchr_def)
qed

lemma span_find_cstr:
  assumes "cstr m q t" "x \<noteq> 0"
  shows "\<exists>c cb. span_find m x q = Some c \<and> load8 m c = Some cb \<and> (cb \<noteq> 0 \<longleftrightarrow> x \<in> set t)"
proof -
  let ?c = "q + length (takeWhile (\<lambda>b. b \<noteq> x) t)"
  have "(\<lambda>b. b = 0 \<or> x = b) = (\<lambda>b. b = 0 \<or> b = x)" by auto
  with first_hit_find_byte [OF assms(1), of x]
  have h: "first_hit (\<lambda>b. b = 0 \<or> x = b) m q ?c" by simp
  then obtain cb where cb: "m ?c = Some cb" "cb = 0 \<or> x = cb" by (auto simp: first_hit_def)
  have "cb \<noteq> 0 \<longleftrightarrow> x \<in> set t"
  proof (cases "x \<in> set t")
    case True
    note nth = takeWhile_neq_nth [OF True]
    then have "m ?c = Some x" using assms(1) bytesD [of m q t] by (auto simp: cstr_def)
    with True cb assms(2) show ?thesis by simp
  next
    case False
    then have "takeWhile (\<lambda>b. b \<noteq> x) t = t" by (simp add: takeWhile_eq_all_conv) blast
    with assms(1) cb False show ?thesis by (simp add: cstr_def)
  qed
  with cb byte_scan_first_hit [OF h] show ?thesis by (simp add: span_find_def load8_def)
qed

lemma strcspn_loop_cstr:
  "cstr m p s \<Longrightarrow> cstr m q t \<Longrightarrow>
     strcspn_loop m p q = Some (p + length (takeWhile (\<lambda>x. x \<notin> set t) s))"
proof (induction s arbitrary: p)
  case Nil
  then show ?case by (subst strcspn_loop.simps) (simp add: cstr_Nil load8_def)
next
  case (Cons x s)
  then show ?case
    using span_find_cstr [of m q t x] by (subst strcspn_loop.simps) (auto simp: cstr_Cons load8_eq)
qed

lemma strspn_loop_cstr:
  "cstr m p s \<Longrightarrow> cstr m q t \<Longrightarrow>
     strspn_loop m p q = Some (p + length (takeWhile (\<lambda>x. x \<in> set t) s))"
proof (induction s arbitrary: p)
  case Nil
  then show ?case by (subst strspn_loop.simps) (simp add: cstr_Nil load8_def)
next
  case (Cons x s)
  then show ?case
    using span_find_cstr [of m q t x] by (subst strspn_loop.simps) (auto simp: cstr_Cons load8_eq)
qed

lemma strpbrk_loop_cstr:
  assumes "cstr m p s" "cstr m q t" "load8 m c = Some 0"
  shows "\<exists>c' cb. strpbrk_loop m p q c = Some (p + length (takeWhile (\<lambda>x. x \<notin> set t) s), c') \<and>
           load8 m c' = Some cb \<and> (cb \<noteq> 0 \<longleftrightarrow> (\<exists>x \<in> set s. x \<in> set t))"
  using assms(1,3)
proof (induction s arbitrary: p c)
  case Nil
  then show ?case by (subst strpbrk_loop.simps) (simp add: cstr_Nil load8_def)
next
  case (Cons x s)
  then have x: "x \<noteq> 0" "load8 m p = Some x" "cstr m (p + 1) s" by (simp_all add: cstr_Cons load8_def)
  obtain d db where d: "span_find m x q = Some d" "load8 m d = Some db" "db \<noteq> 0 \<longleftrightarrow> x \<in> set t"
    using span_find_cstr [OF assms(2) x(1)] by blast
  show ?case
  proof (cases "x \<in> set t")
    case True
    with d x show ?thesis by (subst strpbrk_loop.simps) auto
  next
    case False
    with d x Cons.IH [of "p + 1" d] show ?thesis by (subst strpbrk_loop.simps) auto
  qed
qed

lemma strcspn_cstr:
  "cstr m p s \<Longrightarrow> cstr m q t \<Longrightarrow> strcspn m p q = Some (length (takeWhile (\<lambda>x. x \<notin> set t) s))"
  by (simp add: strcspn_def strcspn_loop_cstr)

lemma strspn_cstr:
  "cstr m p s \<Longrightarrow> cstr m q t \<Longrightarrow> strspn m p q = Some (length (takeWhile (\<lambda>x. x \<in> set t) s))"
  by (simp add: strspn_def strspn_loop_cstr)

lemma strpbrk_cstr:
  assumes "cstr m p s" "cstr m q t"
  shows "strpbrk m p q = Some (if \<exists>x \<in> set s. x \<in> set t
           then p + length (takeWhile (\<lambda>x. x \<notin> set t) s) else NULL)"
proof (cases s)
  case Nil
  with assms show ?thesis by (simp add: strpbrk_def cstr_Nil load8_def)
next
  case (Cons x u)
  then have x: "x \<noteq> 0" "load8 m p = Some x" "cstr m (p + 1) u"
    using assms(1) by (simp_all add: cstr_Cons load8_def)
  obtain d db where d: "span_find m x q = Some d" "load8 m d = Some db" "db \<noteq> 0 \<longleftrightarrow> x \<in> set t"
    using span_find_cstr [OF assms(2) x(1)] by blast
  show ?thesis
  proof (cases "x \<in> set t")
    case True
    with d x Cons show ?thesis by (simp add: strpbrk_def strpbrk_loop.simps)
  next
    case False
    with d obtain c' cb where "strpbrk_loop m (p + 1) q d =
        Some (p + 1 + length (takeWhile (\<lambda>x. x \<notin> set t) u), c')"
        "load8 m c' = Some cb" "cb \<noteq> 0 \<longleftrightarrow> (\<exists>x \<in> set u. x \<in> set t)"
      using strpbrk_loop_cstr [OF x(3) assms(2)] by blast
    moreover have "strpbrk_loop m p q q = strpbrk_loop m (p + 1) q d"
      using False d x by (subst strpbrk_loop.simps) simp
    ultimately show ?thesis using False x Cons by (auto simp: strpbrk_def)
  qed
qed

lemma rfind_byte_append:
  "rfind_byte p c (ys @ c # zs) =
     (if c \<in> set zs then rfind_byte (p + length ys + 1) c zs else p + length ys)"
proof (cases "c \<in> set zs")
  case True
  then have "length (takeWhile (\<lambda>b. b \<noteq> c) (rev zs)) < length zs"
    using takeWhile_neq_nth [of c "rev zs"] by simp
  with True show ?thesis by (auto simp: rfind_byte_def takeWhile_append)
qed (simp add: rfind_byte_split)

lemma strrchr_loop_cstr:
  assumes "paged m" "p \<noteq> 0" "cstr m p s" "ucast i = c" "c \<noteq> 0"
  shows "strrchr_loop m p i lst = Some (if c \<in> set s then rfind_byte p c s else lst)"
  using assms(2,3)
proof (induction "length s" arbitrary: s p lst rule: less_induct)
  case less
  have sc: "strchr m p i = Some (find_byte p c (s @ [0]))"
    using strchr_cstr [OF assms(1) less.prems(2)] assms(4) by simp
  show ?case
  proof (cases "c \<in> set s")
    case False
    with sc assms(5) show ?thesis by (subst strrchr_loop.simps) (simp add: find_byte_def)
  next
    case True
    then obtain zs where zs: "s = takeWhile (\<lambda>b. b \<noteq> c) s @ c # zs"
      using takeWhile_neq_split by metis
    define ys where "ys = takeWhile (\<lambda>b. b \<noteq> c) s"
    have s: "s = ys @ c # zs" using zs by (simp add: ys_def)
    have "find_byte p c (s @ [0]) = p + length ys"
      using True by (auto simp: find_byte_def ys_def takeWhile_append)
    moreover have "cstr m (p + length ys + 1) zs"
      using cstr_drop [OF less.prems(2), of "length ys + 1"] s by simp
    ultimately show ?thesis
      using sc less.prems(1) less.hyps [of zs "p + length ys + 1" "p + length ys"] s
      by (subst strrchr_loop.simps) (simp add: rfind_byte_append)
  qed
qed

lemma strrchr_cstr:
  assumes "paged m" "p \<noteq> 0" "cstr m p s" "i = 0 \<or> ucast i \<noteq> (0 :: byte)"
  shows "strrchr m p i = Some (rfind_byte p (ucast i) (s @ [0]))"
proof (cases "i = 0")
  case True
  moreover have "0 \<notin> set s" using assms(3) by (simp add: cstr_def)
  ultimately show ?thesis
    using strchr_cstr [OF assms(1,3), of 0]
    by (simp add: strrchr_def find_byte_append find_byte_Cons rfind_byte_def)
next
  case False
  with assms(4) have nz: "ucast i \<noteq> (0 :: byte)" by simp
  have "rfind_byte p (ucast i) (s @ [0]) = (if ucast i \<in> set s then rfind_byte p (ucast i) s else NULL)"
    using nz takeWhile_neq_nth [of "ucast i" "rev s"] by (auto simp: rfind_byte_def)
  with strrchr_loop_cstr [OF assms(1-3) refl nz, of NULL] False show ?thesis
    by (simp add: strrchr_def)
qed

section \<open>The properties\<close>

text \<open>
  C9.  On every string of a paged memory \<^verbatim>\<open>strlen\<close> stops without a fault and returns the number of
  characters before the NUL, although it reads whole words; \<^verbatim>\<open>strnlen\<close> returns that number cut at
  its limit.
\<close>

theorem strlen_correct:
  assumes "paged m" "cstr m p s"
  shows "strlen m p = Some (length s) \<and> strnlen m p n = Some (min n (length s))"
  using strlen_cstr [OF assms] strnlen_cstr [OF assms(2)] by simp

theorem strlen_correct_witness:
  "strlen (mem_image 4 [1, 104, 101, 108, 108, 111, 0, 9]) 5 = Some 5"
  using strlen_correct [of "mem_image 4 [1, 104, 101, 108, 108, 111, 0, 9]" 5 "[104, 101, 108, 108, 111]"]
  by (simp add: paged_mem_image cstr_def)

text \<open>
  \<^verbatim>\<open>strchr\<close> and \<^verbatim>\<open>index\<close> return the address of the first occurrence of the character in the string
  with its NUL, or \<^verbatim>\<open>NULL\<close> when it does not occur: the loop over aligned words with its two bit
  tests finds what a search byte by byte would find.
\<close>

theorem strchr_correct:
  assumes "paged m" "cstr m p s"
  shows "strchr m p i = Some (find_byte p (ucast i) (s @ [0])) \<and> index m p i = strchr m p i"
  using strchr_cstr [OF assms] by (simp add: index_def)

theorem strchr_correct_witness:
  "strchr (mem_image 4 [1, 104, 101, 108, 108, 111, 0, 9]) 5 108 = Some 7"
proof -
  have "(ucast (108 :: u32) :: byte) = 108" by simp
  then show ?thesis
    using strchr_correct [of "mem_image 4 [1, 104, 101, 108, 108, 111, 0, 9]" 5 "[104, 101, 108, 108, 111]" 108]
    by (simp add: paged_mem_image cstr_def find_byte_def)
qed

text \<open>
  \<^verbatim>\<open>memchr\<close> returns the address of the first occurrence of the byte in the region, or \<^verbatim>\<open>NULL\<close>,
  and reads no byte outside the region.
\<close>

theorem memchr_correct:
  assumes "bytes m p xs" "length xs = n"
  shows "memchr m p c n = Some (find_byte p (ucast c) xs)"
  using memchr_eq [OF assms(1)] assms(2) by simp

theorem memchr_correct_witness:
  "memchr (mem_image 3 [7, 8, 9, 8, 7, 6]) 3 6 6 = Some 8"
  using memchr_correct [of "mem_image 3 [7, 8, 9, 8, 7, 6]" 3 "[7, 8, 9, 8, 7, 6]" 6 6]
  by (simp add: find_byte_def)

text \<open>
  \<^verbatim>\<open>strrchr\<close>, which calls \<^verbatim>\<open>strchr\<close> again and again, returns the address of the last occurrence
  of the character, and so does \<^verbatim>\<open>rindex\<close>.  The argument is the \<^verbatim>\<open>int\<close> 0 or is not 0 as a \<^verbatim>\<open>char\<close>.
\<close>

theorem strrchr_correct:
  assumes "paged m" "p \<noteq> NULL" "cstr m p s" "i = 0 \<or> ucast i \<noteq> (0 :: byte)"
  shows "strrchr m p i = Some (rfind_byte p (ucast i) (s @ [0])) \<and> rindex m p i = strrchr m p i"
  using strrchr_cstr [OF assms] by (simp add: rindex_def)

theorem strrchr_correct_witness:
  "strrchr (mem_image 4 [1, 104, 101, 108, 108, 111, 0, 9]) 5 108 = Some 8"
proof -
  have "(ucast (108 :: u32) :: byte) = 108" by simp
  then show ?thesis
    using strrchr_correct [of "mem_image 4 [1, 104, 101, 108, 108, 111, 0, 9]" 5 "[104, 101, 108, 108, 111]" 108]
    by (simp add: paged_mem_image cstr_def rfind_byte_def)
qed

text \<open>
  \<^verbatim>\<open>strspn\<close> and \<^verbatim>\<open>strcspn\<close> return the length of the longest prefix whose characters are all in,
  or all outside, the second string, and \<^verbatim>\<open>strpbrk\<close> the address where the latter prefix ends when
  it is not the whole string.
\<close>

theorem span_correct:
  assumes "cstr m p s" "cstr m q t"
  shows "strspn m p q = Some (length (takeWhile (\<lambda>x. x \<in> set t) s)) \<and>
    strcspn m p q = Some (length (takeWhile (\<lambda>x. x \<notin> set t) s)) \<and>
    strpbrk m p q = Some (if \<exists>x \<in> set s. x \<in> set t
      then p + length (takeWhile (\<lambda>x. x \<notin> set t) s) else NULL)"
  using strspn_cstr [OF assms] strcspn_cstr [OF assms] strpbrk_cstr [OF assms] by simp

theorem span_correct_witness:
  "strspn (mem_image 1 [97, 98, 99, 0, 98, 97, 0]) 1 5 = Some 2 \<and>
   strpbrk (mem_image 1 [97, 98, 99, 0, 98, 97, 0]) 3 5 = Some NULL"
  using span_correct [of "mem_image 1 [97, 98, 99, 0, 98, 97, 0]" 1 "[97, 98, 99]" 5 "[98, 97]"]
    span_correct [of "mem_image 1 [97, 98, 99, 0, 98, 97, 0]" 3 "[99]" 5 "[98, 97]"]
  by (simp add: cstr_def)

text \<open>A multiple of 256 is not the \<^verbatim>\<open>int\<close> 0: \<^verbatim>\<open>strrchr\<close> then runs past the NUL of the string.\<close>

lemma strrchr_256_runs_past_the_end:
  "strrchr (mem_image 4 [97, 0, 0, 0]) 4 256 = None"
proof -
  have p: "paged (mem_image 4 [97, 0, 0, 0])" by (simp add: paged_mem_image)
  have z: "(ucast (256 :: u32) :: byte) = 0" by simp
  have "strchr (mem_image 4 [97, 0, 0, 0]) 4 256 = Some 5"
    using strchr_cstr [OF p, of 4 "[97]" 256] by (simp add: cstr_def find_byte_def z)
  moreover have "strchr (mem_image 4 [97, 0, 0, 0]) k 256 = Some k" if "k = 6 \<or> k = 7" for k
    using strchr_cstr [OF p, of k "[]" 256] that by (auto simp: cstr_def find_byte_def z)
  moreover have "strchr (mem_image 4 [97, 0, 0, 0]) 8 256 = None"
    by (simp add: strchr_def z align_scan.simps [of _ _ 8] unaligned_def load8_def
        word_scan.simps [of _ _ 8] load32_def)
  ultimately show ?thesis by (simp add: strrchr_def strrchr_loop.simps [of _ 4] strrchr_loop.simps [of _ 6]
        strrchr_loop.simps [of _ 7] strrchr_loop.simps [of _ 8])
qed

end
