(* ===== verification/MemCopy.thy ===== *)
theory MemCopy
  imports WordScan
begin

unbundle bit_operations_syntax

text \<open>
  The block routines of \<^verbatim>\<open>src/runtime/libc/string\<close> that write memory: \<^verbatim>\<open>memcpy\<close>, \<^verbatim>\<open>mempcpy\<close>,
  \<^verbatim>\<open>memmove\<close>, \<^verbatim>\<open>bcopy\<close>, \<^verbatim>\<open>memset\<close>, \<^verbatim>\<open>bzero\<close>, \<^verbatim>\<open>memccpy\<close> and \<^verbatim>\<open>swab\<close>.  A routine takes the memory
  and returns its result together with the memory it leaves.  The copying loops of 1, 4 and 16
  bytes share one contract, the locale \<open>chunk_copier\<close>.
\<close>

section \<open>The copying loops\<close>

text \<open>\<^verbatim>\<open>while (len--) *dst++ = *src++;\<close>\<close>

primrec copy_bytes :: "nat \<Rightarrow> mem \<Rightarrow> addr \<Rightarrow> addr \<Rightarrow> (mem \<times> addr \<times> addr) option" where
  "copy_bytes 0 m dst src = Some (m, dst, src)"
| "copy_bytes (Suc len) m dst src =
     do { b \<leftarrow> load8 m src; m \<leftarrow> store8 m dst b; copy_bytes len m (dst + 1) (src + 1) }"

text \<open>\<^verbatim>\<open>*aligned_dst = *aligned_src\<close>\<close>

definition copy_word :: "mem \<Rightarrow> addr \<Rightarrow> addr \<Rightarrow> mem option" where
  "copy_word m dst src = do { w \<leftarrow> load32 m src; store32 m dst w }"

fun copy_words :: "nat \<Rightarrow> mem \<Rightarrow> addr \<Rightarrow> addr \<Rightarrow> (nat \<times> mem \<times> addr \<times> addr) option" where
  "copy_words len m dst src =
     (if len \<ge> 4
      then do { m \<leftarrow> copy_word m dst src; copy_words (len - 4) m (dst + 4) (src + 4) }
      else Some (len, m, dst, src))"

definition copy_block :: "mem \<Rightarrow> addr \<Rightarrow> addr \<Rightarrow> mem option" where
  "copy_block m dst src =
     do { m \<leftarrow> copy_word m dst src;
          m \<leftarrow> copy_word m (dst + 4) (src + 4);
          m \<leftarrow> copy_word m (dst + 8) (src + 8);
          copy_word m (dst + 12) (src + 12) }"

fun copy_blocks :: "nat \<Rightarrow> mem \<Rightarrow> addr \<Rightarrow> addr \<Rightarrow> (nat \<times> mem \<times> addr \<times> addr) option" where
  "copy_blocks len m dst src =
     (if len \<ge> 16
      then do { m \<leftarrow> copy_block m dst src; copy_blocks (len - 16) m (dst + 16) (src + 16) }
      else Some (len, m, dst, src))"

text \<open>\<^verbatim>\<open>while (len--) *--dst = *--src;\<close>\<close>

primrec copy_back :: "nat \<Rightarrow> mem \<Rightarrow> addr \<Rightarrow> addr \<Rightarrow> mem option" where
  "copy_back 0 m dst src = Some m"
| "copy_back (Suc len) m dst src =
     do { b \<leftarrow> load8 m (src - 1); m \<leftarrow> store8 m (dst - 1) b; copy_back len m (dst - 1) (src - 1) }"

section \<open>The routines\<close>

definition memcpy :: "mem \<Rightarrow> addr \<Rightarrow> addr \<Rightarrow> nat \<Rightarrow> (addr \<times> mem) option" where
  "memcpy m dst0 src0 len0 =
     (let dst = dst0; src = src0; len = len0 in
      do { (len, m, dst, src) \<leftarrow>
             (if \<not> len < 16 \<and> \<not> unaligned2 src dst
              then do { (len, m, dst, src) \<leftarrow> copy_blocks len m dst src;
                        copy_words len m dst src }
              else Some (len, m, dst, src));
           (m, dst, src) \<leftarrow> copy_bytes len m dst src;
           Some (dst0, m) })"

definition mempcpy :: "mem \<Rightarrow> addr \<Rightarrow> addr \<Rightarrow> nat \<Rightarrow> (addr \<times> mem) option" where
  "mempcpy m dst0 src0 len0 =
     (let dst = dst0; src = src0; len = len0 in
      do { (len, m, dst, src) \<leftarrow>
             (if \<not> len < 16 \<and> \<not> unaligned2 src dst
              then do { (len, m, dst, src) \<leftarrow> copy_blocks len m dst src;
                        copy_words len m dst src }
              else Some (len, m, dst, src));
           (m, dst, src) \<leftarrow> copy_bytes len m dst src;
           Some (dst, m) })"

text \<open>
  \<^verbatim>\<open>int len = length\<close>: a \<^verbatim>\<open>size_t\<close> read as an \<^verbatim>\<open>int\<close>.  The sign matters where \<^verbatim>\<open>len\<close> is added to a
  pointer; the comparisons with \<^verbatim>\<open>sizeof\<close> and the count-down loops read it as unsigned.
\<close>

definition int_of_size :: "nat \<Rightarrow> int" where
  "int_of_size n = sint (of_nat n :: u32)"

definition memmove :: "mem \<Rightarrow> addr \<Rightarrow> addr \<Rightarrow> nat \<Rightarrow> (addr \<times> mem) option" where
  "memmove m dst_void src_void len0 =
     (let dst = dst_void; src = src_void; len = len0 in
      if src < dst \<and> int dst < int src + int_of_size len0
      then do { m \<leftarrow> copy_back len m (dst + len) (src + len); Some (dst_void, m) }
      else
      do { (len, m, dst, src) \<leftarrow>
             (if \<not> len < 16 \<and> \<not> unaligned2 src dst
              then do { (len, m, dst, src) \<leftarrow> copy_blocks len m dst src;
                        copy_words len m dst src }
              else Some (len, m, dst, src));
           (m, dst, src) \<leftarrow> copy_bytes len m dst src;
           Some (dst_void, m) })"

definition bcopy :: "mem \<Rightarrow> addr \<Rightarrow> addr \<Rightarrow> nat \<Rightarrow> mem option" where
  "bcopy m b1 b2 len = do { (_, m) \<leftarrow> memmove m b2 b1 len; Some m }"

primrec set_bytes :: "byte \<Rightarrow> nat \<Rightarrow> mem \<Rightarrow> addr \<Rightarrow> mem option" where
  "set_bytes c 0 m s = Some m"
| "set_bytes c (Suc n) m s = do { m \<leftarrow> store8 m s c; set_bytes c n m (s + 1) }"

fun memset_align :: "byte \<Rightarrow> nat \<Rightarrow> mem \<Rightarrow> addr \<Rightarrow> (mem + nat \<times> mem \<times> addr) option" where
  "memset_align c n m s =
     (if unaligned s
      then if n = 0 then Some (Inl m)
           else do { m \<leftarrow> store8 m s c; memset_align c (n - 1) m (s + 1) }
      else Some (Inr (n, m, s)))"

fun set_blocks :: "u32 \<Rightarrow> nat \<Rightarrow> mem \<Rightarrow> addr \<Rightarrow> (nat \<times> mem \<times> addr) option" where
  "set_blocks buffer n m s =
     (if n \<ge> 16
      then do { m \<leftarrow> store32 m s buffer; m \<leftarrow> store32 m (s + 4) buffer;
                m \<leftarrow> store32 m (s + 8) buffer; m \<leftarrow> store32 m (s + 12) buffer;
                set_blocks buffer (n - 16) m (s + 16) }
      else Some (n, m, s))"

fun set_words :: "u32 \<Rightarrow> nat \<Rightarrow> mem \<Rightarrow> addr \<Rightarrow> (nat \<times> mem \<times> addr) option" where
  "set_words buffer n m s =
     (if n \<ge> 4
      then do { m \<leftarrow> store32 m s buffer; set_words buffer (n - 4) m (s + 4) }
      else Some (n, m, s))"

definition memset :: "mem \<Rightarrow> addr \<Rightarrow> u32 \<Rightarrow> nat \<Rightarrow> (addr \<times> mem) option" where
  "memset m mp c n =
     (let s = mp; d = ucast (c AND 0xff) :: byte in
      do { r \<leftarrow> memset_align (ucast c) n m s;
           case r of
             Inl m \<Rightarrow> Some (mp, m)
           | Inr (n, m, s) \<Rightarrow>
               do { (n, m, s) \<leftarrow>
                      (if \<not> n < 4
                       then do { (n, m, s) \<leftarrow> set_blocks (fill_mask d) n m s;
                                 set_words (fill_mask d) n m s }
                       else Some (n, m, s));
                    m \<leftarrow> set_bytes (ucast c) n m s;
                    Some (mp, m) } })"

definition bzero :: "mem \<Rightarrow> addr \<Rightarrow> nat \<Rightarrow> mem option" where
  "bzero m b len = set_bytes 0 len m b"

text \<open>
  \<^verbatim>\<open>mask = (mask << 8) + endchar\<close>, four times: \<^verbatim>\<open>endchar\<close> is a (signed) \<^verbatim>\<open>char\<close>, so each addition
  adds its sign extension.
\<close>

definition memccpy_mask :: "byte \<Rightarrow> u32" where
  "memccpy_mask endchar =
     (let add = (\<lambda>msk :: u32. push_bit 8 msk + scast endchar) in add (add (add (add 0))))"

fun memccpy_words :: "u32 \<Rightarrow> nat \<Rightarrow> mem \<Rightarrow> addr \<Rightarrow> addr \<Rightarrow> (nat \<times> mem \<times> addr \<times> addr) option" where
  "memccpy_words msk len m dst src =
     (if len \<ge> 4
      then do { buffer \<leftarrow> load32 m src;
                if detectnull (buffer XOR msk) \<noteq> 0 then Some (len, m, dst, src)
                else do { m \<leftarrow> copy_word m dst src;
                          memccpy_words msk (len - 4) m (dst + 4) (src + 4) } }
      else Some (len, m, dst, src))"

primrec memccpy_bytes :: "byte \<Rightarrow> nat \<Rightarrow> mem \<Rightarrow> addr \<Rightarrow> addr \<Rightarrow> (addr \<times> mem) option" where
  "memccpy_bytes endchar 0 m dst src = Some (NULL, m)"
| "memccpy_bytes endchar (Suc len) m dst src =
     do { b \<leftarrow> load8 m src; m \<leftarrow> store8 m dst b;
          if b = endchar then Some (dst + 1, m)
          else memccpy_bytes endchar len m (dst + 1) (src + 1) }"

definition memccpy :: "mem \<Rightarrow> addr \<Rightarrow> addr \<Rightarrow> u32 \<Rightarrow> nat \<Rightarrow> (addr \<times> mem) option" where
  "memccpy m dst0 src0 endchar0 len0 =
     (let dst = dst0; src = src0; len = len0; endchar = ucast (endchar0 AND 0xff) :: byte in
      do { (len, m, dst, src) \<leftarrow>
             (if \<not> len < 4 \<and> \<not> unaligned2 src dst
              then memccpy_words (memccpy_mask endchar) len m dst src
              else Some (len, m, dst, src));
           memccpy_bytes endchar len m dst src })"

text \<open>\<^verbatim>\<open>swab\<close>: the index \<^verbatim>\<open>ptr\<close> and the length are signed.\<close>

function swab_loop :: "mem \<Rightarrow> addr \<Rightarrow> addr \<Rightarrow> int \<Rightarrow> int \<Rightarrow> (mem \<times> int) option" where
  "swab_loop m from to ptr len =
     (if ptr < len
      then do { p \<leftarrow> load8 m (from + nat ptr);
                q \<leftarrow> load8 m (from + nat (ptr - 1));
                m \<leftarrow> store8 m (to + nat (ptr - 1)) p;
                m \<leftarrow> store8 m (to + nat ptr) q;
                swab_loop m from to (ptr + 2) len }
      else Some (m, ptr))"
  by pat_completeness auto
termination
  by (relation "measure (\<lambda>(m, from, to, ptr, len). nat (len - ptr))") auto

definition swab :: "mem \<Rightarrow> addr \<Rightarrow> addr \<Rightarrow> int \<Rightarrow> mem option" where
  "swab m b1 b2 len =
     do { (m, ptr) \<leftarrow> swab_loop m b1 b2 1 len;
          if ptr = len then store8 m (b2 + nat (ptr - 1)) 0 else Some m }"

section \<open>Copying forward\<close>

text \<open>Copying upwards is safe unless the destination starts inside the source, after its start.\<close>

definition forward_ok :: "addr \<Rightarrow> addr \<Rightarrow> nat \<Rightarrow> bool" where
  "forward_ok dst src n = (dst \<le> src \<or> src + n \<le> dst)"

lemma forward_ok_rest:
  "forward_ok d s n \<Longrightarrow> k \<le> n \<Longrightarrow> forward_ok d s k \<and> forward_ok (d + k) (s + k) (n - k)"
  by (auto simp: forward_ok_def)

lemma bytes_after_forward:
  "forward_ok d s (length xs + length ys) \<Longrightarrow>
     bytes (wr m d xs) (s + length xs) ys \<longleftrightarrow> bytes m (s + length xs) ys"
  by (rule bytes_wr_disjoint) (auto simp: forward_ok_def disjoint_regions_def)

text \<open>
  The contract of a loop that copies chunks of \<open>w\<close> bytes: a step copies one chunk, and the loop
  repeats it while a whole chunk is left.
\<close>

locale chunk_copier =
  fixes w :: nat
    and step :: "mem \<Rightarrow> addr \<Rightarrow> addr \<Rightarrow> mem option"
    and loop :: "nat \<Rightarrow> mem \<Rightarrow> addr \<Rightarrow> addr \<Rightarrow> (nat \<times> mem \<times> addr \<times> addr) option"
  assumes w_pos: "0 < w"
    and step: "length xs = w \<Longrightarrow> bytes m s xs \<Longrightarrow> mapped m d w \<Longrightarrow> forward_ok d s w \<Longrightarrow>
      step m d s = Some (wr m d xs)"
    and loop: "loop len m d s =
      (if len \<ge> w then do { m \<leftarrow> step m d s; loop (len - w) m (d + w) (s + w) } else Some (len, m, d, s))"
begin

lemma loop_copies:
  assumes "bytes m s xs" "mapped m d (length xs)" "forward_ok d s (length xs)"
  shows "\<exists>k \<le> length xs. loop (length xs) m d s =
    Some (length xs - k, wr m d (take k xs), d + k, s + k)"
  using assms
proof (induction "length xs" arbitrary: xs m d s rule: less_induct)
  case less
  show ?case
  proof (cases "w \<le> length xs")
    case False
    then show ?thesis by (intro exI [of _ 0]) (subst loop, simp)
  next
    case True
    define ys zs where "ys = take w xs" and "zs = drop w xs"
    have xs: "xs = ys @ zs" and len: "length ys = w" using True by (simp_all add: ys_def zs_def)
    have st: "step m d s = Some (wr m d ys)"
      using less.prems xs len forward_ok_rest [OF less.prems(3) True]
      by (intro step) (auto simp: mapped_add)
    have "bytes (wr m d ys) (s + w) zs"
      using less.prems xs len bytes_after_forward [of d s ys zs m] by auto
    moreover have "mapped (wr m d ys) (d + w) (length zs)"
      using less.prems(2) xs len by (simp add: mapped_add)
    moreover have "forward_ok (d + w) (s + w) (length zs)"
      using forward_ok_rest [OF less.prems(3) True] xs len by simp
    ultimately obtain k where k: "k \<le> length zs"
      "loop (length zs) (wr m d ys) (d + w) (s + w) =
        Some (length zs - k, wr (wr m d ys) (d + w) (take k zs), d + w + k, s + w + k)"
      using less.hyps [of zs "wr m d ys" "s + w" "d + w"] xs len w_pos by auto
    have "loop (length xs) m d s = loop (length zs) (wr m d ys) (d + w) (s + w)"
      by (subst loop) (use True st xs len in simp)
    with k show ?thesis
      by (intro exI [of _ "w + k"]) (auto simp: xs len wr_append add.assoc)
  qed
qed

end

lemma copy_bytes_eq:
  assumes "bytes m s xs" "mapped m d (length xs)" "forward_ok d s (length xs)"
  shows "copy_bytes (length xs) m d s = Some (wr m d xs, d + length xs, s + length xs)"
  using assms
proof (induction xs arbitrary: m d s)
  case (Cons x xs)
  have "bytes (wr m d [x]) (s + 1) xs"
    using Cons.prems bytes_after_forward [of d s "[x]" xs m] by simp
  moreover have "forward_ok (d + 1) (s + 1) (length xs)"
    using forward_ok_rest [OF Cons.prems(3), of 1] by simp
  ultimately have "copy_bytes (length xs) (wr m d [x]) (d + 1) (s + 1) =
      Some (wr (wr m d [x]) (d + 1) xs, d + 1 + length xs, s + 1 + length xs)"
    using Cons.prems by (intro Cons.IH) auto
  with Cons.prems show ?case by (simp add: mem_simps)
qed simp

lemma copy_word_eq:
  assumes "length xs = 4" "bytes m s xs" "mapped m d 4"
  shows "copy_word m d s = Some (wr m d xs)"
proof -
  obtain b0 b1 b2 b3 where "xs = [b0, b1, b2, b3]"
    using assms(1) by (auto simp: numeral_eq_Suc length_Suc_conv)
  with assms show ?thesis by (simp add: copy_word_def load32_bytes store32_word32 del: bytes.simps)
qed

declare copy_words.simps [simp del] copy_blocks.simps [simp del]

interpretation word_copier: chunk_copier 4 copy_word copy_words
  by unfold_locales (simp, simp add: copy_word_eq, rule copy_words.simps)

lemma copy_block_eq:
  assumes "length xs = 16" "bytes m s xs" "mapped m d 16" "forward_ok d s 16"
  shows "copy_block m d s = Some (wr m d xs)"
proof -
  define x0 y0 where "x0 = take 4 xs" and "y0 = drop 4 xs"
  define x1 y1 where "x1 = take 4 y0" and "y1 = drop 4 y0"
  define x2 x3 where "x2 = take 4 y1" and "x3 = drop 4 y1"
  have len: "length x0 = 4" "length x1 = 4" "length x2 = 4" "length x3 = 4"
    using assms(1) by (simp_all add: x0_def x1_def x2_def x3_def y0_def y1_def)
  have xs: "xs = x0 @ x1 @ x2 @ x3"
    by (simp add: x0_def x1_def x2_def x3_def y0_def y1_def del: drop_drop)
  let ?m1 = "wr m d x0" let ?m2 = "wr ?m1 (d + 4) x1" let ?m3 = "wr ?m2 (d + 8) x2"
  have b: "bytes m s x0" "bytes m (s + 4) x1" "bytes m (s + 8) x2" "bytes m (s + 12) x3"
    using assms(2) by (simp_all add: xs len add.commute)
  note mp = mapped_16 [OF assms(3)]
  have dj: "disjoint_regions (d + i) 4 (s + j) 4" if "i < j" "i \<in> {0, 4, 8}" "j \<in> {4, 8, 12}" for i j
    using that assms(4) by (auto simp: disjoint_regions_def forward_ok_def)
  have "bytes ?m1 (s + 4) x1" "bytes ?m2 (s + 8) x2" "bytes ?m3 (s + 12) x3"
    using b dj [of 0 4] dj [of 0 8] dj [of 0 12] dj [of 4 8] dj [of 4 12] dj [of 8 12]
    by (simp_all add: bytes_wr_disjoint len)
  with b mp have "copy_word m d s = Some ?m1" "copy_word ?m1 (d + 4) (s + 4) = Some ?m2"
    "copy_word ?m2 (d + 8) (s + 8) = Some ?m3"
    "copy_word ?m3 (d + 12) (s + 12) = Some (wr ?m3 (d + 12) x3)"
    by (auto intro!: copy_word_eq simp: len)
  then show ?thesis by (simp add: copy_block_def len xs wr_append add.assoc)
qed

interpretation block_copier: chunk_copier 16 copy_block copy_blocks
  by unfold_locales (simp, simp add: copy_block_eq, rule copy_blocks.simps)

text \<open>
  The body that \<^verbatim>\<open>memcpy\<close>, \<^verbatim>\<open>mempcpy\<close> and \<^verbatim>\<open>memmove\<close> share copies the source.
\<close>

lemma copy_body_eq:
  assumes "bytes m s xs" "mapped m d (length xs)" "forward_ok d s (length xs)"
  shows "\<exists>k \<le> length xs.
     (if \<not> length xs < 16 \<and> \<not> unaligned2 s d
      then do { (len, m, d, s) \<leftarrow> copy_blocks (length xs) m d s; copy_words len m d s }
      else Some (length xs, m, d, s)) = Some (length xs - k, wr m d (take k xs), d + k, s + k) \<and>
     copy_bytes (length xs - k) (wr m d (take k xs)) (d + k) (s + k) =
       Some (wr m d xs, d + length xs, s + length xs)"
proof -
  have rest: "bytes (wr m d (take k xs)) (s + k) (drop k xs) \<and>
      mapped (wr m d (take k xs)) (d + k) (length (drop k xs)) \<and>
      forward_ok (d + k) (s + k) (length (drop k xs))" if "k \<le> length xs" for k
    using assms that bytes_after_forward [of d s "take k xs" "drop k xs" m] forward_ok_rest [of d s "length xs" k]
      mapped_add [of m d k "length xs - k"]
    by (auto simp: bytes_drop mapped_le)
  have tail: "copy_bytes (length xs - k) (wr m d (take k xs)) (d + k) (s + k) =
       Some (wr m d xs, d + length xs, s + length xs)" if "k \<le> length xs" for k
    using rest [OF that] copy_bytes_eq [of "wr m d (take k xs)" "s + k" "drop k xs" "d + k"] that
      wr_append [of m d "take k xs" "drop k xs"] by simp
  show ?thesis
  proof (cases "\<not> length xs < 16 \<and> \<not> unaligned2 s d")
    case True
    obtain k where k: "k \<le> length xs" "copy_blocks (length xs) m d s =
        Some (length xs - k, wr m d (take k xs), d + k, s + k)"
      using block_copier.loop_copies [OF assms] by blast
    obtain j where j: "j \<le> length xs - k" "copy_words (length xs - k) (wr m d (take k xs)) (d + k) (s + k) =
        Some (length xs - k - j, wr (wr m d (take k xs)) (d + k) (take j (drop k xs)), d + k + j, s + k + j)"
      using word_copier.loop_copies [of "wr m d (take k xs)" "s + k" "drop k xs" "d + k"] rest [OF k(1)]
      by auto
    have "wr (wr m d (take k xs)) (d + k) (take j (drop k xs)) = wr m d (take (k + j) xs)"
      using k wr_append [of m d "take k xs" "take j (drop k xs)"] by (simp add: take_add)
    with True k j show ?thesis
      by (intro exI [of _ "k + j"]) (auto simp: tail add.assoc)
  next
    case False
    then show ?thesis using tail [of 0] by (intro exI [of _ 0]) auto
  qed
qed

lemma memcpy_eq:
  assumes "bytes m src xs" "mapped m dst (length xs)" "forward_ok dst src (length xs)"
  shows "memcpy m dst src (length xs) = Some (dst, wr m dst xs)"
  using copy_body_eq [OF assms] by (auto simp: memcpy_def)

lemma mempcpy_eq:
  assumes "bytes m src xs" "mapped m dst (length xs)" "forward_ok dst src (length xs)"
  shows "mempcpy m dst src (length xs) = Some (dst + length xs, wr m dst xs)"
  using copy_body_eq [OF assms] by (auto simp: mempcpy_def)

section \<open>Copying backward\<close>

lemma copy_back_eq:
  assumes "bytes m s xs" "mapped m d (length xs)" "s < d"
  shows "copy_back (length xs) m (d + length xs) (s + length xs) = Some (wr m d xs)"
  using assms
proof (induction xs arbitrary: m rule: rev_induct)
  case (snoc x xs)
  let ?m = "wr m (d + length xs) [x]"
  have m: "m (s + length xs) = Some x" "m (d + length xs) \<noteq> None" "mapped m d (length xs)" "bytes m s xs"
    using snoc.prems mapped_add [of m d "length xs" 1] by auto
  then have "bytes ?m s xs" "mapped ?m d (length xs)"
    using snoc.prems by (auto simp: bytes_wr_disjoint disjoint_regions_def)
  then have "copy_back (length xs) ?m (d + length xs) (s + length xs) = Some (wr ?m d xs)"
    using snoc.prems by (intro snoc.IH)
  moreover have "wr ?m d xs = wr m d (xs @ [x])"
    by (rule ext) (auto simp: wr_def nth_append)
  ultimately show ?case using m by (simp add: mem_simps)
qed simp

lemma int_of_size_small: "n < 2 ^ 31 \<Longrightarrow> int_of_size n = int n"
  unfolding int_of_size_def by (simp add: signed_of_nat signed_take_bit_int_eq_self)

lemma memmove_eq:
  assumes "bytes m src xs" "mapped m dst (length xs)" "length xs < 2 ^ 31"
  shows "memmove m dst src (length xs) = Some (dst, wr m dst xs)"
proof (cases "src < dst \<and> dst < src + length xs")
  case True
  with copy_back_eq [OF assms(1,2)] show ?thesis
    by (simp add: memmove_def int_of_size_small [OF assms(3)])
next
  case False
  then have "forward_ok dst src (length xs)" by (auto simp: forward_ok_def)
  with copy_body_eq [OF assms(1,2)] False show ?thesis
    by (auto simp: memmove_def int_of_size_small [OF assms(3)])
qed

section \<open>Filling\<close>

declare memset_align.simps [simp del] set_blocks.simps [simp del] set_words.simps [simp del]

lemma wr_replicate_Suc [mem_simps]:
  "wr (wr m p (replicate n c)) (p + n) (replicate k c) = wr m p (replicate (n + k) c)"
  by (simp add: replicate_add wr_append)

lemma set_bytes_eq: "mapped m p n \<Longrightarrow> set_bytes c n m p = Some (wr m p (replicate n c))"
proof (induction n arbitrary: m p)
  case (Suc n)
  then have "set_bytes c n (wr m p [c]) (p + 1) = Some (wr (wr m p [c]) (p + 1) (replicate n c))"
    by (intro Suc.IH) auto
  with Suc.prems show ?case by (simp add: mem_simps)
qed simp

lemma store32_fill:
  "mapped m p 4 \<Longrightarrow> store32 m p (fill_mask c) = Some (wr m p (replicate 4 c))"
  by (simp add: fill_mask_eq store32_word32 numeral_eq_Suc)

lemma set_words_eq:
  "mapped m p n \<Longrightarrow>
     \<exists>k \<le> n. set_words (fill_mask c) n m p = Some (n - k, wr m p (replicate k c), p + k)"
proof (induction n arbitrary: m p rule: less_induct)
  case (less n)
  show ?case
  proof (cases "4 \<le> n")
    case True
    with less.prems have mp: "mapped m p 4" "mapped m (p + 4) (n - 4)"
      using mapped_add [of m p 4 "n - 4"] by auto
    then obtain k where "k \<le> n - 4" "set_words (fill_mask c) (n - 4) (wr m p (replicate 4 c)) (p + 4) =
        Some (n - 4 - k, wr (wr m p (replicate 4 c)) (p + 4) (replicate k c), p + 4 + k)"
      using less.IH [of "n - 4" "wr m p (replicate 4 c)" "p + 4"] True by auto
    with True mp show ?thesis
      by (intro exI [of _ "4 + k"]) (subst set_words.simps, auto simp: store32_fill mem_simps add.assoc)
  next
    case False
    then show ?thesis by (intro exI [of _ 0]) (subst set_words.simps, simp)
  qed
qed

lemma set_blocks_eq:
  "mapped m p n \<Longrightarrow>
     \<exists>k \<le> n. set_blocks (fill_mask c) n m p = Some (n - k, wr m p (replicate k c), p + k)"
proof (induction n arbitrary: m p rule: less_induct)
  case (less n)
  show ?case
  proof (cases "16 \<le> n")
    case True
    with less.prems have mp: "mapped m p 16" "mapped m (p + 16) (n - 16)"
      using mapped_add [of m p 16 "n - 16"] by auto
    note w = mapped_16 [OF mp(1)]
    let ?r = "\<lambda>k. wr m p (replicate k c)"
    have m: "mapped (?r k) q j = mapped m q j" if "k \<le> 16" for k q j
      using mapped_le [OF mp(1) that] by simp
    have st: "store32 (?r i) (p + i) (fill_mask c) = Some (?r (i + 4))" if "i \<in> {0, 4, 8, 12}" for i
      using that w by (subst store32_fill) (auto simp: m mem_simps)
    obtain k where "k \<le> n - 16" "set_blocks (fill_mask c) (n - 16) (?r 16) (p + 16) =
        Some (n - 16 - k, wr (?r 16) (p + 16) (replicate k c), p + 16 + k)"
      using less.IH [of "n - 16" "?r 16" "p + 16"] True mp by (auto simp: m)
    with True st [of 0] st [of 4] st [of 8] st [of 12] show ?thesis
      by (intro exI [of _ "16 + k"]) (subst set_blocks.simps, auto simp: mem_simps add.assoc)
  next
    case False
    then show ?thesis by (intro exI [of _ 0]) (subst set_blocks.simps, simp)
  qed
qed

lemma memset_align_eq:
  "mapped m p n \<Longrightarrow>
     memset_align c n m p = Some (Inl (wr m p (replicate n c))) \<or>
     (\<exists>k \<le> n. memset_align c n m p = Some (Inr (n - k, wr m p (replicate k c), p + k)))"
proof (induction n arbitrary: m p)
  case (Suc n)
  show ?case
  proof (cases "unaligned p")
    case True
    then have "memset_align c (Suc n) m p = memset_align c n (wr m p [c]) (p + 1)"
      using Suc.prems by (subst memset_align.simps) (simp add: mem_simps)
    moreover have "mapped (wr m p [c]) (p + 1) n" using Suc.prems by simp
    ultimately show ?thesis
      using Suc.IH [of "wr m p [c]" "p + 1"] by (force simp: mem_simps)
  qed (subst (1 2) memset_align.simps, auto)
qed (subst (1 2) memset_align.simps, auto)

lemma ucast_and_255: "(ucast (c AND 0xff) :: byte) = ucast (c :: u32)"
proof -
  have m: "(0xff :: u32) = mask 8" by (simp add: mask_eq_exp_minus_1)
  show ?thesis unfolding m by (rule bit_word_eqI) (auto simp: bit_simps)
qed

lemma memset_eq:
  assumes "mapped m p n"
  shows "memset m p c n = Some (p, wr m p (replicate n (ucast c)))"
proof -
  let ?c = "ucast c :: byte"
  let ?r = "\<lambda>k. wr m p (replicate k ?c)"
  have d: "ucast (c AND 0xff) = ?c" by (rule ucast_and_255)
  have m: "mapped (?r k) (p + k) (n - k)" if "k \<le> n" for k
    using assms mapped_le [OF assms that] mapped_add [of m p k "n - k"] that by simp
  have tail: "\<exists>j \<le> n. (if \<not> n - k < 4 then do { (n, m, s) \<leftarrow> set_blocks (fill_mask ?c) (n - k) (?r k) (p + k);
                                 set_words (fill_mask ?c) n m s } else Some (n - k, ?r k, p + k))
       = Some (n - j, ?r j, p + j)" if k: "k \<le> n" for k
  proof (cases "n - k < 4")
    case False
    obtain i where i: "i \<le> n - k" "set_blocks (fill_mask ?c) (n - k) (?r k) (p + k) =
        Some (n - k - i, ?r (k + i), p + k + i)"
      using set_blocks_eq [OF m [OF k], of ?c] by (auto simp: mem_simps)
    have "k + i \<le> n" using i k by simp
    then obtain j where j: "j \<le> n - (k + i)" "set_words (fill_mask ?c) (n - (k + i)) (?r (k + i)) (p + (k + i)) =
        Some (n - (k + i) - j, ?r (k + i + j), p + (k + i) + j)"
      using set_words_eq [OF m [of "k + i"], of ?c] by (auto simp: mem_simps)
    with i k False show ?thesis by (intro exI [of _ "k + i + j"]) (auto simp: add.assoc)
  qed (use k in auto)
  have fin: "set_bytes ?c (n - j) (?r j) (p + j) = Some (?r n)" if "j \<le> n" for j
    using set_bytes_eq [OF m [OF that]] that by (simp add: mem_simps)
  show ?thesis
    using memset_align_eq [OF assms, of ?c]
  proof
    assume "\<exists>k\<le>n. memset_align ?c n m p = Some (Inr (n - k, ?r k, p + k))"
    then obtain k where k: "k \<le> n" "memset_align ?c n m p = Some (Inr (n - k, ?r k, p + k))" by blast
    obtain j where "j \<le> n" "(if \<not> n - k < 4 then do { (n, m, s) \<leftarrow> set_blocks (fill_mask ?c) (n - k) (?r k) (p + k);
                                 set_words (fill_mask ?c) n m s } else Some (n - k, ?r k, p + k))
       = Some (n - j, ?r j, p + j)" using tail [OF k(1)] by blast
    with k fin show ?thesis by (simp add: memset_def Let_def d)
  qed (simp add: memset_def Let_def)
qed

lemma bzero_eq: "mapped m p n \<Longrightarrow> bzero m p n = Some (wr m p (replicate n 0))"
  by (simp add: bzero_def set_bytes_eq)

lemma bcopy_eq:
  assumes "bytes m src xs" "mapped m dst (length xs)" "length xs < 2 ^ 31"
  shows "bcopy m src dst (length xs) = Some (wr m dst xs)"
  by (simp add: bcopy_def memmove_eq [OF assms])

section \<open>Copying up to a character\<close>

text \<open>What \<^verbatim>\<open>memccpy\<close> copies and returns: the bytes up to and with the first \<open>c\<close>, or all of them.\<close>

definition memccpy_spec :: "addr \<Rightarrow> byte \<Rightarrow> byte list \<Rightarrow> addr \<times> byte list" where
  "memccpy_spec dst c xs =
     (if c \<in> set xs
      then (dst + length (takeWhile (\<lambda>b. b \<noteq> c) xs) + 1, takeWhile (\<lambda>b. b \<noteq> c) xs @ [c])
      else (NULL, xs))"

lemma memccpy_spec_Cons:
  "memccpy_spec d c (x # xs) =
     (if x = c then (d + 1, [c]) else map_prod id ((#) x) (memccpy_spec (d + 1) c xs))"
  by (auto simp: memccpy_spec_def)

lemma memccpy_spec_append:
  "c \<notin> set ys \<Longrightarrow>
     memccpy_spec d c (ys @ xs) = map_prod id ((@) ys) (memccpy_spec (d + length ys) c xs)"
  by (induction ys arbitrary: d) (auto simp: memccpy_spec_Cons map_prod_def split: prod.split)

lemma memccpy_bytes_eq:
  assumes "bytes m s xs" "mapped m d (length xs)" "forward_ok d s (length xs)"
  shows "memccpy_bytes c (length xs) m d s = Some (map_prod id (wr m d) (memccpy_spec d c xs))"
  using assms
proof (induction xs arbitrary: m d s)
  case (Cons x xs)
  have "bytes (wr m d [x]) (s + 1) xs"
    using Cons.prems bytes_after_forward [of d s "[x]" xs m] by simp
  moreover have "forward_ok (d + 1) (s + 1) (length xs)"
    using forward_ok_rest [OF Cons.prems(3), of 1] by simp
  ultimately have "memccpy_bytes c (length xs) (wr m d [x]) (d + 1) (s + 1) =
      Some (map_prod id (wr (wr m d [x]) (d + 1)) (memccpy_spec (d + 1) c xs))"
    using Cons.prems by (intro Cons.IH) auto
  with Cons.prems show ?case
    by (cases "memccpy_spec (d + 1) c xs") (auto simp: mem_simps memccpy_spec_Cons)
qed (simp add: memccpy_spec_def)

declare memccpy_words.simps [simp del]

lemma memccpy_words_eq:
  assumes "bytes m s xs" "mapped m d (length xs)" "forward_ok d s (length xs)"
  shows "\<exists>k \<le> length xs. c \<notin> set (take k xs) \<and>
    memccpy_words (fill_mask c) (length xs) m d s = Some (length xs - k, wr m d (take k xs), d + k, s + k)"
  using assms
proof (induction "length xs" arbitrary: xs m d s rule: less_induct)
  case less
  show ?case
  proof (cases "4 \<le> length xs")
    case True
    then obtain b0 b1 b2 b3 zs where xs: "xs = [b0, b1, b2, b3] @ zs"
      by (auto simp: numeral_eq_Suc Suc_le_length_iff)
    let ?b = "[b0, b1, b2, b3]"
    have bs: "bytes m s ?b" and mp: "mapped m d 4" "mapped m (d + 4) (length zs)"
      and zs: "bytes m (s + 4) zs"
      using less.prems xs mapped_add [of m d 4 "length zs"] by (auto simp: numeral_eq_Suc)
    show ?thesis
    proof (cases "c \<in> set ?b")
      case True
      then show ?thesis using xs load32_bytes [OF bs] detectchar_word32 [of b0 b1 b2 b3 c]
        by (intro exI [of _ 0]) (subst memccpy_words.simps, auto simp: detectchar_def)
    next
      case False
      have fw: "forward_ok (d + 4) (s + 4) (length zs)"
        using forward_ok_rest [OF less.prems(3), of 4] xs by simp
      have "bytes (wr m d ?b) (s + 4) zs"
        using zs less.prems(3) xs bytes_after_forward [of d s ?b zs m] by (simp add: numeral_eq_Suc)
      moreover have "mapped m d (length ?b)" using mp(1) by (simp add: numeral_eq_Suc)
      then have "mapped (wr m d ?b) (d + 4) (length zs)" using mp(2) by (simp only: mapped_wr)
      ultimately obtain k where k: "k \<le> length zs" "c \<notin> set (take k zs)"
        "memccpy_words (fill_mask c) (length zs) (wr m d ?b) (d + 4) (s + 4) =
          Some (length zs - k, wr (wr m d ?b) (d + 4) (take k zs), d + 4 + k, s + 4 + k)"
        using less.hyps [of zs "wr m d ?b" "s + 4" "d + 4"] fw mp xs by auto
      have "memccpy_words (fill_mask c) (length xs) m d s =
          memccpy_words (fill_mask c) (length zs) (wr m d ?b) (d + 4) (s + 4)"
        using xs False load32_bytes [OF bs] detectchar_word32 [of b0 b1 b2 b3 c]
          copy_word_eq [of ?b m s d] bs mp
        by (subst memccpy_words.simps) (auto simp: detectchar_def)
      moreover have "take (4 + k) xs = ?b @ take k zs" using xs by (simp add: numeral_eq_Suc)
      moreover have "wr m d (?b @ take k zs) = wr (wr m d ?b) (d + 4) (take k zs)"
        by (simp only: wr_append) (simp add: numeral_eq_Suc)
      moreover have "length xs - (4 + k) = length zs - k" "4 + k \<le> length xs" using xs k(1) by simp_all
      moreover have "c \<notin> set (?b @ take k zs)" using False k(2) by auto
      ultimately show ?thesis using k(3)
        by (intro exI [of _ "4 + k"]) (simp only: add.assoc simp_thms)
    qed
  next
    case False
    then show ?thesis by (intro exI [of _ 0]) (subst memccpy_words.simps, simp)
  qed
qed

lemma memccpy_mask_ascii: "\<not> bit c 7 \<Longrightarrow> memccpy_mask c = fill_mask c"
proof -
  assume "\<not> bit c 7"
  then have "bit c (min 7 n) = bit c n" for n
    by (cases "n \<le> 7") (auto dest: bit_imp_le_length)
  then have "(scast c :: u32) = ucast c" by (intro bit_word_eqI) (auto simp: bit_simps)
  then show ?thesis
    by (simp add: memccpy_mask_def Let_def fill_mask_eq word32_sum push_bit_eq_mult algebra_simps)
qed

text \<open>
  \<^verbatim>\<open>memccpy\<close> meets its specification for the ASCII end characters, and for all of them when the
  word loop is not entered.
\<close>

lemma memccpy_eq:
  assumes "bytes m src xs" "mapped m dst (length xs)" "forward_ok dst src (length xs)"
    and "\<not> bit (ucast i :: byte) 7 \<or> length xs < 4 \<or> unaligned2 src dst"
  shows "memccpy m dst src i (length xs) =
    Some (map_prod id (wr m dst) (memccpy_spec dst (ucast i) xs))"
proof (cases "\<not> length xs < 4 \<and> \<not> unaligned2 src dst")
  case False
  then show ?thesis
    using memccpy_bytes_eq [OF assms(1-3), of "ucast i"] by (auto simp: memccpy_def ucast_and_255 Let_def)
next
  case True
  let ?c = "ucast i :: byte"
  from True assms(4) have msk: "memccpy_mask ?c = fill_mask ?c" by (simp add: memccpy_mask_ascii)
  obtain k where k: "k \<le> length xs" "?c \<notin> set (take k xs)" "memccpy_words (fill_mask ?c) (length xs) m dst src
      = Some (length xs - k, wr m dst (take k xs), dst + k, src + k)"
    using memccpy_words_eq [OF assms(1-3), of ?c] by blast
  let ?m = "wr m dst (take k xs)"
  have "bytes ?m (src + k) (drop k xs)" "mapped ?m (dst + k) (length (drop k xs))"
    "forward_ok (dst + k) (src + k) (length (drop k xs))"
    using assms k bytes_after_forward [of dst src "take k xs" "drop k xs" m]
      forward_ok_rest [of dst src "length xs" k] mapped_add [of m dst k "length xs - k"]
    by (auto simp: bytes_drop mapped_le)
  note memccpy_bytes_eq [OF this, of ?c]
  moreover have "memccpy_spec dst ?c xs = map_prod id ((@) (take k xs)) (memccpy_spec (dst + k) ?c (drop k xs))"
    using memccpy_spec_append [OF k(2), of dst "drop k xs"] k(1) by simp
  ultimately show ?thesis
    using True k msk by (cases "memccpy_spec (dst + k) ?c (drop k xs)")
      (simp add: memccpy_def ucast_and_255 wr_append Let_def)
qed

section \<open>Swapping bytes\<close>

fun swab_list :: "byte list \<Rightarrow> byte list" where
  "swab_list [] = []"
| "swab_list [x] = [0]"
| "swab_list (x # y # xs) = y # x # swab_list xs"

declare swab_loop.simps [simp del]

lemma length_swab_list [simp]: "length (swab_list xs) = length xs"
  by (induction xs rule: swab_list.induct) auto

lemma swab_loop_eq:
  assumes "bytes m (f + n) xs" "mapped m (t + n) (length xs)" "forward_ok (t + n) (f + n) (length xs)"
    and "len = int n + int (length xs)"
  shows "do { (m, ptr) \<leftarrow> swab_loop m f t (int n + 1) len;
              if ptr = len then store8 m (t + nat (ptr - 1)) 0 else Some m }
         = Some (wr m (t + n) (swab_list xs))"
  using assms
proof (induction xs arbitrary: m n rule: swab_list.induct)
  case 1
  then show ?case by (subst swab_loop.simps) simp
next
  case (2 x)
  then show ?case by (subst swab_loop.simps) (simp add: mem_simps)
next
  case (3 x y xs)
  let ?m = "wr m (t + n) [y, x]"
  have m: "m (f + n) = Some x" "m (f + n + 1) = Some y" "bytes m (f + n + 2) xs"
    "mapped m (t + n) 2" "mapped m (t + n + 2) (length xs)" "m (t + n) \<noteq> None" "m (t + n + 1) \<noteq> None"
    using "3.prems" by (auto simp: numeral_eq_Suc)
  have st: "store8 m (t + n) y = Some (wr m (t + n) [y])"
      "store8 (wr m (t + n) [y]) (Suc (t + n)) x = Some ?m"
    using m by (auto simp: mem_simps wr_at)
  have "bytes ?m (f + (n + 2)) xs"
    using m "3.prems"(3) bytes_after_forward [of "t + n" "f + n" "[y, x]" xs m] by (simp add: add.assoc)
  moreover have "mapped ?m (t + (n + 2)) (length xs)" using m by (simp add: add.assoc numeral_eq_Suc)
  moreover have "forward_ok (t + (n + 2)) (f + (n + 2)) (length xs)"
    using forward_ok_rest [OF "3.prems"(3), of 2] by (simp add: add.assoc)
  ultimately have IH: "do { (m, ptr) \<leftarrow> swab_loop ?m f t (int (n + 2) + 1) len;
              if ptr = len then store8 m (t + nat (ptr - 1)) 0 else Some m }
         = Some (wr ?m (t + (n + 2)) (swab_list xs))"
    using "3.prems"(4) by (intro "3.IH") auto
  have "swab_loop m f t (int n + 1) len = swab_loop ?m f t (int (n + 2) + 1) len"
    using "3.prems"(4) m st by (subst swab_loop.simps) (simp add: load8_def nat_add_distrib algebra_simps)
  with IH show ?case using wr_append [of m "t + n" "[y, x]" "swab_list xs"] by (simp add: add.assoc)
qed

lemma swab_eq:
  assumes "bytes m src xs" "mapped m dst (length xs)" "forward_ok dst src (length xs)"
  shows "swab m src dst (int (length xs)) = Some (wr m dst (swab_list xs))"
  using swab_loop_eq [of m src 0 xs dst "int (length xs)"] assms by (simp add: swab_def)

section \<open>The properties\<close>

text \<open>
  \<^verbatim>\<open>memcpy\<close> writes the \<open>n\<close> bytes of the source to the destination, changes nothing else, and
  returns the destination (\<^verbatim>\<open>mempcpy\<close>: the address after its end), whatever way the loops of 16, 4
  and 1 bytes divide the work.  The regions may even overlap when the destination is the lower one.
\<close>

theorem memcpy_correct:
  assumes "bytes m src xs" "length xs = n" "mapped m dst n" "forward_ok dst src n"
  shows "memcpy m dst src n = Some (dst, wr m dst xs) \<and>
    mempcpy m dst src n = Some (dst + n, wr m dst xs)"
  using memcpy_eq [of m src xs dst] mempcpy_eq [of m src xs dst] assms by auto

theorem memcpy_correct_witness:
  "memcpy (mem_image 4 [1, 2, 3, 0, 0, 0]) 7 4 3 =
     Some (7, wr (mem_image 4 [1, 2, 3, 0, 0, 0]) 7 [1, 2, 3])"
  using memcpy_correct [of "mem_image 4 [1, 2, 3, 0, 0, 0]" 4 "[1, 2, 3]" 3 7]
  by (simp add: mapped_mem_image forward_ok_def)

text \<open>
  C5.  \<^verbatim>\<open>memmove\<close> and \<^verbatim>\<open>bcopy\<close> copy correctly between any two regions, overlapping or not, of less than
  \<open>2 ^ 31\<close> bytes: the bytes written are those the source held before the call.
\<close>

theorem memmove_correct:
  assumes "bytes m src xs" "length xs = n" "mapped m dst n" "n < 2 ^ 31"
  shows "memmove m dst src n = Some (dst, wr m dst xs) \<and> bcopy m src dst n = Some (wr m dst xs)"
  using memmove_eq [of m src xs dst] bcopy_eq [of m src xs dst] assms by auto

theorem memmove_correct_witness:
  "memmove (mem_image 4 [1, 2, 3, 4, 5, 6]) 6 4 4 =
     Some (6, wr (mem_image 4 [1, 2, 3, 4, 5, 6]) 6 [1, 2, 3, 4])"
  using memmove_correct [of "mem_image 4 [1, 2, 3, 4, 5, 6]" 4 "[1, 2, 3, 4]" 4 6]
  by (simp add: mapped_mem_image)

text \<open>
  \<^verbatim>\<open>memset\<close> fills the region with the low byte of its argument and changes nothing else, and
  \<^verbatim>\<open>bzero\<close> fills it with zeros.
\<close>

theorem memset_correct:
  assumes "mapped m p n"
  shows "memset m p c n = Some (p, wr m p (replicate n (ucast c))) \<and>
    bzero m p n = Some (wr m p (replicate n 0))"
  using memset_eq [OF assms] bzero_eq [OF assms] by simp

theorem memset_correct_witness:
  "bzero (mem_image 3 [1, 2, 3, 4, 5, 6, 7]) 4 6 = Some (wr (mem_image 3 [1, 2, 3, 4, 5, 6, 7]) 4 [0, 0, 0, 0, 0, 0])"
proof -
  have "replicate 6 (0 :: byte) = [0, 0, 0, 0, 0, 0]" by (simp add: numeral_eq_Suc)
  then show ?thesis
    using memset_correct [of "mem_image 3 [1, 2, 3, 4, 5, 6, 7]" 4 6]
    by (simp add: mapped_mem_image)
qed

text \<open>
  \<^verbatim>\<open>memccpy\<close> copies the bytes up to and with the first end character and returns the address
  after it, or copies all and returns \<^verbatim>\<open>NULL\<close>.  The end character is ASCII, or the copy is one that
  does not go by words.
\<close>

theorem memccpy_correct:
  assumes "bytes m src xs" "length xs = n" "mapped m dst n" "forward_ok dst src n"
    and "\<not> bit (ucast i :: byte) 7 \<or> n < 4 \<or> unaligned2 src dst"
  shows "memccpy m dst src i n = Some (map_prod id (wr m dst) (memccpy_spec dst (ucast i) xs))"
  using memccpy_eq [of m src xs dst i] assms by auto

theorem memccpy_correct_witness:
  "memccpy (mem_image 4 [1, 2, 3, 0, 0, 0]) 7 4 2 3 =
     Some (9, wr (mem_image 4 [1, 2, 3, 0, 0, 0]) 7 [1, 2])"
  using memccpy_correct [of "mem_image 4 [1, 2, 3, 0, 0, 0]" 4 "[1, 2, 3]" 3 7 2]
  by (simp add: mapped_mem_image forward_ok_def memccpy_spec_def)

text \<open>
  The restriction is needed.  With the end character 255 in the source, the mask of the word loop
  is 0xFEFEFEFF, the loop does not see the character, and \<^verbatim>\<open>memccpy\<close> copies all and returns \<^verbatim>\<open>NULL\<close>.
\<close>

lemma memccpy_misses_255:
  "memccpy (mem_image 4 [1, 255, 3, 4, 0, 0, 0, 0]) 8 4 255 4 =
     Some (NULL, wr (mem_image 4 [1, 255, 3, 4, 0, 0, 0, 0]) 8 [1, 255, 3, 4])"
proof -
  let ?m = "mem_image 4 [1, 255, 3, 4, 0, 0, 0, 0]"
  have c: "(ucast (255 AND 0xff :: u32) :: byte) = 255" by code_simp
  have k: "memccpy_mask 255 = 0xFEFEFEFE + 1" by code_simp
  have bs: "bytes ?m 4 [1, 255, 3, 4]" by simp
  have d: "detectnull (word32 1 255 3 4 XOR (0xFEFEFEFE + 1)) = 0" by code_simp
  have "copy_word ?m 8 4 = Some (wr ?m 8 [1, 255, 3, 4])"
    using copy_word_eq [of "[1, 255, 3, 4]" ?m 4 8] bs by (simp add: mapped_mem_image)
  then have "memccpy_words (memccpy_mask 255) 4 ?m 8 4 = Some (0, wr ?m 8 [1, 255, 3, 4], 12, 8)"
    using load32_bytes [OF bs] d k by (simp add: memccpy_words.simps [of _ 4] memccpy_words.simps [of _ 0])
  then show ?thesis by (simp add: memccpy_def c unaligned2_def)
qed

end
