(* ===== verification/StrCopy.thy ===== *)
theory StrCopy
  imports StrScan MemCopy
begin

unbundle bit_operations_syntax

text \<open>
  The routines of \<^verbatim>\<open>src/runtime/libc/string\<close> that copy and join strings: \<^verbatim>\<open>strcpy\<close>, \<^verbatim>\<open>stpcpy\<close>, \<^verbatim>\<open>strncpy\<close>,
  \<^verbatim>\<open>stpncpy\<close>, \<^verbatim>\<open>strcat\<close>, \<^verbatim>\<open>strncat\<close>, \<^verbatim>\<open>strlcpy\<close>, \<^verbatim>\<open>strlcat\<close> and \<^verbatim>\<open>strxfrm\<close>.  The bounded ones are
  specified through \<open>cstr_upto\<close>, the string at an address as far as a limit lets it be seen.
\<close>

section \<open>The routines\<close>

text \<open>\<^verbatim>\<open>while (!DETECTNULL (*aligned_src)) *aligned_dst++ = *aligned_src++;\<close>\<close>

partial_function (option) strcpy_words :: "mem \<Rightarrow> addr \<Rightarrow> addr \<Rightarrow> (mem \<times> addr \<times> addr) option" where
  "strcpy_words m dst src =
     do { w \<leftarrow> load32 m src;
          if detectnull w = 0
          then do { m \<leftarrow> copy_word m dst src; strcpy_words m (dst + 4) (src + 4) }
          else Some (m, dst, src) }"

text \<open>\<^verbatim>\<open>while ((*dst++ = *src++)) ;\<close>\<close>

partial_function (option) strcpy_bytes :: "mem \<Rightarrow> addr \<Rightarrow> addr \<Rightarrow> (mem \<times> addr) option" where
  "strcpy_bytes m dst src =
     do { b \<leftarrow> load8 m src; m \<leftarrow> store8 m dst b;
          if b \<noteq> 0 then strcpy_bytes m (dst + 1) (src + 1) else Some (m, dst + 1) }"

definition strcpy :: "mem \<Rightarrow> addr \<Rightarrow> addr \<Rightarrow> (addr \<times> mem) option" where
  "strcpy m dst0 src0 =
     do { (m, dst, src) \<leftarrow> (if \<not> unaligned2 src0 dst0 then strcpy_words m dst0 src0
                           else Some (m, dst0, src0));
          (m, dst) \<leftarrow> strcpy_bytes m dst src;
          Some (dst0, m) }"

definition stpcpy :: "mem \<Rightarrow> addr \<Rightarrow> addr \<Rightarrow> (addr \<times> mem) option" where
  "stpcpy m dst0 src0 =
     do { (m, dst, src) \<leftarrow> (if \<not> unaligned2 src0 dst0 then strcpy_words m dst0 src0
                           else Some (m, dst0, src0));
          (m, dst) \<leftarrow> strcpy_bytes m dst src;
          Some (dst - 1, m) }"

fun strncpy_words :: "nat \<Rightarrow> mem \<Rightarrow> addr \<Rightarrow> addr \<Rightarrow> (nat \<times> mem \<times> addr \<times> addr) option" where
  "strncpy_words count m dst src =
     (if count \<ge> 4
      then do { w \<leftarrow> load32 m src;
                if detectnull w = 0
                then do { m \<leftarrow> copy_word m dst src;
                          strncpy_words (count - 4) m (dst + 4) (src + 4) }
                else Some (count, m, dst, src) }
      else Some (count, m, dst, src))"

text \<open>The byte loop also says where it stored a NUL, if it did (\<^verbatim>\<open>ret\<close> of \<^verbatim>\<open>stpncpy\<close>, else \<^verbatim>\<open>NULL\<close>).\<close>

primrec strncpy_bytes :: "nat \<Rightarrow> mem \<Rightarrow> addr \<Rightarrow> addr \<Rightarrow> (addr \<times> nat \<times> mem \<times> addr) option" where
  "strncpy_bytes 0 m dst src = Some (NULL, 0, m, dst)"
| "strncpy_bytes (Suc count) m dst src =
     do { b \<leftarrow> load8 m src; m \<leftarrow> store8 m dst b;
          if b = 0 then Some (dst, count, m, dst + 1)
          else strncpy_bytes count m (dst + 1) (src + 1) }"

definition strncpy :: "mem \<Rightarrow> addr \<Rightarrow> addr \<Rightarrow> nat \<Rightarrow> (addr \<times> mem) option" where
  "strncpy m dst0 src0 count =
     do { (count, m, dst, src) \<leftarrow>
            (if \<not> unaligned2 src0 dst0 \<and> \<not> count < 4 then strncpy_words count m dst0 src0
             else Some (count, m, dst0, src0));
          (_, count, m, dst) \<leftarrow> strncpy_bytes count m dst src;
          m \<leftarrow> set_bytes 0 count m dst;
          Some (dst0, m) }"

definition stpncpy :: "mem \<Rightarrow> addr \<Rightarrow> addr \<Rightarrow> nat \<Rightarrow> (addr \<times> mem) option" where
  "stpncpy m dst0 src0 count =
     do { (count, m, dst, src) \<leftarrow>
            (if \<not> unaligned2 src0 dst0 \<and> \<not> count < 4 then strncpy_words count m dst0 src0
             else Some (count, m, dst0, src0));
          (ret, count, m, dst) \<leftarrow> strncpy_bytes count m dst src;
          m \<leftarrow> set_bytes 0 count m dst;
          Some (if ret \<noteq> NULL then ret else dst + count, m) }"

text \<open>What \<^verbatim>\<open>strcat\<close> and \<^verbatim>\<open>strncat\<close> do first: skip to the NUL, by words when the start is aligned.\<close>

definition skip_to_end :: "mem \<Rightarrow> addr \<Rightarrow> addr option" where
  "skip_to_end m s1 =
     do { s1 \<leftarrow> (if \<not> unaligned s1 then word_scan (\<lambda>w. detectnull w \<noteq> 0) m s1 else Some s1);
          byte_scan (\<lambda>b. b = 0) m s1 }"

definition strcat :: "mem \<Rightarrow> addr \<Rightarrow> addr \<Rightarrow> (addr \<times> mem) option" where
  "strcat m s1 s2 =
     do { e \<leftarrow> skip_to_end m s1; (_, m) \<leftarrow> strcpy m e s2; Some (s1, m) }"

text \<open>\<^verbatim>\<open>while (n-- != 0 && (*s1++ = *s2++)) { if (n == 0) *s1 = '\0'; }\<close>\<close>

primrec strncat_loop :: "nat \<Rightarrow> mem \<Rightarrow> addr \<Rightarrow> addr \<Rightarrow> mem option" where
  "strncat_loop 0 m s1 s2 = Some m"
| "strncat_loop (Suc n) m s1 s2 =
     do { b \<leftarrow> load8 m s2; m \<leftarrow> store8 m s1 b;
          if b = 0 then Some m
          else do { m \<leftarrow> (if n = 0 then store8 m (s1 + 1) 0 else Some m);
                    strncat_loop n m (s1 + 1) (s2 + 1) } }"

definition strncat :: "mem \<Rightarrow> addr \<Rightarrow> addr \<Rightarrow> nat \<Rightarrow> (addr \<times> mem) option" where
  "strncat m s1 s2 n =
     do { e \<leftarrow> skip_to_end m s1; m \<leftarrow> strncat_loop n m e s2; Some (s1, m) }"

text \<open>
  The copying loop of \<^verbatim>\<open>strlcpy\<close>, entered with \<open>n\<close> not 0, and \<^verbatim>\<open>while (*s++) ;\<close>.
\<close>

primrec strlcpy_loop :: "nat \<Rightarrow> mem \<Rightarrow> addr \<Rightarrow> addr \<Rightarrow> (nat \<times> mem \<times> addr \<times> addr) option" where
  "strlcpy_loop 0 m d s = Some (0, m, d, s)"
| "strlcpy_loop (Suc n) m d s =
     do { b \<leftarrow> load8 m s; m \<leftarrow> store8 m d b;
          if b = 0 then Some (Suc n, m, d + 1, s + 1)
          else strlcpy_loop n m (d + 1) (s + 1) }"

definition strlcpy :: "mem \<Rightarrow> addr \<Rightarrow> addr \<Rightarrow> nat \<Rightarrow> (nat \<times> mem) option" where
  "strlcpy m dst src siz =
     do { (n, m, d, s) \<leftarrow> strlcpy_loop (siz - 1) m dst src;
          (m, s) \<leftarrow>
            (if n = 0
             then do { m \<leftarrow> (if siz \<noteq> 0 then store8 m d 0 else Some m);
                       e \<leftarrow> byte_scan (\<lambda>b. b = 0) m s;
                       Some (m, e + 1) }
             else Some (m, s));
          Some (s - src - 1, m) }"

partial_function (option) strlcat_loop :: "nat \<Rightarrow> mem \<Rightarrow> addr \<Rightarrow> addr \<Rightarrow> (mem \<times> addr \<times> addr) option" where
  "strlcat_loop n m d s =
     do { b \<leftarrow> load8 m s;
          if b = 0 then Some (m, d, s)
          else if n \<noteq> 1
               then do { m \<leftarrow> store8 m d b; strlcat_loop (n - 1) m (d + 1) (s + 1) }
               else strlcat_loop n m d (s + 1) }"

definition strlcat :: "mem \<Rightarrow> addr \<Rightarrow> addr \<Rightarrow> nat \<Rightarrow> (nat \<times> mem) option" where
  "strlcat m dst src siz =
     do { d \<leftarrow> strnlen_loop siz m dst;
          let dlen = d - dst; n = siz - dlen in
          if n = 0 then do { l \<leftarrow> strlen m src; Some (dlen + l, m) }
          else do { (m, d, s) \<leftarrow> strlcat_loop n m d src;
                    m \<leftarrow> store8 m d 0;
                    Some (dlen + (s - src), m) } }"

primrec strxfrm_loop :: "nat \<Rightarrow> mem \<Rightarrow> addr \<Rightarrow> addr \<Rightarrow> nat \<Rightarrow> (nat \<times> mem) option" where
  "strxfrm_loop 0 m s1 s2 res =
     do { e \<leftarrow> byte_scan (\<lambda>b. b = 0) m s2; Some (res + (e - s2), m) }"
| "strxfrm_loop (Suc n) m s1 s2 res =
     do { b \<leftarrow> load8 m s2; m \<leftarrow> store8 m s1 b;
          if b \<noteq> 0 then strxfrm_loop n m (s1 + 1) (s2 + 1) (res + 1)
          else Some (res, m) }"

definition strxfrm :: "mem \<Rightarrow> addr \<Rightarrow> addr \<Rightarrow> nat \<Rightarrow> (nat \<times> mem) option" where
  "strxfrm m s1 s2 n = strxfrm_loop n m s1 s2 0"

section \<open>A string as far as a limit lets it be seen\<close>

definition cstr_upto :: "mem \<Rightarrow> addr \<Rightarrow> nat \<Rightarrow> byte list \<Rightarrow> bool" where
  "cstr_upto m p n s \<longleftrightarrow>
     0 \<notin> set s \<and> length s \<le> n \<and> bytes m p s \<and> (length s < n \<longrightarrow> m (p + length s) = Some 0)"

lemma cstr_upto_take: "cstr m p s \<Longrightarrow> cstr_upto m p n (take n s)"
  by (auto simp: cstr_upto_def cstr_def bytes_take min_def dest: in_set_takeD)

lemma cstr_upto_cstr: "cstr m p s \<Longrightarrow> length s \<le> n \<Longrightarrow> cstr_upto m p n s"
  using cstr_upto_take [of m p s n] by simp

lemma cstr_upto_0 [simp]: "cstr_upto m p 0 s \<longleftrightarrow> s = []"
  by (auto simp: cstr_upto_def)

lemma cstr_upto_Suc:
  "cstr_upto m p (Suc n) s \<longleftrightarrow>
     (case s of [] \<Rightarrow> m p = Some 0 | c # t \<Rightarrow> c \<noteq> 0 \<and> m p = Some c \<and> cstr_upto m (p + 1) n t)"
  by (auto simp: cstr_upto_def split: list.split)

lemma cstr_upto_drop: "cstr_upto m p n s \<Longrightarrow> k \<le> length s \<Longrightarrow> cstr_upto m (p + k) (n - k) (drop k s)"
  by (auto simp: cstr_upto_def bytes_drop dest: in_set_dropD)

lemma cstr_upto_forward:
  assumes "forward_ok d p (length xs + n)"
  shows "cstr_upto (wr m d xs) (p + length xs) n t \<longleftrightarrow> cstr_upto m (p + length xs) n t"
proof (cases "length t \<le> n")
  case True
  have "bytes (wr m d xs) (p + length xs) t = bytes m (p + length xs) t"
    using assms True by (intro bytes_after_forward) (auto simp: forward_ok_def)
  moreover have "wr m d xs (p + length xs + length t) = m (p + length xs + length t)" if "length t < n"
    using assms that by (intro wr_apply_out) (auto simp: forward_ok_def)
  ultimately show ?thesis by (auto simp: cstr_upto_def)
qed (simp add: cstr_upto_def)

text \<open>An aligned word of the string: it is read whole, and the bit test tells whether the string goes on after it.\<close>

lemma cstr_upto_word:
  assumes "paged m" "p mod 4 = 0" "cstr_upto m p n s" "4 \<le> n"
  obtains xs w where "length xs = 4" "bytes m p xs" "load32 m p = Some w"
    "detectnull w = 0 \<longleftrightarrow> 4 \<le> length s" "4 \<le> length s \<Longrightarrow> take 4 s = xs"
proof -
  have "m p \<noteq> None" using assms(3,4) by (cases s; cases n) (auto simp: cstr_upto_def)
  then have "mapped m p 4" using assms(1,2) by (metis minus_nat.diff_0 paged_def)
  then obtain xs where xs: "length xs = 4" "bytes m p xs" using mapped_ex_bytes by blast
  then obtain b0 b1 b2 b3 where b: "xs = [b0, b1, b2, b3]"
    by (auto simp: numeral_eq_Suc length_Suc_conv)
  have nth: "s ! i = xs ! i" if "i < length s" "i < 4" for i
    using that assms(3) xs by (auto simp: cstr_upto_def bytes_nth)
  have tk: "take 4 s = xs" if "4 \<le> length s"
    using that xs nth by (intro nth_equalityI) auto
  have "0 \<in> set xs \<longleftrightarrow> \<not> 4 \<le> length s"
  proof
    assume "0 \<in> set xs"
    then show "\<not> 4 \<le> length s" using tk assms(3) by (auto simp: cstr_upto_def dest: in_set_takeD)
  next
    assume s: "\<not> 4 \<le> length s"
    then have "m (p + length s) = Some 0" using assms(3,4) by (simp add: cstr_upto_def)
    moreover have "m (p + length s) = Some (xs ! length s)" using bytesD [OF xs(2)] s xs(1) by simp
    ultimately show "0 \<in> set xs" using s xs(1) by (metis linorder_not_le nth_mem option.inject)
  qed
  moreover have "load32 m p = Some (word32 b0 b1 b2 b3)" using load32_bytes xs(2) b by blast
  moreover note detectnull_word32 [of b0 b1 b2 b3]
  ultimately show ?thesis using that [of xs "word32 b0 b1 b2 b3"] xs tk b by auto
qed

lemma cstr_iff_upto: "cstr m p s \<longleftrightarrow> cstr_upto m p (Suc (length s)) s"
  by (auto simp: cstr_def cstr_upto_def)

lemma cstr_forward:
  "forward_ok d p (length xs + Suc (length t)) \<Longrightarrow>
     cstr (wr m d xs) (p + length xs) t \<longleftrightarrow> cstr m (p + length xs) t"
  by (simp add: cstr_iff_upto cstr_upto_forward)

lemma wr_take_drop: "k \<le> length s \<Longrightarrow> wr (wr m d (take k s)) (d + k) (drop k s @ ys) = wr m d (s @ ys)"
  using wr_append [of m d "take k s" "drop k s @ ys"] by (simp flip: append_assoc)

lemma wr_step4:
  assumes "length xs = 4" "k \<le> length t"
  shows "wr (wr m d xs) (d + 4) (take k t) = wr m d (take (4 + k) (xs @ t))"
  using wr_append [of m d xs "take k t"] assms by simp

section \<open>The loops\<close>

lemma strcpy_words_eq:
  assumes "paged m" "\<not> unaligned2 src dst" "cstr m src s" "mapped m dst (Suc (length s))"
    and "forward_ok dst src (Suc (length s))"
  shows "\<exists>k \<le> length s. strcpy_words m dst src = Some (wr m dst (take k s), dst + k, src + k)"
  using assms
proof (induction "length s" arbitrary: s m dst src rule: less_induct)
  case less
  have up: "cstr_upto m src (length s + 4) s" using less.prems(3) by (rule cstr_upto_cstr) simp
  from less.prems(1) _ up obtain xs w where xs: "length xs = 4" "bytes m src xs"
    "load32 m src = Some w" "detectnull w = 0 \<longleftrightarrow> 4 \<le> length s" "4 \<le> length s \<Longrightarrow> take 4 s = xs"
    by (rule cstr_upto_word) (use less.prems(2) in \<open>auto simp: unaligned2_def\<close>)
  show ?case
  proof (cases "4 \<le> length s")
    case True
    obtain t where t: "s = xs @ t" using xs(5) [OF True] by (metis append_take_drop_id)
    let ?m = "wr m dst xs"
    have mp: "mapped m dst 4" "mapped m (dst + 4) (Suc (length t))"
      using less.prems(4) mapped_add [of m dst 4 "Suc (length t)"] t xs(1) by auto
    then have "paged ?m" "mapped ?m (dst + 4) (Suc (length t))"
      using paged_wr [of m dst xs] less.prems(1) xs(1) by simp_all
    moreover have "cstr ?m (src + 4) t"
      using cstr_forward [of dst src xs t m] less.prems(5) cstr_drop [OF less.prems(3), of 4] t xs(1)
      by simp
    moreover have "forward_ok (dst + 4) (src + 4) (Suc (length t))"
      using forward_ok_rest [OF less.prems(5), of 4] t xs(1) by simp
    moreover have "\<not> unaligned2 (src + 4) (dst + 4)"
      using less.prems(2) by (simp add: unaligned2_def)
    ultimately obtain k where k: "k \<le> length t"
      "strcpy_words ?m (dst + 4) (src + 4) = Some (wr ?m (dst + 4) (take k t), dst + 4 + k, src + 4 + k)"
      using less.hyps [of t ?m "src + 4" "dst + 4"] t xs(1) by auto
    moreover have "strcpy_words m dst src = strcpy_words ?m (dst + 4) (src + 4)"
      using True xs copy_word_eq [OF xs(1,2) mp(1)] by (subst strcpy_words.simps) simp
    ultimately show ?thesis using t xs(1) wr_step4 [OF xs(1) k(1), of m dst]
      by (intro exI [of _ "4 + k"]) simp
  next
    case False
    with xs show ?thesis by (intro exI [of _ 0]) (subst strcpy_words.simps, simp)
  qed
qed

declare strncpy_words.simps [simp del]

lemma strncpy_words_eq:
  assumes "paged m" "\<not> unaligned2 src dst" "cstr_upto m src n s" "mapped m dst n"
    and "forward_ok dst src n"
  shows "\<exists>k \<le> length s. strncpy_words n m dst src = Some (n - k, wr m dst (take k s), dst + k, src + k)"
  using assms
proof (induction n arbitrary: s m dst src rule: less_induct)
  case (less n)
  show ?case
  proof (cases "4 \<le> n")
    case n4: True
    from less.prems(1) _ less.prems(3) n4 obtain xs w where xs: "length xs = 4" "bytes m src xs"
      "load32 m src = Some w" "detectnull w = 0 \<longleftrightarrow> 4 \<le> length s" "4 \<le> length s \<Longrightarrow> take 4 s = xs"
      by (rule cstr_upto_word) (use less.prems(2) in \<open>auto simp: unaligned2_def\<close>)
    show ?thesis
    proof (cases "4 \<le> length s")
      case True
      obtain t where t: "s = xs @ t" using xs(5) [OF True] by (metis append_take_drop_id)
      let ?m = "wr m dst xs"
      have mp: "mapped m dst 4" "mapped m (dst + 4) (n - 4)"
        using less.prems(4) mapped_add [of m dst 4 "n - 4"] n4 by auto
      then have "paged ?m" "mapped ?m (dst + 4) (n - 4)"
        using paged_wr [of m dst xs] less.prems(1) xs(1) by simp_all
      moreover have "cstr_upto ?m (src + 4) (n - 4) t"
        using cstr_upto_forward [of dst src xs "n - 4" m t] less.prems(5) n4
          cstr_upto_drop [OF less.prems(3), of 4] t xs(1) by simp
      moreover have "forward_ok (dst + 4) (src + 4) (n - 4)"
        using forward_ok_rest [OF less.prems(5), of 4] n4 by simp
      moreover have "\<not> unaligned2 (src + 4) (dst + 4)"
        using less.prems(2) by (simp add: unaligned2_def)
      ultimately obtain k where k: "k \<le> length t" "strncpy_words (n - 4) ?m (dst + 4) (src + 4) =
          Some (n - 4 - k, wr ?m (dst + 4) (take k t), dst + 4 + k, src + 4 + k)"
        using less.IH [of "n - 4" ?m "src + 4" "dst + 4" t] n4 by auto
      moreover have "strncpy_words n m dst src = strncpy_words (n - 4) ?m (dst + 4) (src + 4)"
        using True n4 xs copy_word_eq [OF xs(1,2) mp(1)] by (subst strncpy_words.simps) simp
      ultimately show ?thesis using t xs(1) wr_step4 [OF xs(1) k(1), of m dst]
        by (intro exI [of _ "4 + k"]) simp
    next
      case False
      with xs n4 show ?thesis by (intro exI [of _ 0]) (subst strncpy_words.simps, simp)
    qed
  next
    case False
    then show ?thesis by (intro exI [of _ 0]) (subst strncpy_words.simps, simp)
  qed
qed

lemma forward_ok_Suc: "forward_ok d p (Suc n) \<Longrightarrow> forward_ok (d + 1) (p + 1) n"
  by (auto simp: forward_ok_def)

text \<open>What one step of a byte loop leaves for the rest of the string.\<close>

lemma cstr_upto_step:
  assumes "cstr_upto m p (Suc n) (c # s)" "forward_ok d p (Suc n)"
  shows "cstr_upto (wr m d [c]) (p + 1) n s"
  using assms cstr_upto_forward [of d p "[c]" n m s] by (simp add: cstr_upto_Suc)

lemma strcpy_bytes_eq:
  assumes "cstr m src s" "mapped m dst (Suc (length s))" "forward_ok dst src (Suc (length s))"
  shows "strcpy_bytes m dst src = Some (wr m dst (s @ [0]), dst + Suc (length s))"
  using assms
proof (induction s arbitrary: m dst src)
  case Nil
  then show ?case by (subst strcpy_bytes.simps) (simp add: cstr_Nil mem_simps)
next
  case (Cons c s)
  have c: "c \<noteq> 0" "m src = Some c" "m dst \<noteq> None" using Cons.prems by (auto simp: cstr_Cons)
  have "cstr (wr m dst [c]) (src + 1) s"
    using cstr_upto_step [of m src "Suc (length s)" c s dst] Cons.prems by (simp add: cstr_iff_upto)
  moreover have "mapped (wr m dst [c]) (dst + 1) (Suc (length s))"
    using Cons.prems(2) mapped_wr [of m dst "[c]"] by simp
  ultimately have "strcpy_bytes (wr m dst [c]) (dst + 1) (src + 1) =
      Some (wr (wr m dst [c]) (dst + 1) (s @ [0]), dst + 1 + Suc (length s))"
    using forward_ok_Suc [OF Cons.prems(3)] by (intro Cons.IH) simp_all
  with c show ?case by (subst strcpy_bytes.simps) (simp add: mem_simps)
qed

lemma strncpy_bytes_eq:
  assumes "cstr_upto m src n s" "mapped m dst n" "forward_ok dst src n"
  shows "strncpy_bytes n m dst src =
    (if length s < n then Some (dst + length s, n - Suc (length s), wr m dst (s @ [0]), dst + Suc (length s))
     else Some (NULL, 0, wr m dst s, dst + n))"
  using assms
proof (induction n arbitrary: m dst src s)
  case (Suc n)
  show ?case
  proof (cases s)
    case Nil
    with Suc.prems show ?thesis by (auto simp: cstr_upto_Suc mem_simps)
  next
    case (Cons c t)
    have c: "c \<noteq> 0" "m src = Some c" "m dst \<noteq> None" using Suc.prems Cons by (auto simp: cstr_upto_Suc)
    have "cstr_upto (wr m dst [c]) (src + 1) n t"
      using cstr_upto_step Suc.prems Cons by blast
    moreover have "mapped (wr m dst [c]) (dst + 1) n"
      using Suc.prems(2) mapped_wr [of m dst "[c]"] by simp
    moreover have "forward_ok (dst + 1) (src + 1) n" using Suc.prems(3) by (rule forward_ok_Suc)
    ultimately have "strncpy_bytes n (wr m dst [c]) (dst + 1) (src + 1) = 
      (if length t < n then Some (dst + 1 + length t, n - Suc (length t), wr (wr m dst [c]) (dst + 1) (t @ [0]), dst + 1 + Suc (length t))
       else Some (NULL, 0, wr (wr m dst [c]) (dst + 1) t, dst + 1 + n))"
      by (rule Suc.IH)
    with c Cons show ?thesis by (auto simp: mem_simps)
  qed
qed simp

section \<open>The routines do what they promise\<close>

text \<open>Words as far as they go, then bytes: together the whole string and its NUL.\<close>

lemma strcpy_body_eq:
  assumes "paged m" "cstr m src s" "mapped m dst (Suc (length s))" "forward_ok dst src (Suc (length s))"
  shows "do { (m, dst, src) \<leftarrow> (if \<not> unaligned2 src dst then strcpy_words m dst src else Some (m, dst, src));
              strcpy_bytes m dst src } = Some (wr m dst (s @ [0]), dst + Suc (length s))"
proof -
  have rest: "strcpy_bytes (wr m dst (take k s)) (dst + k) (src + k) =
      Some (wr m dst (s @ [0]), dst + Suc (length s))" if k: "k \<le> length s" for k
  proof -
    have "mapped m dst k" "mapped m (dst + k) (Suc (length (drop k s)))"
      using mapped_add [of m dst k "Suc (length (drop k s))"] assms(3) k by (auto simp: Suc_diff_le)
    then have "mapped (wr m dst (take k s)) (dst + k) (Suc (length (drop k s)))" using k by simp
    moreover have "cstr (wr m dst (take k s)) (src + k) (drop k s)"
      using cstr_forward [of dst src "take k s" "drop k s" m] cstr_drop [OF assms(2) k] assms(4) k by simp
    moreover have "forward_ok (dst + k) (src + k) (Suc (length (drop k s)))"
      using forward_ok_rest [OF assms(4), of k] k by (simp add: Suc_diff_le)
    ultimately show ?thesis using strcpy_bytes_eq [of "wr m dst (take k s)" "src + k" "drop k s" "dst + k"] k
      by (simp add: wr_take_drop)
  qed
  show ?thesis
    using rest [of 0] strcpy_words_eq [OF assms(1) _ assms(2-4)] rest by (cases "unaligned2 src dst") force+
qed

lemma strcpy_eq:
  assumes "paged m" "cstr m src s" "mapped m dst (Suc (length s))" "forward_ok dst src (Suc (length s))"
  shows "strcpy m dst src = Some (dst, wr m dst (s @ [0]))"
    and "stpcpy m dst src = Some (dst + length s, wr m dst (s @ [0]))"
  using strcpy_body_eq [OF assms] by (auto simp: strcpy_def stpcpy_def split: bind_splits if_splits)

lemma strncpy_body_eq:
  assumes "paged m" "cstr_upto m src n s" "mapped m dst n" "forward_ok dst src n"
  shows "do { (count, m, dst, src) \<leftarrow>
            (if \<not> unaligned2 src dst \<and> \<not> n < 4 then strncpy_words n m dst src else Some (n, m, dst, src));
              (ret, count, m, dst) \<leftarrow> strncpy_bytes count m dst src;
              m \<leftarrow> set_bytes 0 count m dst; Some (ret, dst + count, m) } =
     Some (if length s < n then dst + length s else NULL, dst + n, wr m dst (s @ replicate (n - length s) 0))"
  (is "?lhs = Some ?r")
proof -
  have rest: "do { (ret, count, m, dst) \<leftarrow> strncpy_bytes (n - k) (wr m dst (take k s)) (dst + k) (src + k);
              m \<leftarrow> set_bytes 0 count m dst; Some (ret, dst + count, m) } = Some ?r" if k: "k \<le> length s" for k
  proof -
    let ?t = "drop k s"
    have kn: "k \<le> n" "length s \<le> n" using k assms(2) by (auto simp: cstr_upto_def)
    have mk: "mapped m dst k" "mapped m (dst + k) (n - k)"
      using mapped_add [of m dst k "n - k"] assms(3) kn by auto
    then have "mapped (wr m dst (take k s)) (dst + k) (n - k)" using k by simp
    moreover have "cstr_upto (wr m dst (take k s)) (src + k) (n - k) ?t"
      using cstr_upto_forward [of dst src "take k s" "n - k" m ?t] cstr_upto_drop [OF assms(2) k] assms(4) k kn
      by simp
    moreover have "forward_ok (dst + k) (src + k) (n - k)"
      using forward_ok_rest [OF assms(4), of k] kn by simp
    ultimately have b: "strncpy_bytes (n - k) (wr m dst (take k s)) (dst + k) (src + k) =
      (if length s < n then Some (dst + length s, n - Suc (length s), wr m dst (s @ [0]), dst + Suc (length s))
       else Some (NULL, 0, wr m dst s, dst + n))"
      using strncpy_bytes_eq [of "wr m dst (take k s)" "src + k" "n - k" ?t "dst + k"] k kn
        wr_take_drop [OF k, of m dst "[]"] by (auto simp: wr_take_drop less_diff_conv)
    show ?thesis
    proof (cases "length s < n")
      case True
      have "mapped m dst (length (s @ [0]))" "mapped m (dst + length (s @ [0])) (n - Suc (length s))"
        using mapped_add [of m dst "Suc (length s)" "n - Suc (length s)"] assms(3) True by (auto simp del: mapped.simps)
      then have "mapped (wr m dst (s @ [0])) (dst + length (s @ [0])) (n - Suc (length s))"
        by (simp only: mapped_wr)
      note set_bytes_eq [OF this, of 0]
      then have "set_bytes 0 (n - Suc (length s)) (wr m dst (s @ [0])) (dst + Suc (length s)) =
          Some (wr m dst ((s @ [0]) @ replicate (n - Suc (length s)) 0))"
        by (simp only: wr_append [of m dst "s @ [0]"]) simp
      moreover have "s @ replicate (n - length s) 0 = (s @ [0]) @ replicate (n - Suc (length s)) 0"
        using True by (simp flip: replicate_Suc add: Suc_diff_Suc)
      ultimately show ?thesis using b True by (simp del: append_assoc)
    next
      case False
      with b kn show ?thesis by simp
    qed
  qed
  show ?thesis
  proof (cases "\<not> unaligned2 src dst \<and> \<not> n < 4")
    case True
    then obtain k where "k \<le> length s"
      "strncpy_words n m dst src = Some (n - k, wr m dst (take k s), dst + k, src + k)"
      using strncpy_words_eq [OF assms(1) _ assms(2-4)] by auto
    with True rest show ?thesis by simp
  next
    case False
    then have "(if \<not> unaligned2 src dst \<and> \<not> n < 4 then strncpy_words n m dst src else Some (n, m, dst, src)) =
        Some (n, m, dst, src)" by argo
    with rest [of 0] show ?thesis by simp
  qed
qed

lemma strncpy_eq:
  assumes "paged m" "cstr_upto m src n s" "mapped m dst n" "forward_ok dst src n"
  shows "strncpy m dst src n = Some (dst, wr m dst (s @ replicate (n - length s) 0))"
    and "dst \<noteq> NULL \<Longrightarrow> stpncpy m dst src n =
      Some (dst + length s, wr m dst (s @ replicate (n - length s) 0))"
proof -
  have "length s \<le> n" using assms(2) by (simp add: cstr_upto_def)
  moreover obtain c m1 d1 s1 c2 m2 d2 where
    "(if \<not> unaligned2 src dst \<and> \<not> n < 4 then strncpy_words n m dst src else Some (n, m, dst, src)) = Some (c, m1, d1, s1)"
    "strncpy_bytes c m1 d1 s1 = Some (if length s < n then dst + length s else NULL, c2, m2, d2)"
    "set_bytes 0 c2 m2 d2 = Some (wr m dst (s @ replicate (n - length s) 0))" "d2 + c2 = dst + n"
    using strncpy_body_eq [OF assms] by (auto simp: bind_eq_Some_conv split del: if_split)
  ultimately show "strncpy m dst src n = Some (dst, wr m dst (s @ replicate (n - length s) 0))"
    "dst \<noteq> NULL \<Longrightarrow> stpncpy m dst src n = Some (dst + length s, wr m dst (s @ replicate (n - length s) 0))"
    by (simp_all add: strncpy_def stpncpy_def split del: if_split) auto
qed

lemma skip_to_end_eq:
  assumes "paged m" "cstr m p s" shows "skip_to_end m p = Some (p + length s)"
proof (cases "unaligned p")
  case True
  with byte_scan_first_hit [OF cstr_first_hit [OF assms(2)]] show ?thesis by (simp add: skip_to_end_def)
next
  case False
  with null_test.word_then_byte_scan [OF assms(1) False cstr_first_hit [OF assms(2)]] show ?thesis
    by (simp add: skip_to_end_def)
qed

lemma strcat_eq:
  assumes "paged m" "cstr m s1 s" "cstr m s2 t"
    and "mapped m (s1 + length s) (Suc (length t))" "forward_ok (s1 + length s) s2 (Suc (length t))"
  shows "strcat m s1 s2 = Some (s1, wr m (s1 + length s) (t @ [0]))"
  using skip_to_end_eq [OF assms(1,2)] strcpy_eq(1) [OF assms(1,3-5)] by (simp add: strcat_def)

lemma strncat_loop_eq:
  assumes "cstr_upto m s2 n t" "mapped m s1 (Suc (length t))" "forward_ok s1 s2 (Suc n)" "m s1 = Some 0 \<or> n \<noteq> 0"
  shows "strncat_loop n m s1 s2 = Some (wr m s1 (t @ [0]))"
  using assms
proof (induction n arbitrary: m s1 s2 t)
  case 0
  then show ?case by (simp add: wr_same)
next
  case (Suc n)
  show ?case
  proof (cases t)
    case Nil
    with Suc.prems show ?thesis by (auto simp: cstr_upto_Suc mem_simps)
  next
    case (Cons c u)
    let ?m = "wr m s1 [c]"
    have c: "c \<noteq> 0" "m s2 = Some c" "m s1 \<noteq> None" "m (s1 + 1) \<noteq> None"
      using Suc.prems Cons by (auto simp: cstr_upto_Suc)
    have mp: "mapped ?m (s1 + 1) (Suc (length u))"
      using Suc.prems(2) Cons c mapped_wr [of m s1 "[c]"] by simp
    have up: "cstr_upto ?m (s2 + 1) n u"
      using cstr_upto_step [of m s2 n c u s1] Suc.prems Cons by (auto simp: forward_ok_def)
    show ?thesis
    proof (cases "n = 0")
      case True
      with up have "u = []" by simp
      with c Cons True show ?thesis by (simp add: mem_simps wr_at)
    next
      case False
      have "strncat_loop n ?m (s1 + 1) (s2 + 1) = Some (wr ?m (s1 + 1) (u @ [0]))"
        using up mp forward_ok_Suc [OF Suc.prems(3)] False by (intro Suc.IH) auto
      with c Cons False show ?thesis by (simp add: mem_simps)
    qed
  qed
qed

lemma strncat_eq:
  assumes "paged m" "cstr m s1 s" "cstr_upto m s2 n t"
    and "mapped m (s1 + length s) (Suc (length t))" "forward_ok (s1 + length s) s2 (Suc n)"
  shows "strncat m s1 s2 n = Some (s1, wr m (s1 + length s) (t @ [0]))"
proof -
  have "m (s1 + length s) = Some 0" using assms(2) by (simp add: cstr_def)
  then show ?thesis
    using skip_to_end_eq [OF assms(1,2)] strncat_loop_eq [OF assms(3-5)] by (simp add: strncat_def)
qed

lemma strlcpy_loop_eq:
  assumes "cstr m s t" "mapped m d (min n (Suc (length t)))" "forward_ok d s (Suc (length t))"
  shows "strlcpy_loop n m d s =
    (if length t < n then Some (n - length t, wr m d (t @ [0]), d + Suc (length t), s + Suc (length t))
     else Some (0, wr m d (take n t), d + n, s + n))"
  using assms
proof (induction n arbitrary: m d s t)
  case (Suc n)
  show ?case
  proof (cases t)
    case Nil
    with Suc.prems show ?thesis by (auto simp: cstr_Nil mem_simps)
  next
    case (Cons c u)
    let ?m = "wr m d [c]"
    have c: "c \<noteq> 0" "m s = Some c" "m d \<noteq> None" using Suc.prems Cons by (auto simp: cstr_Cons)
    have "cstr ?m (s + 1) u"
      using cstr_upto_step [of m s "Suc (length u)" c u d] Suc.prems Cons by (simp add: cstr_iff_upto)
    moreover have "mapped ?m (d + 1) (min n (Suc (length u)))"
      using Suc.prems(2) Cons c mapped_wr [of m d "[c]"] by simp
    moreover have "forward_ok (d + 1) (s + 1) (Suc (length u))"
      using forward_ok_Suc [OF Suc.prems(3)] Cons by simp
    ultimately have "strlcpy_loop n ?m (d + 1) (s + 1) =
      (if length u < n then Some (n - length u, wr ?m (d + 1) (u @ [0]), d + 1 + Suc (length u), s + 1 + Suc (length u))
       else Some (0, wr ?m (d + 1) (take n u), d + 1 + n, s + 1 + n))"
      by (rule Suc.IH)
    with c Cons show ?thesis by (auto simp: mem_simps)
  qed
qed simp

lemma strlcpy_eq:
  assumes "cstr m src t" "mapped m dst (min siz (Suc (length t)))"
    and "forward_ok dst src (Suc (length t))" "dst \<noteq> src"
  shows "strlcpy m dst src siz =
    Some (length t, if siz = 0 then m else wr m dst (take (siz - 1) t @ [0]))"
proof -
  let ?n = "siz - 1"
  have "mapped m dst (min ?n (Suc (length t)))" using mapped_le [OF assms(2)] by simp
  note lp = strlcpy_loop_eq [OF assms(1) this assms(3)]
  show ?thesis
  proof (cases "length t < ?n")
    case True
    with lp show ?thesis by (auto simp: strlcpy_def)
  next
    case False
    then have n: "?n \<le> length t" by simp
    let ?m = "wr m dst (take ?n t)"
    let ?m' = "if siz = 0 then m else wr m dst (take ?n t @ [0])"
    have st: "(if siz \<noteq> 0 then store8 ?m (dst + ?n) 0 else Some ?m) = Some ?m'"
    proof (cases "siz = 0")
      case sz: False
      have "mapped m dst siz" using assms(2) sz n by (simp add: min_def split: if_splits)
      then have "mapped m dst ?n" "m (dst + ?n) \<noteq> None"
        using mapped_add [of m dst ?n 1] sz by (auto intro: mapped_le)
      then have "?m (dst + ?n) \<noteq> None" using n by (simp add: wr_mapped)
      with sz n show ?thesis by (simp add: mem_simps wr_append)
    qed simp
    have "cstr ?m' (src + ?n) (drop ?n t)"
    proof (cases "siz = 0")
      case sz: False
      have "disjoint_regions dst (length (take ?n t @ [0])) (src + ?n) (Suc (length (drop ?n t)))"
        using assms(3,4) n by (auto simp: forward_ok_def disjoint_regions_def)
      with sz show ?thesis using cstr_wr_disjoint cstr_drop [OF assms(1) n] by simp
    qed (use assms(1) in simp)
    from byte_scan_first_hit [OF cstr_first_hit [OF this]] n
    have "byte_scan (\<lambda>b. b = 0) ?m' (src + ?n) = Some (src + length t)" by simp
    with lp st n show ?thesis by (cases "siz = 0") (simp_all add: strlcpy_def)
  qed
qed

lemma strnlen_loop_upto: "cstr_upto m p n s \<Longrightarrow> strnlen_loop n m p = Some (p + length s)"
  by (induction n arbitrary: p s) (auto simp: cstr_upto_Suc mem_simps split: list.splits)

lemma strlcat_loop_eq:
  assumes "cstr m s t" "mapped m d (min n (Suc (length t)))" "forward_ok d s (Suc (length t))" "n \<noteq> 0"
  shows "strlcat_loop n m d s = Some (wr m d (take (n - 1) t), d + min (n - 1) (length t), s + length t)"
  using assms
proof (induction t arbitrary: n m d s)
  case Nil
  then show ?case by (subst strlcat_loop.simps) (simp add: cstr_Nil mem_simps)
next
  case (Cons c t)
  have c: "c \<noteq> 0" "m s = Some c" "cstr m (s + 1) t" using Cons.prems by (auto simp: cstr_Cons)
  show ?case
  proof (cases "n = 1")
    case True
    have "strlcat_loop 1 m d (s + 1) = Some (wr m d (take (1 - 1) t), d + min (1 - 1) (length t), s + 1 + length t)"
      using Cons.prems c True by (intro Cons.IH) (auto simp: forward_ok_def)
    with True c show ?thesis by (subst strlcat_loop.simps) (simp add: mem_simps)
  next
    case False
    then obtain k where n: "n = Suc (Suc k)" using Cons.prems(4) by (metis One_nat_def not0_implies_Suc)
    let ?m = "wr m d [c]"
    have md: "m d \<noteq> None" using Cons.prems n by simp
    have "cstr ?m (s + 1) t"
      using cstr_upto_step [of m s "Suc (length t)" c t d] Cons.prems by (simp add: cstr_iff_upto)
    moreover have "mapped ?m (d + 1) (min (n - 1) (Suc (length t)))"
      using Cons.prems(2) n mapped_wr [of m d "[c]"] by simp
    ultimately have "strlcat_loop (n - 1) ?m (d + 1) (s + 1) =
        Some (wr ?m (d + 1) (take (n - 1 - 1) t), d + 1 + min (n - 1 - 1) (length t), s + 1 + length t)"
      using forward_ok_Suc [OF Cons.prems(3)] n by (intro Cons.IH) simp_all
    with c md n show ?thesis by (subst strlcat_loop.simps) (simp add: mem_simps)
  qed
qed

lemma strlcat_eq:
  assumes "paged m" "cstr_upto m dst siz ds" "cstr m src t"
    and "mapped m (dst + length ds) (min (siz - length ds) (Suc (length t)))"
    and "forward_ok (dst + length ds) src (Suc (length t))"
  shows "strlcat m dst src siz = Some (length ds + length t,
    if length ds = siz then m else wr m (dst + length ds) (take (siz - length ds - 1) t @ [0]))"
proof (cases "length ds = siz")
  case True
  with strnlen_loop_upto [OF assms(2)] strlen_cstr [OF assms(1,3)] show ?thesis by (simp add: strlcat_def)
next
  case False
  let ?d = "dst + length ds" and ?n = "siz - length ds"
  let ?u = "take (?n - 1) t"
  have n: "?n \<noteq> 0" using False assms(2) by (auto simp: cstr_upto_def)
  have "Suc (length ?u) = min ?n (Suc (length t))" using n by auto
  with assms(4) have "mapped m ?d (Suc (length ?u))" by argo
  then have "mapped m ?d (length ?u)" "m (?d + length ?u) \<noteq> None"
    using mapped_add [of m ?d "length ?u" 1] by auto
  then have "store8 (wr m ?d ?u) (?d + length ?u) 0 = Some (wr m ?d (?u @ [0]))"
    by (subst store8_wr) (simp_all only: wr_mapped wr_append not_False_eq_True)
  with strnlen_loop_upto [OF assms(2)] strlcat_loop_eq [OF assms(3-5) n] n False
  show ?thesis by (simp add: strlcat_def Let_def min.commute)
qed

lemma strxfrm_loop_eq:
  assumes "cstr m s2 t" "mapped m s1 (min n (Suc (length t)))" "forward_ok s1 s2 (Suc (length t))"
  shows "strxfrm_loop n m s1 s2 res = Some (res + length t, wr m s1 (take n (t @ [0])))"
  using assms
proof (induction n arbitrary: m s1 s2 t res)
  case 0
  with byte_scan_first_hit [OF cstr_first_hit [OF 0(1)]] show ?case by simp
next
  case (Suc n)
  show ?case
  proof (cases t)
    case Nil
    with Suc.prems show ?thesis by (auto simp: cstr_Nil mem_simps)
  next
    case (Cons c u)
    let ?m = "wr m s1 [c]"
    have c: "c \<noteq> 0" "m s2 = Some c" "m s1 \<noteq> None" using Suc.prems Cons by (auto simp: cstr_Cons)
    have "cstr ?m (s2 + 1) u"
      using cstr_upto_step [of m s2 "Suc (length u)" c u s1] Suc.prems Cons by (simp add: cstr_iff_upto)
    moreover have "mapped ?m (s1 + 1) (min n (Suc (length u)))"
      using Suc.prems(2) Cons c mapped_wr [of m s1 "[c]"] by simp
    moreover have "forward_ok (s1 + 1) (s2 + 1) (Suc (length u))"
      using forward_ok_Suc [OF Suc.prems(3)] Cons by simp
    ultimately have "strxfrm_loop n ?m (s1 + 1) (s2 + 1) (res + 1) =
        Some (res + 1 + length u, wr ?m (s1 + 1) (take n (u @ [0])))"
      by (rule Suc.IH)
    with c Cons show ?thesis by (simp add: mem_simps)
  qed
qed

section \<open>The properties\<close>

text \<open>
  \<^verbatim>\<open>strcpy\<close> writes the source string with its NUL at the destination and returns the destination;
  \<^verbatim>\<open>stpcpy\<close> does the same and returns the address of the NUL it wrote.  Nothing else changes, although
  the source is read word by word.
\<close>

theorem strcpy_correct:
  assumes "paged m" "cstr m src s" "mapped m dst (Suc (length s))" "forward_ok dst src (Suc (length s))"
  shows "strcpy m dst src = Some (dst, wr m dst (s @ [0])) \<and>
    stpcpy m dst src = Some (dst + length s, wr m dst (s @ [0]))"
  using strcpy_eq [OF assms] by simp

theorem strcpy_correct_witness:
  "strcpy (mem_image 4 [97, 98, 99, 0, 1, 2, 3, 4]) 8 4 =
     Some (8, wr (mem_image 4 [97, 98, 99, 0, 1, 2, 3, 4]) 8 [97, 98, 99, 0])"
  using strcpy_correct [of "mem_image 4 [97, 98, 99, 0, 1, 2, 3, 4]" 4 "[97, 98, 99]" 8]
  by (simp add: paged_mem_image cstr_def forward_ok_def)

text \<open>
  \<^verbatim>\<open>strncpy\<close> writes exactly \<open>n\<close> bytes: the source string cut at \<open>n\<close>, and NULs up to \<open>n\<close>.  \<^verbatim>\<open>stpncpy\<close>
  returns the address after the characters.  The source need not be terminated within its \<open>n\<close>
  bytes.
\<close>

theorem strncpy_correct:
  assumes "paged m" "cstr_upto m src n s" "mapped m dst n" "forward_ok dst src n" "dst \<noteq> NULL"
  shows "strncpy m dst src n = Some (dst, wr m dst (s @ replicate (n - length s) 0)) \<and>
    stpncpy m dst src n = Some (dst + length s, wr m dst (s @ replicate (n - length s) 0))"
  using strncpy_eq [OF assms(1-4)] assms(5) by simp

theorem strncpy_correct_witness:
  "strncpy (mem_image 4 [97, 98, 0, 0, 1, 2, 3, 4]) 8 4 4 =
     Some (8, wr (mem_image 4 [97, 98, 0, 0, 1, 2, 3, 4]) 8 [97, 98, 0, 0])"
proof -
  have "[97, 98] @ replicate 2 (0 :: byte) = [97, 98, 0, 0]" by (simp add: numeral_eq_Suc)
  then show ?thesis
    using strncpy_correct [of "mem_image 4 [97, 98, 0, 0, 1, 2, 3, 4]" 4 4 "[97, 98]" 8]
    by (simp add: paged_mem_image mapped_mem_image cstr_upto_def forward_ok_def)
qed

text \<open>
  \<^verbatim>\<open>strcat\<close> writes the second string with its NUL over the NUL of the first, so that a joined
  string is there; \<^verbatim>\<open>strncat\<close> does so with the second string cut at \<open>n\<close>, and always terminates it.
\<close>

theorem strcat_correct:
  assumes "paged m" "cstr m s1 s" "cstr m s2 t"
    and "mapped m (s1 + length s) (Suc (length t))"
    and "disjoint_regions s1 (Suc (length s + length t)) s2 (Suc (max n (length t)))"
  shows "strcat m s1 s2 = Some (s1, wr m (s1 + length s) (t @ [0])) \<and>
    cstr (wr m (s1 + length s) (t @ [0])) s1 (s @ t) \<and>
    strncat m s1 s2 n = Some (s1, wr m (s1 + length s) (take n t @ [0])) \<and>
    cstr (wr m (s1 + length s) (take n t @ [0])) s1 (s @ take n t)"
proof -
  have join: "cstr (wr m (s1 + length s) (u @ [0])) s1 (s @ u)" if "0 \<notin> set u" for u
  proof -
    have "bytes (wr m (s1 + length s) (u @ [0])) s1 s"
      using assms(2) by (subst bytes_wr_disjoint) (auto simp: disjoint_regions_def cstr_def)
    moreover have "bytes (wr m (s1 + length s) (u @ [0])) (s1 + length s) (u @ [0])" by (rule bytes_wr_same)
    ultimately show ?thesis using that assms(2) by (simp add: cstr_def add.assoc)
  qed
  have t: "0 \<notin> set t" "0 \<notin> set (take n t)" using assms(3) by (auto simp: cstr_def dest: in_set_takeD)
  have fw: "forward_ok (s1 + length s) s2 (Suc (length t))" "forward_ok (s1 + length s) s2 (Suc n)"
    using assms(5) by (auto simp: forward_ok_def disjoint_regions_def)
  have mp: "mapped m (s1 + length s) (Suc (length (take n t)))" using assms(4) by (rule mapped_le) simp
  from strcat_eq [OF assms(1-4) fw(1)] strncat_eq [OF assms(1,2) cstr_upto_take [OF assms(3)] mp fw(2)]
    join t show ?thesis by simp
qed

theorem strcat_correct_witness:
  "strncat (mem_image 4 [97, 98, 0, 1, 1, 99, 100, 0]) 4 9 1 =
     Some (4, wr (mem_image 4 [97, 98, 0, 1, 1, 99, 100, 0]) 6 [99, 0])"
  using strcat_correct [of "mem_image 4 [97, 98, 0, 1, 1, 99, 100, 0]" 4 "[97, 98]" 9 "[99, 100]" 1]
  by (simp add: paged_mem_image cstr_def disjoint_regions_def)

text \<open>
  \<^verbatim>\<open>strlcpy\<close> returns the length of the source, and leaves as much of it as fits in \<open>siz\<close> bytes with a
  NUL; \<^verbatim>\<open>strlcat\<close> does the same after the string already in the destination; \<^verbatim>\<open>strxfrm\<close> writes at most
  \<open>siz\<close> bytes of the string with its NUL and returns its length.
\<close>

theorem strlcpy_correct:
  assumes "paged m" "cstr m src t" "cstr_upto m dst siz ds" "mapped m dst siz"
    and "disjoint_regions dst siz src (Suc (length t))"
  shows "strlcpy m dst src siz = Some (length t, if siz = 0 then m else wr m dst (take (siz - 1) t @ [0])) \<and>
    strlcat m dst src siz = Some (length ds + length t,
      if length ds = siz then m else wr m (dst + length ds) (take (siz - length ds - 1) t @ [0])) \<and>
    strxfrm m dst src siz = Some (length t, wr m dst (take siz (t @ [0])))"
proof (cases "siz = 0")
  case True
  with assms(3) have "ds = []" by simp
  have fh: "byte_scan (\<lambda>b. b = 0) m src = Some (src + length t)"
    by (rule byte_scan_first_hit [OF cstr_first_hit [OF assms(2)]])
  with True \<open>ds = []\<close> strlen_cstr [OF assms(1,2)] show ?thesis
    by (simp add: strlcpy_def strlcat_def strxfrm_def)
next
  case False
  let ?m = "min siz (Suc (length t))"
  have ds: "length ds \<le> siz" using assms(3) by (simp add: cstr_upto_def)
  have mp: "mapped m dst ?m" "mapped m (dst + length ds) (min (siz - length ds) (Suc (length t)))"
    using mapped_le [OF assms(4), of ?m] mapped_add [of m dst "length ds" "siz - length ds"] assms(4) ds
    by (auto intro: mapped_le)
  have "forward_ok dst src (Suc (length t))" "dst \<noteq> src" "forward_ok (dst + length ds) src (Suc (length t))"
    using assms(5) False ds by (auto simp: forward_ok_def disjoint_regions_def)
  then show ?thesis
    using strlcpy_eq [OF assms(2) mp(1)] strlcat_eq [OF assms(1,3,2) mp(2)]
      strxfrm_loop_eq [OF assms(2) mp(1), of 0] by (simp add: strxfrm_def)
qed

theorem strlcpy_correct_witness:
  "strlcpy (mem_image 4 [97, 98, 0, 1, 1, 99, 100, 0]) 4 9 2 =
     Some (2, wr (mem_image 4 [97, 98, 0, 1, 1, 99, 100, 0]) 4 [99, 0])"
  using strlcpy_correct [of "mem_image 4 [97, 98, 0, 1, 1, 99, 100, 0]" 9 "[99, 100]" 4 2 "[97, 98]"]
  by (simp add: paged_mem_image mapped_mem_image cstr_def cstr_upto_def disjoint_regions_def)

end
