(* ===== verification/Ctype.thy ===== *)
theory Ctype
  imports CMem
begin

unbundle bit_operations_syntax

text \<open>
  Character classes: the table of \<^verbatim>\<open>ctype/ctype_.c\<close>, the predicates and conversions that read it
  (\<^verbatim>\<open>include/ctype.h\<close> and \<^verbatim>\<open>ctype/is*.c\<close>, \<^verbatim>\<open>ctype/to*.c\<close>), and \<^verbatim>\<open>strlwr\<close> and \<^verbatim>\<open>strupr\<close>.

  A character is an \<^verbatim>\<open>int\<close>.  The library is compiled with signed \<^verbatim>\<open>char\<close>, so the table is the one
  that may be indexed from -128 on; an index outside it is a fault, \<open>None\<close>.
\<close>

section \<open>The table\<close>

text \<open>\<^verbatim>\<open>_U\<close>, \<^verbatim>\<open>_L\<close>, \<^verbatim>\<open>_N\<close>, \<^verbatim>\<open>_S\<close>, \<^verbatim>\<open>_P\<close>, \<^verbatim>\<open>_C\<close>, \<^verbatim>\<open>_X\<close> and \<^verbatim>\<open>_B\<close>.\<close>

definition ct_U :: byte where "ct_U = 0x01"
definition ct_L :: byte where "ct_L = 0x02"
definition ct_N :: byte where "ct_N = 0x04"
definition ct_S :: byte where "ct_S = 0x08"
definition ct_P :: byte where "ct_P = 0x10"
definition ct_C :: byte where "ct_C = 0x20"
definition ct_X :: byte where "ct_X = 0x40"
definition ct_B :: byte where "ct_B = 0x80"

lemmas ct_defs = ct_U_def ct_L_def ct_N_def ct_S_def ct_P_def ct_C_def ct_X_def ct_B_def

definition ctype_data_0_127 :: "byte list" where
  "ctype_data_0_127 =
     [ct_C, ct_C, ct_C, ct_C, ct_C, ct_C, ct_C, ct_C,
      ct_C, ct_C OR ct_S, ct_C OR ct_S, ct_C OR ct_S, ct_C OR ct_S, ct_C OR ct_S, ct_C, ct_C,
      ct_C, ct_C, ct_C, ct_C, ct_C, ct_C, ct_C, ct_C,
      ct_C, ct_C, ct_C, ct_C, ct_C, ct_C, ct_C, ct_C,
      ct_S OR ct_B, ct_P, ct_P, ct_P, ct_P, ct_P, ct_P, ct_P,
      ct_P, ct_P, ct_P, ct_P, ct_P, ct_P, ct_P, ct_P,
      ct_N, ct_N, ct_N, ct_N, ct_N, ct_N, ct_N, ct_N,
      ct_N, ct_N, ct_P, ct_P, ct_P, ct_P, ct_P, ct_P,
      ct_P, ct_U OR ct_X, ct_U OR ct_X, ct_U OR ct_X, ct_U OR ct_X, ct_U OR ct_X, ct_U OR ct_X, ct_U,
      ct_U, ct_U, ct_U, ct_U, ct_U, ct_U, ct_U, ct_U,
      ct_U, ct_U, ct_U, ct_U, ct_U, ct_U, ct_U, ct_U,
      ct_U, ct_U, ct_U, ct_P, ct_P, ct_P, ct_P, ct_P,
      ct_P, ct_L OR ct_X, ct_L OR ct_X, ct_L OR ct_X, ct_L OR ct_X, ct_L OR ct_X, ct_L OR ct_X, ct_L,
      ct_L, ct_L, ct_L, ct_L, ct_L, ct_L, ct_L, ct_L,
      ct_L, ct_L, ct_L, ct_L, ct_L, ct_L, ct_L, ct_L,
      ct_L, ct_L, ct_L, ct_P, ct_P, ct_P, ct_P, ct_C]"

definition ctype_data_128_256 :: "byte list" where
  "ctype_data_128_256 = replicate 128 0"

definition ctype_b :: "byte list" where
  "ctype_b = ctype_data_128_256 @ ctype_data_0_127 @ ctype_data_128_256"

text \<open>\<^verbatim>\<open>__ctype_ptr__[c + 1]\<close>, where \<^verbatim>\<open>__ctype_ptr__\<close> is \<^verbatim>\<open>_ctype_b + 127\<close>.\<close>

definition ctype_at :: "int \<Rightarrow> byte option" where
  "ctype_at c = (if -128 \<le> c \<and> c < 256 then Some (ctype_b ! nat (c + 1 + 127)) else None)"

text \<open>\<^verbatim>\<open>__ctype_ptr__[c + 1] & flags\<close>, an \<^verbatim>\<open>int\<close> that is tested for not being 0.\<close>

definition ctype_and :: "byte \<Rightarrow> int \<Rightarrow> byte option" where
  "ctype_and flags c = map_option (\<lambda>b. b AND flags) (ctype_at c)"

section \<open>Predicates\<close>

definition isalpha :: "int \<Rightarrow> bool option" where
  "isalpha c = map_option (\<lambda>r. r \<noteq> 0) (ctype_and (ct_U OR ct_L) c)"

definition isupper :: "int \<Rightarrow> bool option" where
  "isupper c = map_option (\<lambda>r. r \<noteq> 0) (ctype_and (ct_U) c)"

definition islower :: "int \<Rightarrow> bool option" where
  "islower c = map_option (\<lambda>r. r \<noteq> 0) (ctype_and (ct_L) c)"

definition isdigit :: "int \<Rightarrow> bool option" where
  "isdigit c = map_option (\<lambda>r. r \<noteq> 0) (ctype_and (ct_N) c)"

definition isxdigit :: "int \<Rightarrow> bool option" where
  "isxdigit c = map_option (\<lambda>r. r \<noteq> 0) (ctype_and (ct_X OR ct_N) c)"

definition isspace :: "int \<Rightarrow> bool option" where
  "isspace c = map_option (\<lambda>r. r \<noteq> 0) (ctype_and (ct_S) c)"

definition ispunct :: "int \<Rightarrow> bool option" where
  "ispunct c = map_option (\<lambda>r. r \<noteq> 0) (ctype_and (ct_P) c)"

definition isalnum :: "int \<Rightarrow> bool option" where
  "isalnum c = map_option (\<lambda>r. r \<noteq> 0) (ctype_and (ct_U OR ct_L OR ct_N) c)"

definition isprint :: "int \<Rightarrow> bool option" where
  "isprint c = map_option (\<lambda>r. r \<noteq> 0) (ctype_and (ct_P OR ct_U OR ct_L OR ct_N OR ct_B) c)"

definition isgraph :: "int \<Rightarrow> bool option" where
  "isgraph c = map_option (\<lambda>r. r \<noteq> 0) (ctype_and (ct_P OR ct_U OR ct_L OR ct_N) c)"

definition iscntrl :: "int \<Rightarrow> bool option" where
  "iscntrl c = map_option (\<lambda>r. r \<noteq> 0) (ctype_and (ct_C) c)"

definition isblank :: "int \<Rightarrow> bool" where
  "isblank c \<longleftrightarrow> c = 32 \<or> c = 9"

definition isascii :: "int \<Rightarrow> bool" where
  "isascii c \<longleftrightarrow> c \<ge> 0 \<and> c < 128"

section \<open>Conversions\<close>

definition toupper :: "int \<Rightarrow> int option" where
  "toupper c = do { l \<leftarrow> islower c; Some (if l then c - 97 + 65 else c) }"

definition tolower :: "int \<Rightarrow> int option" where
  "tolower c = do { u \<leftarrow> isupper c; Some (if u then c - 65 + 97 else c) }"

definition toascii :: "int \<Rightarrow> int" where
  "toascii c = c AND 0x7F"

text \<open>The functions \<^verbatim>\<open>_toupper\<close> and \<^verbatim>\<open>_tolower\<close>.\<close>

definition toupper' :: "int \<Rightarrow> int option" where
  "toupper' c = do { l \<leftarrow> islower c; Some (if l then c - 97 + 65 else c) }"

definition tolower' :: "int \<Rightarrow> int option" where
  "tolower' c = do { u \<leftarrow> isupper c; Some (if u then c - 65 + 97 else c) }"

text \<open>\<^verbatim>\<open>strlwr\<close> and \<^verbatim>\<open>strupr\<close>; a character of the string is a signed \<^verbatim>\<open>char\<close>.\<close>

partial_function (option) strlwr_loop :: "mem \<Rightarrow> addr \<Rightarrow> mem option" where
  "strlwr_loop m a =
     do { b \<leftarrow> load8 m a;
          if b = 0 then Some m
          else do { u \<leftarrow> isupper (sint b);
                    m \<leftarrow> (if u then do { l \<leftarrow> tolower (sint b); store8 m a (word_of_int l) } else Some m);
                    strlwr_loop m (a + 1) } }"

definition strlwr :: "mem \<Rightarrow> addr \<Rightarrow> (addr \<times> mem) option" where
  "strlwr m a = do { m \<leftarrow> strlwr_loop m a; Some (a, m) }"

partial_function (option) strupr_loop :: "mem \<Rightarrow> addr \<Rightarrow> mem option" where
  "strupr_loop m a =
     do { b \<leftarrow> load8 m a;
          if b = 0 then Some m
          else do { u \<leftarrow> islower (sint b);
                    m \<leftarrow> (if u then do { l \<leftarrow> toupper (sint b); store8 m a (word_of_int l) } else Some m);
                    strupr_loop m (a + 1) } }"

definition strupr :: "mem \<Rightarrow> addr \<Rightarrow> (addr \<times> mem) option" where
  "strupr m a = do { m \<leftarrow> strupr_loop m a; Some (a, m) }"

section \<open>What the table says\<close>

text \<open>A check of every entry of the table against the number of its character.\<close>

definition char_range :: "int list" where
  "char_range = [-128..255]"

lemma nth_upto': "i \<le> c \<Longrightarrow> c \<le> j \<Longrightarrow> [i..j] ! nat (c - i) = c"
  by (simp add: nth_upto)

lemma char_range_nth: "-128 \<le> c \<Longrightarrow> c < 256 \<Longrightarrow> char_range ! nat (c + 128) = c"
  unfolding char_range_def using nth_upto' [of "-128" c 255] by simp

lemma length_char_range: "length char_range = 384"
  unfolding char_range_def length_upto by simp

definition ctype_check :: "(int \<Rightarrow> byte \<Rightarrow> bool) \<Rightarrow> bool" where
  "ctype_check P = list_all (\<lambda>(c, b). P c b) (zip char_range ctype_b)"

lemma length_ctype_b: "length ctype_b = 384"
  by (simp add: ctype_b_def ctype_data_128_256_def ctype_data_0_127_def)

lemma ctype_checkD:
  assumes "ctype_check P" "-128 \<le> c" "c < 256"
  obtains b where "ctype_at c = Some b" "P c b"
proof -
  let ?i = "nat (c + 128)"
  have i: "?i < 384" using assms by auto
  have "char_range ! ?i = c" using assms by (simp add: char_range_nth)
  moreover have "?i < length (zip char_range ctype_b)" using i by (simp add: length_ctype_b length_char_range)
  ultimately have "P c (ctype_b ! ?i)"
    using assms(1) i by (auto simp: ctype_check_def list_all_length length_ctype_b length_char_range)
  then show ?thesis using that assms by (simp add: ctype_at_def add.commute)
qed

definition letter_upper :: "int \<Rightarrow> bool" where
  "letter_upper c \<longleftrightarrow> 65 \<le> c \<and> c \<le> 90"

definition letter_lower :: "int \<Rightarrow> bool" where
  "letter_lower c \<longleftrightarrow> 97 \<le> c \<and> c \<le> 122"

definition ctype_spec :: "int \<Rightarrow> byte \<Rightarrow> bool" where
  "ctype_spec c b \<longleftrightarrow>
     (b AND ct_U \<noteq> 0 \<longleftrightarrow> letter_upper c) \<and> (b AND ct_L \<noteq> 0 \<longleftrightarrow> letter_lower c) \<and>
     (b AND ct_N \<noteq> 0 \<longleftrightarrow> 48 \<le> c \<and> c \<le> 57) \<and>
     (b AND ct_S \<noteq> 0 \<longleftrightarrow> c = 32 \<or> 9 \<le> c \<and> c \<le> 13) \<and>
     (b AND ct_C \<noteq> 0 \<longleftrightarrow> 0 \<le> c \<and> c < 32 \<or> c = 127) \<and>
     (b AND ct_X \<noteq> 0 \<longleftrightarrow> 65 \<le> c \<and> c \<le> 70 \<or> 97 \<le> c \<and> c \<le> 102) \<and>
     (b AND ct_B \<noteq> 0 \<longleftrightarrow> c = 32) \<and>
     (b AND ct_P \<noteq> 0 \<longleftrightarrow>
        33 \<le> c \<and> c \<le> 47 \<or> 58 \<le> c \<and> c \<le> 64 \<or> 91 \<le> c \<and> c \<le> 96 \<or> 123 \<le> c \<and> c \<le> 126)"

lemma ctype_check_spec: "ctype_check ctype_spec"
  by code_simp

lemma ctype_and_or:
  "b AND (x OR y) \<noteq> 0 \<longleftrightarrow> b AND x \<noteq> 0 \<or> b AND y \<noteq> (0 :: byte)"
  by (simp add: bit.conj_disj_distrib or_eq_0_iff)

lemma graph_ranges:
  "(33 \<le> c \<and> c \<le> 47 \<or> 58 \<le> c \<and> c \<le> 64 \<or> 91 \<le> c \<and> c \<le> 96 \<or> 123 \<le> c \<and> c \<le> 126) \<or>
   65 \<le> c \<and> c \<le> 90 \<or> 97 \<le> c \<and> c \<le> 122 \<or> 48 \<le> c \<and> c \<le> 57 \<longleftrightarrow> 33 \<le> c \<and> c \<le> (126 :: int)"
  by presburger

lemma punct_ranges:
  "33 \<le> c \<and> c \<le> 47 \<or> 58 \<le> c \<and> c \<le> 64 \<or> 91 \<le> c \<and> c \<le> 96 \<or> 123 \<le> c \<and> c \<le> 126 \<longleftrightarrow>
   33 \<le> c \<and> c \<le> (126 :: int) \<and> \<not> (65 \<le> c \<and> c \<le> 90 \<or> 97 \<le> c \<and> c \<le> 122 \<or> 48 \<le> c \<and> c \<le> 57)"
  by presburger

lemma ctype_spec_at:
  assumes "-128 \<le> c" "c < 256" obtains b where "ctype_at c = Some b" "ctype_spec c b"
  using ctype_checkD [OF ctype_check_spec assms] by blast

text \<open>Every predicate is defined on the characters -128 to 255, and decides the class it is named after.\<close>

lemma ctype_preds:
  assumes "-128 \<le> c" "c < 256"
  shows isupper_eq: "isupper c = Some (letter_upper c)"
    and islower_eq: "islower c = Some (letter_lower c)"
    and isalpha_eq: "isalpha c = Some (letter_upper c \<or> letter_lower c)"
    and isdigit_eq: "isdigit c = Some (48 \<le> c \<and> c \<le> 57)"
    and isxdigit_eq: "isxdigit c = Some ((65 \<le> c \<and> c \<le> 70 \<or> 97 \<le> c \<and> c \<le> 102) \<or> 48 \<le> c \<and> c \<le> 57)"
    and isspace_eq: "isspace c = Some (c = 32 \<or> 9 \<le> c \<and> c \<le> 13)"
    and iscntrl_eq: "iscntrl c = Some (0 \<le> c \<and> c < 32 \<or> c = 127)"
    and isalnum_eq: "isalnum c = Some (letter_upper c \<or> letter_lower c \<or> 48 \<le> c \<and> c \<le> 57)"
    and isgraph_eq: "isgraph c = Some (33 \<le> c \<and> c \<le> 126)"
    and isprint_eq: "isprint c = Some (32 \<le> c \<and> c \<le> 126)"
proof -
  obtain b where b: "ctype_at c = Some b" "ctype_spec c b" using ctype_spec_at [OF assms] .
  note d = ctype_and_def b(1) ctype_and_or
  note s = b(2) [unfolded ctype_spec_def]
  show "isupper c = Some (letter_upper c)" "islower c = Some (letter_lower c)"
    "isdigit c = Some (48 \<le> c \<and> c \<le> 57)" "isspace c = Some (c = 32 \<or> 9 \<le> c \<and> c \<le> 13)"
    "iscntrl c = Some (0 \<le> c \<and> c < 32 \<or> c = 127)"
    using s by (simp_all add: d isupper_def islower_def isdigit_def isspace_def iscntrl_def)
  show "isalpha c = Some (letter_upper c \<or> letter_lower c)"
    "isalnum c = Some (letter_upper c \<or> letter_lower c \<or> 48 \<le> c \<and> c \<le> 57)"
    "isxdigit c = Some ((65 \<le> c \<and> c \<le> 70 \<or> 97 \<le> c \<and> c \<le> 102) \<or> 48 \<le> c \<and> c \<le> 57)"
    unfolding isalpha_def isalnum_def isxdigit_def ctype_and_def b(1) option.map ctype_and_or
    using s by (simp_all only:)
  have "isgraph c = Some (b AND ct_P \<noteq> 0 \<or> b AND ct_U \<noteq> 0 \<or> b AND ct_L \<noteq> 0 \<or> b AND ct_N \<noteq> 0)"
    "isprint c = Some ((b AND ct_P \<noteq> 0 \<or> b AND ct_U \<noteq> 0 \<or> b AND ct_L \<noteq> 0 \<or> b AND ct_N \<noteq> 0) \<or> b AND ct_B \<noteq> 0)"
    by (simp_all add: d isgraph_def isprint_def) blast
  moreover have "b AND ct_P \<noteq> 0 \<or> b AND ct_U \<noteq> 0 \<or> b AND ct_L \<noteq> 0 \<or> b AND ct_N \<noteq> 0 \<longleftrightarrow> 33 \<le> c \<and> c \<le> 126"
  proof -
    have "b AND ct_U \<noteq> 0 \<longleftrightarrow> 65 \<le> c \<and> c \<le> 90" "b AND ct_L \<noteq> 0 \<longleftrightarrow> 97 \<le> c \<and> c \<le> 122"
      "b AND ct_N \<noteq> 0 \<longleftrightarrow> 48 \<le> c \<and> c \<le> 57" "b AND ct_P \<noteq> 0 \<longleftrightarrow>
        33 \<le> c \<and> c \<le> 47 \<or> 58 \<le> c \<and> c \<le> 64 \<or> 91 \<le> c \<and> c \<le> 96 \<or> 123 \<le> c \<and> c \<le> 126"
      using s by (simp_all only: letter_upper_def letter_lower_def)
    then show ?thesis unfolding graph_ranges [of c, symmetric] by (simp only:)
  qed
  moreover have "b AND ct_B \<noteq> 0 \<longleftrightarrow> c = 32" using s by (simp only:)
  ultimately show "isgraph c = Some (33 \<le> c \<and> c \<le> 126)" "isprint c = Some (32 \<le> c \<and> c \<le> 126)"
    by auto
qed

lemma ispunct_eq:
  assumes "-128 \<le> c" "c < 256"
  shows "ispunct c = Some (33 \<le> c \<and> c \<le> 126 \<and> \<not> (letter_upper c \<or> letter_lower c \<or> 48 \<le> c \<and> c \<le> 57))"
proof -
  obtain b where b: "ctype_at c = Some b" "ctype_spec c b" using ctype_spec_at [OF assms] .
  then have "ispunct c = Some (b AND ct_P \<noteq> 0)" by (simp add: ispunct_def ctype_and_def)
  moreover have "b AND ct_P \<noteq> 0 \<longleftrightarrow>
      33 \<le> c \<and> c \<le> 126 \<and> \<not> (letter_upper c \<or> letter_lower c \<or> 48 \<le> c \<and> c \<le> 57)"
    using b(2) unfolding ctype_spec_def letter_upper_def letter_lower_def punct_ranges [of c, symmetric]
    by (simp only:)
  ultimately show ?thesis by simp
qed

section \<open>Case conversion\<close>

definition lower :: "byte \<Rightarrow> byte" where
  "lower b = (if 65 \<le> b \<and> b \<le> 90 then b + 32 else b)"

definition upper :: "byte \<Rightarrow> byte" where
  "upper b = (if 97 \<le> b \<and> b \<le> 122 then b - 32 else b)"

lemma tolower_eq: "-128 \<le> c \<Longrightarrow> c < 256 \<Longrightarrow> tolower c = Some (if letter_upper c then c + 32 else c)"
  by (simp add: tolower_def isupper_eq)

lemma toupper_eq: "-128 \<le> c \<Longrightarrow> c < 256 \<Longrightarrow> toupper c = Some (if letter_lower c then c - 32 else c)"
  by (simp add: toupper_def islower_eq)

lemma uint_byte_range: "0 \<le> uint (b :: byte)" "uint (b :: byte) < 256"
  using uint_bounded [of b] by simp_all

lemma sint_byte: "sint (b :: byte) = (if uint b < 128 then uint b else uint b - 256)"
proof -
  have "bit (uint b) 7 \<longleftrightarrow> odd (uint b div 128)" by (simp add: bit_iff_odd)
  also have "uint b div 128 = (if uint b < 128 then 0 else 1)"
    using uint_byte_range [of b] by (auto intro: int_div_pos_eq [of _ _ _ "uint b - 128"])
  finally have "bit (uint b) 7 \<longleftrightarrow> \<not> uint b < 128" by simp
  moreover have "sint b = take_bit 8 (uint b) - 256 * of_bool (bit (uint b) 7)"
    by (simp add: sint_uint signed_take_bit_eq_take_bit_minus)
  moreover have "take_bit 8 (uint b) = uint b" using uint_byte_range [of b] by (simp add: take_bit_eq_mod)
  ultimately show ?thesis by simp
qed

lemma sint_byte_range: "-128 \<le> sint (b :: byte)" "sint (b :: byte) < 128"
  using uint_byte_range [of b]
  by (cases "uint b < 128"; simp only: sint_byte if_True if_False; linarith)+

lemma uint_lower: "uint (lower b) = (if letter_upper (uint b) then uint b + 32 else uint b)"
proof (cases "letter_upper (uint b)")
  case True
  then have "uint (b + 32) = uint b + 32" by (subst uint_add_lem [THEN iffD1]) (auto simp: letter_upper_def)
  with True show ?thesis by (simp add: lower_def letter_upper_def word_le_def)
next
  case False
  then show ?thesis by (auto simp: lower_def letter_upper_def word_le_def)
qed

lemma uint_upper: "uint (upper b) = (if letter_lower (uint b) then uint b - 32 else uint b)"
proof (cases "letter_lower (uint b)")
  case True
  then have "uint (b - 32) = uint b - 32" by (subst uint_sub_lem [THEN iffD1]) (auto simp: letter_lower_def)
  with True show ?thesis by (simp add: upper_def letter_lower_def word_le_def)
next
  case False
  then show ?thesis by (auto simp: upper_def letter_lower_def word_le_def)
qed

text \<open>On the value of a byte, read as a signed or an unsigned \<^verbatim>\<open>char\<close>, the conversions change the case of the byte.\<close>

lemma tolower_byte: "tolower (uint b) = Some (uint (lower b))" "tolower (sint b) = Some (sint (lower b))"
proof -
  note r = uint_byte_range [of b] sint_byte_range [of b]
  show "tolower (uint b) = Some (uint (lower b))" using r(1,2) by (subst tolower_eq) (linarith, simp_all add: uint_lower)
  have "tolower (sint b) = Some (if letter_upper (sint b) then sint b + 32 else sint b)"
    using r by (intro tolower_eq) auto
  then show "tolower (sint b) = Some (sint (lower b))"
    using r by (auto simp: sint_byte uint_lower letter_upper_def)
qed

lemma toupper_byte: "toupper (uint b) = Some (uint (upper b))" "toupper (sint b) = Some (sint (upper b))"
proof -
  note r = uint_byte_range [of b] sint_byte_range [of b]
  show "toupper (uint b) = Some (uint (upper b))" using r(1,2) by (subst toupper_eq) (linarith, simp_all add: uint_upper)
  have "toupper (sint b) = Some (if letter_lower (sint b) then sint b - 32 else sint b)"
    using r by (intro toupper_eq) auto
  then show "toupper (sint b) = Some (sint (upper b))"
    using r by (auto simp: sint_byte uint_upper letter_lower_def)
qed

lemma isupper_byte: "isupper (sint b) = Some (lower b \<noteq> b)"
proof -
  have "isupper (sint b) = Some (letter_upper (sint b))" 
    using sint_byte_range [of b] by (intro isupper_eq) auto
  moreover have "lower b \<noteq> b \<longleftrightarrow> uint (lower b) \<noteq> uint b" by (simp add: word_uint_eq_iff)
  ultimately show ?thesis
    using uint_byte_range [of b] unfolding uint_lower by (auto simp: sint_byte letter_upper_def)
qed

lemma islower_byte: "islower (sint b) = Some (upper b \<noteq> b)"
proof -
  have "islower (sint b) = Some (letter_lower (sint b))" 
    using sint_byte_range [of b] by (intro islower_eq) auto
  moreover have "upper b \<noteq> b \<longleftrightarrow> uint (upper b) \<noteq> uint b" by (simp add: word_uint_eq_iff)
  ultimately show ?thesis
    using uint_byte_range [of b] unfolding uint_upper by (auto simp: sint_byte letter_lower_def)
qed

lemma lower_0 [simp]: "lower 0 = 0" "upper 0 = 0" 
  by (simp_all add: lower_def upper_def)

lemma strlwr_loop_eq:
  "cstr m a s \<Longrightarrow> strlwr_loop m a = Some (wr m a (map lower s))"
proof (induction s arbitrary: m a)
  case Nil
  then show ?case by (subst strlwr_loop.simps) (simp add: cstr_Nil load8_def)
next
  case (Cons c s)
  then have c: "c \<noteq> 0" "m a = Some c" "cstr m (a + 1) s" by (simp_all add: cstr_Cons)
  have "(if lower c \<noteq> c then do { l \<leftarrow> tolower (sint c); store8 m a (word_of_int l) } else Some m) =
      Some (wr m a [lower c])" using c by (simp add: tolower_byte mem_simps)
  moreover have "cstr (wr m a [lower c]) (a + 1) s"
    using c by (subst cstr_wr_disjoint) (simp_all add: disjoint_regions_def)
  ultimately show ?case using c Cons.IH [of "wr m a [lower c]" "a + 1"]
    by (subst strlwr_loop.simps) (simp add: isupper_byte mem_simps)
qed

lemma strupr_loop_eq:
  "cstr m a s \<Longrightarrow> strupr_loop m a = Some (wr m a (map upper s))"
proof (induction s arbitrary: m a)
  case Nil
  then show ?case by (subst strupr_loop.simps) (simp add: cstr_Nil load8_def)
next
  case (Cons c s)
  then have c: "c \<noteq> 0" "m a = Some c" "cstr m (a + 1) s" by (simp_all add: cstr_Cons)
  have "(if upper c \<noteq> c then do { l \<leftarrow> toupper (sint c); store8 m a (word_of_int l) } else Some m) =
      Some (wr m a [upper c])" using c by (simp add: toupper_byte mem_simps)
  moreover have "cstr (wr m a [upper c]) (a + 1) s"
    using c by (subst cstr_wr_disjoint) (simp_all add: disjoint_regions_def)
  ultimately show ?case using c Cons.IH [of "wr m a [upper c]" "a + 1"]
    by (subst strupr_loop.simps) (simp add: islower_byte mem_simps)
qed

section \<open>The properties\<close>

text \<open>
  C18.  The predicates of \<^verbatim>\<open>ctype.h\<close> are defined for every \<^verbatim>\<open>char\<close>, signed or unsigned, and for \<^verbatim>\<open>EOF\<close>, and
  decide the classes of the C locale: the 384 entries of the table are right.
\<close>

theorem ctype_correct:
  assumes "-128 \<le> c" "c < 256"
  shows "isupper c = Some (65 \<le> c \<and> c \<le> 90) \<and> islower c = Some (97 \<le> c \<and> c \<le> 122) \<and>
    isalpha c = Some (65 \<le> c \<and> c \<le> 90 \<or> 97 \<le> c \<and> c \<le> 122) \<and>
    isdigit c = Some (48 \<le> c \<and> c \<le> 57) \<and>
    isalnum c = Some (65 \<le> c \<and> c \<le> 90 \<or> 97 \<le> c \<and> c \<le> 122 \<or> 48 \<le> c \<and> c \<le> 57) \<and>
    isxdigit c = Some ((65 \<le> c \<and> c \<le> 70 \<or> 97 \<le> c \<and> c \<le> 102) \<or> 48 \<le> c \<and> c \<le> 57) \<and>
    isspace c = Some (c = 32 \<or> 9 \<le> c \<and> c \<le> 13) \<and> iscntrl c = Some (0 \<le> c \<and> c < 32 \<or> c = 127) \<and>
    isgraph c = Some (33 \<le> c \<and> c \<le> 126) \<and> isprint c = Some (32 \<le> c \<and> c \<le> 126) \<and>
    ispunct c = Some (33 \<le> c \<and> c \<le> 47 \<or> 58 \<le> c \<and> c \<le> 64 \<or> 91 \<le> c \<and> c \<le> 96 \<or> 123 \<le> c \<and> c \<le> 126) \<and>
    (isblank c \<longleftrightarrow> c = 32 \<or> c = 9) \<and> (isascii c \<longleftrightarrow> 0 \<le> c \<and> c \<le> 127)"
  using ctype_preds [OF assms] ispunct_eq [OF assms] punct_ranges [of c] by (auto simp: letter_upper_def letter_lower_def isblank_def isascii_def)

theorem ctype_correct_witness: "isupper 81 = Some True \<and> isspace (-1) = Some False \<and> ispunct 33 = Some True"
  using ctype_correct [of 81] ctype_correct [of "-1"] ctype_correct [of 33] by simp

text \<open>
  \<^verbatim>\<open>strlwr\<close> and \<^verbatim>\<open>strupr\<close> convert every character of the string in place and return its address; the
  two conversions of a letter undo each other.
\<close>

lemma strlwr_strupr:
  assumes "cstr m a s"
  shows "strlwr m a = Some (a, wr m a (map lower s)) \<and> strupr m a = Some (a, wr m a (map upper s)) \<and>
    map lower (map upper s) = map lower s"
proof -
  have "lower (upper b) = lower b" for b
    using uint_byte_range [of b]
    by (subst word_uint_eq_iff) (auto simp: uint_lower uint_upper letter_upper_def letter_lower_def)
  then show ?thesis
    using strlwr_loop_eq [OF assms] strupr_loop_eq [OF assms] by (simp add: strlwr_def strupr_def)
qed

end
