(* ===== verification/StrCompare.thy ===== *)
theory StrCompare
  imports StrCopy Ctype
begin

unbundle bit_operations_syntax

text \<open>
  The comparisons of \<^verbatim>\<open>src/runtime/libc/string\<close>: \<^verbatim>\<open>memcmp\<close>, \<^verbatim>\<open>bcmp\<close>, \<^verbatim>\<open>strcmp\<close>, \<^verbatim>\<open>strcoll\<close>, \<^verbatim>\<open>strncmp\<close>,
  \<^verbatim>\<open>strcasecmp\<close> and \<^verbatim>\<open>strncasecmp\<close>.  Each returns the difference of the first two bytes that differ,
  read as unsigned, and the word loops are shown to find the same two bytes.
\<close>

section \<open>The routines\<close>

text \<open>\<^verbatim>\<open>*(unsigned char *) s1 - *(unsigned char *) s2\<close>\<close>

definition byte_diff :: "mem \<Rightarrow> addr \<Rightarrow> addr \<Rightarrow> int option" where
  "byte_diff m s1 s2 = do { b1 \<leftarrow> load8 m s1; b2 \<leftarrow> load8 m s2; Some (uint b1 - uint b2) }"

fun memcmp_words :: "nat \<Rightarrow> mem \<Rightarrow> addr \<Rightarrow> addr \<Rightarrow> (nat \<times> addr \<times> addr) option" where
  "memcmp_words n m a1 a2 =
     (if n \<ge> 4
      then do { w1 \<leftarrow> load32 m a1; w2 \<leftarrow> load32 m a2;
                if w1 \<noteq> w2 then Some (n, a1, a2)
                else memcmp_words (n - 4) m (a1 + 4) (a2 + 4) }
      else Some (n, a1, a2))"

primrec memcmp_bytes :: "nat \<Rightarrow> mem \<Rightarrow> addr \<Rightarrow> addr \<Rightarrow> int option" where
  "memcmp_bytes 0 m s1 s2 = Some 0"
| "memcmp_bytes (Suc n) m s1 s2 =
     do { b1 \<leftarrow> load8 m s1; b2 \<leftarrow> load8 m s2;
          if b1 \<noteq> b2 then Some (uint b1 - uint b2) else memcmp_bytes n m (s1 + 1) (s2 + 1) }"

definition memcmp :: "mem \<Rightarrow> addr \<Rightarrow> addr \<Rightarrow> nat \<Rightarrow> int option" where
  "memcmp m m1 m2 n =
     do { (n, s1, s2) \<leftarrow> (if \<not> n < 4 \<and> \<not> unaligned2 m1 m2 then memcmp_words n m m1 m2
                         else Some (n, m1, m2));
          memcmp_bytes n m s1 s2 }"

definition bcmp :: "mem \<Rightarrow> addr \<Rightarrow> addr \<Rightarrow> nat \<Rightarrow> int option" where
  "bcmp m m1 m2 n = memcmp m m1 m2 n"

text \<open>The word loop of \<^verbatim>\<open>strcmp\<close> either returns 0 (\<open>None\<close> inside) or goes on to the bytes.\<close>

partial_function (option) strcmp_words :: "mem \<Rightarrow> addr \<Rightarrow> addr \<Rightarrow> (addr \<times> addr) option option" where
  "strcmp_words m a1 a2 =
     do { w1 \<leftarrow> load32 m a1; w2 \<leftarrow> load32 m a2;
          if w1 = w2
          then if detectnull w1 \<noteq> 0 then Some None else strcmp_words m (a1 + 4) (a2 + 4)
          else Some (Some (a1, a2)) }"

partial_function (option) strcmp_bytes :: "mem \<Rightarrow> addr \<Rightarrow> addr \<Rightarrow> int option" where
  "strcmp_bytes m s1 s2 =
     do { b1 \<leftarrow> load8 m s1;
          if b1 = 0 then byte_diff m s1 s2
          else do { b2 \<leftarrow> load8 m s2;
                    if b1 = b2 then strcmp_bytes m (s1 + 1) (s2 + 1) else byte_diff m s1 s2 } }"

definition strcmp :: "mem \<Rightarrow> addr \<Rightarrow> addr \<Rightarrow> int option" where
  "strcmp m s1 s2 =
     (if \<not> unaligned2 s1 s2
      then do { r \<leftarrow> strcmp_words m s1 s2;
                case r of None \<Rightarrow> Some 0 | Some (s1, s2) \<Rightarrow> strcmp_bytes m s1 s2 }
      else strcmp_bytes m s1 s2)"

definition strcoll :: "mem \<Rightarrow> addr \<Rightarrow> addr \<Rightarrow> int option" where
  "strcoll m a b = strcmp m a b"

fun strncmp_words :: "nat \<Rightarrow> mem \<Rightarrow> addr \<Rightarrow> addr \<Rightarrow> (nat \<times> addr \<times> addr) option option" where
  "strncmp_words n m a1 a2 =
     (if n \<ge> 4
      then do { w1 \<leftarrow> load32 m a1; w2 \<leftarrow> load32 m a2;
                if w1 = w2
                then if n - 4 = 0 \<or> detectnull w1 \<noteq> 0 then Some None
                     else strncmp_words (n - 4) m (a1 + 4) (a2 + 4)
                else Some (Some (n, a1, a2)) }
      else Some (Some (n, a1, a2)))"

primrec strncmp_bytes :: "nat \<Rightarrow> mem \<Rightarrow> addr \<Rightarrow> addr \<Rightarrow> int option" where
  "strncmp_bytes 0 m s1 s2 = byte_diff m s1 s2"
| "strncmp_bytes (Suc n) m s1 s2 =
     do { b1 \<leftarrow> load8 m s1; b2 \<leftarrow> load8 m s2;
          if b1 = b2
          then if n = 0 \<or> b1 = 0 then Some 0 else strncmp_bytes n m (s1 + 1) (s2 + 1)
          else byte_diff m s1 s2 }"

definition strncmp :: "mem \<Rightarrow> addr \<Rightarrow> addr \<Rightarrow> nat \<Rightarrow> int option" where
  "strncmp m s1 s2 n =
     (if n = 0 then Some 0
      else if \<not> unaligned2 s1 s2
           then do { r \<leftarrow> strncmp_words n m s1 s2;
                     case r of None \<Rightarrow> Some 0 | Some (n, s1, s2) \<Rightarrow> strncmp_bytes n m s1 s2 }
           else strncmp_bytes n m s1 s2)"

text \<open>\<^verbatim>\<open>tolower (*(unsigned char *) s1) - tolower (*(unsigned char *) s2)\<close>\<close>

definition lower_diff :: "mem \<Rightarrow> addr \<Rightarrow> addr \<Rightarrow> int option" where
  "lower_diff m s1 s2 =
     do { b1 \<leftarrow> load8 m s1; l1 \<leftarrow> tolower (uint b1); b2 \<leftarrow> load8 m s2; l2 \<leftarrow> tolower (uint b2);
          Some (l1 - l2) }"

partial_function (option) strcasecmp :: "mem \<Rightarrow> addr \<Rightarrow> addr \<Rightarrow> int option" where
  "strcasecmp m s1 s2 =
     do { b1 \<leftarrow> load8 m s1;
          if b1 = 0 then lower_diff m s1 s2
          else do { l1 \<leftarrow> tolower (sint b1); b2 \<leftarrow> load8 m s2; l2 \<leftarrow> tolower (sint b2);
                    if l1 = l2 then strcasecmp m (s1 + 1) (s2 + 1) else lower_diff m s1 s2 } }"

primrec strncasecmp_loop :: "nat \<Rightarrow> mem \<Rightarrow> addr \<Rightarrow> addr \<Rightarrow> int option" where
  "strncasecmp_loop 0 m s1 s2 = lower_diff m s1 s2"
| "strncasecmp_loop (Suc n) m s1 s2 =
     do { b1 \<leftarrow> load8 m s1; l1 \<leftarrow> tolower (sint b1); b2 \<leftarrow> load8 m s2; l2 \<leftarrow> tolower (sint b2);
          if l1 = l2 \<and> \<not> (n = 0 \<or> b1 = 0 \<or> b2 = 0)
          then strncasecmp_loop n m (s1 + 1) (s2 + 1)
          else lower_diff m s1 s2 }"

definition strncasecmp :: "mem \<Rightarrow> addr \<Rightarrow> addr \<Rightarrow> nat \<Rightarrow> int option" where
  "strncasecmp m s1 s2 n = (if n = 0 then Some 0 else strncasecmp_loop n m s1 s2)"

section \<open>The specification\<close>

text \<open>The difference at the first position where two lists of bytes differ, 0 if there is none.\<close>

fun cmp_bytes :: "byte list \<Rightarrow> byte list \<Rightarrow> int" where
  "cmp_bytes (x # xs) (y # ys) = (if x = y then cmp_bytes xs ys else uint x - uint y)"
| "cmp_bytes _ _ = 0"

lemma cmp_bytes_append_same: "cmp_bytes (xs @ ys) (xs @ zs) = cmp_bytes ys zs"
  by (induction xs) auto

lemma cmp_bytes_same [simp]: "cmp_bytes xs xs = 0"
  by (induction xs) auto

lemma cmp_bytes_eq_0: "length xs = length ys \<Longrightarrow> cmp_bytes xs ys = 0 \<longleftrightarrow> xs = ys"
  by (induction xs ys rule: list_induct2) (auto simp: word_uint_eq_iff)

text \<open>The comparison of strings, their NULs included, is an ordering of strings.\<close>

definition cmp_str :: "byte list \<Rightarrow> byte list \<Rightarrow> int" where
  "cmp_str s t = cmp_bytes (s @ [0]) (t @ [0])"

text \<open>The same, of at most \<open>n\<close> bytes.\<close>

definition cmp_upto :: "nat \<Rightarrow> byte list \<Rightarrow> byte list \<Rightarrow> int" where
  "cmp_upto n s t = cmp_bytes (take n (s @ [0])) (take n (t @ [0]))"

lemma cmp_upto_same [simp]: "cmp_upto n s s = 0"
  by (simp add: cmp_upto_def)

lemma cmp_upto_drop: "take 4 s = take 4 t \<Longrightarrow> 4 \<le> length s \<Longrightarrow> 4 \<le> length t \<Longrightarrow> 4 \<le> n \<Longrightarrow>
  cmp_upto n s t = cmp_upto (n - 4) (drop 4 s) (drop 4 t)"
  using cmp_bytes_append_same [of "take 4 s" "take (n - 4) (drop 4 s @ [0])" "take (n - 4) (drop 4 t @ [0])"]
  by (metis cmp_upto_def append.assoc append_take_drop_id le_add_diff_inverse length_take min.absorb2 take_add
      append_eq_conv_conj)

lemma cmp_upto_str: "length s < n \<Longrightarrow> length t < n \<Longrightarrow> cmp_upto n s t = cmp_str s t"
  by (simp add: cmp_upto_def cmp_str_def)

section \<open>Memory\<close>

lemma memcmp_bytes_eq:
  "bytes m p xs \<Longrightarrow> bytes m q ys \<Longrightarrow> length xs = length ys \<Longrightarrow>
     memcmp_bytes (length xs) m p q = Some (cmp_bytes xs ys)"
proof (induction xs arbitrary: p q ys)
  case (Cons x xs)
  then obtain y zs where "ys = y # zs" by (cases ys) auto
  with Cons show ?case by (simp add: load8_def)
qed simp

lemma load32_pair:
  assumes "bytes m p xs" "bytes m q ys" "length xs = 4" "length ys = 4"
  obtains w1 w2 where "load32 m p = Some w1" "load32 m q = Some w2" "w1 = w2 \<longleftrightarrow> xs = ys"
    "detectnull w1 \<noteq> 0 \<longleftrightarrow> 0 \<in> set xs"
proof -
  obtain a0 a1 a2 a3 where a: "xs = [a0, a1, a2, a3]" using assms(3) by (auto simp: numeral_eq_Suc length_Suc_conv)
  obtain b0 b1 b2 b3 where b: "ys = [b0, b1, b2, b3]" using assms(4) by (auto simp: numeral_eq_Suc length_Suc_conv)
  show ?thesis
    using that [OF load32_bytes load32_bytes] assms(1,2) a b detectnull_word32 [of a0 a1 a2 a3]
    by (auto simp: word32_inject)
qed

declare memcmp_words.simps [simp del]

lemma memcmp_words_eq:
  assumes "bytes m p xs" "bytes m q ys" "length xs = length ys"
  shows "\<exists>k \<le> length xs. take k xs = take k ys \<and> memcmp_words (length xs) m p q = Some (length xs - k, p + k, q + k)"
  using assms
proof (induction "length xs" arbitrary: xs ys p q rule: less_induct)
  case less
  show ?case
  proof (cases "4 \<le> length xs")
    case True
    let ?x = "take 4 xs" and ?y = "take 4 ys"
    have x: "bytes m p ?x" "bytes m q ?y" "length ?x = 4" "length ?y = 4"
      using less.prems True by (simp_all add: bytes_take)
    obtain w1 w2 where w: "load32 m p = Some w1" "load32 m q = Some w2" "w1 = w2 \<longleftrightarrow> ?x = ?y"
      using load32_pair [OF x] by metis
    show ?thesis
    proof (cases "?x = ?y")
      case eq: True
      have "bytes m (p + 4) (drop 4 xs)" "bytes m (q + 4) (drop 4 ys)"
        using less.prems True bytes_drop [of m p xs 4] bytes_drop [of m q ys 4] by simp_all
      then obtain k where k: "k \<le> length xs - 4" "take k (drop 4 xs) = take k (drop 4 ys)"
        "memcmp_words (length xs - 4) m (p + 4) (q + 4) = Some (length xs - 4 - k, p + 4 + k, q + 4 + k)"
        using less.hyps [of "drop 4 xs" "p + 4" "q + 4" "drop 4 ys"] less.prems(3) True by fastforce
      have "memcmp_words (length xs) m p q = memcmp_words (length xs - 4) m (p + 4) (q + 4)"
        using True w eq by (subst memcmp_words.simps) simp
      moreover have "take (4 + k) xs = take (4 + k) ys" using eq k(2) by (simp add: take_add)
      ultimately show ?thesis using k True by (intro exI [of _ "4 + k"]) auto
    next
      case False
      with w True show ?thesis by (intro exI [of _ 0]) (subst memcmp_words.simps, simp)
    qed
  next
    case False
    then show ?thesis by (intro exI [of _ 0]) (subst memcmp_words.simps, simp)
  qed
qed

lemma memcmp_eq:
  assumes "bytes m p xs" "bytes m q ys" "length xs = length ys"
  shows "memcmp m p q (length xs) = Some (cmp_bytes xs ys)"
proof -
  have rest: "memcmp_bytes (length xs - k) m (p + k) (q + k) = Some (cmp_bytes xs ys)"
    if "k \<le> length xs" "take k xs = take k ys" for k
  proof -
    have "cmp_bytes xs ys = cmp_bytes (drop k xs) (drop k ys)"
      using that(2) by (metis append_take_drop_id cmp_bytes_append_same)
    then show ?thesis
      using memcmp_bytes_eq [of m "p + k" "drop k xs" "q + k" "drop k ys"] bytes_drop assms that by simp
  qed
  show ?thesis
    using memcmp_words_eq [OF assms] rest [of 0] rest by (auto simp: memcmp_def)
qed

section \<open>Strings\<close>

lemma cstr_upto_takeWhile:
  "cstr_upto m p n s \<Longrightarrow> bytes m p xs \<Longrightarrow> length xs \<le> n \<Longrightarrow> length s < length xs \<Longrightarrow>
     s = takeWhile (\<lambda>b. b \<noteq> 0) xs"
proof (induction xs arbitrary: p n s)
  case (Cons x xs)
  then obtain k where "n = Suc k" by (cases n) auto
  with Cons show ?case by (cases s) (auto simp: cstr_upto_Suc)
qed simp

text \<open>Two aligned words of two strings: when they are equal, the strings end there together or go on together.\<close>

lemma cstr_upto_word_pair:
  assumes "paged m" "\<not> unaligned2 p q" "cstr_upto m p n s" "cstr_upto m q k t" "4 \<le> n" "4 \<le> k"
  obtains w1 w2 where "load32 m p = Some w1" "load32 m q = Some w2"
    "w1 = w2 \<Longrightarrow> detectnull w1 \<noteq> 0 \<Longrightarrow> s = t"
    "w1 = w2 \<Longrightarrow> detectnull w1 = 0 \<Longrightarrow> 4 \<le> length s \<and> 4 \<le> length t \<and> take 4 s = take 4 t"
proof -
  have al: "p mod 4 = 0" "q mod 4 = 0" using assms(2) by (simp_all add: unaligned2_def)
  obtain xs w1 where x: "length xs = 4" "bytes m p xs" "load32 m p = Some w1"
    "detectnull w1 = 0 \<longleftrightarrow> 4 \<le> length s" "4 \<le> length s \<Longrightarrow> take 4 s = xs"
    using cstr_upto_word [OF assms(1) al(1) assms(3,5)] by blast
  obtain ys w2 where y: "length ys = 4" "bytes m q ys" "load32 m q = Some w2"
    "detectnull w2 = 0 \<longleftrightarrow> 4 \<le> length t" "4 \<le> length t \<Longrightarrow> take 4 t = ys"
    using cstr_upto_word [OF assms(1) al(2) assms(4,6)] by blast
  have xy: "w1 = w2 \<Longrightarrow> xs = ys" using load32_pair [OF x(2) y(2) x(1) y(1)] x(3) y(3) by auto
  have "s = t" if "w1 = w2" "detectnull w1 \<noteq> 0"
    using cstr_upto_takeWhile [OF assms(3) x(2)] cstr_upto_takeWhile [OF assms(4) y(2)] xy that x y assms(5,6) by auto
  then show ?thesis using that [OF x(3) y(3)] xy x y by auto
qed

lemma strcmp_bytes_eq:
  "cstr m p s \<Longrightarrow> cstr m q t \<Longrightarrow> strcmp_bytes m p q = Some (cmp_str s t)"
proof (induction s arbitrary: p q t)
  case Nil
  then show ?case
    by (subst strcmp_bytes.simps; cases t) (auto simp: cstr_Nil cstr_Cons byte_diff_def cmp_str_def load8_def)
next
  case (Cons c s)
  then show ?case
    by (subst strcmp_bytes.simps; cases t) (auto simp: cstr_Nil cstr_Cons byte_diff_def cmp_str_def load8_def)
qed

lemma cmp_str_drop: "take 4 s = take 4 t \<Longrightarrow> 4 \<le> length s \<Longrightarrow> 4 \<le> length t \<Longrightarrow>
  cmp_str s t = cmp_str (drop 4 s) (drop 4 t)"
  by (metis append.assoc append_take_drop_id cmp_bytes_append_same cmp_str_def)

lemma strcmp_words_eq:
  assumes "paged m" "\<not> unaligned2 p q" "cstr m p s" "cstr m q t"
  shows "do { r \<leftarrow> strcmp_words m p q; case r of None \<Rightarrow> Some 0 | Some (s1, s2) \<Rightarrow> strcmp_bytes m s1 s2 } =
    Some (cmp_str s t)"
  using assms(2-)
proof (induction "length s" arbitrary: s t p q rule: less_induct)
  case less
  have u: "cstr_upto m p (length s + 4) s" "cstr_upto m q (length t + 4) t"
    using less.prems by (auto intro: cstr_upto_cstr)
  obtain w1 w2 where w: "load32 m p = Some w1" "load32 m q = Some w2"
    "w1 = w2 \<Longrightarrow> detectnull w1 \<noteq> 0 \<Longrightarrow> s = t"
    "w1 = w2 \<Longrightarrow> detectnull w1 = 0 \<Longrightarrow> 4 \<le> length s \<and> 4 \<le> length t \<and> take 4 s = take 4 t"
    using cstr_upto_word_pair [OF assms(1) less.prems(1) u] by (metis le_add2)
  consider "w1 \<noteq> w2" | "w1 = w2" "detectnull w1 \<noteq> 0" | "w1 = w2" "detectnull w1 = 0" by blast
  then show ?case
  proof cases
    case 1
    with w strcmp_bytes_eq [OF less.prems(2,3)] show ?thesis by (subst strcmp_words.simps) simp
  next
    case 2
    with w show ?thesis by (subst strcmp_words.simps) (simp add: cmp_str_def)
  next
    case 3
    with w have l: "4 \<le> length s" "4 \<le> length t" "take 4 s = take 4 t" by auto
    have "strcmp_words m p q = strcmp_words m (p + 4) (q + 4)"
      using 3 w(1,2) by (subst strcmp_words.simps) simp
    moreover have "\<not> unaligned2 (p + 4) (q + 4)" using less.prems(1) by (simp add: unaligned2_def)
    moreover have "length (drop 4 s) < length s" using l by simp
    ultimately show ?thesis
      using less.hyps [of "drop 4 s" "p + 4" "q + 4" "drop 4 t"] cmp_str_drop l
        cstr_drop [OF less.prems(2), of 4] cstr_drop [OF less.prems(3), of 4] by simp
  qed
qed

lemma strcmp_eq: "paged m \<Longrightarrow> cstr m p s \<Longrightarrow> cstr m q t \<Longrightarrow> strcmp m p q = Some (cmp_str s t)"
  using strcmp_words_eq [of m p q s t] strcmp_bytes_eq [of m p s q t] by (simp add: strcmp_def)

lemma strncmp_bytes_eq:
  "cstr_upto m p n s \<Longrightarrow> cstr_upto m q n t \<Longrightarrow> n \<noteq> 0 \<Longrightarrow> strncmp_bytes n m p q = Some (cmp_upto n s t)"
proof (induction n arbitrary: p q s t)
  case (Suc n)
  show ?case
  proof (cases s; cases t)
    fix c s' d t'
    assume st: "s = c # s'" "t = d # t'"
    with Suc.prems have c: "c \<noteq> 0" "m p = Some c" "d \<noteq> 0" "m q = Some d"
      "cstr_upto m (p + 1) n s'" "cstr_upto m (q + 1) n t'" by (simp_all add: cstr_upto_Suc)
    then show ?thesis using Suc.IH [of "p + 1" s' "q + 1" t'] st
      by (auto simp: cmp_upto_def byte_diff_def load8_def)
  qed (use Suc.prems in \<open>auto simp: cstr_upto_Suc cmp_upto_def byte_diff_def load8_def\<close>)
qed simp

declare strncmp_words.simps [simp del]

lemma strncmp_words_eq:
  assumes "paged m" "\<not> unaligned2 p q" "cstr_upto m p n s" "cstr_upto m q n t" "n \<noteq> 0"
  shows "do { r \<leftarrow> strncmp_words n m p q; case r of None \<Rightarrow> Some 0 | Some (n, s1, s2) \<Rightarrow> strncmp_bytes n m s1 s2 } =
    Some (cmp_upto n s t)"
  using assms(2-)
proof (induction n arbitrary: s t p q rule: less_induct)
  case (less n)
  show ?case
  proof (cases "4 \<le> n")
    case False
    with strncmp_bytes_eq [OF less.prems(2-4)] show ?thesis by (subst strncmp_words.simps) simp
  next
    case n4: True
    obtain w1 w2 where w: "load32 m p = Some w1" "load32 m q = Some w2"
      "w1 = w2 \<Longrightarrow> detectnull w1 \<noteq> 0 \<Longrightarrow> s = t"
      "w1 = w2 \<Longrightarrow> detectnull w1 = 0 \<Longrightarrow> 4 \<le> length s \<and> 4 \<le> length t \<and> take 4 s = take 4 t"
      using cstr_upto_word_pair [OF assms(1) less.prems(1-3) n4 n4] by metis
    consider "w1 \<noteq> w2" | "w1 = w2" "detectnull w1 \<noteq> 0" | "w1 = w2" "detectnull w1 = 0" by blast
    then show ?thesis
    proof cases
      case 1
      with w n4 strncmp_bytes_eq [OF less.prems(2-4)] show ?thesis by (subst strncmp_words.simps) simp
    next
      case 2
      with w n4 show ?thesis by (subst strncmp_words.simps) simp
    next
      case 3
      with w have l: "4 \<le> length s" "4 \<le> length t" "take 4 s = take 4 t" by auto
      note dr = cmp_upto_drop [OF l(3,1,2) n4]
      show ?thesis
      proof (cases "n - 4 = 0")
        case True
        with dr have "cmp_upto n s t = 0" by (simp add: cmp_upto_def)
        with True 3 w n4 show ?thesis by (subst strncmp_words.simps) simp
      next
        case False
        have "strncmp_words n m p q = strncmp_words (n - 4) m (p + 4) (q + 4)"
          using 3 w(1,2) n4 False by (subst strncmp_words.simps) simp
        moreover have "\<not> unaligned2 (p + 4) (q + 4)" using less.prems(1) by (simp add: unaligned2_def)
        ultimately show ?thesis
          using less.IH [of "n - 4" "p + 4" "q + 4" "drop 4 s" "drop 4 t"] dr l False n4
            cstr_upto_drop [OF less.prems(2), of 4] cstr_upto_drop [OF less.prems(3), of 4] by simp
      qed
    qed
  qed
qed

lemma strncmp_eq:
  "paged m \<Longrightarrow> cstr_upto m p n s \<Longrightarrow> cstr_upto m q n t \<Longrightarrow> strncmp m p q n = Some (cmp_upto n s t)"
  using strncmp_words_eq [of m p q n s t] strncmp_bytes_eq [of m p n s q t]
  by (cases "n = 0") (simp_all add: strncmp_def)

lemma sint_lower_inject: "sint (a :: byte) = sint b \<longleftrightarrow> a = b"
  by (auto intro: signed_word_eqI)

lemma sint_byte_eq_0: "sint (b :: byte) = 0 \<longleftrightarrow> b = 0"
  using sint_lower_inject [of b 0] by simp

lemma lower_eq_0: "lower b = 0 \<longleftrightarrow> b = 0"
  using uint_byte_range [of b] by (auto simp: word_uint_eq_iff uint_lower letter_upper_def split: if_splits)

lemma strcasecmp_eq:
  "cstr m p s \<Longrightarrow> cstr m q t \<Longrightarrow> strcasecmp m p q = Some (cmp_str (map lower s) (map lower t))"
proof (induction s arbitrary: p q t)
  case Nil
  then show ?case
    by (subst strcasecmp.simps; cases t)
      (auto simp: cstr_Nil cstr_Cons lower_diff_def cmp_str_def load8_def tolower_byte lower_eq_0)
next
  case (Cons c s)
  then show ?case
    by (subst strcasecmp.simps; cases t)
      (auto simp: cstr_Nil cstr_Cons lower_diff_def cmp_str_def load8_def tolower_byte sint_lower_inject
        sint_byte_eq_0 lower_eq_0)
qed

lemma strncasecmp_loop_eq:
  "cstr_upto m p n s \<Longrightarrow> cstr_upto m q n t \<Longrightarrow> n \<noteq> 0 \<Longrightarrow>
     strncasecmp_loop n m p q = Some (cmp_upto n (map lower s) (map lower t))"
proof (induction n arbitrary: p q s t)
  case (Suc n)
  show ?case
  proof (cases s; cases t)
    fix c s' d t'
    assume st: "s = c # s'" "t = d # t'"
    with Suc.prems have c: "c \<noteq> 0" "m p = Some c" "d \<noteq> 0" "m q = Some d"
      "cstr_upto m (p + 1) n s'" "cstr_upto m (q + 1) n t'" by (simp_all add: cstr_upto_Suc)
    then show ?thesis using Suc.IH [of "p + 1" s' "q + 1" t'] st
      by (auto simp: cmp_upto_def lower_diff_def load8_def tolower_byte sint_lower_inject)
  qed (use Suc.prems in \<open>auto simp: cstr_upto_Suc cmp_upto_def lower_diff_def load8_def tolower_byte
      sint_lower_inject sint_byte_eq_0 lower_eq_0\<close>)
qed simp

section \<open>The order\<close>

lemma cmp_str_less_iff:
  "0 \<notin> set s \<Longrightarrow> 0 \<notin> set t \<Longrightarrow> cmp_str s t < 0 \<longleftrightarrow> (s, t) \<in> lexord {(x, y). x < y}"
proof (induction s arbitrary: t)
  case Nil
  then show ?case
    by (cases t) (auto simp: cmp_str_def word_uint_eq_iff intro: le_neq_trans [OF unsigned_greater_eq])
next
  case (Cons c s)
  then show ?case
    by (cases t) (auto simp: cmp_str_def word_less_def not_less)
qed

lemma cmp_bytes_sym: "cmp_bytes ys xs = - cmp_bytes xs ys"
  by (induction xs ys rule: cmp_bytes.induct) auto

lemma cmp_str_eq_0:
  assumes "0 \<notin> set s" "0 \<notin> set t"
  shows "cmp_str s t = 0 \<longleftrightarrow> s = t"
proof
  assume "cmp_str s t = 0"
  then show "s = t" using assms unfolding cmp_str_def
    by (induction s t rule: list_induct2') (auto simp: word_uint_eq_iff split: if_splits)
qed (simp add: cmp_str_def)

section \<open>The properties\<close>

text \<open>
  \<^verbatim>\<open>memcmp\<close> and \<^verbatim>\<open>bcmp\<close> return the difference of the first bytes that differ, and 0 exactly for equal
  regions; they read nothing outside the regions.
\<close>

theorem memcmp_correct:
  assumes "bytes m p xs" "bytes m q ys" "length xs = n" "length ys = n"
  shows "memcmp m p q n = Some (cmp_bytes xs ys) \<and> bcmp m p q n = memcmp m p q n \<and>
    (memcmp m p q n = Some 0 \<longleftrightarrow> xs = ys)"
  using memcmp_eq [OF assms(1,2)] cmp_bytes_eq_0 [of xs ys] assms(3,4) by (simp add: bcmp_def)

theorem memcmp_correct_witness: "memcmp (mem_image 4 [1, 2, 3, 4, 1, 2, 7, 4]) 4 8 4 = Some (-4)"
  using memcmp_correct [of "mem_image 4 [1, 2, 3, 4, 1, 2, 7, 4]" 4 "[1, 2, 3, 4]" 8 "[1, 2, 7, 4]" 4]
  by simp

text \<open>
  C17.  \<^verbatim>\<open>strcmp\<close> and \<^verbatim>\<open>strcoll\<close> return 0 exactly for equal strings and a negative number exactly when the
  first string precedes the second in the lexicographic order of unsigned bytes, and exchanging
  the strings changes the sign.
\<close>

theorem strcmp_correct:
  assumes "paged m" "cstr m p s" "cstr m q t"
  shows "\<exists>r. strcmp m p q = Some r \<and> strcoll m p q = Some r \<and> strcmp m q p = Some (- r) \<and>
    (r = 0 \<longleftrightarrow> s = t) \<and> (r < 0 \<longleftrightarrow> (s, t) \<in> lexord {(x, y). x < y})"
proof -
  have z: "0 \<notin> set s" "0 \<notin> set t" using assms by (auto simp: cstr_def)
  have e: "strcmp m p q = Some (cmp_str s t)" "strcmp m q p = Some (cmp_str t s)"
    using strcmp_eq [OF assms] strcmp_eq [OF assms(1,3,2)] .
  moreover have "cmp_str t s = - cmp_str s t" by (simp add: cmp_str_def cmp_bytes_sym [of "t @ [0]"])
  moreover have "cmp_str s t = 0 \<longleftrightarrow> s = t" using cmp_str_eq_0 [OF z] .
  ultimately show ?thesis using cmp_str_less_iff [OF z] by (simp add: strcoll_def)
qed

theorem strcmp_correct_witness:
  "\<exists>r < 0. strcmp (mem_image 4 [97, 98, 0, 0, 97, 99, 0, 0]) 4 8 = Some r"
proof -
  have "([97, 98], [97, 99]) \<in> lexord {(x, y). x < (y :: byte)}" by simp
  then show ?thesis
    using strcmp_correct [of "mem_image 4 [97, 98, 0, 0, 97, 99, 0, 0]" 4 "[97, 98]" 8 "[97, 99]"]
    by (auto simp: paged_mem_image cstr_def)
qed

text \<open>
  \<^verbatim>\<open>strncmp\<close> compares at most \<open>n\<close> bytes of strings that need not be terminated within them, and
  \<^verbatim>\<open>strncasecmp\<close> the same after conversion to lower case, \<^verbatim>\<open>strcasecmp\<close> without a limit.
\<close>

theorem strncmp_correct:
  assumes "paged m" "cstr_upto m p n s" "cstr_upto m q n t"
  shows "strncmp m p q n = Some (cmp_upto n s t) \<and>
    strncasecmp m p q n = Some (cmp_upto n (map lower s) (map lower t)) \<and>
    (length s < n \<and> length t < n \<longrightarrow>
      strcasecmp m p q = Some (cmp_str (map lower s) (map lower t)))"
proof -
  have "cstr m p s" "cstr m q t" if "length s < n" "length t < n"
    using assms(2,3) that by (auto simp: cstr_upto_def cstr_def)
  then show ?thesis
    using strncmp_eq [OF assms] strncasecmp_loop_eq [OF assms(2,3)] strcasecmp_eq [of m p s q t]
    by (auto simp: strncasecmp_def cmp_upto_def)
qed

theorem strncmp_correct_witness:
  "strncmp (mem_image 4 [97, 98, 1, 2, 97, 66, 0, 0]) 4 8 2 = Some 32 \<and>
   strncasecmp (mem_image 4 [97, 98, 1, 2, 97, 66, 0, 0]) 4 8 2 = Some 0"
  using strncmp_correct [of "mem_image 4 [97, 98, 1, 2, 97, 66, 0, 0]" 4 2 "[97, 98]" 8 "[97, 66]"]
  by (simp add: paged_mem_image cstr_upto_def cmp_upto_def lower_def)

end
