(* ===== verification/StrTok.thy ===== *)
theory StrTok
  imports StrScan
begin

unbundle bit_operations_syntax

text \<open>
  The tokenizers of \<^verbatim>\<open>string/strtok_r.c\<close>, \<^verbatim>\<open>string/strtok.c\<close> and \<^verbatim>\<open>string/strsep.c\<close>.  The caller's
  variable \<^verbatim>\<open>*lasts\<close> is passed in and returned; it is not part of the memory that holds the strings.
\<close>

section \<open>The routines\<close>

text \<open>\<^verbatim>\<open>for (spanp = delim; (sc = *spanp++) != 0;) if (c == sc) ...\<close>\<close>

partial_function (option) delim_has :: "mem \<Rightarrow> byte \<Rightarrow> addr \<Rightarrow> bool option" where
  "delim_has m c spanp =
     do { sc \<leftarrow> load8 m spanp;
          if sc = 0 then Some False else if c = sc then Some True else delim_has m c (spanp + 1) }"

text \<open>\<^verbatim>\<open>do { if ((sc = *spanp++) == c) ... } while (sc != 0);\<close>\<close>

partial_function (option) delim_or_nul :: "mem \<Rightarrow> byte \<Rightarrow> addr \<Rightarrow> bool option" where
  "delim_or_nul m c spanp =
     do { sc \<leftarrow> load8 m spanp;
          if sc = c then Some True else if sc \<noteq> 0 then delim_or_nul m c (spanp + 1) else Some False }"

text \<open>
  From the label \<^verbatim>\<open>cont\<close> to the start of the token: \<open>Inl\<close> when the routine returns there with a
  result, \<^verbatim>\<open>*lasts\<close> and the memory, \<open>Inr\<close> with \<^verbatim>\<open>s\<close>, one character into the token.
\<close>

partial_function (option) strtok_cont ::
    "mem \<Rightarrow> addr \<Rightarrow> bool \<Rightarrow> addr \<Rightarrow> (addr \<times> addr \<times> mem + addr) option" where
  "strtok_cont m delim skip s =
     do { c \<leftarrow> load8 m s;
          isd \<leftarrow> delim_has m c delim;
          if isd
          then if skip then strtok_cont m delim skip (s + 1)
               else do { m \<leftarrow> store8 m s 0; Some (Inl (s, s + 1, m)) }
          else if c = 0 then Some (Inl (NULL, NULL, m))
          else Some (Inr (s + 1)) }"

text \<open>The scan of the token: \<^verbatim>\<open>*lasts\<close> and the memory.\<close>

partial_function (option) strtok_scan :: "mem \<Rightarrow> addr \<Rightarrow> addr \<Rightarrow> (addr \<times> mem) option" where
  "strtok_scan m delim s =
     do { c \<leftarrow> load8 m s;
          isd \<leftarrow> delim_or_nul m c delim;
          if isd
          then if c = 0 then Some (NULL, m)
               else do { m \<leftarrow> store8 m s 0; Some (s + 1, m) }
          else strtok_scan m delim (s + 1) }"

text \<open>\<^verbatim>\<open>__strtok_r (s, delim, lasts, skip_leading_delim)\<close>\<close>

definition strtok_r' :: "mem \<Rightarrow> addr \<Rightarrow> addr \<Rightarrow> addr \<Rightarrow> bool \<Rightarrow> (addr \<times> addr \<times> mem) option" where
  "strtok_r' m s delim lasts skip =
     (let s = (if s = NULL then lasts else s) in
      if s = NULL then Some (NULL, lasts, m)
      else do { r \<leftarrow> strtok_cont m delim skip s;
                case r of
                  Inl ret \<Rightarrow> Some ret
                | Inr s \<Rightarrow> (let tok = s - 1 in
                            do { (lasts, m) \<leftarrow> strtok_scan m delim s; Some (tok, lasts, m) }) })"

definition strtok_r :: "mem \<Rightarrow> addr \<Rightarrow> addr \<Rightarrow> addr \<Rightarrow> (addr \<times> addr \<times> mem) option" where
  "strtok_r m s delim lasts = strtok_r' m s delim lasts True"

text \<open>\<^verbatim>\<open>strtok\<close>: \<^verbatim>\<open>*lasts\<close> is the field \<^verbatim>\<open>_REENT_STRTOK_LAST\<close> of the thread's state.\<close>

definition strtok :: "mem \<Rightarrow> addr \<Rightarrow> addr \<Rightarrow> addr \<Rightarrow> (addr \<times> addr \<times> mem) option" where
  "strtok m s delim strtok_last = strtok_r' m s delim strtok_last True"

text \<open>\<^verbatim>\<open>strsep\<close>: the variable \<^verbatim>\<open>*source_ptr\<close> is both the string and \<^verbatim>\<open>*lasts\<close>.\<close>

definition strsep :: "mem \<Rightarrow> addr \<Rightarrow> addr \<Rightarrow> (addr \<times> addr \<times> mem) option" where
  "strsep m source_ptr delim = strtok_r' m source_ptr delim source_ptr False"

text \<open>
  The loop every client writes: \<^verbatim>\<open>strtok_r\<close> on the string, then on \<^verbatim>\<open>NULL\<close> until it returns \<^verbatim>\<open>NULL\<close>.
  The addresses of the tokens, and the memory at the end.
\<close>

partial_function (option) strtok_all :: "mem \<Rightarrow> addr \<Rightarrow> addr \<Rightarrow> addr \<Rightarrow> (addr list \<times> mem) option" where
  "strtok_all m s delim lasts =
     do { (tok, lasts, m) \<leftarrow> strtok_r m s delim lasts;
          if tok = NULL then Some ([], m)
          else do { (toks, m) \<leftarrow> strtok_all m NULL delim lasts; Some (tok # toks, m) } }"

section \<open>The specification\<close>

text \<open>The maximal runs of characters outside \<open>D\<close>, in order.\<close>

function tokens :: "byte set \<Rightarrow> byte list \<Rightarrow> byte list list" where
  "tokens D t =
     (let u = dropWhile (\<lambda>c. c \<in> D) t in
      if u = [] then []
      else takeWhile (\<lambda>c. c \<notin> D) u # tokens D (tl (dropWhile (\<lambda>c. c \<notin> D) u)))"
  by pat_completeness auto
termination
proof (relation "measure (\<lambda>(D, t). length t)")
  fix D :: "byte set" and t u
  assume u: "u = dropWhile (\<lambda>c. c \<in> D) t" "u \<noteq> []"
  have "length u \<le> length t" using u by (simp add: length_dropWhile_le)
  moreover have "length (dropWhile (\<lambda>c. c \<notin> D) u) \<le> length u" by (rule length_dropWhile_le)
  ultimately show "((D, tl (dropWhile (\<lambda>c. c \<notin> D) u)), (D, t)) \<in> measure (\<lambda>(D, t). length t)"
    using u(2) by (cases u) auto
qed simp

declare tokens.simps [simp del]

section \<open>One call\<close>

lemma delim_has_eq: "cstr m p d \<Longrightarrow> delim_has m c p = Some (c \<in> set d)"
proof (induction d arbitrary: p)
  case Nil
  then show ?case by (subst delim_has.simps) (simp add: cstr_Nil load8_def)
next
  case (Cons x d)
  then show ?case by (subst delim_has.simps) (auto simp: cstr_Cons load8_def)
qed

lemma delim_or_nul_eq: "cstr m p d \<Longrightarrow> delim_or_nul m c p = Some (c = 0 \<or> c \<in> set d)"
proof (induction d arbitrary: p)
  case Nil
  then show ?case by (subst delim_or_nul.simps) (auto simp: cstr_Nil load8_def)
next
  case (Cons x d)
  then show ?case by (subst delim_or_nul.simps) (auto simp: cstr_Cons load8_def)
qed

lemma strtok_cont_skip:
  assumes "cstr m delim d" "cstr m s t"
  shows "strtok_cont m delim True s =
    (let u = dropWhile (\<lambda>c. c \<in> set d) t in
     if u = [] then Some (Inl (NULL, NULL, m)) else Some (Inr (s + (length t - length u) + 1)))"
  using assms(2)
proof (induction t arbitrary: s)
  case Nil
  moreover have "0 \<notin> set d" using assms(1) by (simp add: cstr_def)
  ultimately show ?case using assms(1) by (subst strtok_cont.simps) (simp add: cstr_Nil load8_def delim_has_eq)
next
  case (Cons c t)
  then have c: "c \<noteq> 0" "m s = Some c" "cstr m (s + 1) t" by (auto simp: cstr_Cons)
  have le: "length (dropWhile (\<lambda>c. c \<in> set d) t) \<le> length t" by (rule length_dropWhile_le)
  show ?case
    using Cons.IH [OF c(3)] c le delim_has_eq [OF assms(1)]
    by (subst strtok_cont.simps) (auto simp: load8_def Let_def Suc_diff_le)
qed

lemma strtok_scan_eq:
  assumes "cstr m delim d" "cstr m s t"
  shows "strtok_scan m delim s =
    (let v = takeWhile (\<lambda>c. c \<notin> set d) t in
     if v = t then Some (NULL, m) else Some (s + length v + 1, wr m (s + length v) [0]))"
  using assms(2)
proof (induction t arbitrary: s)
  case Nil
  then show ?case using assms(1) by (subst strtok_scan.simps) (simp add: cstr_Nil load8_def delim_or_nul_eq)
next
  case (Cons c t)
  then have c: "c \<noteq> 0" "m s = Some c" "cstr m (s + 1) t" by (auto simp: cstr_Cons)
  show ?case
    using Cons.IH [OF c(3)] c delim_or_nul_eq [OF assms(1)]
    by (subst strtok_scan.simps) (auto simp: mem_simps Let_def)
qed

lemma dropWhile_split:
  "t = takeWhile P t @ dropWhile P t" "drop (length t - length (dropWhile P t)) t = dropWhile P t"
  "length (dropWhile P t) \<le> length t"
  using dropWhile_eq_drop [of P t] takeWhile_dropWhile_id [of P t]
  by (auto simp: length_dropWhile_le) (metis diff_diff_cancel length_drop length_takeWhile_le)

lemma takeWhile_dropWhile_neq:
  "takeWhile P u \<noteq> u \<Longrightarrow> \<exists>c w. dropWhile P u = c # w \<and> \<not> P c \<and> u = takeWhile P u @ c # w"
  by (metis append_Nil2 hd_dropWhile list.exhaust list.sel(1) takeWhile_dropWhile_id)

text \<open>Where a call finds its token in the string \<open>t\<close>: what it skips, the token, what is left.\<close>

definition tok_rest :: "byte set \<Rightarrow> byte list \<Rightarrow> byte list" where
  "tok_rest D t = dropWhile (\<lambda>c. c \<in> D) t"

definition tok_here :: "byte set \<Rightarrow> byte list \<Rightarrow> byte list" where
  "tok_here D t = takeWhile (\<lambda>c. c \<notin> D) (tok_rest D t)"

definition tok_left :: "byte set \<Rightarrow> byte list \<Rightarrow> byte list" where
  "tok_left D t = tl (dropWhile (\<lambda>c. c \<notin> D) (tok_rest D t))"

lemma tokens_unfold:
  "tokens D t = (if tok_rest D t = [] then [] else tok_here D t # tokens D (tok_left D t))"
  by (subst tokens.simps) (simp add: tok_rest_def tok_here_def tok_left_def Let_def)

definition tok_start :: "addr \<Rightarrow> byte set \<Rightarrow> byte list \<Rightarrow> addr" where
  "tok_start s D t = s + (length t - length (tok_rest D t))"

lemma strtok_r_eq:
  assumes "cstr m delim d" "cstr m q t" "q \<noteq> NULL" "q = (if s = NULL then lasts else s)"
  shows "strtok_r m s delim lasts =
    (let p = tok_start q (set d) t; v = tok_here (set d) t in
     if tok_rest (set d) t = [] then Some (NULL, NULL, m)
     else if v = tok_rest (set d) t then Some (p, NULL, m)
     else Some (p, p + length v + 1, wr m (p + length v) [0]))"
proof -
  let ?u = "tok_rest (set d) t" and ?p = "tok_start q (set d) t"
  have co: "strtok_cont m delim True q = (if ?u = [] then Some (Inl (NULL, NULL, m)) else Some (Inr (?p + 1)))"
    using strtok_cont_skip [OF assms(1,2)] by (simp add: tok_rest_def tok_start_def Let_def)
  show ?thesis
  proof (cases ?u)
    case Nil
    with co assms(3,4) show ?thesis by (simp add: strtok_r_def strtok_r'_def Let_def)
  next
    case (Cons c w)
    have "cstr m ?p ?u"
      using cstr_drop [OF assms(2), of "length t - length ?u"] dropWhile_split(2) [of t "\<lambda>c. c \<in> set d"]
      by (simp add: tok_start_def tok_rest_def)
    then have w: "cstr m (?p + 1) w" using Cons by (simp add: cstr_Cons)
    have "c \<notin> set d" using Cons hd_dropWhile [of "\<lambda>c. c \<in> set d" t] by (simp add: tok_rest_def)
    then have v: "tok_here (set d) t = c # takeWhile (\<lambda>c. c \<notin> set d) w" using Cons by (simp add: tok_here_def)
    show ?thesis
      using co Cons v strtok_scan_eq [OF assms(1) w] assms(3,4)
      by (simp add: strtok_r_def strtok_r'_def Let_def)
  qed
qed

lemma strtok_r_token:
  assumes "cstr m q t" "tok_rest D t \<noteq> []"
  defines "p \<equiv> tok_start q D t" and "v \<equiv> tok_here D t"
  shows "v = tok_rest D t \<Longrightarrow> cstr m p v \<and> tok_left D t = []"
    and "v \<noteq> tok_rest D t \<Longrightarrow> m (p + length v) \<noteq> None \<and> cstr (wr m (p + length v) [0]) p v \<and>
      cstr (wr m (p + length v) [0]) (p + length v + 1) (tok_left D t)"
    and "q \<le> p \<and> p + length v + 1 + length (tok_left D t) \<le> q + length t + 1"
    and "v \<noteq> tok_rest D t \<Longrightarrow> p + length v + 1 + length (tok_left D t) = q + length t"
proof -
  let ?u = "tok_rest D t"
  have lu: "length ?u \<le> length t" by (simp add: tok_rest_def length_dropWhile_le)
  have u: "cstr m p ?u"
    using cstr_drop [OF assms(1), of "length t - length ?u"] dropWhile_split(2) [of t "\<lambda>c. c \<in> D"]
    by (simp add: tok_start_def tok_rest_def p_def)
  have vl: "?u = v @ dropWhile (\<lambda>c. c \<notin> D) ?u" by (simp add: v_def tok_here_def)
  show "v = ?u \<Longrightarrow> cstr m p v \<and> tok_left D t = []" using u vl
    by (metis append_self_conv list.sel(2) tok_left_def)
  have l: "length ?u = length v + length (dropWhile (\<lambda>c. c \<notin> D) ?u)" using vl by (metis length_append)
  have n: "\<exists>c. ?u = v @ c # tok_left D t" if "v \<noteq> ?u"
    using that takeWhile_dropWhile_neq [of "\<lambda>c. c \<notin> D" ?u] by (auto simp: v_def tok_here_def tok_left_def)
  have pl: "p + length ?u = q + length t" "q \<le> p" using lu by (simp_all add: p_def tok_start_def)
  show e: "p + length v + 1 + length (tok_left D t) = q + length t" if ne: "v \<noteq> ?u"
  proof -
    obtain c where "?u = v @ c # tok_left D t" using n [OF ne] by blast
    then have "length ?u = length v + 1 + length (tok_left D t)" by (metis add.assoc length_append length_Cons plus_1_eq_Suc)
    with pl show ?thesis by simp
  qed
  show "q \<le> p \<and> p + length v + 1 + length (tok_left D t) \<le> q + length t + 1"
  proof (cases "v = ?u")
    case True
    then have "tok_left D t = []" using vl by (metis append_self_conv list.sel(2) tok_left_def)
    with True pl show ?thesis by simp
  qed (use e pl in simp)
  show "m (p + length v) \<noteq> None \<and> cstr (wr m (p + length v) [0]) p v \<and>
      cstr (wr m (p + length v) [0]) (p + length v + 1) (tok_left D t)" if ne: "v \<noteq> ?u"
  proof -
    obtain c where c: "?u = v @ c # tok_left D t" using n [OF ne] by blast
    then have r: "cstr m (p + length v + 1) (tok_left D t)" "m (p + length v) = Some c" "bytes m p v" "0 \<notin> set v"
      using u by (auto simp: cstr_def)
    then have "cstr (wr m (p + length v) [0]) (p + length v + 1) (tok_left D t)"
      by (subst cstr_wr_disjoint) (auto simp: disjoint_regions_def)
    moreover have "bytes (wr m (p + length v) [0]) p v"
      using r by (subst bytes_wr_disjoint) (auto simp: disjoint_regions_def)
    ultimately show ?thesis using r by (simp add: cstr_def wr_at)
  qed
qed

section \<open>All tokens\<close>

text \<open>The memory may change in the \<open>n\<close> bytes from \<open>q\<close> on, and nowhere else.\<close>

definition same_outside :: "addr \<Rightarrow> nat \<Rightarrow> mem \<Rightarrow> mem \<Rightarrow> bool" where
  "same_outside q n m m' \<longleftrightarrow> (\<forall>a. a < q \<or> q + n \<le> a \<longrightarrow> m' a = m a)"

lemma cstr_same_outside:
  "same_outside q n m m' \<Longrightarrow> disjoint_regions q n p (Suc (length s)) \<Longrightarrow> cstr m p s \<Longrightarrow> cstr m' p s"
  by (auto simp: same_outside_def cstr_def disjoint_regions_def bytes_nth)

lemma same_outside_trans:
  "same_outside q n m m' \<Longrightarrow> same_outside q' n' m' m'' \<Longrightarrow> q \<le> q' \<Longrightarrow> q' + n' \<le> q + n \<Longrightarrow> same_outside q n m m''"
  by (auto simp: same_outside_def)

lemma strtok_all_eq:
  assumes "cstr m delim d" "cstr m q t" "q \<noteq> NULL" "q = (if s = NULL then lasts else s)"
    and "disjoint_regions q (length t) delim (Suc (length d))"
  shows "\<exists>ps m'. strtok_all m s delim lasts = Some (ps, m') \<and>
    list_all2 (cstr m') ps (tokens (set d) t) \<and> same_outside q (length t) m m'"
  using assms
proof (induction "length t" arbitrary: t m q s lasts rule: less_induct)
  case less
  let ?D = "set d"
  let ?u = "tok_rest ?D t" and ?v = "tok_here ?D t" and ?p = "tok_start q ?D t" and ?l = "tok_left ?D t"
  note call = strtok_r_eq [OF less.prems(1-4), unfolded Let_def]
  show ?case
  proof (cases "?u = []")
    case True
    with call show ?thesis
      by (subst strtok_all.simps) (simp add: tokens_unfold [of ?D t] same_outside_def)
  next
    case u: False
    note tk = strtok_r_token [OF less.prems(2) u]
    have p0: "?p \<noteq> NULL" using less.prems(3) by (simp add: tok_start_def)
    have tu: "tokens ?D t = ?v # tokens ?D ?l" using u by (simp add: tokens_unfold [of ?D t])
    show ?thesis
    proof (cases "?v = ?u")
      case True
      then have c: "cstr m ?p ?v" "?l = []" using tk(1) by auto
      have "strtok_all m NULL delim NULL = Some ([], m)"
        by (subst strtok_all.simps) (simp add: strtok_r_def strtok_r'_def)
      moreover have "tokens ?D [] = []" by (simp add: tokens.simps)
      ultimately show ?thesis using call u True c p0 tu
        by (subst strtok_all.simps) (simp add: same_outside_def)
    next
      case False
      let ?e = "?p + length ?v"
      let ?m = "wr m ?e [0]"
      have e: "q \<le> ?p" "?e + 1 + length ?l = q + length t" using tk(3) tk(4) [OF False] by simp_all
      have c: "cstr ?m ?p ?v" "cstr ?m (?e + 1) ?l" using tk(2) [OF False] by auto
      have so: "same_outside q (length t) m ?m" using e by (auto simp: same_outside_def)
      have "cstr ?m delim d" using less.prems(1) cstr_same_outside [OF so less.prems(5)] by blast
      moreover have "disjoint_regions (?e + 1) (length ?l) delim (Suc (length d))"
        using less.prems(5) e by (auto simp: disjoint_regions_def)
      moreover have "length ?l < length t" using e by simp
      ultimately obtain ps m' where ih: "strtok_all ?m NULL delim (?e + 1) = Some (ps, m')"
        "list_all2 (cstr m') ps (tokens ?D ?l)" "same_outside (?e + 1) (length ?l) ?m m'"
        using less.hyps [of ?l ?m "?e + 1" NULL "?e + 1"] c(2) by auto
      have "cstr m' ?p ?v" using cstr_same_outside [OF ih(3) _ c(1)] by (simp add: disjoint_regions_def)
      moreover have "same_outside q (length t) m m'" using same_outside_trans [OF so ih(3)] e by simp
      ultimately show ?thesis using call u False ih p0 tu by (subst strtok_all.simps) simp
    qed
  qed
qed

section \<open>The properties\<close>

text \<open>
  C19.  The loop that calls \<^verbatim>\<open>strtok_r\<close> on a string and then on \<^verbatim>\<open>NULL\<close> ends, and the addresses it
  collects point to the maximal runs of non-delimiters of the string, in order, each terminated
  in place; nothing outside the string changes.
\<close>

theorem strtok_r_all_tokens:
  assumes "cstr m delim d" "cstr m s t" "s \<noteq> NULL"
    and "disjoint_regions s (length t) delim (Suc (length d))"
  shows "\<exists>ps m'. strtok_all m s delim lasts = Some (ps, m') \<and>
    list_all2 (cstr m') ps (tokens (set d) t) \<and> same_outside s (length t) m m'"
  using strtok_all_eq [OF assms(1-3) _ assms(4), of s lasts] assms(3) by simp

theorem strtok_r_all_tokens_witness:
  "\<exists>ps m'. strtok_all (mem_image 1 [44, 97, 44, 44, 98, 99, 0, 44, 0]) 1 8 NULL = Some (ps, m') \<and>
    list_all2 (cstr m') ps [[97], [98, 99]]"
proof -
  have "tokens {44} [44, 97, 44, 44, 98, 99] = [[97], [98, 99]]" by (simp add: tokens.simps Let_def)
  then show ?thesis
    using strtok_r_all_tokens [of "mem_image 1 [44, 97, 44, 44, 98, 99, 0, 44, 0]" 8 "[44]" 1
        "[44, 97, 44, 44, 98, 99]" NULL]
    by (auto simp: cstr_def disjoint_regions_def)
qed

text \<open>
  \<^verbatim>\<open>strsep\<close> on a string that is not empty returns its start, cut at the first delimiter, and moves
  \<^verbatim>\<open>*source_ptr\<close> after it or to \<^verbatim>\<open>NULL\<close> when there is none; on an empty string it returns \<^verbatim>\<open>NULL\<close>.
\<close>

theorem strsep_correct:
  assumes "cstr m delim d" "cstr m s t" "s \<noteq> NULL"
  defines "v \<equiv> takeWhile (\<lambda>c. c \<notin> set d) t"
  shows "strsep m s delim =
    Some (if t = [] then (NULL, NULL, m) else if v = t then (s, NULL, m)
          else (s, s + length v + 1, wr m (s + length v) [0]))"
proof (cases t)
  case Nil
  then have "m s = Some 0" "0 \<notin> set d" using assms(1,2) by (auto simp: cstr_Nil cstr_def)
  with Nil assms(1,3) show ?thesis
    by (simp add: strsep_def strtok_r'_def strtok_cont.simps delim_has_eq load8_def)
next
  case (Cons c t')
  then have c: "c \<noteq> 0" "m s = Some c" "cstr m (s + 1) t'" using assms(2) by (auto simp: cstr_Cons)
  note sc = strtok_scan_eq [OF assms(1) c(3)]
  show ?thesis
    using Cons c sc assms(1,3)
    by (auto simp: strsep_def strtok_r'_def strtok_cont.simps delim_has_eq mem_simps v_def Let_def)
qed

theorem strsep_correct_witness:
  "strsep (mem_image 4 [97, 44, 98, 0, 44, 0]) 4 8 =
     Some (4, 6, wr (mem_image 4 [97, 44, 98, 0, 44, 0]) 5 [0])"
  using strsep_correct [of "mem_image 4 [97, 44, 98, 0, 44, 0]" 8 "[44]" 4 "[97, 44, 98]"]
  by (simp add: cstr_def)

end
