(* ===== verification/Multibyte.thy ===== *)
theory Multibyte
  imports CMem
begin

unbundle bit_operations_syntax

text \<open>
  Multibyte characters: \<^verbatim>\<open>_mbtowc_r\<close> and \<^verbatim>\<open>_wctomb_r\<close> of \<^verbatim>\<open>src/runtime/libc/stdlib\<close>, compiled with
  \<^verbatim>\<open>_MB_CAPABLE\<close>, for the encodings UTF-8, Shift-JIS, EUC-JP and JIS and for the C locale.  Nothing in the repository defines
  \<^verbatim>\<open>_MB_CAPABLE\<close>: its own build has only the end of the two functions, one byte for a character.

  The name of the encoding (\<^verbatim>\<open>__lc_ctype\<close>) is a string.  A conversion returns the \<^verbatim>\<open>int\<close> result, the
  wide character it stored through \<^verbatim>\<open>pwc\<close>, if it did, and the conversion state; reading a byte that
  does not exist is a fault.  The length \<open>n\<close> is a \<^verbatim>\<open>size_t\<close> and wraps around.
\<close>

section \<open>The conversion state\<close>

text \<open>\<^verbatim>\<open>mbstate_t\<close>; the field \<^verbatim>\<open>__count\<close> is also the \<^verbatim>\<open>__state\<close> of the JIS automaton.\<close>

record mbstate =
  mb_count :: nat
  mb_wchb :: "nat \<Rightarrow> byte"

definition set_wchb :: "nat \<Rightarrow> byte \<Rightarrow> mbstate \<Rightarrow> mbstate" where
  "set_wchb k b st = st\<lparr>mb_wchb := (mb_wchb st)(k := b)\<rparr>"

definition set_count :: "nat \<Rightarrow> mbstate \<Rightarrow> mbstate" where
  "set_count c st = st\<lparr>mb_count := c\<rparr>"

lemma mbstate_simps [simp]:
  "mb_count (set_count c st) = c" "mb_wchb (set_count c st) = mb_wchb st"
  "mb_count (set_wchb k b st) = mb_count st" "mb_wchb (set_wchb k b st) j = (if j = k then b else mb_wchb st j)"
  by (simp_all add: set_count_def set_wchb_def)

type_synonym mbres = "(int \<times> u32 option \<times> mbstate) option"

section \<open>Decoding UTF-8\<close>

text \<open>\<^verbatim>\<open>ch < 0x80 || ch > 0xbf\<close> fails.\<close>

definition utf8_cont :: "byte \<Rightarrow> bool" where
  "utf8_cont ch \<longleftrightarrow> \<not> (ch < 0x80 \<or> ch > 0xbf)"

text \<open>\<^verbatim>\<open>(wchar_t)((b & msk) << k)\<close>\<close>

definition wc_part :: "byte \<Rightarrow> u32 \<Rightarrow> nat \<Rightarrow> u32" where
  "wc_part b msk k = push_bit k (ucast b AND msk)"

text \<open>\<^verbatim>\<open>if (state->__count == k) state->__count = k + 1; else ++n;\<close>\<close>

definition mb_bump :: "nat \<Rightarrow> mbstate \<Rightarrow> u32 \<Rightarrow> mbstate \<times> u32" where
  "mb_bump k st n = (if mb_count st = k then (set_count (k + 1) st, n) else (st, n + 1))"

text \<open>\<^verbatim>\<open>ch = (state->__count == k) ? t[i++] : state->__value.__wchb[k];\<close>\<close>

definition mb_next :: "mem \<Rightarrow> addr \<Rightarrow> nat \<Rightarrow> mbstate \<Rightarrow> nat \<Rightarrow> (byte \<times> nat) option" where
  "mb_next m t k st i =
     (if mb_count st = k then do { b \<leftarrow> load8 m (t + i); Some (b, i + 1) } else Some (mb_wchb st k, i))"

definition mbtowc_utf8_2 :: "mem \<Rightarrow> addr \<Rightarrow> u32 \<Rightarrow> mbstate \<Rightarrow> byte \<Rightarrow> nat \<Rightarrow> mbres" where
  "mbtowc_utf8_2 m t n st ch i =
     (let st = set_count 1 (set_wchb 0 ch st) in
      if n < 2 then Some (-2, None, st)
      else do { ch \<leftarrow> load8 m (t + i);
                let i = i + 1 in
                if \<not> utf8_cont ch then Some (-1, None, st)
                else if mb_wchb st 0 < 0xc2 then Some (-1, None, st)
                else Some (int i, Some (wc_part (mb_wchb st 0) 0x1f 6 OR wc_part ch 0x3f 0),
                           set_count 0 st) })"

definition mbtowc_utf8_3 :: "mem \<Rightarrow> addr \<Rightarrow> u32 \<Rightarrow> mbstate \<Rightarrow> byte \<Rightarrow> nat \<Rightarrow> mbres" where
  "mbtowc_utf8_3 m t n st ch i =
     (let st = set_wchb 0 ch st;
          (st, n) = mb_bump 0 st n in
      if n < 2 then Some (-2, None, st)
      else do { (ch, i) \<leftarrow> mb_next m t 1 st i;
                if mb_wchb st 0 = 0xe0 \<and> ch < 0xa0 then Some (-1, None, st)
                else if \<not> utf8_cont ch then Some (-1, None, st)
                else let st = set_count 2 (set_wchb 1 ch st) in
                     if n < 3 then Some (-2, None, st)
                     else do { ch \<leftarrow> load8 m (t + i);
                               let i = i + 1 in
                               if \<not> utf8_cont ch then Some (-1, None, st)
                               else let st = set_count 0 st;
                                        tmp = wc_part (mb_wchb st 0) 0x0f 12 OR
                                              wc_part (mb_wchb st 1) 0x3f 6 OR wc_part ch 0x3f 0 in
                                    if tmp \<ge> 0xd800 \<and> tmp \<le> 0xdfff then Some (-1, None, st)
                                    else Some (int i, Some tmp, st) } })"

definition mbtowc_utf8_4 :: "mem \<Rightarrow> addr \<Rightarrow> u32 \<Rightarrow> mbstate \<Rightarrow> byte \<Rightarrow> nat \<Rightarrow> mbres" where
  "mbtowc_utf8_4 m t n st ch i =
     (let st = set_wchb 0 ch st;
          (st, n) = mb_bump 0 st n in
      if n < 2 then Some (-2, None, st)
      else do { (ch, i) \<leftarrow> mb_next m t 1 st i;
                if mb_wchb st 0 = 0xf0 \<and> ch < 0x90 then Some (-1, None, st)
                else if \<not> utf8_cont ch then Some (-1, None, st)
                else let st = set_wchb 1 ch st;
                         (st, n) = mb_bump 1 st n in
                     if n < 3 then Some (-2, None, st)
                     else do { (ch, i) \<leftarrow> mb_next m t 2 st i;
                               if \<not> utf8_cont ch then Some (-1, None, st)
                               else let st = set_count 3 (set_wchb 2 ch st) in
                                    if n < 4 then Some (-2, None, st)
                                    else do { ch \<leftarrow> load8 m (t + i);
                                              let i = i + 1 in
                                              if \<not> utf8_cont ch then Some (-1, None, st)
                                              else Some (int i, Some
                                                     (wc_part (mb_wchb st 0) 0x07 18 OR
                                                      wc_part (mb_wchb st 1) 0x3f 12 OR
                                                      wc_part (mb_wchb st 2) 0x3f 6 OR
                                                      wc_part ch 0x3f 0), set_count 0 st) } } })"

definition mbtowc_utf8_5 :: "mem \<Rightarrow> addr \<Rightarrow> u32 \<Rightarrow> mbstate \<Rightarrow> byte \<Rightarrow> nat \<Rightarrow> mbres" where
  "mbtowc_utf8_5 m t n st ch i =
     (let st = set_wchb 0 ch st;
          (st, n) = mb_bump 0 st n in
      if n < 2 then Some (-2, None, st)
      else do { (ch, i) \<leftarrow> mb_next m t 1 st i;
                if mb_wchb st 0 = 0xf8 \<and> ch < 0x88 then Some (-1, None, st)
                else if \<not> utf8_cont ch then Some (-1, None, st)
                else let st = set_wchb 1 ch st;
                         (st, n) = mb_bump 1 st n in
                     if n < 3 then Some (-2, None, st)
                     else do { (ch, i) \<leftarrow> mb_next m t 2 st i;
                               if \<not> utf8_cont ch then Some (-1, None, st)
                               else let st = set_wchb 2 ch st;
                                        (st, n) = mb_bump 2 st n in
                                    if n < 4 then Some (-2, None, st)
                                    else do { (ch, i) \<leftarrow> mb_next m t 3 st i;
                                              if \<not> utf8_cont ch then Some (-1, None, st)
                                              else let st = set_count 4 (set_wchb 3 ch st) in
                                                   if n < 5 then Some (-2, None, st)
                                                   else do { ch \<leftarrow> load8 m (t + i);
                                                             let i = i + 1 in
                                                             Some (int i, Some
                                                               (wc_part (mb_wchb st 0) 0x03 24 OR
                                                                wc_part (mb_wchb st 1) 0x3f 18 OR
                                                                wc_part (mb_wchb st 2) 0x3f 12 OR
                                                                wc_part (mb_wchb st 3) 0x3f 6 OR
                                                                wc_part ch 0x3f 0), set_count 0 st) } } } })"

definition mbtowc_utf8_6 :: "mem \<Rightarrow> addr \<Rightarrow> u32 \<Rightarrow> mbstate \<Rightarrow> byte \<Rightarrow> nat \<Rightarrow> mbres" where
  "mbtowc_utf8_6 m t n st ch i =
     (let st = set_wchb 0 ch st;
          (st, n) = mb_bump 0 st n in
      if n < 2 then Some (-2, None, st)
      else do { (ch, i) \<leftarrow> mb_next m t 1 st i;
                if mb_wchb st 0 = 0xfc \<and> ch < 0x84 then Some (-1, None, st)
                else if \<not> utf8_cont ch then Some (-1, None, st)
                else let st = set_wchb 1 ch st;
                         (st, n) = mb_bump 1 st n in
                     if n < 3 then Some (-2, None, st)
                     else do { (ch, i) \<leftarrow> mb_next m t 2 st i;
                               if \<not> utf8_cont ch then Some (-1, None, st)
                               else let st = set_wchb 2 ch st;
                                        (st, n) = mb_bump 2 st n in
                                    if n < 4 then Some (-2, None, st)
                                    else do { (ch, i) \<leftarrow> mb_next m t 3 st i;
                                              if \<not> utf8_cont ch then Some (-1, None, st)
                                              else let st = set_wchb 3 ch st;
                                                       (st, n) = mb_bump 3 st n in
                                                   if n < 5 then Some (-2, None, st)
                                                   else if n = 5 then Some (-1, None, st)
                                                   else do { ch \<leftarrow> load8 m (t + i);
                                                             let i = i + 1 in
                                                             if \<not> utf8_cont ch then Some (-1, None, st)
                                                             else do { ch2 \<leftarrow> load8 m (t + i);
                                                               let i = i + 1 in
                                                               Some (int i, Some
                                                                (wc_part (mb_wchb st 0) 0x01 30 OR
                                                                 wc_part (mb_wchb st 1) 0x3f 24 OR
                                                                 wc_part (mb_wchb st 2) 0x3f 18 OR
                                                                 wc_part (mb_wchb st 3) 0x3f 12 OR
                                                                 wc_part ch 0x3f 6 OR
                                                                 wc_part ch2 0x3f 0), set_count 0 st) } } } } })"

definition mbtowc_utf8 :: "mem \<Rightarrow> addr \<Rightarrow> u32 \<Rightarrow> mbstate \<Rightarrow> mbres" where
  "mbtowc_utf8 m s n st =
     (if s = NULL then Some (0, None, st)
      else do { (ch, i, n) \<leftarrow> (if mb_count st = 0 then do { b \<leftarrow> load8 m s; Some (b, 1, n) }
                               else Some (mb_wchb st 0, 0, n + 1));
                if ch = 0 then Some (0, Some 0, set_count 0 st)
                else if ch \<le> 0x7f then Some (1, Some (ucast ch), set_count 0 st)
                else if ch \<ge> 0xc0 \<and> ch \<le> 0xdf then mbtowc_utf8_2 m s n st ch i
                else if ch \<ge> 0xe0 \<and> ch \<le> 0xef then mbtowc_utf8_3 m s n st ch i
                else if ch \<ge> 0xf0 \<and> ch \<le> 0xf7 then mbtowc_utf8_4 m s n st ch i
                else if ch \<ge> 0xf8 \<and> ch \<le> 0xfb then mbtowc_utf8_5 m s n st ch i
                else if ch \<ge> 0xfc \<and> ch \<le> 0xfd then mbtowc_utf8_6 m s n st ch i
                else Some (-1, None, st) })"

section \<open>Decoding the Japanese encodings\<close>

definition issjis1 :: "byte \<Rightarrow> bool" where
  "issjis1 c \<longleftrightarrow> c \<ge> 0x81 \<and> c \<le> 0x9f \<or> c \<ge> 0xe0 \<and> c \<le> 0xef"

definition issjis2 :: "byte \<Rightarrow> bool" where
  "issjis2 c \<longleftrightarrow> c \<ge> 0x40 \<and> c \<le> 0x7e \<or> c \<ge> 0x80 \<and> c \<le> 0xfc"

definition iseucjp :: "byte \<Rightarrow> bool" where
  "iseucjp c \<longleftrightarrow> c \<ge> 0xa1 \<and> c \<le> 0xfe"

definition isjis :: "byte \<Rightarrow> bool" where
  "isjis c \<longleftrightarrow> c \<ge> 0x21 \<and> c \<le> 0x7e"

text \<open>\<^verbatim>\<open>(((wchar_t) hi) << 8) + (wchar_t) lo\<close>\<close>

definition wc_pair :: "byte \<Rightarrow> byte \<Rightarrow> u32" where
  "wc_pair hi lo = push_bit 8 (ucast hi) + ucast lo"

text \<open>
  Shift-JIS and EUC-JP.  The branch returns (\<open>Inl\<close>) or falls through to the treatment of single
  bytes at the end of the function (\<open>Inr\<close>).
\<close>

definition mbtowc_sjis :: "mem \<Rightarrow> addr \<Rightarrow> u32 \<Rightarrow> mbstate \<Rightarrow> (int \<times> u32 option \<times> mbstate + mbstate) option" where
  "mbtowc_sjis m s n st =
     (if s = NULL then Some (Inl (0, None, st))
      else do { ch \<leftarrow> load8 m s;
                r \<leftarrow> (if mb_count st = 0 \<and> issjis1 ch
                     then let st = set_count 1 (set_wchb 0 ch st) in
                          if n \<le> 1 then Some (Inl (-2, None, st))
                          else do { ch \<leftarrow> load8 m (s + 1); Some (Inr (st, ch, 2)) }
                     else Some (Inr (st, ch, 1)));
                case r of
                  Inl ret \<Rightarrow> Some (Inl ret)
                | Inr (st, ch, i) \<Rightarrow>
                    if mb_count st = 1
                    then if issjis2 ch then Some (Inl (i, Some (wc_pair (mb_wchb st 0) ch), set_count 0 st))
                         else Some (Inl (-1, None, st))
                    else Some (Inr st) })"

definition mbtowc_eucjp :: "mem \<Rightarrow> addr \<Rightarrow> u32 \<Rightarrow> mbstate \<Rightarrow> (int \<times> u32 option \<times> mbstate + mbstate) option" where
  "mbtowc_eucjp m s n st =
     (if s = NULL then Some (Inl (0, None, st))
      else do { ch \<leftarrow> load8 m s;
                r \<leftarrow> (if mb_count st = 0 \<and> iseucjp ch
                     then let st = set_count 1 (set_wchb 0 ch st) in
                          if n \<le> 1 then Some (Inl (-2, None, st))
                          else do { ch \<leftarrow> load8 m (s + 1); Some (Inr (st, ch, 2)) }
                     else Some (Inr (st, ch, 1)));
                case r of
                  Inl ret \<Rightarrow> Some (Inl ret)
                | Inr (st, ch, i) \<Rightarrow>
                    if mb_count st = 1
                    then if iseucjp ch then Some (Inl (i, Some (wc_pair (mb_wchb st 0) ch), set_count 0 st))
                         else Some (Inl (-1, None, st))
                    else Some (Inr st) })"

text \<open>JIS: the classes of characters, the states and the actions of the automaton, and its tables.\<close>

datatype jis_char = JESCAPE | JDOLLAR | JBRACKET | JAT | JB | JJ | JNUL | JJIS_CHAR | JOTHER

datatype jis_state = S_ASCII | S_JIS | S_A_ESC | S_A_ESC_DL | S_JIS_1 | S_J_ESC | S_J_ESC_BR | S_INV

datatype jis_action = A_COPY_A | A_COPY_J1 | A_COPY_J2 | A_MAKE_A | A_NOOP | A_EMPTY | A_ERROR

text \<open>The row of \<^verbatim>\<open>INV\<close> has no initializer, so it holds the first constant of each enumeration.\<close>

fun JIS_state_table :: "jis_state \<Rightarrow> jis_char \<Rightarrow> jis_state" where
  "JIS_state_table S_ASCII ch = (case ch of JESCAPE \<Rightarrow> S_A_ESC | _ \<Rightarrow> S_ASCII)"
|  "JIS_state_table S_JIS ch = (case ch of JESCAPE \<Rightarrow> S_J_ESC | JNUL \<Rightarrow> S_INV | JOTHER \<Rightarrow> S_INV | _ \<Rightarrow> S_JIS_1)"
|  "JIS_state_table S_A_ESC ch = (case ch of JDOLLAR \<Rightarrow> S_A_ESC_DL | _ \<Rightarrow> S_ASCII)"
|  "JIS_state_table S_A_ESC_DL ch = (case ch of JAT \<Rightarrow> S_JIS | JB \<Rightarrow> S_JIS | _ \<Rightarrow> S_ASCII)"
|  "JIS_state_table S_JIS_1 ch = (case ch of JESCAPE \<Rightarrow> S_INV | JNUL \<Rightarrow> S_INV | JOTHER \<Rightarrow> S_INV | _ \<Rightarrow> S_JIS)"
|  "JIS_state_table S_J_ESC ch = (case ch of JBRACKET \<Rightarrow> S_J_ESC_BR | _ \<Rightarrow> S_INV)"
|  "JIS_state_table S_J_ESC_BR ch = (case ch of JB \<Rightarrow> S_ASCII | JJ \<Rightarrow> S_ASCII | _ \<Rightarrow> S_INV)"
|  "JIS_state_table S_INV ch = S_ASCII"

fun JIS_action_table :: "jis_state \<Rightarrow> jis_char \<Rightarrow> jis_action" where
  "JIS_action_table S_ASCII ch = (case ch of JESCAPE \<Rightarrow> A_NOOP | JNUL \<Rightarrow> A_EMPTY | _ \<Rightarrow> A_COPY_A)"
|  "JIS_action_table S_JIS ch = (case ch of JESCAPE \<Rightarrow> A_NOOP | JNUL \<Rightarrow> A_ERROR | JOTHER \<Rightarrow> A_ERROR | _ \<Rightarrow> A_COPY_J1)"
|  "JIS_action_table S_A_ESC ch = (case ch of JDOLLAR \<Rightarrow> A_NOOP | _ \<Rightarrow> A_COPY_A)"
|  "JIS_action_table S_A_ESC_DL ch = (case ch of JAT \<Rightarrow> A_NOOP | JB \<Rightarrow> A_NOOP | _ \<Rightarrow> A_COPY_A)"
|  "JIS_action_table S_JIS_1 ch = (case ch of JESCAPE \<Rightarrow> A_ERROR | JNUL \<Rightarrow> A_ERROR | JOTHER \<Rightarrow> A_ERROR | _ \<Rightarrow> A_COPY_J2)"
|  "JIS_action_table S_J_ESC ch = (case ch of JBRACKET \<Rightarrow> A_NOOP | _ \<Rightarrow> A_ERROR)"
|  "JIS_action_table S_J_ESC_BR ch = (case ch of JB \<Rightarrow> A_MAKE_A | JJ \<Rightarrow> A_MAKE_A | _ \<Rightarrow> A_ERROR)"
|  "JIS_action_table S_INV ch = A_COPY_A"

definition jis_class :: "byte \<Rightarrow> jis_char" where
  "jis_class c =
     (if c = 0x1b then JESCAPE else if c = 0x24 then JDOLLAR else if c = 0x40 then JAT
      else if c = 0x28 then JBRACKET else if c = 0x42 then JB else if c = 0x4a then JJ
      else if c = 0 then JNUL else if isjis c then JJIS_CHAR else JOTHER)"

text \<open>The numbers of the states, as they are kept in \<^verbatim>\<open>state->__state\<close>; another number is no row of the tables.\<close>

definition jis_states :: "jis_state list" where
  "jis_states = [S_ASCII, S_JIS, S_A_ESC, S_A_ESC_DL, S_JIS_1, S_J_ESC, S_J_ESC_BR, S_INV]"

definition jis_num :: "jis_state \<Rightarrow> nat" where
  "jis_num q = (case q of S_ASCII \<Rightarrow> 0 | S_JIS \<Rightarrow> 1 | S_A_ESC \<Rightarrow> 2 | S_A_ESC_DL \<Rightarrow> 3 | S_JIS_1 \<Rightarrow> 4
     | S_J_ESC \<Rightarrow> 5 | S_J_ESC_BR \<Rightarrow> 6 | S_INV \<Rightarrow> 7)"

text \<open>The loop over the bytes, with \<open>rem\<close> of them left from index \<open>i\<close> on.\<close>

primrec jis_loop :: "nat \<Rightarrow> mem \<Rightarrow> addr \<Rightarrow> nat \<Rightarrow> addr \<Rightarrow> jis_state \<Rightarrow> mbstate \<Rightarrow> mbres" where
  "jis_loop 0 m t i ptr curr_state st = Some (-2, None, set_count (jis_num curr_state) st)"
| "jis_loop (Suc rem) m t i ptr curr_state st =
     do { curr_ch \<leftarrow> load8 m (t + i);
          let ch = jis_class curr_ch;
              action = JIS_action_table curr_state ch;
              curr_state = JIS_state_table curr_state ch in
          case action of
            A_NOOP \<Rightarrow> jis_loop rem m t (i + 1) ptr curr_state st
          | A_EMPTY \<Rightarrow> Some (0, Some 0, set_count (jis_num S_ASCII) st)
          | A_COPY_A \<Rightarrow> do { b \<leftarrow> load8 m ptr;
                            Some (int (i + 1), Some (ucast b), set_count (jis_num S_ASCII) st) }
          | A_COPY_J1 \<Rightarrow> jis_loop rem m t (i + 1) ptr curr_state (set_wchb 0 curr_ch st)
          | A_COPY_J2 \<Rightarrow> Some (int (i + 1), Some (wc_pair (mb_wchb st 0) curr_ch),
                              set_count (jis_num S_JIS) st)
          | A_MAKE_A \<Rightarrow> jis_loop rem m t (i + 1) (t + i + 1) curr_state st
          | A_ERROR \<Rightarrow> Some (-1, None, st) }"

definition mbtowc_jis :: "mem \<Rightarrow> addr \<Rightarrow> u32 \<Rightarrow> mbstate \<Rightarrow> mbres" where
  "mbtowc_jis m s n st =
     (if s = NULL then Some (1, None, set_count (jis_num S_ASCII) st)
      else if mb_count st < length jis_states
           then jis_loop (unat n) m s 0 s (jis_states ! mb_count st) st
           else None)"

text \<open>The end of the function: the C locale, an unknown one, and the single bytes of Shift-JIS and EUC-JP.\<close>

definition mbtowc_single :: "mem \<Rightarrow> addr \<Rightarrow> mbstate \<Rightarrow> mbres" where
  "mbtowc_single m s st =
     (if s = NULL then Some (0, None, st)
      else do { b \<leftarrow> load8 m s;
                Some (if b = 0 then 0 else 1, Some (ucast b), st) })"

definition mbtowc_r :: "string \<Rightarrow> mem \<Rightarrow> addr \<Rightarrow> u32 \<Rightarrow> mbstate \<Rightarrow> mbres" where
  "mbtowc_r lc_ctype m s n st =
     (if s \<noteq> NULL \<and> n = 0 then Some (-2, None, st)
      else if length lc_ctype \<le> 1 then mbtowc_single m s st
      else if lc_ctype = ''C-UTF-8'' then mbtowc_utf8 m s n st
      else if lc_ctype = ''C-SJIS''
           then do { r \<leftarrow> mbtowc_sjis m s n st;
                     case r of Inl ret \<Rightarrow> Some ret | Inr st \<Rightarrow> mbtowc_single m s st }
      else if lc_ctype = ''C-EUCJP''
           then do { r \<leftarrow> mbtowc_eucjp m s n st;
                     case r of Inl ret \<Rightarrow> Some ret | Inr st \<Rightarrow> mbtowc_single m s st }
      else if lc_ctype = ''C-JIS'' then mbtowc_jis m s n st
      else mbtowc_single m s st)"

section \<open>Encoding\<close>

text \<open>\<^verbatim>\<open>*s++ = b\<close> for each byte of a list.\<close>

primrec put_bytes :: "mem \<Rightarrow> addr \<Rightarrow> byte list \<Rightarrow> mem option" where
  "put_bytes m s [] = Some m"
| "put_bytes m s (b # bs) = do { m \<leftarrow> store8 m s b; put_bytes m (s + 1) bs }"

text \<open>\<^verbatim>\<open>pre | ((wchar & msk) >> k)\<close>, stored in a \<^verbatim>\<open>char\<close>.\<close>

definition enc :: "u32 \<Rightarrow> u32 \<Rightarrow> nat \<Rightarrow> u32 \<Rightarrow> byte" where
  "enc pre msk k wchar = ucast (pre OR drop_bit k (wchar AND msk))"

definition utf8_encode :: "u32 \<Rightarrow> byte list option" where
  "utf8_encode wchar =
     (if wchar \<le> 0x7f then Some [ucast wchar]
      else if wchar \<ge> 0x80 \<and> wchar \<le> 0x7ff then Some [enc 0xc0 0x7c0 6 wchar, enc 0x80 0x3f 0 wchar]
      else if wchar \<ge> 0x800 \<and> wchar \<le> 0xffff
      then if wchar \<ge> 0xd800 \<and> wchar \<le> 0xdfff then None
           else Some [enc 0xe0 0xf000 12 wchar, enc 0x80 0xfc0 6 wchar, enc 0x80 0x3f 0 wchar]
      else if wchar \<ge> 0x10000 \<and> wchar \<le> 0x1fffff
      then Some [enc 0xf0 0x1c0000 18 wchar, enc 0x80 0x3f000 12 wchar, enc 0x80 0xfc0 6 wchar,
                 enc 0x80 0x3f 0 wchar]
      else if wchar \<ge> 0x200000 \<and> wchar \<le> 0x3ffffff
      then Some [enc 0xf8 0x3000000 24 wchar, enc 0x80 0xfc0000 18 wchar, enc 0x80 0x3f000 12 wchar,
                 enc 0x80 0xfc0 6 wchar, enc 0x80 0x3f 0 wchar]
      else if wchar \<ge> 0x4000000 \<and> wchar \<le> 0x7fffffff
      then Some [enc 0xfc 0x40000000 30 wchar, enc 0x80 0x3f000000 24 wchar, enc 0x80 0xfc0000 18 wchar,
                 enc 0x80 0x3f000 12 wchar, enc 0x80 0xfc0 6 wchar, enc 0x80 0x3f 0 wchar]
      else None)"

type_synonym wcres = "(int \<times> mem \<times> mbstate) option"

definition wctomb_utf8 :: "mem \<Rightarrow> addr \<Rightarrow> u32 \<Rightarrow> mbstate \<Rightarrow> wcres" where
  "wctomb_utf8 m s wchar st =
     (if s = NULL then Some (0, m, st)
      else case utf8_encode wchar of
             None \<Rightarrow> Some (-1, m, st)
           | Some bs \<Rightarrow> do { m \<leftarrow> put_bytes m s bs; Some (int (length bs), m, st) })"

text \<open>\<^verbatim>\<open>(unsigned char) (wchar >> 8)\<close> and \<^verbatim>\<open>(unsigned char) wchar\<close>\<close>

definition wc_char1 :: "u32 \<Rightarrow> byte" where
  "wc_char1 wchar = ucast (drop_bit 8 wchar)"

definition wc_char2 :: "u32 \<Rightarrow> byte" where
  "wc_char2 wchar = ucast wchar"

text \<open>The end of the function.\<close>

definition wctomb_single :: "mem \<Rightarrow> addr \<Rightarrow> u32 \<Rightarrow> mbstate \<Rightarrow> wcres" where
  "wctomb_single m s wchar st =
     (if s = NULL then Some (0, m, st) else do { m \<leftarrow> store8 m s (ucast wchar); Some (1, m, st) })"

definition wctomb_sjis :: "mem \<Rightarrow> addr \<Rightarrow> u32 \<Rightarrow> mbstate \<Rightarrow> wcres" where
  "wctomb_sjis m s wchar st =
     (if s = NULL then Some (0, m, st)
      else if wc_char1 wchar \<noteq> 0
      then if issjis1 (wc_char1 wchar) \<and> issjis2 (wc_char2 wchar)
           then do { m \<leftarrow> put_bytes m s [wc_char1 wchar, wc_char2 wchar]; Some (2, m, st) }
           else Some (-1, m, st)
      else wctomb_single m s wchar st)"

definition wctomb_eucjp :: "mem \<Rightarrow> addr \<Rightarrow> u32 \<Rightarrow> mbstate \<Rightarrow> wcres" where
  "wctomb_eucjp m s wchar st =
     (if s = NULL then Some (0, m, st)
      else if wc_char1 wchar \<noteq> 0
      then if iseucjp (wc_char1 wchar) \<and> iseucjp (wc_char2 wchar)
           then do { m \<leftarrow> put_bytes m s [wc_char1 wchar, wc_char2 wchar]; Some (2, m, st) }
           else Some (-1, m, st)
      else wctomb_single m s wchar st)"

definition wctomb_jis :: "mem \<Rightarrow> addr \<Rightarrow> u32 \<Rightarrow> mbstate \<Rightarrow> wcres" where
  "wctomb_jis m s wchar st =
     (if s = NULL then Some (1, m, st)
      else if wc_char1 wchar \<noteq> 0
      then if isjis (wc_char1 wchar) \<and> isjis (wc_char2 wchar)
           then if mb_count st = 0
                then do { m \<leftarrow> put_bytes m s [0x1b, 0x24, 0x42, wc_char1 wchar, wc_char2 wchar];
                          Some (5, m, set_count 1 st) }
                else do { m \<leftarrow> put_bytes m s [wc_char1 wchar, wc_char2 wchar]; Some (2, m, st) }
           else Some (-1, m, st)
      else if mb_count st \<noteq> 0
           then do { m \<leftarrow> put_bytes m s [0x1b, 0x28, 0x42, wc_char2 wchar]; Some (4, m, set_count 0 st) }
           else do { m \<leftarrow> put_bytes m s [wc_char2 wchar]; Some (1, m, st) })"

definition wctomb_r :: "string \<Rightarrow> mem \<Rightarrow> addr \<Rightarrow> u32 \<Rightarrow> mbstate \<Rightarrow> wcres" where
  "wctomb_r lc_ctype m s wchar st =
     (if length lc_ctype \<le> 1 then wctomb_single m s wchar st
      else if lc_ctype = ''C-UTF-8'' then wctomb_utf8 m s wchar st
      else if lc_ctype = ''C-SJIS'' then wctomb_sjis m s wchar st
      else if lc_ctype = ''C-EUCJP'' then wctomb_eucjp m s wchar st
      else if lc_ctype = ''C-JIS'' then wctomb_jis m s wchar st
      else wctomb_single m s wchar st)"

section \<open>What the bytes of a code hold\<close>

lemma put_bytes_eq: "mapped m s (length bs) \<Longrightarrow> put_bytes m s bs = Some (wr m s bs)"
proof (induction bs arbitrary: m s)
  case (Cons b bs)
  then have "mapped (wr m s [b]) (s + 1) (length bs)" using mapped_wr [of m s "[b]"] by simp
  with Cons show ?case by (simp add: mem_simps)
qed simp

lemma wc_part_enc:
  assumes "msk = push_bit k (mask a)" "pre AND mask a = 0" "a \<le> 8"
  shows "wc_part (enc pre msk k w) (mask a) k = w AND msk"
proof (rule bit_word_eqI)
  fix n assume n: "n < LENGTH(32)"
  have "\<not> (bit pre j \<and> j < a)" for j
    using assms(2) bit_and_iff [of pre "mask a" j] by (auto simp: bit_mask_iff dest: bit_imp_le_length)
  then show "bit (wc_part (enc pre msk k w) (mask a) k) n = bit (w AND msk) n"
    using n assms(3) by (auto simp: wc_part_def enc_def assms(1) bit_simps)
qed

lemma enc_unat:
  assumes "msk = push_bit k (mask a)" "pre AND mask a = 0" "k + a \<le> 32" "unat pre + 2 ^ a \<le> 256"
  shows "unat (enc pre msk k w) = unat pre + (unat w div 2 ^ k) mod 2 ^ a"
proof -
  let ?y = "take_bit a (drop_bit k w)"
  have y: "drop_bit k (w AND msk) = ?y"
    using assms(3) by (intro bit_word_eqI) (auto simp: assms(1) bit_simps dest: bit_imp_le_length)
  have uy: "unat ?y = (unat w div 2 ^ k) mod 2 ^ a"
  proof -
    have "unat w < 4294967296" using unsigned_less [of w] by simp
    then show ?thesis
      unfolding unsigned_take_bit_eq unsigned_drop_bit_eq by (simp add: take_bit_eq_mod [where 'a = nat] drop_bit_eq_div [where 'a = nat])
  qed
  have ly: "unat ?y < 2 ^ a" unfolding uy by simp
  have "\<not> (bit pre j \<and> j < a)" for j
    using assms(2) bit_and_iff [of pre "mask a" j] by (auto simp: bit_mask_iff dest: bit_imp_le_length)
  then have "pre OR ?y = pre + ?y" by (intro disjunctive_add [symmetric]) (auto simp: bit_simps)
  moreover have "unat (pre + ?y) = unat pre + unat ?y"
    using ly assms(4) by (intro unat_add_lem [THEN iffD1]) simp
  ultimately have "unat (pre OR ?y) = unat pre + unat ?y" by simp
  moreover have "unat (ucast (pre OR ?y) :: byte) = unat (pre OR ?y) mod 256"
    by (simp add: unsigned_ucast_eq take_bit_eq_mod)
  ultimately show ?thesis using ly assms(4) unfolding enc_def y uy by simp
qed

lemma and_all_bits:
  assumes "unat w < 2 ^ a" "msk = mask a" shows "w AND msk = (w :: u32)"
proof -
  have "unat (take_bit a w) = unat w" using assms(1) by (simp add: unsigned_take_bit_eq take_bit_eq_mod [where 'a = nat])
  then have "take_bit a w = w" by (simp add: word_unat_eq_iff)
  then show ?thesis by (simp add: assms(2) take_bit_eq_mask)
qed

text \<open>The masks of the source are runs of ones.\<close>

lemma utf8_masks:
  "(0x3f :: u32) = push_bit 0 (mask 6)" "(0xfc0 :: u32) = push_bit 6 (mask 6)"
  "(0x3f000 :: u32) = push_bit 12 (mask 6)" "(0xfc0000 :: u32) = push_bit 18 (mask 6)"
  "(0x3f000000 :: u32) = push_bit 24 (mask 6)"
  "(0x7c0 :: u32) = push_bit 6 (mask 5)" "(0xf000 :: u32) = push_bit 12 (mask 4)"
  "(0x1c0000 :: u32) = push_bit 18 (mask 3)" "(0x3000000 :: u32) = push_bit 24 (mask 2)"
  "(0x40000000 :: u32) = push_bit 30 (mask 1)"
  by (simp_all add: mask_eq_exp_minus_1)

lemma utf8_small_masks:
  "(0x3f :: u32) = mask 6" "(0x1f :: u32) = mask 5" "(0x0f :: u32) = mask 4" "(0x07 :: u32) = mask 3"
  "(0x03 :: u32) = mask 2" "(0x01 :: u32) = mask 1"
  by (simp_all add: mask_eq_exp_minus_1)

lemma utf8_prefixes:
  "(0x80 :: u32) AND mask 6 = 0" "(0xc0 :: u32) AND mask 5 = 0" "(0xe0 :: u32) AND mask 4 = 0"
  "(0xf0 :: u32) AND mask 3 = 0" "(0xf8 :: u32) AND mask 2 = 0" "(0xfc :: u32) AND mask 1 = 0"
  by (simp_all add: mask_eq_exp_minus_1)

lemma utf8_parts [simp]:
  "wc_part (enc 0x80 0x3f 0 w) 0x3f 0 = w AND 0x3f"
  "wc_part (enc 0x80 0xfc0 6 w) 0x3f 6 = w AND 0xfc0"
  "wc_part (enc 0x80 0x3f000 12 w) 0x3f 12 = w AND 0x3f000"
  "wc_part (enc 0x80 0xfc0000 18 w) 0x3f 18 = w AND 0xfc0000"
  "wc_part (enc 0x80 0x3f000000 24 w) 0x3f 24 = w AND 0x3f000000"
  "wc_part (enc 0xc0 0x7c0 6 w) 0x1f 6 = w AND 0x7c0"
  "wc_part (enc 0xe0 0xf000 12 w) 0x0f 12 = w AND 0xf000"
  "wc_part (enc 0xf0 0x1c0000 18 w) 0x07 18 = w AND 0x1c0000"
  "wc_part (enc 0xf8 0x3000000 24 w) 0x03 24 = w AND 0x3000000"
  "wc_part (enc 0xfc 0x40000000 30 w) 0x01 30 = w AND 0x40000000"
  using wc_part_enc [OF utf8_masks(1) utf8_prefixes(1)] wc_part_enc [OF utf8_masks(2) utf8_prefixes(1)]
    wc_part_enc [OF utf8_masks(3) utf8_prefixes(1)] wc_part_enc [OF utf8_masks(4) utf8_prefixes(1)]
    wc_part_enc [OF utf8_masks(5) utf8_prefixes(1)] wc_part_enc [OF utf8_masks(6) utf8_prefixes(2)]
    wc_part_enc [OF utf8_masks(7) utf8_prefixes(3)] wc_part_enc [OF utf8_masks(8) utf8_prefixes(4)]
    wc_part_enc [OF utf8_masks(9) utf8_prefixes(5)] wc_part_enc [OF utf8_masks(10) utf8_prefixes(6)]
  by (simp_all flip: utf8_small_masks)

lemma utf8_unats:
  "unat (enc 0x80 0x3f 0 w) = 128 + unat w mod 64"
  "unat (enc 0x80 0xfc0 6 w) = 128 + unat w div 64 mod 64"
  "unat (enc 0x80 0x3f000 12 w) = 128 + unat w div 4096 mod 64"
  "unat (enc 0x80 0xfc0000 18 w) = 128 + unat w div 262144 mod 64"
  "unat (enc 0x80 0x3f000000 24 w) = 128 + unat w div 16777216 mod 64"
  "unat (enc 0xc0 0x7c0 6 w) = 192 + unat w div 64 mod 32"
  "unat (enc 0xe0 0xf000 12 w) = 224 + unat w div 4096 mod 16"
  "unat (enc 0xf0 0x1c0000 18 w) = 240 + unat w div 262144 mod 8"
  "unat (enc 0xf8 0x3000000 24 w) = 248 + unat w div 16777216 mod 4"
  "unat (enc 0xfc 0x40000000 30 w) = 252 + unat w div 1073741824 mod 2"
  using enc_unat [OF utf8_masks(1) utf8_prefixes(1)] enc_unat [OF utf8_masks(2) utf8_prefixes(1)]
    enc_unat [OF utf8_masks(3) utf8_prefixes(1)] enc_unat [OF utf8_masks(4) utf8_prefixes(1)]
    enc_unat [OF utf8_masks(5) utf8_prefixes(1)] enc_unat [OF utf8_masks(6) utf8_prefixes(2)]
    enc_unat [OF utf8_masks(7) utf8_prefixes(3)] enc_unat [OF utf8_masks(8) utf8_prefixes(4)]
    enc_unat [OF utf8_masks(9) utf8_prefixes(5)] enc_unat [OF utf8_masks(10) utf8_prefixes(6)]
  by simp_all

lemma utf8_cont_iff: "utf8_cont ch \<longleftrightarrow> 128 \<le> unat ch \<and> unat ch \<le> 191"
  by (auto simp: utf8_cont_def word_less_nat_alt)

lemma utf8_cont_enc [simp]:
  "utf8_cont (enc 0x80 0x3f 0 w)" "utf8_cont (enc 0x80 0xfc0 6 w)" "utf8_cont (enc 0x80 0x3f000 12 w)"
  "utf8_cont (enc 0x80 0xfc0000 18 w)" "utf8_cont (enc 0x80 0x3f000000 24 w)"
proof -
  have "x mod 64 \<le> 63" for x :: nat by (simp add: less_Suc_eq_le [symmetric])
  then show "utf8_cont (enc 0x80 0x3f 0 w)" "utf8_cont (enc 0x80 0xfc0 6 w)" "utf8_cont (enc 0x80 0x3f000 12 w)"
    "utf8_cont (enc 0x80 0xfc0000 18 w)" "utf8_cont (enc 0x80 0x3f000000 24 w)"
    by (simp_all add: utf8_cont_iff utf8_unats)
qed

lemmas byte_nat = word_le_nat_alt word_less_nat_alt word_unat_eq_iff

lemma mb_fresh:
  "mb_count st = k \<Longrightarrow> mb_bump k st n = (set_count (k + 1) st, n)"
  "mb_count st = k \<Longrightarrow> mb_next m t k st i = do { b \<leftarrow> load8 m (t + i); Some (b, i + 1) }"
  by (simp_all add: mb_bump_def mb_next_def)

text \<open>The lead byte selects the branch that reads as many bytes as were written.\<close>

lemma utf8_dispatch:
  assumes "s \<noteq> NULL" "mb_count st = 0" "m s = Some ch"
  shows "192 \<le> unat ch \<Longrightarrow> unat ch \<le> 223 \<Longrightarrow> mbtowc_utf8 m s n st = mbtowc_utf8_2 m s n st ch 1"
    and "224 \<le> unat ch \<Longrightarrow> unat ch \<le> 239 \<Longrightarrow> mbtowc_utf8 m s n st = mbtowc_utf8_3 m s n st ch 1"
    and "240 \<le> unat ch \<Longrightarrow> unat ch \<le> 247 \<Longrightarrow> mbtowc_utf8 m s n st = mbtowc_utf8_4 m s n st ch 1"
    and "248 \<le> unat ch \<Longrightarrow> unat ch \<le> 251 \<Longrightarrow> mbtowc_utf8 m s n st = mbtowc_utf8_5 m s n st ch 1"
    and "252 \<le> unat ch \<Longrightarrow> unat ch \<le> 253 \<Longrightarrow> mbtowc_utf8 m s n st = mbtowc_utf8_6 m s n st ch 1"
  using assms by (auto simp: mbtowc_utf8_def load8_def byte_nat)

lemma nat_mod_le: "x mod 64 \<le> 63" "x mod 32 \<le> 31" "x mod 16 \<le> 15" "x mod 8 \<le> 7" "x mod 4 \<le> 3" "x mod 2 \<le> (1 :: nat)"
  by (simp_all flip: less_Suc_eq_le)

lemma utf8_decode_2:
  assumes "128 \<le> unat w" "unat w < 2048" "s \<noteq> NULL" "mb_count st = 0" "2 \<le> n"
    and "bytes m s [enc 0xc0 0x7c0 6 w, enc 0x80 0x3f 0 w]"
  shows "\<exists>st'. mbtowc_utf8 m s n st = Some (2, Some w, st') \<and> mb_count st' = 0"
proof -
  let ?b = "enc 0xc0 0x7c0 6 w"
  have ub: "unat ?b = 192 + unat w div 64" using assms(2) by (simp add: utf8_unats)
  have "2 \<le> unat w div 64" "unat w div 64 < 32" using assms(1,2) by auto
  then have "194 \<le> unat ?b" "unat ?b \<le> 223" using ub by simp_all
  then have "\<not> ?b < 0xc2" and br: "mbtowc_utf8 m s n st = mbtowc_utf8_2 m s n st ?b 1"
    using utf8_dispatch(1) [OF assms(3,4), of m ?b] assms(6) by (simp_all add: byte_nat)
  moreover have "(w AND 0x7c0) OR (w AND 0x3f) = w"
    using and_all_bits [of w 11 "0x7ff"] assms(2) bit.conj_disj_distrib [of w "0x7c0" "0x3f"]
    by (simp add: mask_eq_exp_minus_1)
  ultimately show ?thesis
    using assms(5,6) unfolding br mbtowc_utf8_2_def
    by (auto simp: load8_def Let_def not_less)
qed

lemma utf8_decode_3:
  assumes "2048 \<le> unat w" "unat w < 65536" "\<not> (w \<ge> 0xd800 \<and> w \<le> 0xdfff)" "s \<noteq> NULL" "mb_count st = 0" "3 \<le> n"
    and "bytes m s [enc 0xe0 0xf000 12 w, enc 0x80 0xfc0 6 w, enc 0x80 0x3f 0 w]"
  shows "\<exists>st'. mbtowc_utf8 m s n st = Some (3, Some w, st') \<and> mb_count st' = 0"
proof -
  let ?b = "enc 0xe0 0xf000 12 w" and ?c = "enc 0x80 0xfc0 6 w"
  have ub: "unat ?b = 224 + unat w div 4096" using assms(2) by (simp add: utf8_unats)
  have "unat w div 4096 < 16" using assms(2) by auto
  then have "224 \<le> unat ?b" "unat ?b \<le> 239" using ub by simp_all
  then have br: "mbtowc_utf8 m s n st = mbtowc_utf8_3 m s n st ?b 1"
    using utf8_dispatch(2) [OF assms(4,5), of m ?b] assms(7) by (simp_all add: byte_nat)
  have "\<not> (?b = 0xe0 \<and> ?c < 0xa0)"
  proof
    assume h: "?b = 0xe0 \<and> ?c < 0xa0"
    then have "unat w div 4096 = 0" using ub by simp
    then have "unat w div 64 mod 64 = unat w div 64" "32 \<le> unat w div 64" using assms(1) by auto
    with h show False by (simp add: byte_nat utf8_unats)
  qed
  moreover have "(w AND 0xf000) OR (w AND 0xfc0) OR (w AND 0x3f) = w"
    using and_all_bits [of w 16 "0xffff"] assms(2)
    by (simp add: mask_eq_exp_minus_1 flip: bit.conj_disj_distrib)
  moreover have "\<not> n < 2" "\<not> n < 3" using assms(6) by (auto simp: byte_nat)
  ultimately show ?thesis
    using assms(3,7) unfolding br mbtowc_utf8_3_def
    by (simp add: load8_def Let_def mb_fresh assms(5) numeral_2_eq_2)
qed

lemma utf8_decode_4:
  assumes "65536 \<le> unat w" "unat w < 2097152" "s \<noteq> NULL" "mb_count st = 0" "4 \<le> n"
    and "bytes m s [enc 0xf0 0x1c0000 18 w, enc 0x80 0x3f000 12 w, enc 0x80 0xfc0 6 w, enc 0x80 0x3f 0 w]"
  shows "\<exists>st'. mbtowc_utf8 m s n st = Some (4, Some w, st') \<and> mb_count st' = 0"
proof -
  let ?b = "enc 0xf0 0x1c0000 18 w" and ?c = "enc 0x80 0x3f000 12 w"
  have ub: "unat ?b = 240 + unat w div 262144" using assms(2) by (simp add: utf8_unats)
  have "unat w div 262144 < 8" using assms(2) by auto
  then have "240 \<le> unat ?b" "unat ?b \<le> 247" using ub by simp_all
  then have br: "mbtowc_utf8 m s n st = mbtowc_utf8_4 m s n st ?b 1"
    using utf8_dispatch(3) [OF assms(3,4), of m ?b] assms(6) by (simp_all add: byte_nat)
  have "\<not> (?b = 0xf0 \<and> ?c < 0x90)"
  proof
    assume h: "?b = 0xf0 \<and> ?c < 0x90"
    then have "unat w div 262144 = 0" using ub by simp
    then have "unat w div 4096 mod 64 = unat w div 4096" "16 \<le> unat w div 4096" using assms(1) by auto
    with h show False by (simp add: byte_nat utf8_unats)
  qed
  moreover have "(w AND 0x1c0000) OR (w AND 0x3f000) OR (w AND 0xfc0) OR (w AND 0x3f) = w"
    using and_all_bits [of w 21 "0x1fffff"] assms(2)
    by (simp add: mask_eq_exp_minus_1 flip: bit.conj_disj_distrib)
  moreover have "\<not> n < 2" "\<not> n < 3" "\<not> n < 4"
    using assms(5) by (auto simp: byte_nat)
  ultimately show ?thesis
    using assms(6) unfolding br mbtowc_utf8_4_def
    by (simp add: load8_def Let_def mb_fresh assms(4) numeral_2_eq_2 numeral_3_eq_3)
qed

lemma utf8_decode_5:
  assumes "2097152 \<le> unat w" "unat w < 67108864" "s \<noteq> NULL" "mb_count st = 0" "5 \<le> n"
    and "bytes m s [enc 0xf8 0x3000000 24 w, enc 0x80 0xfc0000 18 w, enc 0x80 0x3f000 12 w, enc 0x80 0xfc0 6 w, enc 0x80 0x3f 0 w]"
  shows "\<exists>st'. mbtowc_utf8 m s n st = Some (5, Some w, st') \<and> mb_count st' = 0"
proof -
  let ?b = "enc 0xf8 0x3000000 24 w" and ?c = "enc 0x80 0xfc0000 18 w"
  have ub: "unat ?b = 248 + unat w div 16777216" using assms(2) by (simp add: utf8_unats)
  have "unat w div 16777216 < 4" using assms(2) by auto
  then have "248 \<le> unat ?b" "unat ?b \<le> 251" using ub by simp_all
  then have br: "mbtowc_utf8 m s n st = mbtowc_utf8_5 m s n st ?b 1"
    using utf8_dispatch(4) [OF assms(3,4), of m ?b] assms(6) by (simp_all add: byte_nat)
  have "\<not> (?b = 0xf8 \<and> ?c < 0x88)"
  proof
    assume h: "?b = 0xf8 \<and> ?c < 0x88"
    then have "unat w div 16777216 = 0" using ub by simp
    then have "unat w div 262144 mod 64 = unat w div 262144" "8 \<le> unat w div 262144" using assms(1) by auto
    with h show False by (simp add: byte_nat utf8_unats)
  qed
  moreover have "(w AND 0x3000000) OR (w AND 0xfc0000) OR (w AND 0x3f000) OR (w AND 0xfc0) OR (w AND 0x3f) = w"
    using and_all_bits [of w 26 "0x3ffffff"] assms(2)
    by (simp add: mask_eq_exp_minus_1 flip: bit.conj_disj_distrib)
  moreover have "\<not> n < 2" "\<not> n < 3" "\<not> n < 4" "\<not> n < 5"
    using assms(5) by (auto simp: byte_nat)
  ultimately show ?thesis
    using assms(6) unfolding br mbtowc_utf8_5_def
    by (simp add: load8_def Let_def mb_fresh assms(4) numeral_2_eq_2 numeral_3_eq_3)
qed

lemma utf8_decode_6:
  assumes "67108864 \<le> unat w" "unat w < 2147483648" "s \<noteq> NULL" "mb_count st = 0" "6 \<le> n"
    and "bytes m s [enc 0xfc 0x40000000 30 w, enc 0x80 0x3f000000 24 w, enc 0x80 0xfc0000 18 w, enc 0x80 0x3f000 12 w, enc 0x80 0xfc0 6 w, enc 0x80 0x3f 0 w]"
  shows "\<exists>st'. mbtowc_utf8 m s n st = Some (6, Some w, st') \<and> mb_count st' = 0"
proof -
  let ?b = "enc 0xfc 0x40000000 30 w" and ?c = "enc 0x80 0x3f000000 24 w"
  have ub: "unat ?b = 252 + unat w div 1073741824" using assms(2) by (simp add: utf8_unats)
  have "unat w div 1073741824 < 2" using assms(2) by auto
  then have "252 \<le> unat ?b" "unat ?b \<le> 253" using ub by simp_all
  then have br: "mbtowc_utf8 m s n st = mbtowc_utf8_6 m s n st ?b 1"
    using utf8_dispatch(5) [OF assms(3,4), of m ?b] assms(6) by (simp_all add: byte_nat)
  have "\<not> (?b = 0xfc \<and> ?c < 0x84)"
  proof
    assume h: "?b = 0xfc \<and> ?c < 0x84"
    then have "unat w div 1073741824 = 0" using ub by simp
    then have "unat w div 16777216 mod 64 = unat w div 16777216" "4 \<le> unat w div 16777216" using assms(1) by auto
    with h show False by (simp add: byte_nat utf8_unats)
  qed
  moreover have "(w AND 0x40000000) OR (w AND 0x3f000000) OR (w AND 0xfc0000) OR (w AND 0x3f000) OR (w AND 0xfc0) OR (w AND 0x3f) = w"
    using and_all_bits [of w 31 "0x7fffffff"] assms(2)
    by (simp add: mask_eq_exp_minus_1 flip: bit.conj_disj_distrib)
  moreover have "\<not> n < 2" "\<not> n < 3" "\<not> n < 4" "\<not> n < 5" "n \<noteq> 5"
    using assms(5) by (auto simp: byte_nat)
  ultimately show ?thesis
    using assms(6) unfolding br mbtowc_utf8_6_def
    by (simp add: load8_def Let_def mb_fresh assms(4) numeral_2_eq_2 numeral_3_eq_3)
qed

lemma utf8_decode_1:
  assumes "unat w \<le> 127" "w \<noteq> 0" "s \<noteq> NULL" "mb_count st = 0" "bytes m s [ucast w]"
  shows "\<exists>st'. mbtowc_utf8 m s n st = Some (1, Some w, st') \<and> mb_count st' = 0"
proof -
  have u: "unat (ucast w :: byte) = unat w" using assms(1) by (simp add: unsigned_ucast_eq take_bit_eq_mod)
  have "(ucast (ucast w :: byte) :: u32) = w" using u by (simp add: word_unat_eq_iff)
  moreover have "(ucast w :: byte) \<noteq> 0" using u assms(2) by (metis unsigned_0 unsigned_eq_0_iff)
  ultimately show ?thesis using assms u by (simp add: mbtowc_utf8_def load8_def byte_nat)
qed

lemma utf8_decode_encode:
  assumes "utf8_encode w = Some bs" "w \<noteq> 0" "s \<noteq> NULL" "mb_count st = 0" "bytes m s bs" "length bs \<le> unat n"
  shows "\<exists>st'. mbtowc_utf8 m s n st = Some (int (length bs), Some w, st') \<and> mb_count st' = 0"
proof -
  have nn: "k \<le> n" if "length bs = unat k" for k using assms(6) that by (simp add: byte_nat)
  consider "unat w < 128" | "128 \<le> unat w" "unat w < 2048" | "2048 \<le> unat w" "unat w < 65536"
    | "65536 \<le> unat w" "unat w < 0x200000" | "0x200000 \<le> unat w" "unat w < 0x4000000"
    | "0x4000000 \<le> unat w" by linarith
  then show ?thesis
  proof cases
    case 1
    with assms(1) have "bs = [ucast w]" by (simp add: utf8_encode_def byte_nat)
    with utf8_decode_1 [of w s st m n] 1 assms show ?thesis by simp
  next
    case 2
    with assms(1) have "bs = [enc 0xc0 0x7c0 6 w, enc 0x80 0x3f 0 w]" by (simp add: utf8_encode_def byte_nat)
    with utf8_decode_2 [of w s st n m] 2 assms nn [of 2] show ?thesis by simp
  next
    case 3
    with assms(1) have "bs = [enc 0xe0 0xf000 12 w, enc 0x80 0xfc0 6 w, enc 0x80 0x3f 0 w]"
      "\<not> (w \<ge> 0xd800 \<and> w \<le> 0xdfff)"
      by (auto simp: utf8_encode_def byte_nat split: if_splits)
    with utf8_decode_3 [of w s st n m] 3 assms nn [of 3] show ?thesis by simp
  next
    case 4
    with assms(1) have "bs = [enc 0xf0 0x1c0000 18 w, enc 0x80 0x3f000 12 w, enc 0x80 0xfc0 6 w, enc 0x80 0x3f 0 w]"
      by (simp add: utf8_encode_def byte_nat)
    with utf8_decode_4 [of w s st n m] 4 assms nn [of 4] show ?thesis by simp
  next
    case 5
    with assms(1) have "bs = [enc 0xf8 0x3000000 24 w, enc 0x80 0xfc0000 18 w, enc 0x80 0x3f000 12 w,
        enc 0x80 0xfc0 6 w, enc 0x80 0x3f 0 w]"
      by (simp add: utf8_encode_def byte_nat)
    with utf8_decode_5 [of w s st n m] 5 assms nn [of 5] show ?thesis by simp
  next
    case 6
    with assms(1) have "bs = [enc 0xfc 0x40000000 30 w, enc 0x80 0x3f000000 24 w, enc 0x80 0xfc0000 18 w,
        enc 0x80 0x3f000 12 w, enc 0x80 0xfc0 6 w, enc 0x80 0x3f 0 w]" "unat w < 0x80000000"
      by (auto simp: utf8_encode_def byte_nat split: if_splits)
    with utf8_decode_6 [of w s st n m] 6 assms nn [of 6] show ?thesis by simp
  qed
qed

lemma utf8_encode_total:
  assumes "unat w < 2 ^ 31" "\<not> (0xd800 \<le> unat w \<and> unat w \<le> 0xdfff)"
  obtains bs where "utf8_encode w = Some bs" "length bs \<le> 6" "length bs \<noteq> 0"
proof -
  have "\<exists>bs. utf8_encode w = Some bs \<and> length bs \<le> 6 \<and> length bs \<noteq> 0"
    using assms unfolding utf8_encode_def byte_nat by simp
  then show ?thesis using that by blast
qed

section \<open>The two-byte encodings\<close>

lemma wc_pair_chars: "unat w < 65536 \<Longrightarrow> wc_pair (wc_char1 w) (wc_char2 w) = w"
proof -
  assume w: "unat w < 65536"
  have "w AND mask 16 = w" using w by (intro and_all_bits) simp_all
  then have "take_bit 16 w = w" by (simp add: take_bit_eq_mask)
  then have b: "bit w n \<Longrightarrow> n < 16" for n by (metis bit_take_bit_iff)
  have "wc_pair (wc_char1 w) (wc_char2 w) = push_bit 8 (ucast (wc_char1 w)) OR ucast (wc_char2 w)"
    unfolding wc_pair_def by (rule disjunctive_add) (auto simp: bit_simps wc_char2_def dest: bit_imp_le_length)
  also have "\<dots> = w"
  proof (rule bit_word_eqI)
    fix n assume "n < LENGTH(32)"
    then show "bit (push_bit 8 (ucast (wc_char1 w)) OR ucast (wc_char2 w) :: u32) n = bit w n"
      using b [of n] by (cases "n < 8") (auto simp: bit_simps wc_char1_def wc_char2_def)
  qed
  finally show ?thesis .
qed

lemma sjis_decode:
  assumes "s \<noteq> NULL" "mb_count st = 0" "bytes m s [c1, c2]" "issjis1 c1" "issjis2 c2" "2 \<le> n"
  shows "\<exists>st'. mbtowc_sjis m s n st = Some (Inl (2, Some (wc_pair c1 c2), st')) \<and> mb_count st' = 0"
proof -
  have "\<not> n \<le> 1" using assms(6) by (simp add: byte_nat)
  with assms show ?thesis by (simp add: mbtowc_sjis_def load8_def Let_def)
qed

lemma eucjp_decode:
  assumes "s \<noteq> NULL" "mb_count st = 0" "bytes m s [c1, c2]" "iseucjp c1" "iseucjp c2" "2 \<le> n"
  shows "\<exists>st'. mbtowc_eucjp m s n st = Some (Inl (2, Some (wc_pair c1 c2), st')) \<and> mb_count st' = 0"
proof -
  have "\<not> n \<le> 1" using assms(6) by (simp add: byte_nat)
  with assms show ?thesis by (simp add: mbtowc_eucjp_def load8_def Let_def)
qed

section \<open>Bounds\<close>

text \<open>
  From the initial state, a decoder looks at no byte beyond the first \<open>n\<close> and consumes at most
  that many.
\<close>

definition mb_bounded :: "nat \<Rightarrow> mbres \<Rightarrow> bool" where
  "mb_bounded n r \<longleftrightarrow> (case r of None \<Rightarrow> False | Some (k, wc, st) \<Rightarrow> k \<le> int n)"

lemma mb_bounded_simps [simp]:
  "mb_bounded n (Some (k, wc, st)) \<longleftrightarrow> k \<le> int n" "\<not> mb_bounded n None"
  by (simp_all add: mb_bounded_def)

lemma utf8_bounded:
  assumes "mapped m s N" "unat n = N" "mb_count st = 0"
  shows "mb_bounded N (mbtowc_utf8_2 m s n st ch 1)" "mb_bounded N (mbtowc_utf8_3 m s n st ch 1)"
    "mb_bounded N (mbtowc_utf8_4 m s n st ch 1)" "mb_bounded N (mbtowc_utf8_5 m s n st ch 1)"
    "mb_bounded N (mbtowc_utf8_6 m s n st ch 1)"
proof -
  have e: "m (s + i) = None \<Longrightarrow> N \<le> i" for i using assms(1) by (auto simp: mapped_nth not_less [symmetric])
  have l: "load8 m (Suc s) = None \<Longrightarrow> N \<le> 1" "load8 m (Suc (Suc s)) = None \<Longrightarrow> N \<le> 2"
    "load8 m (Suc (Suc (Suc s))) = None \<Longrightarrow> N \<le> 3" "load8 m (Suc (Suc (Suc (Suc s)))) = None \<Longrightarrow> N \<le> 4"
    "load8 m (Suc (Suc (Suc (Suc (Suc s))))) = None \<Longrightarrow> N \<le> 5"
    using e [of 1] e [of 2] e [of 3] e [of 4] e [of 5] by (auto simp: load8_def numeral_eq_Suc)
  note [simp] = Let_def mb_fresh byte_nat assms(2,3) and [dest!] = l
  show "mb_bounded N (mbtowc_utf8_2 m s n st ch 1)"
    by (auto simp: mbtowc_utf8_2_def split: bind_split)
  show "mb_bounded N (mbtowc_utf8_3 m s n st ch 1)"
    by (auto simp: mbtowc_utf8_3_def split: bind_split)
  show "mb_bounded N (mbtowc_utf8_4 m s n st ch 1)"
    by (auto simp: mbtowc_utf8_4_def split: bind_split)
  show "mb_bounded N (mbtowc_utf8_5 m s n st ch 1)"
    by (auto simp: mbtowc_utf8_5_def split: bind_split)
  show "mb_bounded N (mbtowc_utf8_6 m s n st ch 1)"
    by (auto simp: mbtowc_utf8_6_def split: bind_split)
qed

lemma jis_loop_bounded:
  "mapped m t N \<Longrightarrow> i + rem = N \<Longrightarrow> t \<le> ptr \<Longrightarrow> ptr \<le> t + i \<Longrightarrow> mb_bounded N (jis_loop rem m t i ptr q st)"
proof (induction rem arbitrary: i ptr q st)
  case (Suc rem)
  obtain b where b: "m (t + i) = Some b" using mappedD [OF Suc.prems(1), of "t + i"] Suc.prems by auto
  obtain c where c: "m ptr = Some c" using mappedD [OF Suc.prems(1), of ptr] Suc.prems by auto
  have ih: "mb_bounded N (jis_loop rem m t (i + 1) p q' st')" if "t \<le> p" "p \<le> t + i + 1" for p q' st'
    using that Suc.prems by (intro Suc.IH) auto
  show ?case
    using b c Suc.prems ih [of ptr] ih [of "t + i + 1"]
    by (auto simp: load8_def Let_def split: jis_action.split)
qed simp

lemma mbtowc_single_bounded: "s \<noteq> NULL \<Longrightarrow> mapped m s N \<Longrightarrow> N \<noteq> 0 \<Longrightarrow> mb_bounded N (mbtowc_single m s st)"
  by (cases N) (auto simp: mbtowc_single_def load8_def)

lemma mbtowc_utf8_bounded:
  assumes "s \<noteq> NULL" "mapped m s N" "unat n = N" "N \<noteq> 0" "mb_count st = 0"
  shows "mb_bounded N (mbtowc_utf8 m s n st)"
proof -
  obtain b where "m s = Some b" using assms(2,4) by (cases N) auto
  with utf8_bounded [OF assms(2,3,5), of b] assms show ?thesis
    by (auto simp: mbtowc_utf8_def load8_def)
qed

lemma mbtowc_pair_bounded:
  assumes "s \<noteq> NULL" "mapped m s N" "unat n = N" "N \<noteq> 0" "mb_count st = 0"
  shows "mb_bounded N (do { r \<leftarrow> mbtowc_sjis m s n st; case r of Inl ret \<Rightarrow> Some ret | Inr st \<Rightarrow> mbtowc_single m s st })"
    and "mb_bounded N (do { r \<leftarrow> mbtowc_eucjp m s n st; case r of Inl ret \<Rightarrow> Some ret | Inr st \<Rightarrow> mbtowc_single m s st })"
proof -
  obtain b where b: "m s = Some b" using assms(2,4) by (cases N) auto
  have c: "\<not> N \<le> 1 \<Longrightarrow> \<exists>c. m (Suc s) = Some c" using mappedD [OF assms(2), of "s + 1"] by simp
  have sg: "mb_bounded N (mbtowc_single m s st')" for st' using assms mbtowc_single_bounded by blast
  note d = load8_def Let_def byte_nat assms(1,3,5) b sg
  show "mb_bounded N (do { r \<leftarrow> mbtowc_sjis m s n st; case r of Inl ret \<Rightarrow> Some ret | Inr st \<Rightarrow> mbtowc_single m s st })"
    using c assms(4) by (auto simp: mbtowc_sjis_def d)
  show "mb_bounded N (do { r \<leftarrow> mbtowc_eucjp m s n st; case r of Inl ret \<Rightarrow> Some ret | Inr st \<Rightarrow> mbtowc_single m s st })"
    using c assms(4) by (auto simp: mbtowc_eucjp_def d)
qed


section \<open>The properties\<close>

text \<open>
  C6.  UTF-8 round trip: \<^verbatim>\<open>_wctomb_r\<close> writes a wide character from 1 to 0x7fffffff that is no surrogate
  as 1 to 6 bytes, and from the initial state \<^verbatim>\<open>_mbtowc_r\<close> reads the same character back from
  them, whatever follows in memory, consumes as many bytes, and is in the initial state again.
\<close>

theorem utf8_roundtrip:
  assumes "s \<noteq> NULL" "mapped m s 6" "mb_count st = 0"
    and "w \<noteq> 0" "unat w < 2 ^ 31" "\<not> (0xd800 \<le> unat w \<and> unat w \<le> 0xdfff)"
  shows "\<exists>k bs. wctomb_r ''C-UTF-8'' m s w st = Some (int k, wr m s bs, st) \<and> length bs = k \<and> k \<in> {1..6} \<and>
    (\<forall>n. k \<le> unat n \<longrightarrow>
      (\<exists>st'. mbtowc_r ''C-UTF-8'' (wr m s bs) s n st = Some (int k, Some w, st') \<and> mb_count st' = 0))"
proof -
  obtain bs where bs: "utf8_encode w = Some bs" "length bs \<le> 6" "length bs \<noteq> 0"
    using utf8_encode_total [OF assms(5,6)] .
  have "mapped m s (length bs)" using mapped_le [OF assms(2) bs(2)] .
  then have "wctomb_r ''C-UTF-8'' m s w st = Some (int (length bs), wr m s bs, st)"
    using assms(1) bs(1) by (simp add: wctomb_r_def wctomb_utf8_def put_bytes_eq)
  moreover have "\<exists>st'. mbtowc_r ''C-UTF-8'' (wr m s bs) s n st = Some (int (length bs), Some w, st') \<and> mb_count st' = 0"
    if "length bs \<le> unat n" for n
    using utf8_decode_encode [OF bs(1) assms(4,1,3) bytes_wr_same that] that bs(3)
    by (auto simp: mbtowc_r_def)
  ultimately show ?thesis using bs(2,3) by (intro exI [of _ "length bs"] exI [of _ bs]) (auto simp: Suc_le_eq)
qed

theorem utf8_roundtrip_witness:
  "\<exists>k bs. wctomb_r ''C-UTF-8'' (mem_image 8 [0, 0, 0, 0, 0, 0]) 8 0x20ac \<lparr>mb_count = 0, mb_wchb = (\<lambda>_. 0)\<rparr> =
     Some (int k, wr (mem_image 8 [0, 0, 0, 0, 0, 0]) 8 bs, \<lparr>mb_count = 0, mb_wchb = (\<lambda>_. 0)\<rparr>)"
proof -
  have "mapped (mem_image 8 [0, 0, 0, 0, 0, 0]) 8 6" by (simp add: mapped_mem_image)
  then show ?thesis
    using utf8_roundtrip [of 8 "mem_image 8 [0, 0, 0, 0, 0, 0]" "\<lparr>mb_count = 0, mb_wchb = (\<lambda>_. 0)\<rparr>" "0x20ac"]
    by auto
qed

text \<open>
  Shift-JIS and EUC-JP round trips: a wide character whose two bytes are a valid pair of the
  encoding is written as these two bytes and read back.
\<close>

theorem two_byte_roundtrip:
  assumes "s \<noteq> NULL" "mapped m s 2" "mb_count st = 0" "unat w < 65536" "wc_char1 w \<noteq> 0" "2 \<le> n"
  shows "(issjis1 (wc_char1 w) \<and> issjis2 (wc_char2 w) \<longrightarrow>
      (\<exists>m' st'. wctomb_r ''C-SJIS'' m s w st = Some (2, m', st) \<and>
        mbtowc_r ''C-SJIS'' m' s n st = Some (2, Some w, st') \<and> mb_count st' = 0)) \<and>
    (iseucjp (wc_char1 w) \<and> iseucjp (wc_char2 w) \<longrightarrow>
      (\<exists>m' st'. wctomb_r ''C-EUCJP'' m s w st = Some (2, m', st) \<and>
        mbtowc_r ''C-EUCJP'' m' s n st = Some (2, Some w, st') \<and> mb_count st' = 0))"
proof -
  let ?c1 = "wc_char1 w" and ?c2 = "wc_char2 w"
  let ?m = "wr m s [?c1, ?c2]"
  have pb: "put_bytes m s [?c1, ?c2] = Some ?m"
    using assms(2) by (intro put_bytes_eq) (simp add: numeral_2_eq_2)
  have n0: "n \<noteq> 0" using assms(6) by auto
  note d = mbtowc_r_def wctomb_r_def wctomb_sjis_def wctomb_eucjp_def pb
  note pr = wc_pair_chars [OF assms(4)]
  have "\<exists>m' st'. wctomb_r ''C-SJIS'' m s w st = Some (2, m', st) \<and>
      mbtowc_r ''C-SJIS'' m' s n st = Some (2, Some w, st') \<and> mb_count st' = 0"
    if v: "issjis1 ?c1" "issjis2 ?c2"
  proof -
    obtain st' where "mbtowc_sjis ?m s n st = Some (Inl (2, Some w, st'))" "mb_count st' = 0"
      using sjis_decode [OF assms(1,3) bytes_wr_same v assms(6)] pr by auto
    with v assms(1,5) n0 show ?thesis by (simp add: d del: put_bytes.simps)
  qed
  moreover have "\<exists>m' st'. wctomb_r ''C-EUCJP'' m s w st = Some (2, m', st) \<and>
      mbtowc_r ''C-EUCJP'' m' s n st = Some (2, Some w, st') \<and> mb_count st' = 0"
    if v: "iseucjp ?c1" "iseucjp ?c2"
  proof -
    obtain st' where "mbtowc_eucjp ?m s n st = Some (Inl (2, Some w, st'))" "mb_count st' = 0"
      using eucjp_decode [OF assms(1,3) bytes_wr_same v assms(6)] pr by auto
    with v assms(1,5) n0 show ?thesis by (simp add: d del: put_bytes.simps)
  qed
  ultimately show ?thesis by blast
qed

theorem two_byte_roundtrip_witness:
  "\<exists>m' st'. wctomb_r ''C-SJIS'' (mem_image 8 [0, 0]) 8 0x8140 \<lparr>mb_count = 0, mb_wchb = (\<lambda>_. 0)\<rparr> =
      Some (2, m', \<lparr>mb_count = 0, mb_wchb = (\<lambda>_. 0)\<rparr>) \<and>
    mbtowc_r ''C-SJIS'' m' 8 2 \<lparr>mb_count = 0, mb_wchb = (\<lambda>_. 0)\<rparr> = Some (2, Some 0x8140, st')"
proof -
  have c: "wc_char1 0x8140 = 0x81" "wc_char2 0x8140 = 0x40" by code_simp+
  have v: "issjis1 0x81 \<and> issjis2 0x40" by code_simp
  show ?thesis
    using two_byte_roundtrip [of 8 "mem_image 8 [0, 0]" "\<lparr>mb_count = 0, mb_wchb = (\<lambda>_. 0)\<rparr>" "0x8140" 2]
    by (auto simp: mapped_mem_image c v)
qed

text \<open>
  C20.  Started in the initial state on \<open>n\<close> bytes, \<^verbatim>\<open>_mbtowc_r\<close> returns without looking beyond them in
  every encoding, and never says that it consumed more than \<open>n\<close>.
\<close>

theorem mbtowc_bounds:
  assumes "s \<noteq> NULL" "mapped m s (unat n)" "mb_count st = 0"
  shows "\<exists>k wc st'. mbtowc_r lc m s n st = Some (k, wc, st') \<and> k \<le> int (unat n)"
proof -
  have "mb_bounded (unat n) (mbtowc_r lc m s n st)"
  proof (cases "n = 0")
    case False
    then have N: "unat n \<noteq> 0" by (simp add: unsigned_eq_0_iff)
    note b = mbtowc_single_bounded [OF assms(1,2) N] mbtowc_utf8_bounded [OF assms(1,2) refl N assms(3)]
      mbtowc_pair_bounded [OF assms(1,2) refl N assms(3)]
    have "mb_bounded (unat n) (mbtowc_jis m s n st)"
      using jis_loop_bounded [OF assms(2), of 0 "unat n" s] assms by (simp add: mbtowc_jis_def jis_states_def)
    with b False show ?thesis by (simp add: mbtowc_r_def)
  qed (use assms(1) in \<open>simp add: mbtowc_r_def\<close>)
  then show ?thesis by (auto simp: mb_bounded_def split: option.splits)
qed

theorem mbtowc_bounds_witness:
  "\<exists>k wc st'. mbtowc_r ''C-UTF-8'' (mem_image 8 [0xe3, 0x81]) 8 2 \<lparr>mb_count = 0, mb_wchb = (\<lambda>_. 0)\<rparr> =
     Some (k, wc, st') \<and> k \<le> 2"
  using mbtowc_bounds [of 8 "mem_image 8 [0xe3, 0x81]" 2 "\<lparr>mb_count = 0, mb_wchb = (\<lambda>_. 0)\<rparr>" "''C-UTF-8''"]
  by (simp add: mapped_mem_image)



end
