(* ===== verification/StrTol.thy ===== *)
theory StrTol
  imports Ctype
begin

unbundle bit_operations_syntax

text \<open>
  Conversion of strings to integers: \<^verbatim>\<open>_strtol_r\<close>, \<^verbatim>\<open>_strtoul_r\<close>, \<^verbatim>\<open>_strtoll_r\<close>, \<^verbatim>\<open>_strtoull_r\<close> of
  \<^verbatim>\<open>src/runtime/libc/stdlib\<close> and the functions that call them.  The four sources are one text at two
  widths, \<^verbatim>\<open>long\<close> (32 bits) and \<^verbatim>\<open>long long\<close> (64 bits), and so is the model: it is stated for a word
  of any length and instantiated.  A result is the number, the address stored through \<^verbatim>\<open>endptr\<close>
  when that is not \<^verbatim>\<open>NULL\<close>, and whether \<^verbatim>\<open>errno\<close> was set to \<^verbatim>\<open>ERANGE\<close>.
\<close>

section \<open>The routines\<close>

text \<open>\<^verbatim>\<open>do { c = *s++; } while (isspace (c));\<close>\<close>

partial_function (option) strto_skip :: "mem \<Rightarrow> addr \<Rightarrow> (int \<times> addr) option" where
  "strto_skip m s =
     do { b \<leftarrow> load8 m s;
          sp \<leftarrow> isspace (sint b);
          if sp then strto_skip m (s + 1) else Some (sint b, s + 1) }"

text \<open>The start of the functions: the sign, and the choice of the base.\<close>

definition strto_sign :: "mem \<Rightarrow> addr \<Rightarrow> (bool \<times> int \<times> addr) option" where
  "strto_sign m nptr =
     do { (c, s) \<leftarrow> strto_skip m nptr;
          if c = 45 then do { b \<leftarrow> load8 m s; Some (True, sint b, s + 1) }
          else if c = 43 then do { b \<leftarrow> load8 m s; Some (False, sint b, s + 1) }
          else Some (False, c, s) }"

definition strto_base :: "mem \<Rightarrow> int \<Rightarrow> int \<Rightarrow> addr \<Rightarrow> (int \<times> int \<times> addr) option" where
  "strto_base m base c s =
     do { hex \<leftarrow> (if (base = 0 \<or> base = 16) \<and> c = 48
                  then do { b \<leftarrow> load8 m s; Some (sint b = 120 \<or> sint b = 88) } else Some False);
          (c, s, base) \<leftarrow> (if hex then do { b \<leftarrow> load8 m (s + 1); Some (sint b, s + 2, 16) }
                          else Some (c, s, base));
          Some (if base = 0 then (if c = 48 then 8 else 10) else base, c, s) }"

text \<open>\<^verbatim>\<open>for (acc = 0, any = 0;; c = *s++) { ... }\<close>\<close>

partial_function (option) strto_loop ::
    "int \<Rightarrow> 'w::len word \<Rightarrow> int \<Rightarrow> mem \<Rightarrow> int \<Rightarrow> addr \<Rightarrow> 'w word \<Rightarrow> int \<Rightarrow> ('w word \<times> int \<times> addr) option" where
  "strto_loop base cutoff cutlim m c s acc any =
     do { dig \<leftarrow> isdigit c; alp \<leftarrow> isalpha c; upp \<leftarrow> isupper c;
          if \<not> dig \<and> \<not> alp then Some (acc, any, s)
          else let c = (if dig then c - 48 else if upp then c - (65 - 10) else c - (97 - 10)) in
               if c \<ge> base then Some (acc, any, s)
               else let (acc, any) = (if any < 0 \<or> acc > cutoff \<or> acc = cutoff \<and> c > cutlim
                                      then (acc, -1) else (acc * of_int base + of_int c, 1)) in
                    do { b \<leftarrow> load8 m s; strto_loop base cutoff cutlim m (sint b) (s + 1) acc any } }"

text \<open>\<^verbatim>\<open>LONG_MIN\<close> and \<^verbatim>\<open>LONG_MAX\<close> as words, and an unsigned value assigned to an \<^verbatim>\<open>int\<close>.\<close>

definition smin :: "'w::len word" where
  "smin = 2 ^ (LENGTH('w) - 1)"

definition smax :: "'w::len word" where
  "smax = smin - 1"

definition to_int :: "'w::len word \<Rightarrow> int" where
  "to_int w = sint (ucast w :: u32)"

definition strto_signed :: "mem \<Rightarrow> addr \<Rightarrow> int \<Rightarrow> ('w::len word \<times> addr \<times> bool) option" where
  "strto_signed m nptr base =
     do { (neg, c, s) \<leftarrow> strto_sign m nptr;
          (base, c, s) \<leftarrow> strto_base m base c s;
          let cutoff = (if neg then - smin else smax) :: 'w word;
              cutlim = to_int (cutoff mod of_int base);
              cutoff = cutoff div of_int base in
          do { (acc, any, s) \<leftarrow> strto_loop base cutoff cutlim m c s 0 0;
               let (acc, erange) = (if any < 0 then (if neg then smin else smax, True)
                                    else if neg then (- acc, False) else (acc, False)) in
               Some (acc, if any \<noteq> 0 then s - 1 else nptr, erange) } }"

definition strto_unsigned :: "mem \<Rightarrow> addr \<Rightarrow> int \<Rightarrow> ('w::len word \<times> addr \<times> bool) option" where
  "strto_unsigned m nptr base =
     do { (neg, c, s) \<leftarrow> strto_sign m nptr;
          (base, c, s) \<leftarrow> strto_base m base c s;
          let cutoff = (- 1 :: 'w word) div of_int base;
              cutlim = to_int ((- 1 :: 'w word) mod of_int base) in
          do { (acc, any, s) \<leftarrow> strto_loop base cutoff cutlim m c s 0 0;
               let (acc, erange) = (if any < 0 then (- 1, True)
                                    else if neg then (- acc, False) else (acc, False)) in
               Some (acc, if any \<noteq> 0 then s - 1 else nptr, erange) } }"

definition strtol_r :: "mem \<Rightarrow> addr \<Rightarrow> int \<Rightarrow> (u32 \<times> addr \<times> bool) option" where
  "strtol_r m nptr base = strto_signed m nptr base"

definition strtoul_r :: "mem \<Rightarrow> addr \<Rightarrow> int \<Rightarrow> (u32 \<times> addr \<times> bool) option" where
  "strtoul_r m nptr base = strto_unsigned m nptr base"

definition strtoll_r :: "mem \<Rightarrow> addr \<Rightarrow> int \<Rightarrow> (u64 \<times> addr \<times> bool) option" where
  "strtoll_r m nptr base = strto_signed m nptr base"

definition strtoull_r :: "mem \<Rightarrow> addr \<Rightarrow> int \<Rightarrow> (u64 \<times> addr \<times> bool) option" where
  "strtoull_r m nptr base = strto_unsigned m nptr base"

definition strtol :: "mem \<Rightarrow> addr \<Rightarrow> int \<Rightarrow> (u32 \<times> addr \<times> bool) option" where
  "strtol m s base = strtol_r m s base"

definition strtoul :: "mem \<Rightarrow> addr \<Rightarrow> int \<Rightarrow> (u32 \<times> addr \<times> bool) option" where
  "strtoul m s base = strtoul_r m s base"

definition strtoll :: "mem \<Rightarrow> addr \<Rightarrow> int \<Rightarrow> (u64 \<times> addr \<times> bool) option" where
  "strtoll m s base = strtoll_r m s base"

definition strtoull :: "mem \<Rightarrow> addr \<Rightarrow> int \<Rightarrow> (u64 \<times> addr \<times> bool) option" where
  "strtoull m s base = strtoull_r m s base"

definition atoi :: "mem \<Rightarrow> addr \<Rightarrow> u32 option" where
  "atoi m s = map_option fst (strtol m s 10)"

definition atol :: "mem \<Rightarrow> addr \<Rightarrow> u32 option" where
  "atol m s = map_option fst (strtol m s 10)"

definition atoll :: "mem \<Rightarrow> addr \<Rightarrow> u64 option" where
  "atoll m s = map_option fst (strtoll m s 10)"

section \<open>The specification\<close>

text \<open>The value of a digit, and of a list of digits.\<close>

definition digit_val :: "byte \<Rightarrow> nat option" where
  "digit_val b = (if 48 \<le> b \<and> b \<le> 57 then Some (unat b - 48) else if 65 \<le> b \<and> b \<le> 90 then Some (unat b - 55)
     else if 97 \<le> b \<and> b \<le> 122 then Some (unat b - 87) else None)"

definition is_digit :: "nat \<Rightarrow> byte \<Rightarrow> bool" where
  "is_digit base b = (case digit_val b of None \<Rightarrow> False | Some d \<Rightarrow> d < base)"

lemma is_digit_iff: "is_digit base b \<longleftrightarrow> (\<exists>d. digit_val b = Some d \<and> d < base)"
  by (simp add: is_digit_def split: option.split)

primrec digits_val :: "nat \<Rightarrow> nat \<Rightarrow> byte list \<Rightarrow> nat" where
  "digits_val base a [] = a"
| "digits_val base a (b # bs) = digits_val base (a * base + the (digit_val b)) bs"

definition is_space :: "byte \<Rightarrow> bool" where
  "is_space b \<longleftrightarrow> b = 32 \<or> 9 \<le> b \<and> b \<le> 13"

text \<open>
  A text of a number: white space, a sign, a prefix \<^verbatim>\<open>0x\<close>, digits of the base and the rest, with what
  the functions make of the base they are given.
\<close>

definition number_text ::
    "int \<Rightarrow> byte list \<Rightarrow> byte list \<Rightarrow> byte list \<Rightarrow> byte list \<Rightarrow> byte list \<Rightarrow> bool \<Rightarrow> nat \<Rightarrow> bool" where
  "number_text base sp sg pre digs rest neg b \<longleftrightarrow>
     list_all is_space sp \<and>
     (sg = [] \<and> \<not> neg \<and> (\<forall>c \<in> set (take 1 (pre @ digs @ rest)). \<not> is_space c \<and> c \<noteq> 43 \<and> c \<noteq> 45) \<or>
      sg = [43] \<and> \<not> neg \<or> sg = [45] \<and> neg) \<and>
     ((pre = [48, 120] \<or> pre = [48, 88]) \<and> (base = 0 \<or> base = 16) \<and> b = 16 \<or>
      pre = [] \<and>
      \<not> ((base = 0 \<or> base = 16) \<and> (take 2 (digs @ rest) = [48, 120] \<or> take 2 (digs @ rest) = [48, 88])) \<and>
      int b = (if base = 0 then if take 1 (digs @ rest) = [48] then 8 else 10 else base)) \<and>
     2 \<le> b \<and> b \<le> 36 \<and>
     list_all (is_digit b) digs \<and> (\<forall>c \<in> set (take 1 rest). \<not> is_digit b c)"

text \<open>Every string is such a text, in every base the functions take.\<close>

lemma take_dropWhile: "c \<in> set (take 1 (dropWhile P xs)) \<Longrightarrow> \<not> P c"
  by (induction xs) (auto split: if_splits)

lemma number_text_exists:
  assumes "base = 0 \<or> 2 \<le> base \<and> base \<le> 36"
  shows "\<exists>sp sg pre digs rest neg b. cs = sp @ sg @ pre @ digs @ rest \<and> number_text base sp sg pre digs rest neg b"
proof -
  define sp where "sp = takeWhile is_space cs"
  define us where "us = dropWhile is_space cs"
  have "cs = sp @ us" by (simp add: sp_def us_def)
  moreover have "list_all is_space sp" by (auto simp: sp_def list_all_iff dest: set_takeWhileD)
  moreover have "\<forall>c \<in> set (take 1 us). \<not> is_space c" using take_dropWhile [of _ is_space cs] unfolding us_def by blast
  ultimately have cs: "cs = sp @ us" "list_all is_space sp" "\<forall>c \<in> set (take 1 us). \<not> is_space c" .
  obtain sg neg vs where sg: "us = sg @ vs"
    "sg = [] \<and> \<not> neg \<and> (\<forall>c \<in> set (take 1 vs). \<not> is_space c \<and> c \<noteq> 43 \<and> c \<noteq> 45) \<or> sg = [43] \<and> \<not> neg \<or> sg = [45] \<and> neg"
  proof (cases "us \<noteq> [] \<and> (hd us = 43 \<or> hd us = 45)")
    case True
    then show thesis using that [of "[hd us]" "tl us" "hd us = 45"] by (cases us) auto
  next
    case False
    then show thesis using that [of "[]" us False] cs(3) by (cases us) auto
  qed
  define hex where "hex = ((base = 0 \<or> base = 16) \<and> (take 2 vs = [48, 120] \<or> take 2 vs = [48, 88]))"
  define pre where "pre = (if hex then take 2 vs else [])"
  define ws where "ws = (if hex then drop 2 vs else vs)"
  define b where "b = (if hex then 16 else nat (if base = 0 then if take 1 ws = [48] then 8 else 10 else base))"
  define digs where "digs = takeWhile (is_digit b) ws"
  define rest where "rest = dropWhile (is_digit b) ws"
  have ws: "vs = pre @ ws" "ws = digs @ rest" by (simp_all add: pre_def ws_def digs_def rest_def)
  have digs: "list_all (is_digit b) digs" unfolding digs_def list_all_iff by (blast dest: set_takeWhileD)
  have "\<forall>c \<in> set (take 1 rest). \<not> is_digit b c" using take_dropWhile [of _ "is_digit b" ws] unfolding rest_def by blast
  moreover have "2 \<le> b" "b \<le> 36" using assms by (auto simp: b_def)
  moreover have "(pre = [48, 120] \<or> pre = [48, 88]) \<and> (base = 0 \<or> base = 16) \<and> b = 16 \<or>
      pre = [] \<and> \<not> ((base = 0 \<or> base = 16) \<and> (take 2 ws = [48, 120] \<or> take 2 ws = [48, 88])) \<and>
      int b = (if base = 0 then if take 1 ws = [48] then 8 else 10 else base)"
  proof (cases hex)
    case True
    then show ?thesis by (simp add: pre_def b_def hex_def)
  next
    case False
    then show ?thesis using assms by (simp add: pre_def ws_def b_def) (auto simp: hex_def)
  qed
  ultimately have "number_text base sp sg pre digs rest neg b"
    using cs(2) sg(2) digs unfolding ws number_text_def by (intro conjI)
  then show ?thesis using cs(1) sg(1) ws(1,2) by (metis append_assoc)
qed

text \<open>
  Where the number ends: the C standard takes the longest start of the text that is a number, so after a prefix \<^verbatim>\<open>0x\<close> without a digit it
  has the number \<^verbatim>\<open>0\<close>, which ends before the \<^verbatim>\<open>x\<close>.
\<close>

definition standard_end :: "addr \<Rightarrow> byte list \<Rightarrow> byte list \<Rightarrow> byte list \<Rightarrow> byte list \<Rightarrow> addr" where
  "standard_end p sp sg pre digs =
     (if digs \<noteq> [] then p + length (sp @ sg @ pre @ digs) else if pre \<noteq> [] then p + length (sp @ sg) + 1 else p)"

section \<open>Characters\<close>

lemma byte_le_iff:
  "numeral k \<le> (b :: byte) \<longleftrightarrow> uint (numeral k :: byte) \<le> uint b" "b \<le> numeral k \<longleftrightarrow> uint b \<le> uint (numeral k :: byte)"
  by (simp_all add: word_le_def)

lemma class_sint:
  "isdigit (sint b) = Some (48 \<le> b \<and> b \<le> 57)" "isupper (sint b) = Some (65 \<le> b \<and> b \<le> 90)"
  "isalpha (sint b) = Some (65 \<le> b \<and> b \<le> 90 \<or> 97 \<le> b \<and> b \<le> 122)" "isspace (sint b) = Some (is_space b)"
proof -
  have r: "-128 \<le> sint b" "sint b < 256" using sint_byte_range [of b] by simp_all
  note e = letter_upper_def letter_lower_def byte_le_iff sint_byte
  have u: "0 \<le> uint b" "uint b < 256" by (rule uint_byte_range)+
  show "isdigit (sint b) = Some (48 \<le> b \<and> b \<le> 57)" "isupper (sint b) = Some (65 \<le> b \<and> b \<le> 90)"
    "isalpha (sint b) = Some (65 \<le> b \<and> b \<le> 90 \<or> 97 \<le> b \<and> b \<le> 122)"
    unfolding isdigit_eq [OF r] isupper_eq [OF r] isalpha_eq [OF r] using u by (auto simp: e)
  have "b = 32 \<longleftrightarrow> uint b = 32" by (simp add: word_uint_eq_iff)
  then show "isspace (sint b) = Some (is_space b)"
    unfolding isspace_eq [OF r] using u by (auto simp: is_space_def e)
qed

lemma sint_const:
  "sint (b :: byte) = 45 \<longleftrightarrow> b = 45" "sint b = 43 \<longleftrightarrow> b = 43" "sint b = 48 \<longleftrightarrow> b = 48"
  "sint b = 120 \<longleftrightarrow> b = 120" "sint b = 88 \<longleftrightarrow> b = 88"
  using uint_byte_range [of b] by (auto simp: sint_byte word_uint_eq_iff)

lemma digit_val_sint:
  assumes "digit_val b = Some d"
  shows "(if 48 \<le> b \<and> b \<le> 57 then sint b - 48 else if 65 \<le> b \<and> b \<le> 90 then sint b - (65 - 10) else sint b - (97 - 10)) = int d"
proof -
  have u: "int (unat b) = uint b" by simp
  have c: "numeral k \<le> b \<longleftrightarrow> unat (numeral k :: byte) \<le> unat b" "b \<le> numeral k \<longleftrightarrow> unat b \<le> unat (numeral k :: byte)" for k
    by (simp_all add: word_le_nat_alt)
  have "sint b = int (unat b)" if "unat b \<le> 122"
  proof -
    have "uint b < 128" using that u by linarith
    then show ?thesis by (simp add: sint_byte)
  qed
  with assms show ?thesis
    unfolding digit_val_def c by (auto split: if_splits)
qed

lemma digit_val_None:
  "digit_val b = None \<longleftrightarrow> \<not> (48 \<le> b \<and> b \<le> 57) \<and> \<not> (65 \<le> b \<and> b \<le> 90 \<or> 97 \<le> b \<and> b \<le> 122)"
  by (auto simp: digit_val_def)

lemma strto_loop_step:
  "strto_loop base cutoff cutlim m (sint b) s acc any =
     (case digit_val b of
        None \<Rightarrow> Some (acc, any, s)
      | Some d \<Rightarrow>
          if int d \<ge> base then Some (acc, any, s)
          else let (acc, any) = (if any < 0 \<or> acc > cutoff \<or> acc = cutoff \<and> int d > cutlim
                                 then (acc, -1) else (acc * of_int base + of_nat d, 1)) in
               do { b \<leftarrow> load8 m s; strto_loop base cutoff cutlim m (sint b) (s + 1) acc any })"
proof (cases "digit_val b")
  case None
  then have "\<not> (48 \<le> b \<and> b \<le> 57)" "\<not> (65 \<le> b \<and> b \<le> 90 \<or> 97 \<le> b \<and> b \<le> 122)"
    unfolding digit_val_None by blast+
  with None show ?thesis by (subst strto_loop.simps) (simp add: class_sint)
next
  case (Some d)
  then have n: "\<not> (\<not> (48 \<le> b \<and> b \<le> 57) \<and> \<not> (65 \<le> b \<and> b \<le> 90 \<or> 97 \<le> b \<and> b \<le> 122))"
    using digit_val_None [of b] by (metis option.distinct(1))
  show ?thesis
    unfolding strto_loop.simps [of base cutoff cutlim m "sint b"] class_sint bind.bind_lunit if_not_P [OF n]
      digit_val_sint [OF Some] Some option.case Let_def of_int_of_nat_eq ..
qed

section \<open>The loop\<close>

lemma digits_val_mono: "0 < base \<Longrightarrow> a \<le> digits_val base a ds"
proof (induction ds arbitrary: a)
  case (Cons b ds)
  have "a \<le> a * base + the (digit_val b)" using Cons.prems by (simp add: trans_le_add1)
  also have "\<dots> \<le> digits_val base (a * base + the (digit_val b)) ds" using Cons.IH Cons.prems by blast
  finally show ?case by simp
qed simp

text \<open>The test with \<^verbatim>\<open>cutoff\<close> and \<^verbatim>\<open>cutlim\<close> tells exactly whether the next value exceeds the limit \<open>M\<close>.\<close>

lemma cutoff_test:
  fixes a M base d :: nat
  assumes "d < base"
  shows "a > M div base \<or> a = M div base \<and> d > M mod base \<longleftrightarrow> a * base + d > M"
proof -
  have M: "M = M div base * base + M mod base" "M mod base < base" using assms by simp_all
  consider "a < M div base" | "a = M div base" | "a > M div base" by linarith
  then show ?thesis
  proof cases
    case 1
    then have "(a + 1) * base \<le> M div base * base" by (intro mult_le_mono1) simp
    then have "a * base + d < M div base * base" using assms by simp
    then have "a * base + d \<le> M" using M(1) by linarith
    with 1 show ?thesis by simp
  next
    case 2
    with M(1) show ?thesis by (metis less_irrefl nat_add_left_cancel_less)
  next
    case 3
    then have "(M div base + 1) * base \<le> a * base" by (intro mult_le_mono1) simp
    then have "M div base * base + base \<le> a * base" by simp
    then have "M < a * base" using M by linarith
    with 3 show ?thesis by simp
  qed
qed

lemma unat_of_nat_le: "n \<le> M \<Longrightarrow> M < 2 ^ LENGTH('w) \<Longrightarrow> unat (of_nat n :: 'w::len word) = n"
  by (simp add: unat_of_nat)

lemma strto_loop_no_digit:
  "\<not> is_digit base b \<Longrightarrow> strto_loop (int base) cutoff cutlim m (sint b) s acc any = Some (acc, any, s)"
  by (subst strto_loop_step) (auto simp: is_digit_iff split: option.split)

lemma strto_loop_stop:
  assumes "cstr m p rest" "\<forall>c \<in> set (take 1 rest). \<not> is_digit base c"
  shows "\<exists>b. m p = Some b \<and> strto_loop (int base) cutoff cutlim m (sint b) (p + 1) acc any = Some (acc, any, p + 1)"
proof (cases rest)
  case Nil
  have "\<not> is_digit base 0" by (simp add: is_digit_iff digit_val_def)
  with Nil assms(1) strto_loop_no_digit [of base 0] show ?thesis by (simp add: cstr_Nil)
next
  case (Cons c t)
  with assms show ?thesis by (simp add: cstr_Cons strto_loop_no_digit)
qed

lemma strto_loop_digit:
  assumes "digit_val x = Some d" "d < base" "load8 m s = Some b"
  shows "any < 0 \<or> acc > cutoff \<or> acc = cutoff \<and> int d > cutlim \<Longrightarrow>
      strto_loop (int base) cutoff cutlim m (sint x) s acc any =
      strto_loop (int base) cutoff cutlim m (sint b) (s + 1) acc (-1)"
    and "\<not> (any < 0 \<or> acc > cutoff \<or> acc = cutoff \<and> int d > cutlim) \<Longrightarrow>
      strto_loop (int base) cutoff cutlim m (sint x) s acc any =
      strto_loop (int base) cutoff cutlim m (sint b) (s + 1) (acc * of_nat base + of_nat d) 1"
  unfolding strto_loop_step [of "int base" cutoff cutlim m x] using assms by auto

lemma strto_loop_over:
  assumes "cstr m p (ds @ rest)" "list_all (is_digit base) ds" "\<forall>c \<in> set (take 1 rest). \<not> is_digit base c"
  shows "\<exists>b. m p = Some b \<and>
    strto_loop (int base) cutoff cutlim m (sint b) (p + 1) acc (-1) = Some (acc, -1, p + length ds + 1)"
  using assms(1,2)
proof (induction ds arbitrary: p)
  case Nil
  then show ?case using strto_loop_stop assms(3) by fastforce
next
  case (Cons x ds)
  obtain d where d: "digit_val x = Some d" "d < base" using Cons.prems by (auto simp: is_digit_iff)
  obtain b where b: "m (p + 1) = Some b"
    "strto_loop (int base) cutoff cutlim m (sint b) (p + 1 + 1) acc (-1) = Some (acc, -1, p + 1 + length ds + 1)"
    using Cons.IH [of "p + 1"] Cons.prems by (auto simp: cstr_Cons)
  have lb: "load8 m (p + 1) = Some b" using b(1) by (simp add: load8_def)
  with b strto_loop_digit(1) [OF d lb, where any = "-1" and acc = acc and cutoff = cutoff and cutlim = cutlim]
  show ?case using Cons.prems by (simp add: cstr_Cons)
qed

lemma strto_loop_eq:
  fixes cutoff :: "'w::len word"
  assumes b: "2 \<le> base" and M: "M < 2 ^ LENGTH('w)"
    and cut: "cutoff = of_nat (M div base)" "cutlim = int (M mod base)"
    and rest: "\<forall>c \<in> set (take 1 rest). \<not> is_digit base c"
    and "cstr m p (ds @ rest)" "list_all (is_digit base) ds" "a \<le> M" "0 \<le> any"
  shows "\<exists>b acc. m p = Some b \<and> strto_loop (int base) cutoff cutlim m (sint b) (p + 1) (of_nat a) any =
    Some (acc, if digits_val base a ds > M then -1 else if ds = [] then any else 1, p + length ds + 1) \<and>
    (digits_val base a ds \<le> M \<longrightarrow> acc = of_nat (digits_val base a ds))"
  using assms(6-)
proof (induction ds arbitrary: p a any)
  case Nil
  then show ?case using strto_loop_stop [of m p rest base cutoff cutlim "of_nat a" any] rest by auto
next
  case (Cons x ds)
  obtain d where d: "digit_val x = Some d" "d < base" using Cons.prems by (auto simp: is_digit_iff)
  have x: "m p = Some x" and tl: "cstr m (p + 1) (ds @ rest)" "list_all (is_digit base) ds"
    using Cons.prems by (auto simp: cstr_Cons)
  let ?a = "a * base + d"
  have "unat (of_nat a :: 'w word) = a" "unat cutoff = M div base"
    using unat_of_nat_le [OF _ M] Cons.prems(3) cut(1) by auto
  then have test: "of_nat a > cutoff \<or> of_nat a = cutoff \<and> int d > cutlim \<longleftrightarrow> ?a > M"
    using cutoff_test [OF d(2), of M a] cut(2) by (simp add: word_less_nat_alt word_unat_eq_iff)
  show ?case
  proof (cases "?a > M")
    case True
    have "M < digits_val base a (x # ds)" using True digits_val_mono [of base ?a ds] b d by simp
    moreover obtain b where b: "m (p + 1) = Some b" "strto_loop (int base) cutoff cutlim m (sint b) (p + 1 + 1) (of_nat a) (-1) =
        Some (of_nat a, -1, p + 1 + length ds + 1)"
      using strto_loop_over [OF tl rest] by blast
    moreover have lb: "load8 m (p + 1) = Some b" using b(1) by (simp add: load8_def)
    have "strto_loop (int base) cutoff cutlim m (sint x) (p + 1) (of_nat a) any =
        strto_loop (int base) cutoff cutlim m (sint b) (p + 1 + 1) (of_nat a) (-1)"
      by (rule strto_loop_digit(1) [OF d lb]) (use True test in blast)
    ultimately show ?thesis using x by simp
  next
    case False
    then have le: "?a \<le> M" by simp
    obtain b acc where b: "m (p + 1) = Some b" "strto_loop (int base) cutoff cutlim m (sint b) (p + 1 + 1) (of_nat ?a) 1 =
        Some (acc, if digits_val base ?a ds > M then -1 else if ds = [] then 1 else 1, p + 1 + length ds + 1)"
      "digits_val base ?a ds \<le> M \<longrightarrow> acc = of_nat (digits_val base ?a ds)"
      using Cons.IH [OF tl le, of 1] by auto
    have lb: "load8 m (p + 1) = Some b" using b(1) by (simp add: load8_def)
    have nt: "\<not> (any < 0 \<or> of_nat a > cutoff \<or> of_nat a = cutoff \<and> int d > cutlim)"
      using False test Cons.prems(4) by auto
    have "strto_loop (int base) cutoff cutlim m (sint x) (p + 1) (of_nat a) any =
        strto_loop (int base) cutoff cutlim m (sint b) (p + 1 + 1) (of_nat ?a) 1"
      using strto_loop_digit(2) [OF d lb nt] by simp
    with b x d show ?thesis by (intro exI [of _ x] exI [of _ acc]) simp
  qed
qed

section \<open>The prefix\<close>

text \<open>The first character of a string, its NUL when it is empty.\<close>

definition hd0 :: "byte list \<Rightarrow> byte" where
  "hd0 t = hd (t @ [0])"

lemma cstr_hd0: "cstr m p t \<Longrightarrow> m p = Some (hd0 t)"
  by (cases t) (auto simp: cstr_Nil cstr_Cons hd0_def)

lemma cstr_append: "cstr m p (s @ t) \<Longrightarrow> cstr m (p + length s) t"
  using cstr_drop [of m p "s @ t" "length s"] by simp

lemma hd0_take: "P 0 \<Longrightarrow> P (hd0 t) \<longleftrightarrow> (\<forall>c \<in> set (take 1 t). P c)"
  by (cases t) (auto simp: hd0_def)

lemma strto_skip_eq:
  assumes "cstr m p (sp @ t)" "list_all is_space sp" "\<not> is_space (hd0 t)"
  shows "strto_skip m p = Some (sint (hd0 t), p + length sp + 1)"
  using assms(1,2)
proof (induction sp arbitrary: p)
  case Nil
  then show ?case
    using cstr_hd0 [of m p t] assms(3) by (subst strto_skip.simps) (simp add: load8_def class_sint)
next
  case (Cons c sp)
  then have "strto_skip m (p + 1) = Some (sint (hd0 t), p + 1 + length sp + 1)"
    by (intro Cons.IH) (auto simp: cstr_Cons)
  with Cons.prems show ?case by (subst strto_skip.simps) (simp add: cstr_Cons load8_def class_sint)
qed

lemma strto_sign_eq:
  assumes "cstr m p (sp @ sg @ t)" "list_all is_space sp"
    and "sg = [] \<and> \<not> neg \<and> \<not> is_space (hd0 t) \<and> hd0 t \<noteq> 43 \<and> hd0 t \<noteq> 45 \<or> sg = [43] \<and> \<not> neg \<or> sg = [45] \<and> neg"
  shows "strto_sign m p = Some (neg, sint (hd0 t), p + length sp + length sg + 1)"
proof -
  have "\<not> is_space (hd0 (sg @ t))" using assms(3) by (auto simp: hd0_def is_space_def)
  then have sk: "strto_skip m p = Some (sint (hd0 (sg @ t)), p + length sp + 1)"
    using strto_skip_eq assms(1,2) by blast
  have t: "cstr m (p + length sp + length sg) t"
    using cstr_append [of m p "sp @ sg" t] assms(1) by (simp add: add.assoc)
  show ?thesis
  proof (cases "sg = []")
    case True
    with sk assms(3) show ?thesis by (auto simp: strto_sign_def sint_const)
  next
    case False
    with assms(3) have "sg = [43] \<and> \<not> neg \<or> sg = [45] \<and> neg" by simp
    moreover have "load8 m (p + length sp + 1) = Some (hd0 t)" if "length sg = 1"
      using cstr_hd0 [OF t] that by (simp add: load8_def)
    ultimately show ?thesis using sk by (auto simp: strto_sign_def hd0_def)
  qed
qed

lemma hd0_48: "hd0 u = 48 \<longleftrightarrow> take 1 u = [48]"
  by (cases u) (auto simp: hd0_def)

lemma strto_base_eq:
  assumes "cstr m q (pre @ u)"
    and "(pre = [48, 120] \<or> pre = [48, 88]) \<and> (base = 0 \<or> base = 16) \<and> b = 16 \<or>
      pre = [] \<and> \<not> ((base = 0 \<or> base = 16) \<and> (take 2 u = [48, 120] \<or> take 2 u = [48, 88])) \<and>
      int b = (if base = 0 then if take 1 u = [48] then 8 else 10 else base)"
  shows "strto_base m base (sint (hd0 (pre @ u))) (q + 1) = Some (int b, sint (hd0 u), q + length pre + 1)"
  using assms(2)
proof
  assume p: "(pre = [48, 120] \<or> pre = [48, 88]) \<and> (base = 0 \<or> base = 16) \<and> b = 16"
  have "cstr m (q + 2) u" using cstr_append [OF assms(1)] p by auto
  then have "load8 m (Suc (Suc q)) = Some (hd0 u)" using cstr_hd0 [of m "q + 2" u] by (simp add: load8_def)
  moreover have "load8 m (Suc q) = Some (pre ! 1)" using assms(1) p by (auto simp: cstr_Cons load8_def)
  ultimately show ?thesis using p by (auto simp: strto_base_def hd0_def)
next
  assume p: "pre = [] \<and> \<not> ((base = 0 \<or> base = 16) \<and> (take 2 u = [48, 120] \<or> take 2 u = [48, 88])) \<and>
      int b = (if base = 0 then if take 1 u = [48] then 8 else 10 else base)"
  have nohex: "\<not> (base = 0 \<or> base = 16) \<or> load8 m (q + 1) \<noteq> None \<and> load8 m (q + 1) \<notin> {Some 120, Some 88}"
    if h: "hd0 u = 48"
  proof -
    obtain v where u: "u = 48 # v" using h by (cases u) (auto simp: hd0_def)
    then have "cstr m (q + 1) v" using assms(1) p by (simp add: cstr_Cons)
    then have "load8 m (q + 1) = Some (hd0 v)" using cstr_hd0 by (simp add: load8_def)
    moreover have "take 2 u = 48 # take 1 v" using u by (simp add: take_Cons')
    ultimately show ?thesis using p by (cases v) (auto simp: hd0_def)
  qed
  show ?thesis
  proof (cases "hd0 u = 48")
    case True
    with nohex p hd0_48 [of u] show ?thesis by (auto simp: strto_base_def sint_const)
  next
    case False
    with p hd0_48 [of u] show ?thesis by (auto simp: strto_base_def sint_const)
  qed
qed

section \<open>The conversions\<close>

lemma sint_of_int_range:
  "- (2 ^ (LENGTH('w) - 1)) \<le> k \<Longrightarrow> k < 2 ^ (LENGTH('w) - 1) \<Longrightarrow> sint (of_int k :: 'w::len word) = k"
  by (simp add: signed_of_int signed_take_bit_int_eq_self)

lemma small_word:
  "b \<le> 36 \<Longrightarrow> 8 \<le> LENGTH('w) \<Longrightarrow> unat (of_nat b :: 'w::len word) = b"
proof -
  assume b: "b \<le> 36" "8 \<le> LENGTH('w)"
  have "(2 :: nat) ^ 8 \<le> 2 ^ LENGTH('w)" using b(2) by (intro power_increasing) simp_all
  then have "b < 2 ^ LENGTH('w)" using b(1) by simp
  then show ?thesis by (simp add: unat_of_nat)
qed

lemma cutlim_eq:
  fixes w :: "'w::len word"
  assumes "unat w = M" "2 \<le> b" "b \<le> 36" "8 \<le> LENGTH('w)"
  shows "to_int (w mod of_int (int b)) = int (M mod b)" "w div of_int (int b) = of_nat (M div b)"
proof -
  have ub: "unat (of_nat b :: 'w word) = b" using small_word assms(3,4) by blast
  have "ucast (w mod of_nat b) = (of_nat (unat (w mod of_nat b)) :: u32)" by (simp only: of_nat_unat)
  also have "unat (w mod of_nat b) = M mod b" by (simp add: unat_mod ub assms(1))
  finally have e: "ucast (w mod of_nat b) = (of_nat (M mod b) :: u32)" .
  have "M mod b < b" using assms(2) by simp
  then have "M mod b < 36" using assms(3) by linarith
  then show "to_int (w mod of_int (int b)) = int (M mod b)"
    unfolding to_int_def of_int_of_nat_eq e
    using sint_of_int_range [of "int (M mod b)", where 'w = 32] by (simp del: of_nat_mod)
  have "unat (w div of_nat b) = M div b" by (simp add: unat_div ub assms(1))
  then show "w div of_int (int b) = of_nat (M div b)"
    by (metis of_int_of_nat_eq of_nat_unat ucast_id)
qed

lemma unat_smin: "unat (smin :: 'w::len word) = 2 ^ (LENGTH('w) - 1)"
proof -
  have "(smin :: 'w word) = of_nat (2 ^ (LENGTH('w) - 1))" by (simp add: smin_def)
  moreover have "(2 :: nat) ^ (LENGTH('w) - 1) < 2 ^ LENGTH('w)" by (simp add: power_strict_increasing)
  ultimately show ?thesis by (metis mod_less unat_of_nat)
qed

lemma uminus_smin: "- (smin :: 'w::len word) = smin"
proof -
  have "smin + smin = (2 ^ LENGTH('w) :: 'w word)"
    by (simp add: smin_def flip: power_Suc mult_2)
  then have "smin + smin = (0 :: 'w word)" by simp
  then show ?thesis by (simp add: minus_equation_iff eq_neg_iff_add_eq_0)
qed

lemma unat_smax: "unat (smax :: 'w::len word) = 2 ^ (LENGTH('w) - 1) - 1"
proof -
  have "(smin :: 'w word) \<noteq> 0" using unat_smin [where 'w = 'w] by auto
  then show ?thesis by (simp add: smax_def unat_minus_one unat_smin)
qed

lemma number_textD:
  assumes "number_text base sp sg pre digs rest neg b" "cstr m p (sp @ sg @ pre @ digs @ rest)"
  defines "q \<equiv> p + length (sp @ sg @ pre)"
  shows "do { (neg, c, s) \<leftarrow> strto_sign m p; (base, c, s) \<leftarrow> strto_base m base c s; Some (neg, base, c, s) } =
      Some (neg, int b, sint (hd0 (digs @ rest)), q + 1)"
    and "cstr m q (digs @ rest)" "2 \<le> b" "b \<le> 36" "list_all (is_digit b) digs"
    "\<forall>c \<in> set (take 1 rest). \<not> is_digit b c"
proof -
  let ?u = "digs @ rest"
  note n = assms(1) [unfolded number_text_def]
  show "2 \<le> b" "b \<le> 36" "list_all (is_digit b) digs" "\<forall>c \<in> set (take 1 rest). \<not> is_digit b c"
    using n by auto
  show "cstr m q ?u"
    using cstr_append [of m p "sp @ sg @ pre" ?u] assms(2) by (simp add: q_def add.assoc)
  have sgn: "sg = [] \<and> \<not> neg \<and> \<not> is_space (hd0 (pre @ ?u)) \<and> hd0 (pre @ ?u) \<noteq> 43 \<and> hd0 (pre @ ?u) \<noteq> 45 \<or>
      sg = [43] \<and> \<not> neg \<or> sg = [45] \<and> neg"
    using n hd0_take [of "\<lambda>c. \<not> is_space c \<and> c \<noteq> 43 \<and> c \<noteq> 45" "pre @ ?u"] by (auto simp: is_space_def)
  have "strto_sign m p = Some (neg, sint (hd0 (pre @ ?u)), p + length sp + length sg + 1)"
    using strto_sign_eq [OF assms(2) _ sgn] n by simp
  moreover have "cstr m (p + length sp + length sg) (pre @ ?u)"
    using cstr_append [of m p "sp @ sg" "pre @ ?u"] assms(2) by (simp add: add.assoc)
  then have "strto_base m base (sint (hd0 (pre @ ?u))) (p + length sp + length sg + 1) =
      Some (int b, sint (hd0 ?u), p + length sp + length sg + length pre + 1)"
    by (rule strto_base_eq) (use n in argo)
  ultimately show "do { (neg, c, s) \<leftarrow> strto_sign m p; (base, c, s) \<leftarrow> strto_base m base c s; Some (neg, base, c, s) } =
      Some (neg, int b, sint (hd0 (digs @ rest)), q + 1)"
    by (simp add: q_def add.assoc)
qed

lemma number_text_loop:
  fixes w :: "'w::len word"
  assumes "number_text base sp sg pre digs rest neg b" "cstr m p (sp @ sg @ pre @ digs @ rest)"
    and "unat w = M" "8 \<le> LENGTH('w)"
  defines "v \<equiv> digits_val b 0 digs" and "q \<equiv> p + length (sp @ sg @ pre)"
  shows "\<exists>acc. strto_loop (int b) (w div of_int (int b)) (to_int (w mod of_int (int b))) m
      (sint (hd0 (digs @ rest))) (q + 1) 0 0 =
        Some (acc, if v > M then -1 else if digs = [] then 0 else 1, q + length digs + 1) \<and>
      (v \<le> M \<longrightarrow> acc = of_nat v)"
proof -
  note d = number_textD [OF assms(1,2), folded q_def]
  have M: "M < 2 ^ LENGTH('w)" unfolding assms(3) [symmetric] by (rule unsigned_less)
  note c = cutlim_eq [OF assms(3) d(3,4) assms(4)]
  have "m q = Some (hd0 (digs @ rest))" using cstr_hd0 [OF d(2)] .
  then show ?thesis
    using strto_loop_eq [OF d(3) M refl refl d(6,2,5), of 0 0] unfolding c v_def by auto
qed

text \<open>The signed conversion clamps the number to the range of the type.\<close>

lemma strto_signed_eq:
  assumes "number_text base sp sg pre digs rest neg b" "cstr m p (sp @ sg @ pre @ digs @ rest)" "8 \<le> LENGTH('w)"
  defines "v \<equiv> (if neg then - int (digits_val b 0 digs) else int (digits_val b 0 digs))"
    and "L \<equiv> 2 ^ (LENGTH('w) - 1)"
  shows "\<exists>r :: 'w::len word. strto_signed m p base =
      Some (r, if digs = [] then p else p + length (sp @ sg @ pre @ digs), v < - L \<or> v > L - 1) \<and>
    sint r = max (- L) (min (L - 1) v)"
proof -
  let ?n = "digits_val b 0 digs" and ?w = "(if neg then - smin else smax) :: 'w word"
  let ?M = "unat ?w"
  have L: "int (unat (smin :: 'w word)) = L" "int (unat (smax :: 'w word)) = L - 1"
    by (simp_all add: unat_smin unat_smax L_def of_nat_diff)
  note d = number_textD [OF assms(1,2)]
  obtain acc where lp: "strto_loop (int b) (?w div of_int (int b)) (to_int (?w mod of_int (int b))) m
      (sint (hd0 (digs @ rest))) (p + length (sp @ sg @ pre) + 1) 0 0 =
        Some (acc, if ?n > ?M then -1 else if digs = [] then 0 else 1, p + length (sp @ sg @ pre) + length digs + 1)"
      "?n \<le> ?M \<longrightarrow> acc = of_nat ?n"
    using number_text_loop [OF assms(1,2) refl assms(3), of ?w] by blast
  have M: "int ?M = (if neg then L else L - 1)" using L by (auto simp only: uminus_smin split: if_split)
  have L0: "0 < L" by (simp add: L_def)
  have nM: "?n > ?M \<longleftrightarrow> int ?n > int ?M" by (simp only: of_nat_less_iff)
  have over: "?n > ?M \<longleftrightarrow> v < - L \<or> v > L - 1"
    unfolding nM M v_def using L0 by auto
  define r where "r = (if ?n > ?M then (if neg then smin else smax) else if neg then - acc else acc)"
  have "strto_signed m p base =
      Some (r, if digs = [] then p else p + length (sp @ sg @ pre @ digs), ?n > ?M)"
  proof -
    obtain c s base' c' s' where sb: "strto_sign m p = Some (neg, c, s)" "strto_base m base c s = Some (base', c', s')"
      "base' = int b" "c' = sint (hd0 (digs @ rest))" "s' = p + length (sp @ sg @ pre) + 1"
      using d(1) by (auto simp: bind_eq_Some_conv)
    show ?thesis
      using lp(1) unfolding strto_signed_def sb(1) bind.bind_lunit prod.case sb(2) sb(3-5) Let_def
      by (auto simp: r_def)
  qed
  moreover have "sint r = max (- L) (min (L - 1) v)"
  proof (cases "?n > ?M")
    case True
    have "(smin :: 'w word) = of_int (- L)" using uminus_smin [where 'w = 'w] by (simp add: L_def smin_def)
    moreover have "(smax :: 'w word) = of_int (L - 1)" by (simp add: L_def smax_def smin_def)
    ultimately have "sint (smin :: 'w word) = - L" "sint (smax :: 'w word) = L - 1"
      using sint_of_int_range [of "- L", where 'w = 'w] sint_of_int_range [of "L - 1", where 'w = 'w] L0
      unfolding L_def by simp_all
    with True over L0 show ?thesis by (auto simp: r_def v_def)
  next
    case False
    then have "- L \<le> v" "v < L" using over by auto
    then have "sint (of_int v :: 'w word) = v" unfolding L_def by (rule sint_of_int_range)
    moreover have "r = of_int v" using False lp(2) by (simp add: r_def v_def)
    ultimately show ?thesis using \<open>- L \<le> v\<close> \<open>v < L\<close> by simp
  qed
  ultimately show ?thesis unfolding over by blast
qed

text \<open>The unsigned one saturates, and negates modulo the size of the type.\<close>

lemma strto_unsigned_eq:
  assumes "number_text base sp sg pre digs rest neg b" "cstr m p (sp @ sg @ pre @ digs @ rest)" "8 \<le> LENGTH('w)"
  defines "n \<equiv> digits_val b 0 digs" and "L \<equiv> 2 ^ LENGTH('w)"
  shows "\<exists>r :: 'w::len word. strto_unsigned m p base =
      Some (r, if digs = [] then p else p + length (sp @ sg @ pre @ digs), int n \<ge> L) \<and>
    uint r = (if int n \<ge> L then L - 1 else if neg then - int n mod L else int n)"
proof -
  let ?w = "- 1 :: 'w word"
  let ?M = "unat ?w"
  have M: "int ?M = L - 1" by (simp add: L_def unsigned_minus_1_eq_mask mask_eq_exp_minus_1)
  note d = number_textD [OF assms(1,2)]
  obtain acc where lp: "strto_loop (int b) (?w div of_int (int b)) (to_int (?w mod of_int (int b))) m
      (sint (hd0 (digs @ rest))) (p + length (sp @ sg @ pre) + 1) 0 0 =
        Some (acc, if n > ?M then -1 else if digs = [] then 0 else 1, p + length (sp @ sg @ pre) + length digs + 1)"
      "n \<le> ?M \<longrightarrow> acc = of_nat n"
    using number_text_loop [OF assms(1,2) refl assms(3), of ?w] unfolding n_def by blast
  have "n > ?M \<longleftrightarrow> int n > int ?M" by (simp only: of_nat_less_iff)
  then have over: "n > ?M \<longleftrightarrow> int n \<ge> L" unfolding M by linarith
  define r where "r = (if n > ?M then - 1 else if neg then - acc else acc)"
  have "strto_unsigned m p base =
      Some (r, if digs = [] then p else p + length (sp @ sg @ pre @ digs), n > ?M)"
  proof -
    obtain c s base' c' s' where sb: "strto_sign m p = Some (neg, c, s)" "strto_base m base c s = Some (base', c', s')"
      "base' = int b" "c' = sint (hd0 (digs @ rest))" "s' = p + length (sp @ sg @ pre) + 1"
      using d(1) by (auto simp: bind_eq_Some_conv)
    show ?thesis
      using lp(1) unfolding strto_unsigned_def sb(1) bind.bind_lunit prod.case sb(2) sb(3-5) Let_def
      by (auto simp: r_def n_def)
  qed
  moreover have "uint r = (if n > ?M then L - 1 else if neg then - int n mod L else int n)"
  proof (cases "n > ?M")
    case True
    then show ?thesis using M by (simp add: r_def)
  next
    case False
    then have "int n < L" using over by simp
    moreover have "r = of_int (if neg then - int n else int n)" using False lp(2) by (simp add: r_def)
    ultimately show ?thesis using False by (simp add: uint_word_of_int L_def)
  qed
  ultimately show ?thesis unfolding over by blast
qed

lemma long_lengths: "LENGTH(32) = 32" "LENGTH(64) = 64" "8 \<le> LENGTH(32)" "8 \<le> LENGTH(64)"
  by simp_all

section \<open>The properties\<close>

text \<open>
  C4.  \<^verbatim>\<open>strtol\<close> and \<^verbatim>\<open>strtoll\<close>: on any string, split into white space, a sign, a prefix \<^verbatim>\<open>0x\<close>, digits of
  the base (from 2 to 36, or recognised from the prefixes \<^verbatim>\<open>0x\<close> and \<^verbatim>\<open>0\<close>) and the rest, the value returned is the number, clamped
  to the range of the type, with \<^verbatim>\<open>ERANGE\<close> exactly when it does not fit.  \<^verbatim>\<open>endptr\<close> is the end of the longest number the C standard
  sees there, or the start when there is none, but for one case: after a prefix \<^verbatim>\<open>0x\<close> without a digit it is the start, too, where the
  standard has the end of the number \<^verbatim>\<open>0\<close>.
\<close>

theorem strtol_correct:
  assumes "number_text base sp sg pre digs rest neg b" "cstr m p (sp @ sg @ pre @ digs @ rest)"
  defines "v \<equiv> (if neg then - int (digits_val b 0 digs) else int (digits_val b 0 digs))"
    and "e \<equiv> (if pre \<noteq> [] \<and> digs = [] then p else standard_end p sp sg pre digs)"
  shows "(\<exists>r. strtol m p base = Some (r, e, v < - (2 ^ 31) \<or> v > 2 ^ 31 - 1) \<and>
      sint r = max (- (2 ^ 31)) (min (2 ^ 31 - 1) v)) \<and>
    (\<exists>r. strtoll m p base = Some (r, e, v < - (2 ^ 63) \<or> v > 2 ^ 63 - 1) \<and>
      sint r = max (- (2 ^ 63)) (min (2 ^ 63 - 1) v))"
proof -
  have "e = (if digs = [] then p else p + length (sp @ sg @ pre @ digs))" by (simp add: e_def standard_end_def)
  then show ?thesis
    using strto_signed_eq [OF assms(1,2), where 'w = 32] strto_signed_eq [OF assms(1,2), where 'w = 64]
    by (simp add: strtol_def strtol_r_def strtoll_def strtoll_r_def v_def)
qed

theorem strtol_correct_witness:
  "\<exists>r. strtol (mem_image 4 [32, 45, 52, 50, 59, 0]) 4 10 = Some (r, 8, False) \<and> sint r = - 42"
proof -
  have n: "number_text 10 [32] [45] [] [52, 50] [59] True 10" by code_simp
  have v: "digits_val 10 0 [52, 50] = 42" by code_simp
  show ?thesis
    using strtol_correct [OF n, of "mem_image 4 [32, 45, 52, 50, 59, 0]" 4]
    by (simp add: v cstr_def standard_end_def del: digits_val.simps)
qed

text \<open>
  \<^verbatim>\<open>strtoul\<close> and \<^verbatim>\<open>strtoull\<close> return the number modulo the size of the type, negated when there is
  a minus sign, and the greatest value with \<^verbatim>\<open>ERANGE\<close> exactly when its digits do not fit.
\<close>

theorem strtoul_correct:
  assumes "number_text base sp sg pre digs rest neg b" "cstr m p (sp @ sg @ pre @ digs @ rest)"
  defines "n \<equiv> int (digits_val b 0 digs)"
    and "e \<equiv> (if digs = [] then p else p + length (sp @ sg @ pre @ digs))"
  shows "(\<exists>r. strtoul m p base = Some (r, e, n \<ge> 2 ^ 32) \<and>
      uint r = (if n \<ge> 2 ^ 32 then 2 ^ 32 - 1 else if neg then - n mod 2 ^ 32 else n)) \<and>
    (\<exists>r. strtoull m p base = Some (r, e, n \<ge> 2 ^ 64) \<and>
      uint r = (if n \<ge> 2 ^ 64 then 2 ^ 64 - 1 else if neg then - n mod 2 ^ 64 else n))"
  unfolding strtoul_def strtoul_r_def strtoull_def strtoull_r_def n_def e_def
  using strto_unsigned_eq [OF assms(1,2) long_lengths(3)] strto_unsigned_eq [OF assms(1,2) long_lengths(4)]
  unfolding long_lengths(1,2) by (rule conjI)

theorem strtoul_correct_witness:
  "\<exists>r. strtoul (mem_image 4 [48, 120, 70, 102, 0]) 4 0 = Some (r, 8, False) \<and> uint r = 255"
proof -
  have n: "number_text 0 [] [] [48, 120] [70, 102] [] False 16" by code_simp
  have v: "digits_val 16 0 [70, 102] = 255" by code_simp
  show ?thesis
    using strtoul_correct [OF n, of "mem_image 4 [48, 120, 70, 102, 0]" 4]
    by (simp add: v cstr_def del: digits_val.simps)
qed

end
