(* ===== verification/Comparator.thy ===== *)
theory Comparator
  imports StrCompare
begin

text \<open>
  What the routines of \<^verbatim>\<open>src/runtime/libc/search\<close> rely on in the comparison function they are given: it
  is consistent, a total preorder, on the elements it is called with.  \<^verbatim>\<open>strcmp\<close> on strings without
  a NUL is one.
\<close>

section \<open>What a comparison function promises\<close>

locale comparator =
  fixes cmp :: "'a \<Rightarrow> 'a \<Rightarrow> int" and S :: "'a set"
  assumes cmp_anti: "x \<in> S \<Longrightarrow> y \<in> S \<Longrightarrow> cmp x y < 0 \<longleftrightarrow> 0 < cmp y x"
    and cmp_trans: "x \<in> S \<Longrightarrow> y \<in> S \<Longrightarrow> z \<in> S \<Longrightarrow> cmp x y \<le> 0 \<Longrightarrow> cmp y z \<le> 0 \<Longrightarrow> cmp x z \<le> 0"
begin

lemma cmp_refl [simp]: "x \<in> S \<Longrightarrow> cmp x x = 0"
  using cmp_anti [of x x] by auto

lemma cmp_le_iff: "x \<in> S \<Longrightarrow> y \<in> S \<Longrightarrow> cmp x y \<le> 0 \<longleftrightarrow> 0 \<le> cmp y x"
  using cmp_anti [of x y] cmp_anti [of y x] by linarith

lemma cmp_between: "x \<in> S \<Longrightarrow> y \<in> S \<Longrightarrow> p \<in> S \<Longrightarrow> cmp x p \<le> 0 \<Longrightarrow> 0 \<le> cmp y p \<Longrightarrow> cmp x y \<le> 0"
  using cmp_trans [of x p y] cmp_le_iff [of p y] by simp

end

section \<open>Strings compared by strcmp\<close>

lemma cmp_str_simps:
  "cmp_str [] [] = 0" "cmp_str [] (y # t) = - uint y" "cmp_str (x # s) [] = uint x"
  "cmp_str (x # s) (y # t) = (if x = y then cmp_str s t else uint x - uint y)"
  by (auto simp: cmp_str_def)

lemma cmp_str_minus: "cmp_str s t = - cmp_str t s"
  by (induction s arbitrary: t; case_tac t) (auto simp: cmp_str_simps)

lemma uint_pos_iff: "0 < uint (x :: byte) \<longleftrightarrow> x \<noteq> 0"
  by (metis uint_0_eq uint_lt_0 linorder_neqE_linordered_idom uint_0_iff)

lemma cmp_str_trans:
  "0 \<notin> set s \<Longrightarrow> 0 \<notin> set t \<Longrightarrow> 0 \<notin> set u \<Longrightarrow> cmp_str s t \<le> 0 \<Longrightarrow> cmp_str t u \<le> 0 \<Longrightarrow> cmp_str s u \<le> 0"
proof (induction s arbitrary: t u)
  case Nil
  then show ?case by (cases u) (auto simp: cmp_str_simps)
next
  case (Cons x s)
  then obtain y t' where t: "t = y # t'" using uint_pos_iff [of x] by (cases t) (auto simp: cmp_str_simps)
  with Cons.prems obtain z u' where u: "u = z # u'" using uint_pos_iff [of y] by (cases u) (auto simp: cmp_str_simps)
  have "uint x \<le> uint y" "uint y \<le> uint z" using Cons.prems t u by (auto simp: cmp_str_simps split: if_splits)
  then have "x = z \<Longrightarrow> y = z" by (simp add: word_uint_eq_iff)
  then show ?case using Cons.prems Cons.IH [of t' u'] t u \<open>uint x \<le> uint y\<close> \<open>uint y \<le> uint z\<close>
    by (auto simp: cmp_str_simps split: if_splits)
qed

interpretation strings: comparator cmp_str "{s. 0 \<notin> set s}"
proof
  fix x y z :: "byte list"
  show "cmp_str x y < 0 \<longleftrightarrow> 0 < cmp_str y x" using cmp_str_minus [of x y] by linarith
  assume "x \<in> {s. 0 \<notin> set s}" "y \<in> {s. 0 \<notin> set s}" "z \<in> {s. 0 \<notin> set s}" "cmp_str x y \<le> 0" "cmp_str y z \<le> 0"
  then show "cmp_str x z \<le> 0" using cmp_str_trans by blast
qed

end
