(* ===== verification/SortSearch.thy ===== *)
theory SortSearch
  imports "HOL-Library.Multiset" Comparator
begin

text \<open>
  \<^verbatim>\<open>search/qsort.c\<close> and \<^verbatim>\<open>search/bsearch.c\<close>.  The array is a list of its elements, a pointer into it the
  index of an element (the sources step by the size \<^verbatim>\<open>es\<close> of one), and the comparison function an
  argument.  The exchange of two elements through memory, by words or by bytes, is modelled
  at the end on the byte memory.
\<close>

section \<open>The routines\<close>

text \<open>\<^verbatim>\<open>swap (i, j)\<close>\<close>

definition swap :: "'a list \<Rightarrow> nat \<Rightarrow> nat \<Rightarrow> 'a list" where
  "swap xs i j = xs[i := xs ! j, j := xs ! i]"

definition med3 :: "('a \<Rightarrow> 'a \<Rightarrow> int) \<Rightarrow> 'a list \<Rightarrow> nat \<Rightarrow> nat \<Rightarrow> nat \<Rightarrow> nat" where
  "med3 cmp xs a b c =
     (if cmp (xs ! a) (xs ! b) < 0
      then (if cmp (xs ! b) (xs ! c) < 0 then b else if cmp (xs ! a) (xs ! c) < 0 then c else a)
      else (if cmp (xs ! b) (xs ! c) > 0 then b else if cmp (xs ! a) (xs ! c) < 0 then a else c))"

text \<open>\<^verbatim>\<open>for (pl = pm; pl > a && cmp (pl - es, pl) > 0; pl -= es) swap (pl, pl - es);\<close>\<close>

function insert_down :: "('a \<Rightarrow> 'a \<Rightarrow> int) \<Rightarrow> 'a list \<Rightarrow> nat \<Rightarrow> nat \<Rightarrow> 'a list" where
  "insert_down cmp xs a pl =
     (if pl > a \<and> cmp (xs ! (pl - 1)) (xs ! pl) > 0
      then insert_down cmp (swap xs pl (pl - 1)) a (pl - 1) else xs)"
  by pat_completeness auto
termination
  by (relation "measure (\<lambda>(cmp, xs, a, pl). pl)") auto

text \<open>\<^verbatim>\<open>for (pm = a + es; pm < a + n * es; pm += es) ...\<close>\<close>

function insertion_sort :: "('a \<Rightarrow> 'a \<Rightarrow> int) \<Rightarrow> 'a list \<Rightarrow> nat \<Rightarrow> nat \<Rightarrow> nat \<Rightarrow> 'a list" where
  "insertion_sort cmp xs a n pm =
     (if pm < a + n then insertion_sort cmp (insert_down cmp xs a pm) a n (pm + 1) else xs)"
  by pat_completeness auto
termination
  by (relation "measure (\<lambda>(cmp, xs, a, n, pm). a + n - pm)") auto

text \<open>
  The two inner loops of the partition.  In the second one \<open>pb\<close> is beyond the start of the array, so
  that \<open>0 < pc\<close> follows from \<open>pb \<le> pc\<close>; it is written down to make the count-down end for all arguments.
\<close>

function part_left :: "('a \<Rightarrow> 'a \<Rightarrow> int) \<Rightarrow> nat \<Rightarrow> nat \<Rightarrow> 'a list \<Rightarrow> nat \<Rightarrow> nat \<Rightarrow> bool \<Rightarrow> 'a list \<times> nat \<times> nat \<times> bool" where
  "part_left cmp a pc xs pa pb swap_cnt =
     (if pb \<le> pc \<and> cmp (xs ! pb) (xs ! a) \<le> 0
      then if cmp (xs ! pb) (xs ! a) = 0
           then part_left cmp a pc (swap xs pa pb) (pa + 1) (pb + 1) True
           else part_left cmp a pc xs pa (pb + 1) swap_cnt
      else (xs, pa, pb, swap_cnt))"
  by pat_completeness auto
termination
  by (relation "measure (\<lambda>(cmp, a, pc, xs, pa, pb, swap_cnt). Suc pc - pb)") auto

function part_right :: "('a \<Rightarrow> 'a \<Rightarrow> int) \<Rightarrow> nat \<Rightarrow> nat \<Rightarrow> 'a list \<Rightarrow> nat \<Rightarrow> nat \<Rightarrow> bool \<Rightarrow> 'a list \<times> nat \<times> nat \<times> bool" where
  "part_right cmp a pb xs pc pd swap_cnt =
     (if pb \<le> pc \<and> 0 < pc \<and> cmp (xs ! pc) (xs ! a) \<ge> 0
      then if cmp (xs ! pc) (xs ! a) = 0
           then part_right cmp a pb (swap xs pc pd) (pc - 1) (pd - 1) True
           else part_right cmp a pb xs (pc - 1) pd swap_cnt
      else (xs, pc, pd, swap_cnt))"
  by pat_completeness auto
termination
  by (relation "measure (\<lambda>(cmp, a, pb, xs, pc, pd, swap_cnt). pc)") auto

declare insert_down.simps [simp del] insertion_sort.simps [simp del] part_left.simps [simp del]
  part_right.simps [simp del]

lemma part_left_mono:
  "part_left cmp a pc xs pa pb sc = (xs', pa', pb', sc') \<Longrightarrow>
     pb \<le> pb' \<and> pa \<le> pa' \<and> pb' \<le> max pb (Suc pc)"
  by (induction cmp a pc xs pa pb sc rule: part_left.induct)
    (subst (asm) (3) part_left.simps, auto split: if_splits)

lemma part_right_mono:
  "part_right cmp a pb xs pc pd sc = (xs', pc', pd', sc') \<Longrightarrow>
     pc' \<le> pc \<and> pd' \<le> pd \<and> min pc (pb - 1) \<le> pc'"
  by (induction cmp a pb xs pc pd sc rule: part_right.induct)
    (subst (asm) (3) part_right.simps, auto split: if_splits)

text \<open>\<^verbatim>\<open>for (;;) { ... }\<close>\<close>

function part_loop :: "('a \<Rightarrow> 'a \<Rightarrow> int) \<Rightarrow> nat \<Rightarrow> 'a list \<Rightarrow> nat \<Rightarrow> nat \<Rightarrow> nat \<Rightarrow> nat \<Rightarrow> bool \<Rightarrow>
    'a list \<times> nat \<times> nat \<times> nat \<times> nat \<times> bool" where
  "part_loop cmp a xs pa pb pc pd swap_cnt =
     (case part_left cmp a pc xs pa pb swap_cnt of (xs, pa, pb, swap_cnt) \<Rightarrow>
      case part_right cmp a pb xs pc pd swap_cnt of (xs, pc, pd, swap_cnt) \<Rightarrow>
        if pb > pc then (xs, pa, pb, pc, pd, swap_cnt)
        else part_loop cmp a (swap xs pb pc) pa (pb + 1) (pc - 1) pd True)"
  by pat_completeness auto
termination
  by (relation "measure (\<lambda>(cmp, a, xs, pa, pb, pc, pd, swap_cnt). Suc pc - pb)")
    (auto dest!: part_left_mono [OF sym] part_right_mono [OF sym])

declare part_loop.simps [simp del]

text \<open>The choice of the pivot: the middle element, the median of three or of nine.\<close>

definition pivot :: "('a \<Rightarrow> 'a \<Rightarrow> int) \<Rightarrow> 'a list \<Rightarrow> nat \<Rightarrow> nat \<Rightarrow> nat" where
  "pivot cmp xs a n =
     (let pm = a + n div 2 in
      if n > 7
      then let pl = a; pn = a + (n - 1) in
           let (pl, pm, pn) =
                 (if n > 40
                  then let d = n div 8 in
                       (med3 cmp xs pl (pl + d) (pl + 2 * d), med3 cmp xs (pm - d) pm (pm + d),
                        med3 cmp xs (pn - 2 * d) (pn - d) pn)
                  else (pl, pm, pn)) in
           med3 cmp xs pl pm pn
      else pm)"

text \<open>\<^verbatim>\<open>vecswap (i, j, r)\<close>: the \<open>r\<close> elements from \<open>i\<close> and those from \<open>j\<close> on, one pair after the other.\<close>

primrec vecswap :: "'a list \<Rightarrow> nat \<Rightarrow> nat \<Rightarrow> nat \<Rightarrow> 'a list" where
  "vecswap xs i j 0 = xs"
| "vecswap xs i j (Suc r) = vecswap (swap xs i j) (i + 1) (j + 1) r"

lemma part_loop_mono:
  "part_loop cmp a xs pa pb pc pd sc = (xs', pa', pb', pc', pd', sc') \<Longrightarrow>
     pb \<le> pb' \<and> pa \<le> pa' \<and> pb' \<le> max pb (Suc pc) \<and> pc' \<le> pc \<and> pd' \<le> pd \<and> min pc (pb - 1) \<le> pc'"
proof (induction cmp a xs pa pb pc pd sc rule: part_loop.induct)
  case (1 cmp a xs pa pb pc pd sc)
  obtain xs1 pa1 pb1 sc1 where l: "part_left cmp a pc xs pa pb sc = (xs1, pa1, pb1, sc1)" by (metis prod_cases4)
  obtain xs2 pc2 pd2 sc2 where r: "part_right cmp a pb1 xs1 pc pd sc1 = (xs2, pc2, pd2, sc2)" by (metis prod_cases4)
  note m = part_left_mono [OF l] part_right_mono [OF r]
  show ?case
  proof (cases "pb1 > pc2")
    case True
    with "1.prems" l r m show ?thesis by (subst (asm) part_loop.simps) auto
  next
    case False
    then have "part_loop cmp a (swap xs2 pb1 pc2) pa1 (pb1 + 1) (pc2 - 1) pd2 True = (xs', pa', pb', pc', pd', sc')"
      using "1.prems" l r by (subst (asm) part_loop.simps) simp
    from "1.IH" [OF l [symmetric] refl refl r [symmetric] refl refl False this] False m
    show ?thesis by auto
  qed
qed

function qsort :: "('a \<Rightarrow> 'a \<Rightarrow> int) \<Rightarrow> 'a list \<Rightarrow> nat \<Rightarrow> nat \<Rightarrow> 'a list" where
  "qsort cmp xs a n =
     (if n < 7 then insertion_sort cmp xs a n (a + 1)
      else case part_loop cmp a (swap xs a (pivot cmp xs a n)) (a + 1) (a + 1) (a + (n - 1)) (a + (n - 1)) False of
             (xs, pa, pb, pc, pd, swap_cnt) \<Rightarrow>
               if \<not> swap_cnt then insertion_sort cmp xs a n (a + 1)
               else let pn = a + n;
                        r = min (pa - a) (pb - pa);
                        xs = vecswap xs a (pb - r) r;
                        r = min (pd - pc) (pn - pd - 1);
                        xs = vecswap xs pb (pn - r) r;
                        r = pb - pa;
                        xs = (if r > 1 then qsort cmp xs a r else xs);
                        r = pd - pc in
                    if r > 1 then qsort cmp xs (pn - r) r else xs)"
  by pat_completeness auto
termination
  by (relation "measure (\<lambda>(cmp, xs, a, n). n)") (auto dest!: part_loop_mono [OF sym])

declare qsort.simps [simp del]

section \<open>Searching a sorted array\<close>

text \<open>\<^verbatim>\<open>while (lower < upper)\<close> of \<^verbatim>\<open>bsearch\<close>; the index of the element found, or \<open>None\<close> for \<^verbatim>\<open>NULL\<close>.\<close>

function bsearch_loop :: "('k \<Rightarrow> 'a \<Rightarrow> int) \<Rightarrow> 'k \<Rightarrow> 'a list \<Rightarrow> nat \<Rightarrow> nat \<Rightarrow> nat option" where
  "bsearch_loop compar key base lo up =
     (if lo < up
      then let index = (lo + up) div 2; result = compar key (base ! index) in
           if result < 0 then bsearch_loop compar key base lo index
           else if result > 0 then bsearch_loop compar key base (index + 1) up
           else Some index
      else None)"
  by pat_completeness auto
termination
  by (relation "measure (\<lambda>(compar, key, base, lo, up). up - lo)") auto

definition bsearch :: "'k \<Rightarrow> 'a list \<Rightarrow> nat \<Rightarrow> nat \<Rightarrow> ('k \<Rightarrow> 'a \<Rightarrow> int) \<Rightarrow> nat option" where
  "bsearch key base nmemb sz compar =
     (if nmemb = 0 \<or> sz = 0 then None else bsearch_loop compar key base 0 nmemb)"

declare bsearch_loop.simps [simp del]

section \<open>Rearranging a part of an array\<close>

definition perm_range :: "nat \<Rightarrow> nat \<Rightarrow> 'a list \<Rightarrow> 'a list \<Rightarrow> bool" where
  "perm_range a n xs ys \<longleftrightarrow> take a ys = take a xs \<and> drop (a + n) ys = drop (a + n) xs \<and> mset ys = mset xs"

lemma perm_range_refl [simp, intro]: "perm_range a n xs xs"
  by (simp add: perm_range_def)

lemma perm_range_trans [trans]: "perm_range a n xs ys \<Longrightarrow> perm_range a n ys zs \<Longrightarrow> perm_range a n xs zs"
  by (simp add: perm_range_def)

lemma perm_range_length: "perm_range a n xs ys \<Longrightarrow> length ys = length xs"
  by (metis perm_range_def size_mset)

lemma perm_range_nth_below: "perm_range a n xs ys \<Longrightarrow> i < a \<Longrightarrow> ys ! i = xs ! i"
  by (metis perm_range_def nth_take)

lemma perm_range_nth_above:
  assumes "perm_range a n xs ys" "a + n \<le> i" "i < length xs"
  shows "ys ! i = xs ! i"
proof -
  have "drop (a + n) ys ! (i - (a + n)) = drop (a + n) xs ! (i - (a + n))" using assms by (simp add: perm_range_def)
  with assms perm_range_length [OF assms(1)] show ?thesis by simp
qed

lemma mset_split3: "mset xs = mset (take a xs) + mset (take n (drop a xs)) + mset (drop (a + n) xs)"
  by (metis add.assoc append_take_drop_id drop_drop mset_append add.commute)

lemma perm_range_mset:
  assumes "perm_range a n xs ys" shows "mset (take n (drop a ys)) = mset (take n (drop a xs))"
  using mset_split3 [of xs a n] mset_split3 [of ys a n] assms unfolding perm_range_def
  by (metis add_left_cancel add_right_cancel)

lemma in_range_set:
  assumes "a + n \<le> length xs"
  shows "(\<forall>i. a \<le> i \<longrightarrow> i < a + n \<longrightarrow> P (xs ! i)) \<longleftrightarrow> (\<forall>x \<in> set (take n (drop a xs)). P x)" (is "?L = ?R")
proof
  show "?L \<Longrightarrow> ?R" using assms by (auto simp: in_set_conv_nth)
next
  assume R: ?R
  show ?L
  proof (intro allI impI)
    fix i assume i: "a \<le> i" "i < a + n"
    then have "take n (drop a xs) ! (i - a) = xs ! i" using assms by simp
    moreover have "take n (drop a xs) ! (i - a) \<in> set (take n (drop a xs))" using i assms by (intro nth_mem) simp
    ultimately show "P (xs ! i)" using R by metis
  qed
qed

lemma perm_range_all:
  assumes "perm_range a n xs ys" "a + n \<le> length xs" "\<forall>i. a \<le> i \<longrightarrow> i < a + n \<longrightarrow> P (xs ! i)" "a \<le> j" "j < a + n"
  shows "P (ys ! j)"
proof -
  have "set (take n (drop a ys)) = set (take n (drop a xs))" using perm_range_mset [OF assms(1)] by (metis set_mset_mset)
  with assms perm_range_length [OF assms(1)] in_range_set [of a n xs P] in_range_set [of a n ys P] show ?thesis by simp
qed

lemma perm_range_wider:
  assumes "perm_range b m xs ys" "a \<le> b" "b + m \<le> a + n"
  shows "perm_range a n xs ys"
proof -
  have "take a zs = take a (take b zs)" "drop (a + n) zs = drop (a + n - (b + m)) (drop (b + m) zs)" for zs :: "'a list"
    using assms by (simp_all add: min_absorb1)
  with assms(1) show ?thesis unfolding perm_range_def by metis
qed

lemma length_swap [simp]: "length (swap xs i j) = length xs"
  by (simp add: swap_def)

lemma nth_swap: "i < length xs \<Longrightarrow> j < length xs \<Longrightarrow> swap xs i j ! k = (if k = i then xs ! j else if k = j then xs ! i else xs ! k)"
  by (auto simp: swap_def nth_list_update)

lemma perm_range_swap:
  assumes "a \<le> i" "a \<le> j" "i < a + n" "j < a + n" "a + n \<le> length xs"
  shows "perm_range a n xs (swap xs i j)"
  using assms unfolding perm_range_def swap_def by (auto simp: mset_swap)

lemma length_vecswap [simp]: "length (vecswap xs i j r) = length xs"
  by (induction r arbitrary: xs i j) auto

lemma nth_vecswap:
  "i + r \<le> j \<Longrightarrow> j + r \<le> length xs \<Longrightarrow>
   vecswap xs i j r ! k = (if i \<le> k \<and> k < i + r then xs ! (j + (k - i)) else if j \<le> k \<and> k < j + r then xs ! (i + (k - j)) else xs ! k)"
proof (induction r arbitrary: xs i j)
  case (Suc r)
  have IH: "vecswap (swap xs i j) (i + 1) (j + 1) r ! k =
    (if i + 1 \<le> k \<and> k < i + 1 + r then swap xs i j ! (j + 1 + (k - (i + 1)))
     else if j + 1 \<le> k \<and> k < j + 1 + r then swap xs i j ! (i + 1 + (k - (j + 1))) else swap xs i j ! k)"
    using Suc.prems by (intro Suc.IH) auto
  consider "k = i" | t where "k = Suc (i + t)" | "k < i" by (metis less_iff_Suc_add linorder_neqE_nat)
  then show ?case
  proof cases
    case (2 t)
    consider "k = j" | u where "k = Suc (j + u)" | "k < j" by (metis less_iff_Suc_add linorder_neqE_nat)
    then show ?thesis using Suc.prems IH 2 by cases (auto simp: nth_swap Suc_diff_le)
  qed (use Suc.prems IH in \<open>auto simp: nth_swap\<close>)
qed auto

lemma perm_range_vecswap:
  assumes "a \<le> i" "a \<le> j" "i + r \<le> a + n" "j + r \<le> a + n" "a + n \<le> length xs"
  shows "perm_range a n xs (vecswap xs i j r)"
  using assms
proof (induction r arbitrary: xs i j)
  case (Suc r)
  then have "perm_range a n xs (swap xs i j)" by (intro perm_range_swap) auto
  moreover have "perm_range a n (swap xs i j) (vecswap (swap xs i j) (i + 1) (j + 1) r)" using Suc by simp
  ultimately show ?case by (simp add: perm_range_trans)
qed simp

section \<open>Sorted parts of an array\<close>

definition all_in :: "nat \<Rightarrow> nat \<Rightarrow> ('a \<Rightarrow> bool) \<Rightarrow> 'a list \<Rightarrow> bool" where
  "all_in i j P xs \<longleftrightarrow> (\<forall>k. i \<le> k \<longrightarrow> k < j \<longrightarrow> P (xs ! k))"

lemma all_inD: "all_in i j P xs \<Longrightarrow> i \<le> k \<Longrightarrow> k < j \<Longrightarrow> P (xs ! k)"
  by (simp add: all_in_def)

lemma all_in_perm:
  assumes "perm_range b m xs ys" "all_in i j P xs" "(i \<le> b \<and> b + m \<le> j) \<or> j \<le> b \<or> b + m \<le> i" "j \<le> length xs"
  shows "all_in i j P ys"
proof (cases "j \<le> b \<or> b + m \<le> i")
  case True
  then show ?thesis using assms perm_range_nth_below [OF assms(1)] perm_range_nth_above [OF assms(1)]
    by (auto simp: all_in_def)
next
  case False
  with assms have "perm_range i (j - i) xs ys" by (intro perm_range_wider [OF assms(1)]) auto
  from perm_range_all [OF this, of P] False assms show ?thesis by (auto simp: all_in_def)
qed

lemma all_in_up: "P (xs ! j) \<Longrightarrow> all_in i j P xs \<Longrightarrow> all_in i (Suc j) P xs"
  by (auto simp: all_in_def less_Suc_eq)

lemma all_in_down: "P (xs ! i) \<Longrightarrow> all_in (Suc i) j P xs \<Longrightarrow> all_in i j P xs"
  by (auto simp: all_in_def) (metis le_antisym not_less_eq_eq)

lemma all_in_swap:
  "all_in i j P xs \<Longrightarrow> u < length xs \<Longrightarrow> v < length xs \<Longrightarrow> u < i \<or> j \<le> u \<Longrightarrow> v < i \<or> j \<le> v \<Longrightarrow> all_in i j P (swap xs u v)"
  by (auto simp: all_in_def nth_swap)

context comparator
begin

definition sorted_in :: "nat \<Rightarrow> nat \<Rightarrow> 'a list \<Rightarrow> bool" where
  "sorted_in i j xs \<longleftrightarrow> (\<forall>k l. i \<le> k \<longrightarrow> k < l \<longrightarrow> l < j \<longrightarrow> cmp (xs ! k) (xs ! l) \<le> 0)"

text \<open>The inner loop of the insertion sort moves one element down to its place.\<close>

lemma insert_down_sorts:
  assumes "a \<le> pl" "pl \<le> pm" "pm < length xs" "all_in a (Suc pm) (\<lambda>x. x \<in> S) xs"
    and "\<forall>k l. a \<le> k \<longrightarrow> k < l \<longrightarrow> l \<le> pm \<longrightarrow> l \<noteq> pl \<longrightarrow> cmp (xs ! k) (xs ! l) \<le> 0"
  shows "sorted_in a (Suc pm) (insert_down cmp xs a pl) \<and> perm_range a (Suc pm - a) xs (insert_down cmp xs a pl)"
  using assms
proof (induction pl arbitrary: xs rule: less_induct)
  case (less pl)
  note inS = all_inD [OF less.prems(4)]
  show ?case
  proof (cases "a < pl \<and> 0 < cmp (xs ! (pl - 1)) (xs ! pl)")
    case True
    let ?ys = "swap xs pl (pl - 1)"
    have p: "perm_range a (Suc pm - a) xs ?ys" using True less.prems by (intro perm_range_swap) auto
    have "sorted_in a (Suc pm) (insert_down cmp ?ys a (pl - 1)) \<and> perm_range a (Suc pm - a) ?ys (insert_down cmp ?ys a (pl - 1))"
    proof (rule less.IH)
      show "all_in a (Suc pm) (\<lambda>x. x \<in> S) ?ys" using all_in_perm [OF p less.prems(4)] less.prems by simp
      show "\<forall>k l. a \<le> k \<longrightarrow> k < l \<longrightarrow> l \<le> pm \<longrightarrow> l \<noteq> pl - 1 \<longrightarrow> cmp (?ys ! k) (?ys ! l) \<le> 0"
        using less.prems True inS cmp_anti [of "xs ! pl" "xs ! (pl - 1)"] by (auto simp: nth_swap)
    qed (use True less.prems in auto)
    with True perm_range_trans [OF p] show ?thesis by (subst (1 2) insert_down.simps) simp
  next
    case False
    have "cmp (xs ! k) (xs ! l) \<le> 0" if kl: "a \<le> k" "k < l" "l \<le> pm" for k l
    proof (cases "l = pl \<and> k \<noteq> pl - 1")
      case True
      then have "cmp (xs ! k) (xs ! (pl - 1)) \<le> 0" "cmp (xs ! (pl - 1)) (xs ! pl) \<le> 0"
        using less.prems(5) kl False by auto
      then show ?thesis using cmp_trans [of "xs ! k" "xs ! (pl - 1)" "xs ! pl"] inS True kl by simp
    qed (use less.prems(5) kl False in \<open>cases "l = pl", auto\<close>)
    then show ?thesis using False by (subst (1 2) insert_down.simps) (auto simp: sorted_in_def less_Suc_eq_le)
  qed
qed

lemma insertion_sort_sorts:
  assumes "a < pm" "a + n \<le> length xs" "all_in a (a + n) (\<lambda>x. x \<in> S) xs" "sorted_in a pm xs"
  shows "sorted_in a (a + n) (insertion_sort cmp xs a n pm) \<and> perm_range a n xs (insertion_sort cmp xs a n pm)"
  using assms
proof (induction "a + n - pm" arbitrary: xs pm rule: less_induct)
  case (less pm)
  show ?case
  proof (cases "pm < a + n")
    case True
    let ?ys = "insert_down cmp xs a pm"
    have ys: "sorted_in a (Suc pm) ?ys \<and> perm_range a (Suc pm - a) xs ?ys"
      using True less.prems by (intro insert_down_sorts) (auto simp: all_in_def sorted_in_def)
    then have p: "perm_range a n xs ?ys" using True less.prems by (auto intro: perm_range_wider)
    have "sorted_in a (a + n) (insertion_sort cmp ?ys a n (pm + 1)) \<and> perm_range a n ?ys (insertion_sort cmp ?ys a n (pm + 1))"
      using True less.prems ys all_in_perm [OF p less.prems(3)] perm_range_length [OF p] by (intro less.hyps) auto
    with True perm_range_trans [OF p] show ?thesis by (subst (1 2) insertion_sort.simps) simp
  next
    case False
    with less.prems show ?thesis by (subst (1 2) insertion_sort.simps) (auto simp: sorted_in_def)
  qed
qed

end

section \<open>The partition\<close>

text \<open>
  Between two turns of the loop the pivot \<open>p\<close> is at \<open>a\<close>, what is equal to it is at both ends, what is
  smaller before \<open>pb\<close> and what is greater after \<open>pc\<close>.
\<close>

definition parted :: "('a \<Rightarrow> 'a \<Rightarrow> int) \<Rightarrow> 'a \<Rightarrow> nat \<Rightarrow> nat \<Rightarrow> 'a list \<Rightarrow> nat \<Rightarrow> nat \<Rightarrow> nat \<Rightarrow> nat \<Rightarrow> bool" where
  "parted cmp p a n xs pa pb pc pd \<longleftrightarrow>
     a < pa \<and> pa \<le> pb \<and> pb \<le> Suc pc \<and> pc \<le> pd \<and> pd < a + n \<and> a + n \<le> length xs \<and> xs ! a = p \<and>
     all_in (a + 1) pa (\<lambda>x. cmp x p = 0) xs \<and> all_in pa pb (\<lambda>x. cmp x p < 0) xs \<and>
     all_in (Suc pc) (Suc pd) (\<lambda>x. cmp x p > 0) xs \<and> all_in (Suc pd) (a + n) (\<lambda>x. cmp x p = 0) xs"

lemma part_left_parted:
  assumes "part_left cmp a pc xs pa pb sc = (xs', pa', pb', sc')" "parted cmp p a n xs pa pb pc pd"
  shows "parted cmp p a n xs' pa' pb' pc pd \<and> perm_range a n xs xs' \<and> (pb' \<le> pc \<longrightarrow> cmp (xs' ! pb') p > 0)"
  using assms
proof (induction "Suc pc - pb" arbitrary: xs pa pb sc rule: less_induct)
  case less
  note P = less.prems(2) [unfolded parted_def]
  consider "pb \<le> pc" "cmp (xs ! pb) p < 0" | "pb \<le> pc" "cmp (xs ! pb) p = 0" | "pb > pc \<or> cmp (xs ! pb) p > 0" by linarith
  then show ?case
  proof cases
    case 1
    then have "parted cmp p a n xs pa (pb + 1) pc pd" using P by (auto simp: parted_def all_in_def less_Suc_eq)
    moreover have "part_left cmp a pc xs pa (pb + 1) sc = (xs', pa', pb', sc')"
      using less.prems(1) 1 P by (subst (asm) part_left.simps) simp
    ultimately show ?thesis using less.hyps [of "pb + 1"] 1 by auto
  next
    case 2
    then have "parted cmp p a n (swap xs pa pb) (pa + 1) (pb + 1) pc pd"
      using P by (auto simp: parted_def all_in_def less_Suc_eq nth_swap)
    moreover have "part_left cmp a pc (swap xs pa pb) (pa + 1) (pb + 1) True = (xs', pa', pb', sc')"
      using less.prems(1) 2 P by (subst (asm) part_left.simps) simp
    moreover have "perm_range a n xs (swap xs pa pb)" using P 2 by (intro perm_range_swap) auto
    ultimately show ?thesis using less.hyps [of "pb + 1"] 2 perm_range_trans by (metis Suc_eq_plus1 diff_less_mono2 le_imp_less_Suc lessI)
  next
    case 3
    then show ?thesis using less.prems P by (subst (asm) part_left.simps) auto
  qed
qed

lemma part_right_parted:
  assumes "part_right cmp a pb xs pc pd sc = (xs', pc', pd', sc')" "parted cmp p a n xs pa pb pc pd"
  shows "parted cmp p a n xs' pa pb pc' pd' \<and> perm_range a n xs xs' \<and> (pb \<le> pc' \<longrightarrow> cmp (xs' ! pc') p < 0) \<and>
    (\<forall>k\<le>pc'. xs' ! k = xs ! k)"
  using assms
proof (induction "pc" arbitrary: xs pd sc rule: less_induct)
  case (less pc)
  note P = less.prems(2) [unfolded parted_def]
  consider "pb \<le> pc" "cmp (xs ! pc) p > 0" | "pb \<le> pc" "cmp (xs ! pc) p = 0" | "pb > pc \<or> cmp (xs ! pc) p < 0" by linarith
  then show ?case
  proof cases
    case 1
    then obtain q where q: "pc = Suc q" using P by (cases pc) auto
    with 1 have "parted cmp p a n xs pa pb (pc - 1) pd" using P q by (simp add: parted_def all_in_down)
    moreover have "part_right cmp a pb xs (pc - 1) pd sc = (xs', pc', pd', sc')"
      using less.prems(1) 1 P by (subst (asm) part_right.simps) simp
    moreover have "pc - 1 < pc" using q by simp
    ultimately show ?thesis by (intro less.IH)
  next
    case 2
    then obtain q e where q: "pc = Suc q" "pd = Suc e" using P by (cases pc; cases pd) auto
    with 2 have "parted cmp p a n (swap xs pc pd) pa pb (pc - 1) (pd - 1)"
      using P q by (auto simp: parted_def all_in_def nth_swap)
    moreover have r: "part_right cmp a pb (swap xs pc pd) (pc - 1) (pd - 1) True = (xs', pc', pd', sc')"
      using less.prems(1) 2 P by (subst (asm) part_right.simps) simp
    ultimately have IH: "parted cmp p a n xs' pa pb pc' pd' \<and> perm_range a n (swap xs pc pd) xs' \<and>
      (pb \<le> pc' \<longrightarrow> cmp (xs' ! pc') p < 0) \<and> (\<forall>k\<le>pc'. xs' ! k = swap xs pc pd ! k)"
      using q by (intro less.IH [of "pc - 1" "swap xs pc pd" "pd - 1" True]) simp_all
    have "perm_range a n xs (swap xs pc pd)" using P 2 by (intro perm_range_swap) auto
    moreover have "\<forall>k\<le>pc'. swap xs pc pd ! k = xs ! k" using part_right_mono [OF r] P 2 q by (auto simp: nth_swap)
    ultimately show ?thesis using IH perm_range_trans by fastforce
  next
    case 3
    then show ?thesis using less.prems P by (subst (asm) part_right.simps) auto
  qed
qed

lemma part_loop_parted:
  assumes "part_loop cmp a xs pa pb pc pd sc = (xs', pa', pb', pc', pd', sc')" "parted cmp p a n xs pa pb pc pd"
  shows "parted cmp p a n xs' pa' pb' pc' pd' \<and> pb' = Suc pc' \<and> perm_range a n xs xs'"
  using assms
proof (induction "Suc pc - pb" arbitrary: xs pa pb pc pd sc rule: less_induct)
  case less
  obtain xs1 pa1 pb1 sc1 where l: "part_left cmp a pc xs pa pb sc = (xs1, pa1, pb1, sc1)" by (metis prod_cases4)
  obtain xs2 pc2 pd2 sc2 where r: "part_right cmp a pb1 xs1 pc pd sc1 = (xs2, pc2, pd2, sc2)" by (metis prod_cases4)
  note L = part_left_parted [OF l less.prems(2)] and R = part_right_parted [OF r]
  have p12: "perm_range a n xs xs2" using L R perm_range_trans by blast
  have P: "parted cmp p a n xs2 pa1 pb1 pc2 pd2" using L R by blast
  show ?case
  proof (cases "pb1 > pc2")
    case True
    with less.prems(1) l r P p12 show ?thesis by (subst (asm) part_loop.simps) (auto simp: parted_def)
  next
    case False
    then have "cmp (xs2 ! pb1) p > 0" "cmp (xs2 ! pc2) p < 0" using L R part_right_mono [OF r] by auto
    then have cs: "pb1 < pc2" "cmp (xs2 ! pb1) p > 0" "cmp (xs2 ! pc2) p < 0" using False by (cases "pb1 = pc2"; auto)+
    then obtain q where q: "pc2 = Suc q" by (cases pc2) auto
    note Q = P [unfolded parted_def]
    have len: "pb1 < length xs2" "pc2 < length xs2" using Q cs by auto
    have "all_in (a + 1) pa1 (\<lambda>x. cmp x p = 0) (swap xs2 pb1 pc2)" "all_in pa1 pb1 (\<lambda>x. cmp x p < 0) (swap xs2 pb1 pc2)"
      "all_in (Suc pc2) (Suc pd2) (\<lambda>x. cmp x p > 0) (swap xs2 pb1 pc2)" "all_in (Suc pd2) (a + n) (\<lambda>x. cmp x p = 0) (swap xs2 pb1 pc2)"
      using Q cs len by (auto intro!: all_in_swap)
    moreover have "swap xs2 pb1 pc2 ! pb1 = xs2 ! pc2" "swap xs2 pb1 pc2 ! pc2 = xs2 ! pb1" "swap xs2 pb1 pc2 ! a = xs2 ! a"
      using cs len Q by (auto simp: nth_swap)
    ultimately have "parted cmp p a n (swap xs2 pb1 pc2) pa1 (pb1 + 1) (pc2 - 1) pd2"
      using Q cs q by (simp add: parted_def all_in_up all_in_down)
    moreover have "part_loop cmp a (swap xs2 pb1 pc2) pa1 (pb1 + 1) (pc2 - 1) pd2 True = (xs', pa', pb', pc', pd', sc')"
      using less.prems(1) l r False by (subst (asm) part_loop.simps) simp
    moreover have "perm_range a n xs2 (swap xs2 pb1 pc2)" using P cs by (intro perm_range_swap) (auto simp: parted_def)
    moreover have "Suc (pc2 - 1) - (pb1 + 1) < Suc pc - pb" using cs part_left_mono [OF l] part_right_mono [OF r] by auto
    ultimately show ?thesis using less.hyps [of "pc2 - 1" "pb1 + 1"] p12 perm_range_trans [of a n] by meson
  qed
qed

text \<open>The two exchanges of blocks bring what is equal to the pivot from the ends to the middle.\<close>

lemma vecswap_left:
  assumes "a < pa" "pa \<le> pb" "pb \<le> length xs" "all_in a pa P xs" "all_in pa pb Q xs"
  shows "all_in a (a + (pb - pa)) Q (vecswap xs a (pb - min (pa - a) (pb - pa)) (min (pa - a) (pb - pa)))"
    "all_in (a + (pb - pa)) pb P (vecswap xs a (pb - min (pa - a) (pb - pa)) (min (pa - a) (pb - pa)))"
  using assms by (auto simp: all_in_def nth_vecswap min_def)

lemma vecswap_right:
  assumes "pb \<le> Suc pd" "pd < pn" "pn \<le> length xs" "all_in pb (Suc pd) P xs" "all_in (Suc pd) pn Q xs"
  shows "all_in pb (pn - (Suc pd - pb)) Q (vecswap xs pb (pn - min (Suc pd - pb) (pn - pd - 1)) (min (Suc pd - pb) (pn - pd - 1)))"
    "all_in (pn - (Suc pd - pb)) pn P (vecswap xs pb (pn - min (Suc pd - pb) (pn - pd - 1)) (min (Suc pd - pb) (pn - pd - 1)))"
  using assms by (auto simp: all_in_def nth_vecswap min_def)

section \<open>Quicksort\<close>

lemma med3_in_range: "lo \<le> a \<Longrightarrow> lo \<le> b \<Longrightarrow> lo \<le> c \<Longrightarrow> a < hi \<Longrightarrow> b < hi \<Longrightarrow> c < hi \<Longrightarrow> med3 cmp xs a b c \<in> {lo ..< hi}"
  by (simp add: med3_def)

lemma pivot_in_range:
  assumes "0 < n"
  shows "pivot cmp xs a n \<in> {a ..< a + n}"
proof (cases "n > 40")
  case True
  let ?d = "n div 8" let ?pm = "a + n div 2" let ?pn = "a + (n - 1)"
  have "med3 cmp xs a (a + ?d) (a + 2 * ?d) \<in> {a ..< a + n}" "med3 cmp xs (?pm - ?d) ?pm (?pm + ?d) \<in> {a ..< a + n}"
    "med3 cmp xs (?pn - 2 * ?d) (?pn - ?d) ?pn \<in> {a ..< a + n}"
    using True by (intro med3_in_range; linarith)+
  then have "med3 cmp xs (med3 cmp xs a (a + ?d) (a + 2 * ?d)) (med3 cmp xs (?pm - ?d) ?pm (?pm + ?d))
      (med3 cmp xs (?pn - 2 * ?d) (?pn - ?d) ?pn) \<in> {a ..< a + n}"
    by (intro med3_in_range) auto
  with True show ?thesis by (simp add: pivot_def Let_def)
next
  case False
  have "med3 cmp xs a (a + n div 2) (a + (n - 1)) \<in> {a ..< a + n}" using assms by (intro med3_in_range) auto
  with False assms show ?thesis by (simp add: pivot_def Let_def)
qed

lemma vecswaps_parted:
  assumes "parted cmp p a n ys pa pb pc pd" "pb = Suc pc" "cmp p p = 0"
    and y1: "y1 = vecswap ys a (pb - min (pa - a) (pb - pa)) (min (pa - a) (pb - pa))"
    and y2: "y2 = vecswap y1 pb (a + n - min (pd - pc) (a + n - pd - 1)) (min (pd - pc) (a + n - pd - 1))"
  shows "all_in a (a + (pb - pa)) (\<lambda>x. cmp x p < 0) y2" "all_in (a + (pb - pa)) (a + n - (pd - pc)) (\<lambda>x. cmp x p = 0) y2"
    and "all_in (a + n - (pd - pc)) (a + n) (\<lambda>x. 0 < cmp x p) y2" "perm_range a n ys y2"
proof -
  note Q = assms(1) [unfolded parted_def]
  have "all_in a pa (\<lambda>x. cmp x p = 0) ys" using Q assms(3) by (auto intro!: all_in_down)
  then have low: "all_in a (a + (pb - pa)) (\<lambda>x. cmp x p < 0) y1" "all_in (a + (pb - pa)) pb (\<lambda>x. cmp x p = 0) y1"
    using Q assms(2) vecswap_left [of a pa pb ys] unfolding y1 by auto
  have p1: "perm_range a (pb - a) ys y1" unfolding y1 using Q assms(2) by (intro perm_range_vecswap) auto
  have high: "all_in pb (Suc pd) (\<lambda>x. 0 < cmp x p) y1" "all_in (Suc pd) (a + n) (\<lambda>x. cmp x p = 0) y1"
    using Q assms(2) by (auto intro: all_in_perm [OF p1])
  have p2: "perm_range pb (a + n - pb) y1 y2" unfolding y2 using Q assms(2) perm_range_length [OF p1]
    by (intro perm_range_vecswap) auto
  have y2': "y2 = vecswap y1 pb (a + n - min (Suc pd - pb) (a + n - pd - 1)) (min (Suc pd - pb) (a + n - pd - 1))"
    using y2 assms(2) by simp
  have res: "all_in pb (a + n - (pd - pc)) (\<lambda>x. cmp x p = 0) y2" "all_in (a + n - (pd - pc)) (a + n) (\<lambda>x. 0 < cmp x p) y2"
    using vecswap_right [OF _ _ _ high] Q assms(2) perm_range_length [OF p1] unfolding y2' by auto
  have "all_in (a + (pb - pa)) pb (\<lambda>x. cmp x p = 0) y2" "all_in a (a + (pb - pa)) (\<lambda>x. cmp x p < 0) y2"
    using low Q assms(2) perm_range_length [OF p1] by (auto intro: all_in_perm [OF p2])
  with res show "all_in a (a + (pb - pa)) (\<lambda>x. cmp x p < 0) y2" "all_in (a + n - (pd - pc)) (a + n) (\<lambda>x. 0 < cmp x p) y2"
    "all_in (a + (pb - pa)) (a + n - (pd - pc)) (\<lambda>x. cmp x p = 0) y2"
    by (auto simp: all_in_def)
  show "perm_range a n ys y2"
    using Q assms(2) by (intro perm_range_trans [OF perm_range_wider [OF p1] perm_range_wider [OF p2]]) auto
qed

context comparator
begin

lemma sorted_in_perm: "sorted_in i j xs \<Longrightarrow> perm_range b m xs ys \<Longrightarrow> j \<le> b \<Longrightarrow> sorted_in i j ys"
  by (auto simp: sorted_in_def perm_range_nth_below)

lemma sorted_in_glue:
  assumes "all_in a pn (\<lambda>x. x \<in> S) ys" "p \<in> S" "m1 \<le> m2" "sorted_in a m1 ys" "sorted_in m2 pn ys"
    and "all_in a m1 (\<lambda>x. cmp x p < 0) ys" "all_in m1 m2 (\<lambda>x. cmp x p = 0) ys" "all_in m2 pn (\<lambda>x. 0 < cmp x p) ys"
  shows "sorted_in a pn ys"
  unfolding sorted_in_def
proof (intro allI impI)
  fix k l assume kl: "a \<le> k" "k < l" "l < pn"
  consider "l < m1" | "m2 \<le> k" | "k < m2" "m1 \<le> l" by linarith
  then show "cmp (ys ! k) (ys ! l) \<le> 0"
  proof cases
    case 3
    then have "cmp (ys ! k) p \<le> 0" using assms(3,6,7) kl by (cases "k < m1") (auto simp: all_in_def)
    moreover have "0 \<le> cmp (ys ! l) p" using assms(3,7,8) kl 3 by (cases "l < m2") (auto simp: all_in_def less_imp_le)
    ultimately show ?thesis using cmp_between [of _ _ p] assms(1,2) kl by (auto simp: all_in_def)
  qed (use assms kl in \<open>auto simp: sorted_in_def\<close>)
qed

lemma qsort_parts:
  assumes IH: "\<And>m b zs. m < n \<Longrightarrow> b + m \<le> length zs \<Longrightarrow> all_in b (b + m) (\<lambda>x. x \<in> S) zs \<Longrightarrow>
      sorted_in b (b + m) (qsort cmp zs b m) \<and> perm_range b m zs (qsort cmp zs b m)"
    and V: "all_in a (a + l) (\<lambda>x. cmp x p < 0) y2" "all_in (a + l) (a + n - r) (\<lambda>x. cmp x p = 0) y2"
      "all_in (a + n - r) (a + n) (\<lambda>x. 0 < cmp x p) y2" "perm_range a n ys y2"
    and inS: "all_in a (a + n) (\<lambda>x. x \<in> S) ys" "a + n \<le> length ys" "l + r < n" "p \<in> S"
    and y3: "y3 = (if l > 1 then qsort cmp y2 a l else y2)"
    and y4: "y4 = (if r > 1 then qsort cmp y3 (a + n - r) r else y3)"
  shows "sorted_in a (a + n) y4 \<and> perm_range a n ys y4"
proof -
  have inS2: "all_in a (a + n) (\<lambda>x. x \<in> S) y2" "a + n \<le> length y2"
    using all_in_perm [OF V(4) inS(1)] inS perm_range_length [OF V(4)] by auto
  then have 3: "sorted_in a (a + l) y3 \<and> perm_range a l y2 y3"
    using IH [of l a y2] inS(3) by (auto simp: y3 sorted_in_def all_in_def)
  then have inS3: "all_in a (a + n) (\<lambda>x. x \<in> S) y3" "a + n \<le> length y3"
    using all_in_perm [of a l y2 y3 a "a + n"] inS2 inS(3) perm_range_length by force+
  have 4: "sorted_in (a + n - r) (a + n) y4 \<and> perm_range (a + n - r) r y3 y4"
    using IH [of r "a + n - r" y3] inS(3) inS3 by (auto simp: y4 sorted_in_def all_in_def)
  have keep: "all_in i j P y4" if "all_in i j P y2" "(i, j) \<in> {(a, a + l), (a + l, a + n - r), (a + n - r, a + n), (a, a + n)}" for i j P
  proof -
    have "all_in i j P y3" using 3 that inS(3) inS2(2) by (intro all_in_perm [of a l y2 y3]) auto
    then show ?thesis using 4 that inS(3) inS3(2) by (intro all_in_perm [of "a + n - r" r y3 y4]) auto
  qed
  have "sorted_in a (a + l) y4" using sorted_in_perm [of a "a + l" y3 "a + n - r" r y4] 3 4 inS(3) by simp
  then have "sorted_in a (a + n) y4"
    using 4 keep [OF inS2(1)] keep [OF V(1)] keep [OF V(2)] keep [OF V(3)] inS(3,4)
    by (intro sorted_in_glue [of a "a + n" y4 p "a + l" "a + n - r"]) auto
  moreover have "perm_range a n y2 y3" "perm_range a n y3 y4"
    using 3 4 inS(3) by (auto intro: perm_range_wider)
  ultimately show ?thesis using perm_range_trans V(4) by blast
qed

lemma qsort_sorts:
  assumes "a + n \<le> length xs" "all_in a (a + n) (\<lambda>x. x \<in> S) xs"
  shows "sorted_in a (a + n) (qsort cmp xs a n) \<and> perm_range a n xs (qsort cmp xs a n)"
  using assms
proof (induction n arbitrary: a xs rule: less_induct)
  case (less n)
  show ?case
  proof (cases "n < 7")
    case True
    have "sorted_in a (a + 1) xs" by (simp add: sorted_in_def)
    with True less.prems insertion_sort_sorts show ?thesis by (subst (1 2) qsort.simps) simp
  next
    case n7: False
    let ?xs0 = "swap xs a (pivot cmp xs a n)"
    define p where "p = ?xs0 ! a"
    have perm0: "perm_range a n xs ?xs0" using pivot_in_range [of n cmp xs a] less.prems n7 by (intro perm_range_swap) auto
    obtain ys pa pb pc pd sc where loop:
      "part_loop cmp a ?xs0 (a + 1) (a + 1) (a + (n - 1)) (a + (n - 1)) False = (ys, pa, pb, pc, pd, sc)"
      by (metis prod_cases6)
    have "parted cmp p a n ?xs0 (a + 1) (a + 1) (a + (n - 1)) (a + (n - 1))"
      using n7 less.prems(1) by (auto simp: parted_def all_in_def p_def)
    note P = part_loop_parted [OF loop this]
    have perm1: "perm_range a n xs ys" using P perm_range_trans [OF perm0] by blast
    have len: "length ys = length xs" and inS: "all_in a (a + n) (\<lambda>x. x \<in> S) ys"
      using perm_range_length [OF perm1] all_in_perm [OF perm1 less.prems(2)] less.prems(1) by auto
    show ?thesis
    proof (cases sc)
      case False
      have "sorted_in a (a + 1) ys" by (simp add: sorted_in_def)
      then have "sorted_in a (a + n) (insertion_sort cmp ys a n (a + 1)) \<and> perm_range a n ys (insertion_sort cmp ys a n (a + 1))"
        using len inS less.prems by (intro insertion_sort_sorts) auto
      with n7 False loop perm_range_trans [OF perm1] show ?thesis by (subst (1 2) qsort.simps) simp
    next
      case True
      note Q = P [unfolded parted_def]
      have pS: "p \<in> S" using Q inS n7 by (auto simp: all_in_def)
      define y1 where "y1 = vecswap ys a (pb - min (pa - a) (pb - pa)) (min (pa - a) (pb - pa))"
      define y2 where "y2 = vecswap y1 pb (a + n - min (pd - pc) (a + n - pd - 1)) (min (pd - pc) (a + n - pd - 1))"
      define y3 where "y3 = (if pb - pa > 1 then qsort cmp y2 a (pb - pa) else y2)"
      define y4 where "y4 = (if pd - pc > 1 then qsort cmp y3 (a + n - (pd - pc)) (pd - pc) else y3)"
      have qs: "qsort cmp xs a n = y4"
        using n7 loop True by (subst qsort.simps) (simp add: Let_def y1_def y2_def y3_def y4_def)
      have P': "parted cmp p a n ys pa pb pc pd" and pbc: "pb = Suc pc" and "cmp p p = 0" using P pS by auto
      note V = vecswaps_parted [OF this y1_def y2_def]
      show ?thesis unfolding qs using qsort_parts [OF less.IH V inS _ _ pS y3_def y4_def] Q perm_range_trans [OF perm1] len less.prems(1) by auto
    qed
  qed
qed

lemma bsearch_loop_spec:
  assumes "sorted_in 0 n xs" "all_in 0 n (\<lambda>x. x \<in> S) xs" "key \<in> S" "up \<le> n"
    and "all_in 0 lo (\<lambda>x. 0 < cmp key x) xs" "all_in up n (\<lambda>x. cmp key x < 0) xs"
  shows "case bsearch_loop cmp key xs lo up of
      Some i \<Rightarrow> i < n \<and> cmp key (xs ! i) = 0 | None \<Rightarrow> all_in 0 n (\<lambda>x. cmp key x \<noteq> 0) xs"
  using assms(4-)
proof (induction "up - lo" arbitrary: lo up rule: less_induct)
  case less
  let ?i = "(lo + up) div 2"
  show ?case
  proof (cases "lo < up")
    case False
    then have "cmp key (xs ! k) \<noteq> 0" if "k < n" for k
      using less.prems that all_inD [OF less.prems(2), of k] all_inD [OF less.prems(3), of k] by (cases "k < lo") auto
    with False show ?thesis by (subst bsearch_loop.simps) (simp add: all_in_def)
  next
    case True
    then have i: "lo \<le> ?i" "?i < up" by auto
    have inS: "xs ! k \<in> S" if "k < n" for k using assms(2) that by (simp add: all_in_def)
    have below: "all_in 0 (?i + 1) (\<lambda>x. 0 < cmp key x) xs" if "0 < cmp key (xs ! ?i)"
      unfolding all_in_def
    proof (intro allI impI)
      fix k assume k: "k < ?i + 1"
      have "cmp (xs ! k) (xs ! ?i) \<le> 0" using assms(1) k i less.prems(1) inS by (cases "k = ?i") (auto simp: sorted_in_def)
      then have "cmp key (xs ! ?i) \<le> 0" if "cmp key (xs ! k) \<le> 0"
        using that cmp_trans [of key "xs ! k" "xs ! ?i"] inS [of k] inS [of ?i] k i less.prems(1) assms(3) by simp
      with that show "0 < cmp key (xs ! k)" by linarith
    qed
    have above: "all_in ?i n (\<lambda>x. cmp key x < 0) xs" if "cmp key (xs ! ?i) < 0"
      unfolding all_in_def
    proof (intro allI impI)
      fix k assume k: "?i \<le> k" "k < n"
      have "cmp (xs ! ?i) (xs ! k) \<le> 0" using assms(1) k inS by (cases "k = ?i") (auto simp: sorted_in_def)
      then have "cmp (xs ! ?i) key \<le> 0" if "0 \<le> cmp key (xs ! k)"
        using that cmp_between [of "xs ! ?i" key "xs ! k"] inS [of k] inS [of ?i] k assms(3) by simp
      then show "cmp key (xs ! k) < 0"
        using \<open>cmp key (xs ! ?i) < 0\<close> cmp_anti [of key "xs ! ?i"] inS [of ?i] k assms(3) by force
    qed
    show ?thesis
      using True i less.prems less.hyps [of ?i lo] less.hyps [of up "?i + 1"] below above
      by (subst bsearch_loop.simps) (auto simp: Let_def)
  qed
qed

lemma bsearch_spec:
  assumes "sorted_in 0 n xs" "all_in 0 n (\<lambda>x. x \<in> S) xs" "key \<in> S" "sz \<noteq> 0"
  shows "case bsearch key xs n sz cmp of
      Some i \<Rightarrow> i < n \<and> cmp key (xs ! i) = 0 | None \<Rightarrow> all_in 0 n (\<lambda>x. cmp key x \<noteq> 0) xs"
  using bsearch_loop_spec [OF assms(1-3), of n 0] assms(4) by (auto simp: bsearch_def all_in_def)

end

section \<open>Exchanging two elements in memory\<close>

text \<open>
  \<^verbatim>\<open>swapcode (TYPE, parmi, parmj, n)\<close> for \<^verbatim>\<open>char\<close> and for \<^verbatim>\<open>long\<close>, entered with \<open>i = n / sizeof (TYPE)\<close>.  The
  body runs before the count is tested.
\<close>

fun swapcode_char :: "nat \<Rightarrow> mem \<Rightarrow> addr \<Rightarrow> addr \<Rightarrow> mem option" where
  "swapcode_char i m pi pj =
     do { t \<leftarrow> load8 m pi; u \<leftarrow> load8 m pj; m \<leftarrow> store8 m pi u; m \<leftarrow> store8 m pj t;
          if i - 1 > 0 then swapcode_char (i - 1) m (pi + 1) (pj + 1) else Some m }"

fun swapcode_long :: "nat \<Rightarrow> mem \<Rightarrow> addr \<Rightarrow> addr \<Rightarrow> mem option" where
  "swapcode_long i m pi pj =
     do { t \<leftarrow> load32 m pi; u \<leftarrow> load32 m pj; m \<leftarrow> store32 m pi u; m \<leftarrow> store32 m pj t;
          if i - 1 > 0 then swapcode_long (i - 1) m (pi + 4) (pj + 4) else Some m }"

definition SWAPINIT :: "addr \<Rightarrow> nat \<Rightarrow> nat" where
  "SWAPINIT a es = (if a mod 4 \<noteq> 0 \<or> es mod 4 \<noteq> 0 then 2 else if es = 4 then 0 else 1)"

definition swapfunc :: "mem \<Rightarrow> addr \<Rightarrow> addr \<Rightarrow> nat \<Rightarrow> nat \<Rightarrow> mem option" where
  "swapfunc m a b n swaptype =
     (if swaptype \<le> 1 then swapcode_long (n div 4) m a b else swapcode_char n m a b)"

definition swap_mem :: "mem \<Rightarrow> addr \<Rightarrow> addr \<Rightarrow> nat \<Rightarrow> nat \<Rightarrow> mem option" where
  "swap_mem m a b es swaptype =
     (if swaptype = 0
      then do { t \<leftarrow> load32 m a; u \<leftarrow> load32 m b; m \<leftarrow> store32 m a u; store32 m b t }
      else swapfunc m a b es swaptype)"

declare swapcode_char.simps [simp del] swapcode_long.simps [simp del]

text \<open>\<open>apart a b n\<close>: two blocks of \<open>n\<close> bytes are the same one or do not overlap.\<close>

definition apart :: "addr \<Rightarrow> addr \<Rightarrow> nat \<Rightarrow> bool" where
  "apart a b n \<longleftrightarrow> a = b \<or> disjoint_regions a n b n"

lemma swapcode_char_eq:
  "bytes m a xs \<Longrightarrow> bytes m b ys \<Longrightarrow> length ys = length xs \<Longrightarrow> xs \<noteq> [] \<Longrightarrow> apart a b (length xs) \<Longrightarrow>
     swapcode_char (length xs) m a b = Some (wr (wr m a ys) b xs)"
proof (induction xs arbitrary: m a b ys)
  case (Cons x xs)
  then obtain y zs where ys: "ys = y # zs" by (cases ys) auto
  let ?m = "wr (wr m a [y]) b [x]"
  have mapped: "m a = Some x" "m b = Some y" using Cons.prems ys by auto
  then have step: "swapcode_char (Suc (length xs)) m a b =
      (if xs = [] then Some ?m else swapcode_char (length xs) ?m (a + 1) (b + 1))"
    by (subst swapcode_char.simps) (auto simp: load8_def store8_def wr_single)
  show ?case
  proof (cases "xs = []")
    case True
    with Cons.prems ys step show ?thesis by simp
  next
    case False
    have "bytes ?m (a + 1) xs" "bytes ?m (b + 1) zs" "apart (a + 1) (b + 1) (length xs)"
      using Cons.prems ys by (auto simp: apart_def bytes_wr_disjoint disjoint_regions_def)
    then have "swapcode_char (length xs) ?m (a + 1) (b + 1) = Some (wr (wr ?m (a + 1) zs) (b + 1) xs)"
      using False Cons.prems ys by (intro Cons.IH) auto
    moreover have "wr (wr ?m (a + 1) zs) (b + 1) xs = wr (wr m a (y # zs)) b (x # xs)"
      using Cons.prems ys by (intro ext) (auto simp: wr_def apart_def disjoint_regions_def nth_Cons' Suc_le_eq)
    ultimately show ?thesis using step False ys by simp
  qed
qed simp

lemma swap_word_eq:
  assumes "bytes m a xs" "bytes m b ys" "length xs = 4" "length ys = 4" "apart a b 4"
  shows "load32 m a \<bind> (\<lambda>t. load32 m b \<bind> (\<lambda>u. store32 m a u \<bind> (\<lambda>m. store32 m b t \<bind> f))) = f (wr (wr m a ys) b xs)"
proof -
  obtain x0 x1 x2 x3 where xs: "xs = [x0, x1, x2, x3]" using assms(3) by (auto simp: numeral_eq_Suc length_Suc_conv)
  obtain y0 y1 y2 y3 where ys: "ys = [y0, y1, y2, y3]" using assms(4) by (auto simp: numeral_eq_Suc length_Suc_conv)
  have "load32 m a = Some (word32 x0 x1 x2 x3)" "load32 m b = Some (word32 y0 y1 y2 y3)"
    using assms xs ys load32_bytes by blast+
  moreover have "mapped m a 4" "mapped m b 4" using bytes_mapped assms by metis+
  moreover have "mapped (wr m a ys) b 4" using \<open>mapped m a 4\<close> \<open>mapped m b 4\<close> assms(4) by simp
  ultimately show ?thesis using xs ys by (simp add: store32_word32 del: mapped.simps)
qed

lemma wr_swap_split:
  assumes "apart a b (n + k)" "length x1 = n" "length y1 = n" "length x2 = k" "length y2 = k"
  shows "wr (wr (wr (wr m a y1) b x1) (a + n) y2) (b + n) x2 = wr (wr m a (y1 @ y2)) b (x1 @ x2)"
  using assms by (intro ext) (auto simp: wr_def apart_def disjoint_regions_def nth_append Suc_le_eq)

lemma swapcode_long_eq:
  "bytes m a xs \<Longrightarrow> bytes m b ys \<Longrightarrow> length xs = 4 * Suc k \<Longrightarrow> length ys = 4 * Suc k \<Longrightarrow> apart a b (4 * Suc k) \<Longrightarrow>
     swapcode_long (Suc k) m a b = Some (wr (wr m a ys) b xs)"
proof (induction k arbitrary: m a b xs ys)
  case 0
  then show ?case using swap_word_eq [of m a xs b ys Some] by (subst swapcode_long.simps) simp
next
  case (Suc k)
  let ?x = "take 4 xs" and ?y = "take 4 ys"
  let ?m = "wr (wr m a ?y) b ?x"
  have B: "bytes m a (take 4 xs)" "bytes m (a + 4) (drop 4 xs)" "bytes m b (take 4 ys)" "bytes m (b + 4) (drop 4 ys)"
    using Suc.prems by (simp_all add: bytes_take bytes_drop)
  have "swapcode_long (Suc (Suc k)) m a b = swapcode_long (Suc k) ?m (a + 4) (b + 4)"
    using swap_word_eq [OF B(1,3), of "\<lambda>m. swapcode_long (Suc k) m (a + 4) (b + 4)"] Suc.prems
    by (subst swapcode_long.simps) (auto simp: apart_def disjoint_regions_def)
  also have "\<dots> = Some (wr (wr ?m (a + 4) (drop 4 ys)) (b + 4) (drop 4 xs))"
    using B Suc.prems by (intro Suc.IH) (auto simp: apart_def bytes_wr_disjoint disjoint_regions_def)
  also have "\<dots> = Some (wr (wr m a (?y @ drop 4 ys)) b (?x @ drop 4 xs))"
    using Suc.prems by (subst wr_swap_split [of _ _ 4 "4 * Suc k"]) auto
  finally show ?case by simp
qed

lemma swap_mem_eq:
  assumes "bytes m a xs" "bytes m b ys" "length xs = es" "length ys = es" "0 < es" "apart a b es"
  shows "swap_mem m a b es (SWAPINIT base es) = Some (wr (wr m a ys) b xs)"
proof -
  consider "SWAPINIT base es = 0" "es = 4" | "SWAPINIT base es = 1" "es mod 4 = 0" | "SWAPINIT base es = 2"
    by (cases "base mod 4 = 0 \<and> es mod 4 = 0"; cases "es = 4") (auto simp: SWAPINIT_def)
  then show ?thesis
  proof cases
    case 1
    then show ?thesis using assms swap_word_eq [of m a xs b ys Some] by (simp add: swap_mem_def)
  next
    case 2
    then obtain k where "es = 4 * Suc k" using assms(5) by (metis dvd_def mod_0_imp_dvd mult_0_right neq0_conv not0_implies_Suc)
    with 2 assms show ?thesis by (simp add: swap_mem_def swapfunc_def swapcode_long_eq)
  next
    case 3
    with assms show ?thesis using swapcode_char_eq [of m a xs b ys] by (auto simp: swap_mem_def swapfunc_def)
  qed
qed

text \<open>An array of elements of \<open>es\<close> bytes.\<close>

definition array :: "mem \<Rightarrow> addr \<Rightarrow> nat \<Rightarrow> byte list list \<Rightarrow> bool" where
  "array m base es xss \<longleftrightarrow> (\<forall>k < length xss. length (xss ! k) = es \<and> bytes m (base + k * es) (xss ! k))"

lemma element_disjoint: "i \<noteq> (j :: nat) \<Longrightarrow> disjoint_regions (base + i * es) es (base + j * es) es"
proof -
  have "i * es + es \<le> j * es" if "i < j" for i j :: nat using mult_le_mono1 [of "Suc i" j es] that by simp
  then show "i \<noteq> j \<Longrightarrow> ?thesis" by (auto simp: disjoint_regions_def linorder_neq_iff)
qed

lemma swap_mem_array:
  assumes "array m base es xss" "i < length xss" "j < length xss" "0 < es"
  shows "\<exists>m'. swap_mem m (base + i * es) (base + j * es) es (SWAPINIT base es) = Some m' \<and> array m' base es (swap xss i j) \<and>
    (\<forall>a. a < base \<or> base + length xss * es \<le> a \<longrightarrow> m' a = m a)"
proof -
  let ?a = "base + i * es" and ?b = "base + j * es"
  have A: "length (xss ! k) = es" "bytes m (base + k * es) (xss ! k)" if "k < length xss" for k
    using assms that by (auto simp: array_def)
  have ab: "apart ?a ?b es" using element_disjoint [of i j] by (auto simp: apart_def)
  let ?m = "wr (wr m ?a (xss ! j)) ?b (xss ! i)"
  have "swap_mem m ?a ?b es (SWAPINIT base es) = Some ?m" using A assms ab by (intro swap_mem_eq) auto
  moreover have "array ?m base es (swap xss i j)"
    unfolding array_def
  proof (intro allI impI)
    fix k assume "k < length (swap xss i j)"
    then have k: "k < length xss" by simp
    have nth: "swap xss i j ! k = (if k = i then xss ! j else if k = j then xss ! i else xss ! k)" using assms by (intro nth_swap)
    show "length (swap xss i j ! k) = es \<and> bytes ?m (base + k * es) (swap xss i j ! k)"
      using A k assms element_disjoint [of j k base es] element_disjoint [of i k base es] element_disjoint [of j i base es]
      by (auto simp: nth bytes_wr_disjoint)
  qed
  moreover have "?m a = m a" if "a < base \<or> base + length xss * es \<le> a" for a
  proof -
    have "k * es + es \<le> length xss * es" if "k < length xss" for k using mult_le_mono1 [of "Suc k" "length xss" es] that by simp
    from this [OF assms(2)] this [OF assms(3)] that A assms show ?thesis by (simp add: wr_def) linarith
  qed
  ultimately show ?thesis by blast
qed

lemma qsort_range:
  assumes "comparator cmp S" "a + n \<le> length xs" "set (take n (drop a xs)) \<subseteq> S"
  shows "sorted_wrt (\<lambda>x y. cmp x y \<le> 0) (take n (drop a (qsort cmp xs a n))) \<and>
    mset (take n (drop a (qsort cmp xs a n))) = mset (take n (drop a xs)) \<and>
    take a (qsort cmp xs a n) = take a xs \<and> drop (a + n) (qsort cmp xs a n) = drop (a + n) xs"
proof -
  have "all_in a (a + n) (\<lambda>x. x \<in> S) xs" using in_range_set [OF assms(2), of "\<lambda>x. x \<in> S"] assms(3) by (simp add: all_in_def subset_iff)
  note q = comparator.qsort_sorts [OF assms(1,2) this]
  have "sorted_wrt (\<lambda>x y. cmp x y \<le> 0) (take n (drop a (qsort cmp xs a n)))"
    unfolding sorted_wrt_iff_nth_less
  proof (intro allI impI)
    fix i j assume "i < j" "j < length (take n (drop a (qsort cmp xs a n)))"
    then show "cmp (take n (drop a (qsort cmp xs a n)) ! i) (take n (drop a (qsort cmp xs a n)) ! j) \<le> 0"
      using q [THEN conjunct1, unfolded comparator.sorted_in_def [OF assms(1)], rule_format, of "a + i" "a + j"]
        perm_range_length [OF q [THEN conjunct2]] assms(2) by (simp add: nth_drop)
  qed
  with q show ?thesis using perm_range_mset unfolding perm_range_def by blast
qed

lemma bsearch_of_qsort:
  assumes "comparator cmp S" "set xs \<subseteq> S" "key \<in> S" "0 < sz"
  shows "case bsearch key (qsort cmp xs 0 (length xs)) (length xs) sz cmp of
      Some i \<Rightarrow> i < length xs \<and> cmp key (qsort cmp xs 0 (length xs) ! i) = 0
    | None \<Rightarrow> \<not> (\<exists>x \<in> set xs. cmp key x = 0)"
proof -
  let ?q = "qsort cmp xs 0 (length xs)"
  have "all_in 0 (length xs) (\<lambda>x. x \<in> S) xs" using assms(2) by (auto simp: all_in_def)
  then have q: "comparator.sorted_in cmp 0 (length xs) ?q" "perm_range 0 (length xs) xs ?q"
    using comparator.qsort_sorts [OF assms(1), of 0 "length xs" xs] by simp_all
  then have set: "set ?q = set xs" "length ?q = length xs"
    by (metis perm_range_def set_mset_mset, simp add: perm_range_length)
  then have "all_in 0 (length xs) (\<lambda>x. x \<in> S) ?q" using assms(2) nth_mem [of _ ?q] by (auto simp: all_in_def)
  note B = comparator.bsearch_spec [OF assms(1) q(1) this assms(3), of sz]
  show ?thesis
  proof (cases "bsearch key ?q (length xs) sz cmp")
    case None
    with B assms(4) have "cmp key x \<noteq> 0" if "x \<in> set ?q" for x using that set(2) by (auto simp: all_in_def in_set_conv_nth)
    with None set(1) show ?thesis by simp
  qed (use B assms(4) in simp)
qed

section \<open>Properties\<close>

text \<open>
  C1.  For every comparison function that is consistent on the elements (a total preorder),
  \<^verbatim>\<open>qsort\<close> ends, orders the \<open>n\<close> elements from index \<open>a\<close> on, rearranges them without loss or
  duplication, and leaves the rest of the array as it was.
\<close>

theorem qsort_correct:
  assumes "comparator cmp S" "a + n \<le> length xs" "set (take n (drop a xs)) \<subseteq> S"
  shows "sorted_wrt (\<lambda>x y. cmp x y \<le> 0) (take n (drop a (qsort cmp xs a n))) \<and>
    mset (take n (drop a (qsort cmp xs a n))) = mset (take n (drop a xs)) \<and>
    take a (qsort cmp xs a n) = take a xs \<and> drop (a + n) (qsort cmp xs a n) = drop (a + n) xs"
  by (rule qsort_range [OF assms])

theorem qsort_correct_witness:
  "let xs = map (\<lambda>k. [k, 97]) [9, 3, 5, 3, 12, 1, 3, 8, 2, 7] in
   sorted_wrt (\<lambda>x y. cmp_str x y \<le> 0) (take 9 (drop 1 (qsort cmp_str xs 1 9))) \<and>
   mset (take 9 (drop 1 (qsort cmp_str xs 1 9))) = mset (take 9 (drop 1 xs))"
proof -
  let ?xs = "map (\<lambda>k. [k, 97]) [9, 3, 5, 3, 12, 1, 3, 8, 2, 7] :: byte list list"
  have "1 + 9 \<le> length ?xs" "set (take 9 (drop 1 ?xs)) \<subseteq> {s. 0 \<notin> set s}" by auto
  from qsort_correct [OF strings.comparator_axioms this] show ?thesis unfolding Let_def by blast
qed

text \<open>
  C10.  On an array that \<^verbatim>\<open>qsort\<close> has ordered, \<^verbatim>\<open>bsearch\<close> with the same comparison function ends
  and finds an element that compares equal to the key exactly when the array has one.
\<close>

theorem bsearch_after_qsort:
  assumes "comparator cmp S" "set xs \<subseteq> S" "key \<in> S" "0 < sz"
  shows "case bsearch key (qsort cmp xs 0 (length xs)) (length xs) sz cmp of
      Some i \<Rightarrow> i < length xs \<and> cmp key (qsort cmp xs 0 (length xs) ! i) = 0
    | None \<Rightarrow> \<not> (\<exists>x \<in> set xs. cmp key x = 0)"
  by (rule bsearch_of_qsort [OF assms])

theorem bsearch_after_qsort_witness:
  "let xs = [[7], [3, 4], [5], [3]] in
   case bsearch [3, 4] (qsort cmp_str xs 0 (length xs)) (length xs) 4 cmp_str of
     Some i \<Rightarrow> i < length xs \<and> cmp_str [3, 4] (qsort cmp_str xs 0 (length xs) ! i) = 0
   | None \<Rightarrow> \<not> (\<exists>x \<in> set xs. cmp_str [3, 4] x = 0)"
  unfolding Let_def by (rule bsearch_after_qsort [OF strings.comparator_axioms]) auto

text \<open>
  C16.  The exchange that \<^verbatim>\<open>qsort\<close> performs in memory, by one \<^verbatim>\<open>long\<close>, by a loop of \<^verbatim>\<open>long\<close>s or by a loop
  of \<^verbatim>\<open>char\<close>s depending on alignment and element size, refines the exchange of two list elements:
  also for an element with itself, and without touching memory outside the array.
\<close>

theorem swap_refines:
  assumes "array m base es xss" "i < length xss" "j < length xss" "0 < es"
  shows "\<exists>m'. swap_mem m (base + i * es) (base + j * es) es (SWAPINIT base es) = Some m' \<and> array m' base es (swap xss i j) \<and>
    (\<forall>a. a < base \<or> base + length xss * es \<le> a \<longrightarrow> m' a = m a)"
  by (rule swap_mem_array [OF assms])

theorem swap_refines_witness:
  "\<exists>m'. swap_mem (mem_image 16 [1, 2, 3, 4, 5, 6]) (16 + 0 * 2) (16 + 2 * 2) 2 (SWAPINIT 16 2) = Some m' \<and>
     array m' 16 2 (swap [[1, 2], [3, 4], [5, 6]] 0 2)"
proof -
  have "array (mem_image 16 [1, 2, 3, 4, 5, 6]) 16 2 [[1, 2], [3, 4], [5, 6]]"
    by (auto simp: array_def less_Suc_eq numeral_eq_Suc)
  from swap_refines [OF this, of 0 2] show ?thesis by auto
qed

end
