(* ===== verification/SearchTree.thy ===== *)
theory SearchTree
  imports "HOL-Library.Tree" Comparator
begin

text \<open>
  The binary search trees of \<^verbatim>\<open>search.h\<close>: \<^verbatim>\<open>tsearch\<close>, \<^verbatim>\<open>tfind\<close>, \<^verbatim>\<open>tdelete\<close>, \<^verbatim>\<open>twalk\<close> and \<^verbatim>\<open>tdestroy\<close>.  Nodes live in
  a heap, a map from addresses; a \<^verbatim>\<open>node_t **\<close> is a \<open>link\<close>, the variable that holds the root or
  a field of a node.  The address that \<^verbatim>\<open>malloc\<close> returns is an argument.  Reading a node that is
  not allocated is a fault, \<open>None\<close>, and so is a loop that does not end.
\<close>

section \<open>Nodes and links\<close>

record 'k node_t =
  key :: 'k
  llink :: addr
  rlink :: addr

datatype link = Root | LLink addr | RLink addr

record 'k tree_state =
  root :: addr
  nodes :: "addr \<rightharpoonup> 'k node_t"

datatype visit = preorder | postorder | endorder | leaf

text \<open>\<^verbatim>\<open>*rootp\<close> and \<^verbatim>\<open>*rootp = q\<close>\<close>

fun read_link :: "'k tree_state \<Rightarrow> link \<Rightarrow> addr option" where
  "read_link s Root = Some (root s)"
| "read_link s (LLink p) = map_option llink (nodes s p)"
| "read_link s (RLink p) = map_option rlink (nodes s p)"

definition upd_node :: "'k tree_state \<Rightarrow> addr \<Rightarrow> ('k node_t \<Rightarrow> 'k node_t) \<Rightarrow> 'k tree_state option" where
  "upd_node s p f = do { nd \<leftarrow> nodes s p; Some (s\<lparr>nodes := (nodes s)(p \<mapsto> f nd)\<rparr>) }"

fun write_link :: "'k tree_state \<Rightarrow> link \<Rightarrow> addr \<Rightarrow> 'k tree_state option" where
  "write_link s Root q = Some (s\<lparr>root := q\<rparr>)"
| "write_link s (LLink p) q = upd_node s p (\<lambda>nd. nd\<lparr>llink := q\<rparr>)"
| "write_link s (RLink p) q = upd_node s p (\<lambda>nd. nd\<lparr>rlink := q\<rparr>)"

section \<open>The routines\<close>

text \<open>
  The loops of \<^verbatim>\<open>tsearch\<close> and \<^verbatim>\<open>tfind\<close> give the link they stop at and the address in it: \<^verbatim>\<open>NULL\<close>, or a
  node with an equal key.
\<close>

partial_function (option) search_loop ::
    "('k \<Rightarrow> 'k \<Rightarrow> int) \<Rightarrow> 'k \<Rightarrow> 'k tree_state \<Rightarrow> link \<Rightarrow> (link \<times> addr) option" where
  "search_loop compar vkey s rootp =
     do { p \<leftarrow> read_link s rootp;
          if p = NULL then Some (rootp, NULL)
          else do { nd \<leftarrow> nodes s p;
                    let r = compar vkey (key nd) in
                    if r = 0 then Some (rootp, p)
                    else search_loop compar vkey s (if r < 0 then LLink p else RLink p) } }"

definition tfind :: "('k \<Rightarrow> 'k \<Rightarrow> int) \<Rightarrow> 'k \<Rightarrow> link option \<Rightarrow> 'k tree_state \<Rightarrow> addr option" where
  "tfind compar vkey vrootp s =
     (case vrootp of None \<Rightarrow> Some NULL
      | Some rootp \<Rightarrow> do { (_, p) \<leftarrow> search_loop compar vkey s rootp; Some p })"

text \<open>\<open>q\<close> is what \<^verbatim>\<open>malloc (sizeof (node_t))\<close> returns.\<close>

definition tsearch :: "addr \<Rightarrow> ('k \<Rightarrow> 'k \<Rightarrow> int) \<Rightarrow> 'k \<Rightarrow> link option \<Rightarrow> 'k tree_state \<Rightarrow> (addr \<times> 'k tree_state) option" where
  "tsearch q compar vkey vrootp s =
     (case vrootp of None \<Rightarrow> Some (NULL, s)
      | Some rootp \<Rightarrow>
          do { (rootp, p) \<leftarrow> search_loop compar vkey s rootp;
               if p \<noteq> NULL then Some (p, s)
               else if q \<noteq> NULL
               then do { s \<leftarrow> write_link s rootp q;
                         Some (q, s\<lparr>nodes := (nodes s)(q \<mapsto> \<lparr>key = vkey, llink = NULL, rlink = NULL\<rparr>)\<rparr>) }
               else Some (q, s) })"

text \<open>\<^verbatim>\<open>while ((cmp = (*compar)(vkey, (*rootp)->key)) != 0)\<close>: the node \<open>p\<close> that \<^verbatim>\<open>tdelete\<close> returns and the link of the node to delete.\<close>

partial_function (option) tdelete_loop ::
    "('k \<Rightarrow> 'k \<Rightarrow> int) \<Rightarrow> 'k \<Rightarrow> 'k tree_state \<Rightarrow> addr \<Rightarrow> link \<Rightarrow> (addr \<times> link) option option" where
  "tdelete_loop compar vkey s p rootp =
     do { a \<leftarrow> read_link s rootp; nd \<leftarrow> nodes s a;
          let cmp = compar vkey (key nd) in
          if cmp = 0 then Some (Some (p, rootp))
          else let p = a; rootp = (if cmp < 0 then LLink a else RLink a) in
               do { b \<leftarrow> read_link s rootp;
                    if b = NULL then Some None else tdelete_loop compar vkey s p rootp } }"

text \<open>\<^verbatim>\<open>for (q = r->llink; q->llink != NULL; q = r->llink) r = q;\<close>\<close>

partial_function (option) null_link_loop :: "'k tree_state \<Rightarrow> addr \<Rightarrow> addr \<Rightarrow> (addr \<times> addr) option" where
  "null_link_loop s r q =
     do { b \<leftarrow> read_link s (LLink q);
          if b = NULL then Some (r, q)
          else let r = q in do { q \<leftarrow> read_link s (LLink r); null_link_loop s r q } }"

text \<open>Steps D1 to D3: the node \<open>q\<close> that takes the place of the one at \<open>rootp\<close>.\<close>

definition successor :: "'k tree_state \<Rightarrow> link \<Rightarrow> (addr \<times> 'k tree_state) option" where
  "successor s rootp =
     do { a \<leftarrow> read_link s rootp;
          r \<leftarrow> read_link s (RLink a);
          q \<leftarrow> read_link s (LLink a);
          if q = NULL then Some (r, s)
          else if r \<noteq> NULL
          then do { rl \<leftarrow> read_link s (LLink r);
                    if rl = NULL then do { s \<leftarrow> write_link s (LLink r) q; Some (r, s) }
                    else do { (r, q) \<leftarrow> null_link_loop s r rl;
                              qr \<leftarrow> read_link s (RLink q);
                              s \<leftarrow> write_link s (LLink r) qr;
                              a \<leftarrow> read_link s rootp; l \<leftarrow> read_link s (LLink a);
                              s \<leftarrow> write_link s (LLink q) l;
                              a \<leftarrow> read_link s rootp; r \<leftarrow> read_link s (RLink a);
                              s \<leftarrow> write_link s (RLink q) r;
                              Some (q, s) } }
          else Some (q, s) }"

definition free_node :: "'k tree_state \<Rightarrow> addr \<Rightarrow> 'k tree_state option" where
  "free_node s p = do { _ \<leftarrow> nodes s p; Some (s\<lparr>nodes := (nodes s)(p := None)\<rparr>) }"

definition tdelete :: "('k \<Rightarrow> 'k \<Rightarrow> int) \<Rightarrow> 'k \<Rightarrow> link option \<Rightarrow> 'k tree_state \<Rightarrow> (addr \<times> 'k tree_state) option" where
  "tdelete compar vkey vrootp s =
     (case vrootp of None \<Rightarrow> Some (NULL, s)
      | Some rootp \<Rightarrow>
          do { p \<leftarrow> read_link s rootp;
               if p = NULL then Some (NULL, s)
               else do { found \<leftarrow> tdelete_loop compar vkey s p rootp;
                         case found of None \<Rightarrow> Some (NULL, s)
                         | Some (p, rootp) \<Rightarrow>
                             do { (q, s) \<leftarrow> successor s rootp;
                                  a \<leftarrow> read_link s rootp;
                                  s \<leftarrow> free_node s a;
                                  s \<leftarrow> write_link s rootp q;
                                  Some (p, s) } } })"

text \<open>The calls of \<^verbatim>\<open>action\<close> that \<^verbatim>\<open>twalk\<close> makes, in order.\<close>

partial_function (option) twalk_rec :: "'k tree_state \<Rightarrow> addr \<Rightarrow> int \<Rightarrow> (addr \<times> visit \<times> int) list option" where
  "twalk_rec s a level =
     do { nd \<leftarrow> nodes s a;
          if llink nd = NULL \<and> rlink nd = NULL then Some [(a, leaf, level)]
          else do { xs \<leftarrow> (if llink nd \<noteq> NULL then twalk_rec s (llink nd) (level + 1) else Some []);
                    ys \<leftarrow> (if rlink nd \<noteq> NULL then twalk_rec s (rlink nd) (level + 1) else Some []);
                    Some ((a, preorder, level) # xs @ (a, postorder, level) # ys @ [(a, endorder, level)]) } }"

definition twalk :: "'k tree_state \<Rightarrow> addr \<Rightarrow> bool \<Rightarrow> (addr \<times> visit \<times> int) list option" where
  "twalk s vroot has_action = (if vroot \<noteq> NULL \<and> has_action then twalk_rec s vroot 0 else Some [])"

text \<open>\<^verbatim>\<open>tdestroy\<close>: the keys given to \<^verbatim>\<open>free_action\<close>, in order, and the heap that is left.\<close>

partial_function (option) tdestroy_rec :: "addr \<Rightarrow> 'k tree_state \<Rightarrow> ('k list \<times> 'k tree_state) option" where
  "tdestroy_rec a s =
     do { l \<leftarrow> read_link s (LLink a);
          (ks, s) \<leftarrow> (if l \<noteq> NULL then tdestroy_rec l s else Some ([], s));
          r \<leftarrow> read_link s (RLink a);
          (ks', s) \<leftarrow> (if r \<noteq> NULL then tdestroy_rec r s else Some ([], s));
          nd \<leftarrow> nodes s a;
          s \<leftarrow> free_node s a;
          Some (ks @ ks' @ [key nd], s) }"

definition tdestroy :: "addr \<Rightarrow> 'k tree_state \<Rightarrow> ('k list \<times> 'k tree_state) option" where
  "tdestroy vrootp s = (if vrootp \<noteq> NULL then tdestroy_rec vrootp s else Some ([], s))"

section \<open>Trees in the heap\<close>

text \<open>
  \<open>is_tree s a t\<close>: from address \<open>a\<close> on the heap holds the tree \<open>t\<close>, whose nodes carry their address and
  their key.
\<close>

fun is_tree :: "'k tree_state \<Rightarrow> addr \<Rightarrow> (addr \<times> 'k) tree \<Rightarrow> bool" where
  "is_tree s a Leaf \<longleftrightarrow> a = NULL"
| "is_tree s a (Node l (p, k) r) \<longleftrightarrow>
     a = p \<and> p \<noteq> NULL \<and>
     (case nodes s p of None \<Rightarrow> False | Some nd \<Rightarrow> key nd = k \<and> is_tree s (llink nd) l \<and> is_tree s (rlink nd) r)"

abbreviation addrs :: "(addr \<times> 'k) tree \<Rightarrow> addr set" where
  "addrs t \<equiv> fst ` set_tree t"

abbreviation separate :: "(addr \<times> 'k) tree \<Rightarrow> bool" where
  "separate t \<equiv> distinct (map fst (inorder t))"

definition links :: "addr set \<Rightarrow> link set" where
  "links A = LLink ` A \<union> RLink ` A"

text \<open>\<open>agree L A s s'\<close>: the two states differ at most in the links \<open>L\<close> and in the nodes \<open>A\<close>.\<close>

definition agree :: "link set \<Rightarrow> addr set \<Rightarrow> 'k tree_state \<Rightarrow> 'k tree_state \<Rightarrow> bool" where
  "agree L A s s' \<longleftrightarrow> (\<forall>lk. lk \<notin> L \<longrightarrow> lk \<notin> links A \<longrightarrow> read_link s' lk = read_link s lk) \<and>
     (\<forall>p. p \<notin> A \<longrightarrow> map_option key (nodes s' p) = map_option key (nodes s p))"

lemma links_simps [simp]: "LLink p \<in> links A \<longleftrightarrow> p \<in> A" "RLink p \<in> links A \<longleftrightarrow> p \<in> A" "Root \<notin> links A"
  "links {} = {}" "links (A \<union> B) = links A \<union> links B" "links (insert a A) = {LLink a, RLink a} \<union> links A"
  by (auto simp: links_def)

lemma links_mono: "lk \<in> links A \<Longrightarrow> A \<subseteq> B \<Longrightarrow> lk \<in> links B"
  by (auto simp: links_def)

lemma links_disjoint: "A \<inter> B = {} \<Longrightarrow> links A \<inter> links B = {}"
  by (auto simp: links_def)

lemma agree_refl [simp]: "agree L A s s"
  by (simp add: agree_def)

lemma agree_trans: "agree L A s s' \<Longrightarrow> agree L' A' s' s'' \<Longrightarrow> agree (L \<union> L') (A \<union> A') s s''"
  by (simp add: agree_def)

lemma agree_mono: "agree L A s s' \<Longrightarrow> L \<subseteq> L' \<union> links A' \<Longrightarrow> A \<subseteq> A' \<Longrightarrow> agree L' A' s s'"
  unfolding agree_def using links_mono by (metis UnE subsetD)

lemma agree_link: "agree L A s s' \<Longrightarrow> lk \<notin> L \<Longrightarrow> lk \<notin> links A \<Longrightarrow> read_link s' lk = read_link s lk"
  by (simp add: agree_def)

lemma is_tree_Node:
  "is_tree s a (Node l (p, k) r) \<longleftrightarrow> a = p \<and> p \<noteq> NULL \<and> map_option key (nodes s p) = Some k \<and>
     (\<exists>b c. read_link s (LLink p) = Some b \<and> read_link s (RLink p) = Some c \<and> is_tree s b l \<and> is_tree s c r)"
  by (auto split: option.split)

declare is_tree.simps(2) [simp del]

lemma is_tree_frame:
  "is_tree s a t \<Longrightarrow> agree L A s s' \<Longrightarrow> A \<inter> addrs t = {} \<Longrightarrow> L \<inter> links (addrs t) = {} \<Longrightarrow> is_tree s' a t"
proof (induction t arbitrary: a)
  case (Node l x r)
  obtain p k where x: "x = (p, k)" by force
  have "LLink p \<notin> L \<union> links A" "RLink p \<notin> L \<union> links A" "p \<notin> A" using Node.prems x by auto
  then have "read_link s' (LLink p) = read_link s (LLink p)" "read_link s' (RLink p) = read_link s (RLink p)"
    "map_option key (nodes s' p) = map_option key (nodes s p)"
    using Node.prems(2) unfolding agree_def by blast+
  moreover have "A \<inter> addrs l = {}" "A \<inter> addrs r = {}" "L \<inter> links (addrs l) = {}" "L \<inter> links (addrs r) = {}"
    using Node.prems x by (auto simp: image_Un)
  ultimately show ?case using Node.IH Node.prems(1,2) unfolding x is_tree_Node by metis
qed simp

lemma read_link_alt:
  "read_link s lk = (case lk of Root \<Rightarrow> Some (root s) | LLink p \<Rightarrow> map_option llink (nodes s p) | RLink p \<Rightarrow> map_option rlink (nodes s p))"
  by (cases lk) auto

lemma write_link_ok:
  assumes "read_link s lk = Some a"
  obtains s' where "write_link s lk q = Some s'" "read_link s' lk = Some q" "agree {lk} {} s s'" "dom (nodes s') = dom (nodes s)"
proof -
  have "\<exists>s'. write_link s lk q = Some s' \<and> read_link s' lk = Some q \<and> agree {lk} {} s s' \<and> dom (nodes s') = dom (nodes s)"
    using assms by (cases lk) (auto simp: upd_node_def agree_def read_link_alt split: link.split)
  then show ?thesis using that by blast
qed

section \<open>Paths\<close>

text \<open>A path goes to the left (\<open>True\<close>) or to the right at every node.\<close>

fun valid :: "bool list \<Rightarrow> 'a tree \<Rightarrow> bool" where
  "valid [] t = True"
| "valid (d # ds) (Node l x r) = valid ds (if d then l else r)"
| "valid (d # ds) Leaf = False"

fun sub_at :: "bool list \<Rightarrow> 'a tree \<Rightarrow> 'a tree" where
  "sub_at (d # ds) (Node l x r) = sub_at ds (if d then l else r)"
| "sub_at ds t = t"

fun put_at :: "bool list \<Rightarrow> 'a tree \<Rightarrow> 'a tree \<Rightarrow> 'a tree" where
  "put_at (d # ds) (Node l x r) u = (if d then Node (put_at ds l u) x r else Node l x (put_at ds r u))"
| "put_at ds t u = u"

fun link_at :: "link \<Rightarrow> bool list \<Rightarrow> (addr \<times> 'k) tree \<Rightarrow> link" where
  "link_at lk (d # ds) (Node l (p, k) r) = (if d then link_at (LLink p) ds l else link_at (RLink p) ds r)"
| "link_at lk ds t = lk"

lemma set_sub_at: "set_tree (sub_at ds t) \<subseteq> set_tree t"
  by (induction ds t rule: sub_at.induct) auto

lemma link_at_cases: "link_at lk ds t = lk \<and> (ds = [] \<or> t = Leaf) \<or> link_at lk ds t \<in> links (addrs t)"
proof (induction lk ds t rule: link_at.induct)
  case (1 lk d ds l p k r)
  then show ?case by (cases d) (auto intro: links_mono)
qed auto

lemma inorder_at:
  "valid ds t \<Longrightarrow> \<exists>L R. inorder t = L @ inorder (sub_at ds t) @ R \<and> (\<forall>u. inorder (put_at ds t u) = L @ inorder u @ R)"
proof (induction ds t rule: sub_at.induct)
  case (1 d ds l x r)
  then obtain L R where LR: "inorder (if d then l else r) = L @ inorder (sub_at ds (if d then l else r)) @ R"
    "\<forall>u. inorder (put_at ds (if d then l else r) u) = L @ inorder u @ R" by auto
  show ?case
  proof (cases d)
    case True
    with LR show ?thesis by (intro exI [of _ L] exI [of _ "R @ x # inorder r"]) simp
  next
    case False
    with LR show ?thesis by (intro exI [of _ "inorder l @ x # L"] exI [of _ R]) simp
  qed
qed (auto intro: exI [of _ "[]"])

lemma sub_at_is_tree:
  "is_tree s a t \<Longrightarrow> read_link s lk = Some a \<Longrightarrow> valid ds t \<Longrightarrow>
     \<exists>b. read_link s (link_at lk ds t) = Some b \<and> is_tree s b (sub_at ds t)"
proof (induction lk ds t arbitrary: a rule: link_at.induct)
  case (1 lk d ds l p k r)
  then show ?case by (cases d) (auto simp: is_tree_Node simp del: read_link.simps)
qed auto

lemma separate_sub: "separate t \<Longrightarrow> valid ds t \<Longrightarrow> separate (sub_at ds t)"
  using inorder_at [of ds t] by fastforce

lemma separate_Node:
  "separate (Node l (p, k) r) \<longleftrightarrow> separate l \<and> separate r \<and> p \<notin> addrs l \<and> p \<notin> addrs r \<and> addrs l \<inter> addrs r = {}"
  by auto

text \<open>A subtree is exchanged by writing the one link that leads to it.\<close>

lemma put_at_is_tree:
  assumes "is_tree s a t" "read_link s lk = Some a" "valid ds t" "separate t" "lk \<notin> links (addrs t)" "lk \<notin> links A"
    and "read_link s' (link_at lk ds t) = Some b" "is_tree s' b u" "agree {link_at lk ds t} A s s'"
    and "A \<inter> (addrs t - addrs (sub_at ds t)) = {}"
  shows "\<exists>a'. read_link s' lk = Some a' \<and> is_tree s' a' (put_at ds t u)"
  using assms
proof (induction lk ds t arbitrary: a rule: link_at.induct)
  case (1 lk d ds l p k r)
  let ?c = "if d then l else r" and ?o = "if d then r else l" and ?lk = "if d then LLink p else RLink p"
  let ?ol = "if d then RLink p else LLink p" and ?t = "Node l (p, k) r"
  have at: "link_at lk (d # ds) ?t = link_at ?lk ds ?c" by simp
  have sep: "separate ?c" "p \<notin> addrs ?c" "addrs ?c \<inter> addrs ?o = {}" "p \<notin> addrs ?o" using "1.prems"(4) unfolding separate_Node by auto
  have subs: "addrs (sub_at ds ?c) \<subseteq> addrs ?c" using set_sub_at by (intro image_mono)
  have all: "addrs ?t = insert p (addrs ?c \<union> addrs ?o)" by (auto simp: image_Un)
  have "A \<inter> (insert p (addrs ?c \<union> addrs ?o) - addrs (sub_at ds ?c)) = {}" using "1.prems"(10) unfolding all by simp
  then have A: "p \<notin> A" "A \<inter> addrs ?o = {}" "A \<inter> (addrs ?c - addrs (sub_at ds ?c)) = {}"
    using subs sep by blast+
  obtain b1 b2 where T: "a = p" "p \<noteq> NULL" "map_option key (nodes s p) = Some k" "read_link s ?lk = Some b1" "is_tree s b1 ?c"
    "read_link s ?ol = Some b2" "is_tree s b2 ?o" using "1.prems"(1) unfolding is_tree_Node by (cases d) auto
  have lkc: "?lk \<notin> links (addrs ?c)" "?lk \<notin> links A" using sep A by auto
  have sub: "\<exists>a'. read_link s' ?lk = Some a' \<and> is_tree s' a' (put_at ds ?c u)"
    using "1.IH"(1) [of b1] "1.IH"(2) [of b1] T lkc "1.prems"(3,7-9) A(3) sep(1) by (cases d) auto
  have at': "link_at ?lk ds ?c = ?lk \<or> link_at ?lk ds ?c \<in> links (addrs ?c)" using link_at_cases by blast
  moreover have "?ol \<notin> links (addrs ?c)" "?ol \<noteq> ?lk" using sep by auto
  ultimately have "?ol \<noteq> link_at ?lk ds ?c" by metis
  then have other: "read_link s' ?ol = Some b2" using agree_link [OF "1.prems"(9), of ?ol] A(1) T(6) at by auto
  have "?lk \<notin> links (addrs ?o)" using sep by auto
  then have "link_at ?lk ds ?c \<notin> links (addrs ?o)" using at' links_disjoint [OF sep(3)] by (metis IntI emptyE)
  then have "is_tree s' b2 ?o" using A(2) at by (intro is_tree_frame [OF T(7) "1.prems"(9)]) simp_all
  moreover have "map_option key (nodes s' p) = Some k" using "1.prems"(9) A(1) T(3) by (simp add: agree_def)
  moreover have "lk \<noteq> link_at ?lk ds ?c" using at' "1.prems"(5) unfolding all by auto
  then have "read_link s' lk = Some a" using agree_link [OF "1.prems"(9)] "1.prems"(2,6) at by auto
  ultimately show ?case using sub other T(1,2) by (cases d) (auto simp: is_tree_Node simp del: read_link.simps)
qed auto

section \<open>Searching\<close>

fun spath :: "('k \<Rightarrow> 'k \<Rightarrow> int) \<Rightarrow> 'k \<Rightarrow> (addr \<times> 'k) tree \<Rightarrow> bool list" where
  "spath cmp k Leaf = []"
| "spath cmp k (Node l (p, x) r) =
     (if cmp k x = 0 then [] else if cmp k x < 0 then True # spath cmp k l else False # spath cmp k r)"

fun raddr :: "(addr \<times> 'k) tree \<Rightarrow> addr" where
  "raddr Leaf = NULL"
| "raddr (Node l (p, k) r) = p"

lemma is_tree_raddr: "is_tree s a t \<Longrightarrow> a = raddr t"
  by (cases "(s, a, t)" rule: is_tree.cases) (auto simp: is_tree_Node)

lemma raddr_0_iff: "is_tree s a t \<Longrightarrow> raddr t = NULL \<longleftrightarrow> t = Leaf"
  by (cases "(s, a, t)" rule: is_tree.cases) (auto simp: is_tree_Node)

lemma valid_spath: "valid (spath cmp k t) t"
  by (induction cmp k t rule: spath.induct) auto

lemma sub_spath_eq: "sub_at (spath cmp k t) t = Node l (p, x) r \<Longrightarrow> cmp k x = 0"
  by (induction cmp k t rule: spath.induct) (auto split: if_splits)

lemma search_loop_eq:
  "is_tree s a t \<Longrightarrow> read_link s lk = Some a \<Longrightarrow>
     search_loop cmp k s lk = Some (link_at lk (spath cmp k t) t, raddr (sub_at (spath cmp k t) t))"
proof (induction cmp k t arbitrary: a lk rule: spath.induct)
  case (2 cmp k l p x r)
  then obtain nd where "nodes s p = Some nd" "key nd = x" "a = p" "p \<noteq> 0" "is_tree s (llink nd) l" "is_tree s (rlink nd) r"
    by (auto simp: is_tree_Node)
  with 2 show ?case by (subst search_loop.simps) auto
qed (subst search_loop.simps, auto)

fun parent_at :: "addr \<Rightarrow> bool list \<Rightarrow> (addr \<times> 'k) tree \<Rightarrow> addr" where
  "parent_at p (d # ds) (Node l (q, k) r) = parent_at q ds (if d then l else r)"
| "parent_at p ds t = p"

lemma parent_at_nz: "is_tree s a t \<Longrightarrow> p \<noteq> NULL \<Longrightarrow> parent_at p ds t \<noteq> NULL"
proof (induction p ds t arbitrary: a rule: parent_at.induct)
  case (1 p d ds l q k r)
  then show ?case by (cases d) (auto simp: is_tree_Node)
qed auto

lemma tdelete_loop_eq:
  "is_tree s a t \<Longrightarrow> read_link s lk = Some a \<Longrightarrow> t \<noteq> Leaf \<Longrightarrow>
     tdelete_loop cmp k s p0 lk =
       Some (if sub_at (spath cmp k t) t = Leaf then None
             else Some (parent_at p0 (spath cmp k t) t, link_at lk (spath cmp k t) t))"
proof (induction cmp k t arbitrary: a lk p0 rule: spath.induct)
  case (2 cmp k l p x r)
  then obtain nd where "nodes s p = Some nd" "key nd = x" "a = p" "p \<noteq> 0" "is_tree s (llink nd) l" "is_tree s (rlink nd) r"
    by (auto simp: is_tree_Node)
  moreover from this have "llink nd = 0 \<longleftrightarrow> l = Leaf" "rlink nd = 0 \<longleftrightarrow> r = Leaf" using raddr_0_iff is_tree_raddr by metis+
  ultimately show ?case using 2 by (subst tdelete_loop.simps) (auto simp: Let_def)
qed simp

section \<open>The in-order successor\<close>

fun lpath :: "'a tree \<Rightarrow> bool list" where
  "lpath (Node l x r) = (if l = Leaf then [] else True # lpath l)"
| "lpath Leaf = []"

lemma valid_lpath: "valid (lpath t) t"
  by (induction t) auto

lemma sub_lpath: "t \<noteq> Leaf \<Longrightarrow> \<exists>x r. sub_at (lpath t) t = Node Leaf x r"
  by (induction t) auto

lemma null_link_loop_eq:
  "is_tree s p (Node l (p, k) r) \<Longrightarrow> l \<noteq> Leaf \<Longrightarrow> sub_at (lpath l) l = Node Leaf (q, y) rr \<Longrightarrow>
     \<exists>p'. null_link_loop s p (raddr l) = Some (p', q) \<and> link_at (LLink p) (lpath l) l = LLink p'"
proof (induction l arbitrary: p k r)
  case (Node l1 x r1)
  obtain p1 k1 where x: "x = (p1, k1)" by force
  from Node.prems x obtain nd where nd: "nodes s p1 = Some nd" "is_tree s (llink nd) l1" "is_tree s p1 (Node l1 (p1, k1) r1)"
    by (auto simp: is_tree_Node)
  have l: "llink nd = raddr l1" "raddr l1 = 0 \<longleftrightarrow> l1 = Leaf" using nd(2) is_tree_raddr raddr_0_iff by metis+
  show ?case
  proof (cases "l1 = Leaf")
    case True
    with Node.prems x nd l show ?thesis by (subst null_link_loop.simps) auto
  next
    case False
    with Node.IH(1) [OF nd(3)] Node.prems x nd l show ?thesis by (subst null_link_loop.simps) (auto simp: Let_def)
  qed
qed simp

lemma link_at_outside:
  "separate t \<Longrightarrow> lk \<notin> links (addrs t) \<Longrightarrow> link_at lk ds t \<notin> links (addrs (sub_at ds t))"
proof (induction lk ds t rule: link_at.induct)
  case (1 lk d ds l p k r)
  then have "separate (if d then l else r)" "p \<notin> addrs (if d then l else r)" unfolding separate_Node by auto
  with 1 show ?case by (cases d) auto
qed auto

lemma inorder_split_min:
  "sub_at (lpath t) t = Node Leaf x r \<Longrightarrow> inorder t = x # inorder (put_at (lpath t) t r)"
  by (induction t) (auto split: if_splits)

text \<open>What replaces a node with the subtrees \<open>l\<close> and \<open>r\<close>.\<close>

definition joined :: "'a tree \<Rightarrow> 'a tree \<Rightarrow> 'a tree" where
  "joined l r = (if l = Leaf then r else if r = Leaf then l
     else case sub_at (lpath r) r of Node _ x rr \<Rightarrow> Node l x (put_at (lpath r) r rr) | Leaf \<Rightarrow> Leaf)"

lemma inorder_joined: "inorder (joined l r) = inorder l @ inorder r"
  using sub_lpath [of r] inorder_split_min [of r] by (auto simp: joined_def)

lemma successor_D3:
  assumes T: "is_tree s a (Node l (a, k) r)" and lk: "read_link s lk = Some a" "lk \<notin> links (addrs (Node l (a, k) r))"
    and sep: "separate (Node l (a, k) r)" and r: "r = Node r1 (rp, rk) r2" "r1 \<noteq> Leaf"
    and sub: "sub_at (lpath r) r = Node Leaf (q, y) rr"
  shows "\<exists>p s1 s2 s3 b c. null_link_loop s rp (raddr r1) = Some (p, q) \<and> read_link s (RLink q) = Some (raddr rr) \<and>
    write_link s (LLink p) (raddr rr) = Some s1 \<and> read_link s1 lk = Some a \<and> read_link s1 (LLink a) = Some b \<and>
    write_link s1 (LLink q) b = Some s2 \<and> read_link s2 lk = Some a \<and> read_link s2 (RLink a) = Some c \<and>
    write_link s2 (RLink q) c = Some s3 \<and> is_tree s3 q (Node l (q, y) (put_at (lpath r) r rr)) \<and>
    agree {} (addrs l \<union> addrs r) s s3 \<and> dom (nodes s3) = dom (nodes s)"
proof -
  let ?r' = "put_at (lpath r) r rr"
  obtain b c where bc: "read_link s (LLink a) = Some b" "read_link s (RLink a) = Some c" "is_tree s b l" "is_tree s c r"
    using T by (auto simp: is_tree_Node simp del: read_link.simps)
  have sub1: "sub_at (lpath r1) r1 = Node Leaf (q, y) rr" and rp: "c = rp" using sub r bc(4) by (auto simp: is_tree_Node)
  obtain p where p: "null_link_loop s rp (raddr r1) = Some (p, q)" "link_at (LLink rp) (lpath r1) r1 = LLink p"
    using null_link_loop_eq [OF _ r(2) sub1] bc(4) r(1) rp by blast
  then have at: "link_at (RLink a) (lpath r) r = LLink p" using r by simp
  have S: "separate l" "separate r" "a \<notin> addrs l" "a \<notin> addrs r" "addrs l \<inter> addrs r = {}" using sep unfolding separate_Node by auto
  have "separate (Node Leaf (q, y) rr)" "q \<in> addrs r" "addrs rr \<subseteq> addrs r"
    using separate_sub [OF S(2) valid_lpath] set_sub_at [of "lpath r" r] sub by force+
  then have q: "q \<noteq> a" "q \<notin> addrs l" "q \<in> addrs r" "q \<notin> addrs rr" using S by auto
  have p_in: "p \<in> addrs r" "p \<noteq> q" "p \<notin> addrs rr" "p \<noteq> a" "p \<notin> addrs l"
    using link_at_cases [of "RLink a" "lpath r" r] link_at_outside [OF S(2), of "RLink a" "lpath r"] S r unfolding at sub by auto
  have r': "q \<notin> addrs ?r'" "addrs ?r' \<subseteq> addrs r" "separate ?r'"
    using inorder_split_min [OF sub] S(2) unfolding set_inorder [symmetric] by auto
  have node_q: "read_link s (LLink p) = Some q" "read_link s (LLink q) = Some 0" "read_link s (RLink q) = Some (raddr rr)" "q \<noteq> 0"
    "map_option key (nodes s q) = Some y" "is_tree s (raddr rr) rr"
    using sub_at_is_tree [OF bc(4,2) valid_lpath] is_tree_raddr unfolding at sub by (auto simp: is_tree_Node simp del: read_link.simps)
  have lk_out: "lk \<notin> {LLink p, LLink q, RLink q}" using lk(2) p_in(1) q(3) by (cases lk; simp add: image_Un; metis)
  obtain s1 where s1: "write_link s (LLink p) (raddr rr) = Some s1" "read_link s1 (LLink p) = Some (raddr rr)"
    "agree {LLink p} {} s s1" "dom (nodes s1) = dom (nodes s)" by (rule write_link_ok [OF node_q(1)])
  have "is_tree s1 (raddr rr) rr" using p_in by (intro is_tree_frame [OF node_q(6) s1(3)]) auto
  then obtain c' where c': "read_link s1 (RLink a) = Some c'" "is_tree s1 c' ?r'"
    using put_at_is_tree [OF bc(4,2) valid_lpath S(2), of "{}" s1 "raddr rr" rr] s1 at S(4) by auto
  have 1: "read_link s1 lk = Some a" "read_link s1 (LLink a) = Some b" "read_link s1 (LLink q) = Some 0" "is_tree s1 b l"
    using agree_link [OF s1(3)] lk bc(1) node_q p_in lk_out is_tree_frame [OF bc(3) s1(3)] by (auto simp del: read_link.simps)
  obtain s2 where s2: "write_link s1 (LLink q) b = Some s2" "read_link s2 (LLink q) = Some b"
    "agree {LLink q} {} s1 s2" "dom (nodes s2) = dom (nodes s1)" by (rule write_link_ok [OF 1(3)])
  have 2: "read_link s2 lk = Some a" "read_link s2 (RLink a) = Some c'" "is_tree s2 b l" "is_tree s2 c' ?r'"
    using agree_link [OF s2(3)] lk_out 1 c' q r' is_tree_frame [OF 1(4) s2(3)] is_tree_frame [OF c'(2) s2(3)]
    by (auto simp del: read_link.simps)
  have "read_link s2 (RLink q) = Some (raddr rr)" using agree_link [OF s2(3)] agree_link [OF s1(3)] node_q(3) by (simp del: read_link.simps)
  then obtain s3 where s3: "write_link s2 (RLink q) c' = Some s3" "read_link s3 (RLink q) = Some c'"
    "agree {RLink q} {} s2 s3" "dom (nodes s3) = dom (nodes s2)" by (rule write_link_ok)
  have 3: "is_tree s3 b l" "is_tree s3 c' ?r'" using q r' is_tree_frame [OF 2(3) s3(3)] is_tree_frame [OF 2(4) s3(3)] by auto
  have ag: "agree {LLink p, LLink q, RLink q} {} s s3"
    using agree_trans [OF agree_trans [OF s1(3) s2(3)] s3(3)] by (simp add: insert_commute)
  then have "map_option key (nodes s3 q) = Some y" using node_q(5) by (simp add: agree_def)
  moreover have "read_link s3 (LLink q) = Some b" using agree_link [OF s3(3)] s2(2) by (simp del: read_link.simps)
  ultimately have "is_tree s3 q (Node l (q, y) ?r')" using 3 s3(2) node_q(4) by (simp add: is_tree_Node del: read_link.simps)
  moreover have "agree {} (addrs l \<union> addrs r) s s3" using q p_in by (intro agree_mono [OF ag]) auto
  ultimately show ?thesis using p(1) node_q(3) s1 1(1,2) s2 2(1,2) s3 by metis
qed

lemma successor_ok:
  assumes T: "is_tree s a (Node l (a, k) r)" and lk: "read_link s lk = Some a" "lk \<notin> links (addrs (Node l (a, k) r))"
    and sep: "separate (Node l (a, k) r)"
  shows "\<exists>q s'. successor s lk = Some (q, s') \<and> is_tree s' q (joined l r) \<and> agree {} (addrs l \<union> addrs r) s s' \<and>
    dom (nodes s') = dom (nodes s)"
proof -
  obtain b c where bc: "read_link s (LLink a) = Some b" "read_link s (RLink a) = Some c" "is_tree s b l" "is_tree s c r"
    using T by (auto simp: is_tree_Node simp del: read_link.simps)
  have b0: "b = 0 \<longleftrightarrow> l = Leaf" and c0: "c = 0 \<longleftrightarrow> r = Leaf" using bc(3,4) is_tree_raddr raddr_0_iff by metis+
  have S: "separate r" "addrs l \<inter> addrs r = {}" using sep unfolding separate_Node by auto
  show ?thesis
  proof (cases "l = Leaf \<or> r = Leaf")
    case True
    with bc lk b0 c0 show ?thesis by (auto simp: successor_def joined_def simp del: read_link.simps)
  next
    case False
    then obtain r1 rp rk r2 where r: "r = Node r1 (rp, rk) r2" by (metis neq_Leaf_iff surj_pair)
    with bc(4) obtain d e where de: "c = rp" "read_link s (LLink rp) = Some d" "d = raddr r1" "is_tree s d r1" "rp \<noteq> 0"
      "map_option key (nodes s rp) = Some rk" "read_link s (RLink rp) = Some e" "is_tree s e r2"
      using is_tree_raddr by (fastforce simp: is_tree_Node simp del: read_link.simps)
    show ?thesis
    proof (cases "r1 = Leaf")
      case True
      obtain s' where s': "write_link s (LLink rp) b = Some s'" "read_link s' (LLink rp) = Some b" "agree {LLink rp} {} s s'"
        "dom (nodes s') = dom (nodes s)" by (rule write_link_ok [OF de(2)])
      have rp: "rp \<notin> addrs l" "rp \<notin> addrs r2" using S r by auto
      have "read_link s' (RLink rp) = Some e" "map_option key (nodes s' rp) = Some rk"
        using s'(3) de agree_link [OF s'(3), of "RLink rp"] by (auto simp: agree_def simp del: read_link.simps)
      moreover have "is_tree s' b l" "is_tree s' e r2"
        using is_tree_frame [OF bc(3) s'(3)] is_tree_frame [OF de(8) s'(3)] rp by auto
      ultimately have "is_tree s' rp (Node l (rp, rk) r2)" using s'(2) de(5) by (simp add: is_tree_Node del: read_link.simps)
      moreover have "agree {} (addrs l \<union> addrs r) s s'" using r by (intro agree_mono [OF s'(3)]) auto
      moreover have "joined l r = Node l (rp, rk) r2" using False True r by (simp add: joined_def)
      moreover have "successor s lk = Some (rp, s')"
        using True False bc lk b0 c0 de s' by (simp add: successor_def del: read_link.simps)
      ultimately show ?thesis using s'(4) by auto
    next
      case r1: False
      obtain q y rr where sub: "sub_at (lpath r) r = Node Leaf (q, y) rr" using sub_lpath [of r] False by auto
      have d0: "raddr r1 \<noteq> 0" using r1 de raddr_0_iff by metis
      have "joined l r = Node l (q, y) (put_at (lpath r) r rr)" using False sub by (simp add: joined_def)
      with successor_D3 [OF T lk sep r r1 sub] show ?thesis
        using bc lk b0 c0 de False d0 by (auto simp: successor_def simp del: read_link.simps write_link.simps)
    qed
  qed
qed

section \<open>Insertion and deletion on the heap\<close>

lemma addrs_dom: "is_tree s a t \<Longrightarrow> addrs t \<subseteq> dom (nodes s)"
proof (induction t arbitrary: a)
  case (Node l x r)
  obtain p k where x: "x = (p, k)" by force
  with Node.prems obtain b c where "is_tree s b l" "is_tree s c r" "p \<in> dom (nodes s)"
    by (auto simp: is_tree_Node simp del: read_link.simps)
  with Node.IH x show ?case by (simp add: image_Un)
qed simp

lemma tsearch_found:
  assumes "is_tree s (root s) t" "sub_at (spath cmp k t) t \<noteq> Leaf"
  shows "tsearch q cmp k (Some Root) s = Some (raddr (sub_at (spath cmp k t) t), s)"
proof -
  have "raddr (sub_at (spath cmp k t) t) \<noteq> 0"
    using sub_at_is_tree [OF assms(1) _ valid_spath, of Root] raddr_0_iff assms(2) by force
  then show ?thesis using search_loop_eq [OF assms(1), of Root] by (simp add: tsearch_def)
qed

lemma tsearch_new:
  assumes "is_tree s (root s) t" "separate t" "sub_at (spath cmp k t) t = Leaf" "q \<noteq> NULL" "nodes s q = None"
  shows "\<exists>s'. tsearch q cmp k (Some Root) s = Some (q, s') \<and>
    is_tree s' (root s') (put_at (spath cmp k t) t (Node Leaf (q, k) Leaf)) \<and> dom (nodes s') = insert q (dom (nodes s))"
proof -
  let ?ds = "spath cmp k t"
  let ?lk = "link_at Root ?ds t"
  have q: "q \<notin> addrs t" using addrs_dom [OF assms(1)] assms(5) by blast
  have lk: "?lk \<notin> {LLink q, RLink q}" using link_at_cases [of Root ?ds t] q by auto
  obtain b where "read_link s ?lk = Some b" using sub_at_is_tree [OF assms(1) _ valid_spath, of Root] by auto
  then obtain s1 where s1: "write_link s ?lk q = Some s1" "read_link s1 ?lk = Some q" "agree {?lk} {} s s1" "dom (nodes s1) = dom (nodes s)"
    by (rule write_link_ok)
  let ?s2 = "s1\<lparr>nodes := (nodes s1)(q \<mapsto> \<lparr>key = k, llink = NULL, rlink = NULL\<rparr>)\<rparr>"
  have a2: "agree {} {q} s1 ?s2" by (auto simp: agree_def read_link_alt split: link.split)
  have "read_link ?s2 ?lk = Some q" using agree_link [OF a2] s1(2) lk by auto
  moreover have "is_tree ?s2 q (Node Leaf (q, k) Leaf)" using assms(4) by (simp add: is_tree_Node)
  moreover have "agree {?lk} {q} s ?s2" using agree_trans [OF s1(3) a2] by simp
  ultimately have "is_tree ?s2 (root ?s2) (put_at ?ds t (Node Leaf (q, k) Leaf))"
    using put_at_is_tree [OF assms(1) _ valid_spath assms(2), of Root "{q}" ?s2 cmp k q "Node Leaf (q, k) Leaf"] q by simp
  moreover have "tsearch q cmp k (Some Root) s = Some (q, ?s2)"
    using search_loop_eq [OF assms(1), of Root cmp k] assms(3,4) s1(1) by (simp add: tsearch_def)
  ultimately show ?thesis using s1(4) by (intro exI [of _ ?s2]) simp
qed

lemma tdelete_absent:
  assumes "is_tree s (root s) t" "sub_at (spath cmp k t) t = Leaf"
  shows "tdelete cmp k (Some Root) s = Some (NULL, s)"
  using tdelete_loop_eq [OF assms(1), of Root cmp k "root s"] assms raddr_0_iff is_tree_raddr
  by (cases "t = Leaf") (auto simp: tdelete_def)

lemma tdelete_present:
  assumes T: "is_tree s (root s) t" "separate t" and sub: "sub_at (spath cmp k t) t = Node l (a, x) r"
  shows "\<exists>s'. tdelete cmp k (Some Root) s = Some (parent_at (root s) (spath cmp k t) t, s') \<and>
    is_tree s' (root s') (put_at (spath cmp k t) t (joined l r)) \<and> dom (nodes s') = dom (nodes s) - {a}"
proof -
  let ?ds = "spath cmp k t"
  let ?lk = "link_at Root ?ds t" and ?u = "Node l (a, x) r"
  have nL: "t \<noteq> Leaf" using sub by auto
  have out: "?lk \<notin> links (addrs ?u)" using link_at_outside [OF T(2), of Root ?ds] sub by simp
  have sepu: "separate ?u" using separate_sub [OF T(2) valid_spath] sub by metis
  have u: "read_link s ?lk = Some a" "is_tree s a ?u"
    using sub_at_is_tree [OF T(1) _ valid_spath, of Root cmp k] sub is_tree_raddr [of s _ ?u] by auto
  obtain q s1 where s1: "successor s ?lk = Some (q, s1)" "is_tree s1 q (joined l r)" "agree {} (addrs l \<union> addrs r) s s1"
    "dom (nodes s1) = dom (nodes s)" using successor_ok [OF u(2,1) out sepu] by blast
  have J: "addrs (joined l r) = addrs l \<union> addrs r"
    using arg_cong [OF inorder_joined [of l r], of set] by (auto simp: image_Un)
  have lk1: "read_link s1 ?lk = Some a" using agree_link [OF s1(3)] u(1) out by (auto simp: image_Un)
  let ?s2 = "s1\<lparr>nodes := (nodes s1)(a := None)\<rparr>"
  have "a \<in> dom (nodes s1)" using addrs_dom [OF u(2)] s1(4) by auto
  then have free: "free_node s1 a = Some ?s2" by (auto simp: free_node_def)
  have a2: "agree {} {a} s1 ?s2" by (auto simp: agree_def read_link_alt split: link.split)
  have tr2: "is_tree ?s2 q (joined l r)" using J sepu unfolding separate_Node by (intro is_tree_frame [OF s1(2) a2]) auto
  have "read_link ?s2 ?lk = Some a" using agree_link [OF a2] lk1 out by auto
  then obtain s3 where s3: "write_link ?s2 ?lk q = Some s3" "read_link s3 ?lk = Some q" "agree {?lk} {} ?s2 s3"
    "dom (nodes s3) = dom (nodes ?s2)" by (rule write_link_ok)
  have tr3: "is_tree s3 q (joined l r)" using is_tree_frame [OF tr2 s3(3)] out J by (simp add: image_Un)
  have "agree {?lk} (addrs ?u) s s3"
    using agree_trans [OF agree_trans [OF s1(3) a2] s3(3)] by (rule agree_mono) (auto simp: image_Un)
  then have "is_tree s3 (root s3) (put_at ?ds t (joined l r))"
    using put_at_is_tree [OF T(1) _ valid_spath T(2), of Root "addrs ?u" s3 cmp k q "joined l r"] s3 tr3 sub by auto
  moreover have "root s \<noteq> 0" using T(1) nL is_tree_raddr raddr_0_iff by metis
  then have "tdelete cmp k (Some Root) s = Some (parent_at (root s) ?ds t, s3)"
    using tdelete_loop_eq [OF T(1) _ nL, of Root cmp k "root s"] sub s1(1) lk1 free s3(1) by (simp add: tdelete_def)
  ultimately show ?thesis using s3(4) s1(4) by auto
qed

section \<open>The order of the keys\<close>

text \<open>The invariant of a tree: its nodes are the allocated ones, each once, and its keys increase from left to right.\<close>

definition search_tree :: "('k \<Rightarrow> 'k \<Rightarrow> int) \<Rightarrow> 'k set \<Rightarrow> 'k tree_state \<Rightarrow> (addr \<times> 'k) tree \<Rightarrow> bool" where
  "search_tree cmp S s t \<longleftrightarrow> is_tree s (root s) t \<and> separate t \<and> dom (nodes s) = addrs t \<and> snd ` set_tree t \<subseteq> S \<and>
     sorted_wrt (\<lambda>x y. cmp x y < 0) (map snd (inorder t))"

context comparator
begin

lemma cmp_less_trans: "x \<in> S \<Longrightarrow> y \<in> S \<Longrightarrow> z \<in> S \<Longrightarrow> cmp x y \<le> 0 \<Longrightarrow> cmp y z < 0 \<Longrightarrow> cmp x z < 0"
  using cmp_trans [of z x y] cmp_le_iff [of z x] cmp_le_iff [of y z] cmp_anti [of y z] by fastforce

lemma spath_split:
  assumes "sorted_wrt (\<lambda>x y. cmp x y < 0) (map snd (inorder t))" "snd ` set_tree t \<subseteq> S" "k \<in> S"
  shows "\<exists>L R. inorder t = L @ inorder (sub_at (spath cmp k t) t) @ R \<and> (\<forall>u. inorder (put_at (spath cmp k t) t u) = L @ inorder u @ R) \<and>
    (\<forall>x \<in> snd ` set L. cmp x k < 0) \<and> (\<forall>x \<in> snd ` set R. cmp k x < 0)"
  using assms(1,2)
proof (induction t)
  case Leaf
  then show ?case by auto
next
  case (Node l nd r)
  obtain p x where nd: "nd = (p, x)" by force
  have x: "x \<in> S" "\<And>y. y \<in> snd ` set_tree l \<Longrightarrow> y \<in> S \<and> cmp y x < 0" "\<And>y. y \<in> snd ` set_tree r \<Longrightarrow> y \<in> S \<and> cmp x y < 0"
    using Node.prems nd by (auto simp: sorted_wrt_append)
  have sub: "sorted_wrt (\<lambda>x y. cmp x y < 0) (map snd (inorder l))" "sorted_wrt (\<lambda>x y. cmp x y < 0) (map snd (inorder r))"
    "snd ` set_tree l \<subseteq> S" "snd ` set_tree r \<subseteq> S" using Node.prems nd by (auto simp: sorted_wrt_append)
  consider "cmp k x = 0" | "cmp k x < 0" | "cmp k x > 0" by linarith
  then show ?case
  proof cases
    case 1
    then show ?thesis using nd by (intro exI [of _ "[]"]) simp
  next
    case 2
    obtain L R where LR: "inorder l = L @ inorder (sub_at (spath cmp k l) l) @ R" "\<forall>u. inorder (put_at (spath cmp k l) l u) = L @ inorder u @ R"
      "\<forall>x \<in> snd ` set L. cmp x k < 0" "\<forall>x \<in> snd ` set R. cmp k x < 0" using Node.IH(1) sub by blast
    have "\<forall>y \<in> snd ` set_tree r. cmp k y < 0" using cmp_less_trans [of k x] x assms(3) 2 by auto
    with LR 2 nd show ?thesis by - (rule exI [of _ L], rule exI [of _ "R @ (p, x) # inorder r"], auto)
  next
    case 3
    obtain L R where LR: "inorder r = L @ inorder (sub_at (spath cmp k r) r) @ R" "\<forall>u. inorder (put_at (spath cmp k r) r u) = L @ inorder u @ R"
      "\<forall>x \<in> snd ` set L. cmp x k < 0" "\<forall>x \<in> snd ` set R. cmp k x < 0" using Node.IH(2) sub by blast
    have "cmp x k < 0" using 3 cmp_anti x(1) assms(3) by blast
    moreover from this have "cmp y k < 0" if "y \<in> snd ` set_tree l" for y using cmp_less_trans [of y x k] x(1) x(2) [OF that] assms(3) by auto
    ultimately show ?thesis using LR 3 nd by (intro exI [of _ "inorder l @ (p, x) # L"] exI [of _ R]) auto
  qed
qed

lemma found_iff:
  assumes "search_tree cmp S s t" "k \<in> S"
  shows "sub_at (spath cmp k t) t = Leaf \<longleftrightarrow> \<not> (\<exists>x \<in> snd ` set_tree t. cmp k x = 0)"
proof -
  obtain L R where LR: "inorder t = L @ inorder (sub_at (spath cmp k t) t) @ R"
    "\<forall>x \<in> snd ` set L. cmp x k < 0" "\<forall>x \<in> snd ` set R. cmp k x < 0"
    using spath_split [of t k] assms by (auto simp: search_tree_def)
  have "set_tree t = set L \<union> set_tree (sub_at (spath cmp k t) t) \<union> set R" using arg_cong [OF LR(1), of set] by auto
  moreover have "cmp k x \<noteq> 0" if "x \<in> snd ` set L" for x
  proof -
    have "x \<in> S" using assms(1) that calculation by (auto simp: search_tree_def)
    then show ?thesis using cmp_anti [of x k] assms(2) LR(2) that by force
  qed
  ultimately show ?thesis using LR(3) sub_spath_eq [of cmp k t]
    by (cases "sub_at (spath cmp k t) t") (auto simp: image_Un ball_Un bex_Un)
qed

lemma search_tree_insert:
  assumes "search_tree cmp S s t" "k \<in> S" "\<not> (\<exists>x \<in> snd ` set_tree t. cmp k x = 0)" "q \<noteq> NULL" "nodes s q = None"
  shows "\<exists>s' t'. tsearch q cmp k (Some Root) s = Some (q, s') \<and> search_tree cmp S s' t' \<and> set_tree t' = insert (q, k) (set_tree t)"
proof -
  let ?t' = "put_at (spath cmp k t) t (Node Leaf (q, k) Leaf)"
  have T: "is_tree s (root s) t" "separate t" "dom (nodes s) = addrs t" using assms(1) by (auto simp: search_tree_def)
  have L: "sub_at (spath cmp k t) t = Leaf" using found_iff [OF assms(1,2)] assms(3) by simp
  obtain L R where LR: "inorder t = L @ R" "inorder ?t' = L @ (q, k) # R"
    "\<forall>x \<in> snd ` set L. cmp x k < 0" "\<forall>x \<in> snd ` set R. cmp k x < 0"
    using spath_split [of t k] assms(1,2) L by (auto simp: search_tree_def)
  have st: "set_tree t = set L \<union> set R" "set_tree ?t' = insert (q, k) (set L \<union> set R)"
    using arg_cong [OF LR(1), of set] arg_cong [OF LR(2), of set] by auto
  obtain s' where s': "tsearch q cmp k (Some Root) s = Some (q, s')" "is_tree s' (root s') ?t'" "dom (nodes s') = insert q (dom (nodes s))"
    using tsearch_new [OF T(1,2) L assms(4,5)] by blast
  have "q \<notin> addrs t" using T(3) assms(5) by blast
  then have "separate ?t'" using T(2) st unfolding LR by auto
  moreover have "sorted_wrt (\<lambda>x y. cmp x y < 0) (map snd (inorder ?t'))"
    using assms(1) LR(3,4) unfolding search_tree_def LR(1,2) by (auto simp: sorted_wrt_append)
  ultimately have "search_tree cmp S s' ?t'" using s'(2,3) T(3) st assms(1,2) by (auto simp: search_tree_def)
  then show ?thesis using s'(1) st by auto
qed

lemma search_tree_remove:
  assumes "search_tree cmp S s t" "k \<in> S" "x \<in> snd ` set_tree t" "cmp k x = 0"
  shows "\<exists>p s' t' a y. tdelete cmp k (Some Root) s = Some (p, s') \<and> p \<noteq> NULL \<and> search_tree cmp S s' t' \<and> cmp k y = 0 \<and>
    (a, y) \<in> set_tree t \<and> set_tree t' = set_tree t - {(a, y)} \<and> dom (nodes s') = dom (nodes s) - {a}"
proof -
  have T: "is_tree s (root s) t" "separate t" "dom (nodes s) = addrs t" using assms(1) by (auto simp: search_tree_def)
  obtain l a y r where sub: "sub_at (spath cmp k t) t = Node l (a, y) r"
    using found_iff [OF assms(1,2)] assms(3,4) by (metis neq_Leaf_iff surj_pair)
  let ?t' = "put_at (spath cmp k t) t (joined l r)"
  obtain L R where LR: "inorder t = L @ inorder l @ (a, y) # inorder r @ R" "inorder ?t' = L @ inorder l @ inorder r @ R"
    using spath_split [of t k] assms(1,2) sub by (auto simp: search_tree_def inorder_joined)
  obtain s' where s': "tdelete cmp k (Some Root) s = Some (parent_at (root s) (spath cmp k t) t, s')"
    "is_tree s' (root s') ?t'" "dom (nodes s') = dom (nodes s) - {a}" using tdelete_present [OF T(1,2) sub] by blast
  have "distinct (inorder t)" using T(2) by (metis distinct_map)
  then have st: "set_tree ?t' = set_tree t - {(a, y)}" "(a, y) \<in> set_tree t"
    using LR unfolding set_inorder [symmetric] by auto
  have sep: "separate ?t'" "a \<notin> addrs ?t'" using T(2) LR unfolding set_inorder [symmetric] by auto
  then have "dom (nodes s') = addrs ?t'" using s'(3) T(3) st by auto
  moreover have "sorted_wrt (\<lambda>x y. cmp x y < 0) (map snd (inorder ?t'))"
    using assms(1) unfolding search_tree_def LR by (auto simp: sorted_wrt_append)
  ultimately have "search_tree cmp S s' ?t'" using s'(2) st assms(1) sep by (auto simp: search_tree_def)
  moreover have "parent_at (root s) (spath cmp k t) t \<noteq> NULL"
    using parent_at_nz [OF T(1)] is_tree_raddr [OF T(1)] raddr_0_iff [OF T(1)] sub by auto
  ultimately show ?thesis using s' st sub_spath_eq [OF sub] by blast
qed

end

section \<open>Walking and destroying\<close>

text \<open>The calls of \<open>action\<close> for a tree at a level.\<close>

fun visits :: "int \<Rightarrow> (addr \<times> 'k) tree \<Rightarrow> (addr \<times> visit \<times> int) list" where
  "visits n Leaf = []"
| "visits n (Node l (p, k) r) =
     (if l = Leaf \<and> r = Leaf then [(p, leaf, n)]
      else (p, preorder, n) # visits (n + 1) l @ (p, postorder, n) # visits (n + 1) r @ [(p, endorder, n)])"

lemma twalk_rec_eq: "is_tree s a t \<Longrightarrow> t \<noteq> Leaf \<Longrightarrow> twalk_rec s a n = Some (visits n t)"
proof (induction t arbitrary: a n)
  case (Node l x r)
  obtain p k where x: "x = (p, k)" by force
  with Node.prems(1) obtain nd where nd: "nodes s p = Some nd" "a = p" "is_tree s (llink nd) l" "is_tree s (rlink nd) r"
    by (auto simp: is_tree_Node)
  then have "llink nd = 0 \<longleftrightarrow> l = Leaf" "rlink nd = 0 \<longleftrightarrow> r = Leaf" using raddr_0_iff is_tree_raddr by metis+
  with Node.IH nd x show ?case by (subst twalk_rec.simps) auto
qed simp

lemma twalk_eq: "is_tree s a t \<Longrightarrow> twalk s a True = Some (visits 0 t)"
  using twalk_rec_eq [of s a t 0] raddr_0_iff [of s a t] is_tree_raddr [of s a t] by (cases "t = Leaf") (auto simp: twalk_def)

text \<open>The first visits between the subtrees come in key order.\<close>

lemma visits_inorder: "map fst (filter (\<lambda>(p, v, n). v = postorder \<or> v = leaf) (visits n t)) = map fst (inorder t)"
  by (induction n t rule: visits.induct) auto

fun postorder_list :: "'a tree \<Rightarrow> 'a list" where
  "postorder_list Leaf = []"
| "postorder_list (Node l x r) = postorder_list l @ postorder_list r @ [x]"

lemma set_postorder_list [simp]: "set (postorder_list t) = set_tree t"
  by (induction t) auto

lemma tdestroy_rec_eq:
  "is_tree s a t \<Longrightarrow> t \<noteq> Leaf \<Longrightarrow> separate t \<Longrightarrow>
     \<exists>s'. tdestroy_rec a s = Some (map snd (postorder_list t), s') \<and> root s' = root s \<and> nodes s' = (\<lambda>p. if p \<in> addrs t then None else nodes s p)"
proof (induction t arbitrary: a s)
  case (Node l x r)
  obtain p k where x: "x = (p, k)" by force
  have S: "separate l" "separate r" "p \<notin> addrs l" "p \<notin> addrs r" "addrs l \<inter> addrs r = {}"
    using Node.prems(3) unfolding x separate_Node by auto
  obtain nd where nd: "nodes s p = Some nd" "a = p" "key nd = k" "is_tree s (llink nd) l" "is_tree s (rlink nd) r"
    using Node.prems(1) x by (auto simp: is_tree_Node)
  have z: "llink nd = 0 \<longleftrightarrow> l = Leaf" "rlink nd = 0 \<longleftrightarrow> r = Leaf" using nd raddr_0_iff is_tree_raddr by metis+
  let ?rec = "\<lambda>b s. if b \<noteq> 0 then tdestroy_rec b s else Some ([], s)"
  have "\<exists>s1. ?rec (llink nd) s = Some (map snd (postorder_list l), s1) \<and> root s1 = root s \<and> nodes s1 = (\<lambda>p. if p \<in> addrs l then None else nodes s p)"
    using Node.IH(1) [OF nd(4) _ S(1)] z by (cases "l = Leaf") auto
  then obtain s1 where s1: "?rec (llink nd) s = Some (map snd (postorder_list l), s1)" "root s1 = root s"
    "nodes s1 = (\<lambda>p. if p \<in> addrs l then None else nodes s p)" by blast
  have ag: "agree {} (addrs l) s s1" using s1(2,3) by (auto simp: agree_def read_link_alt split: link.split)
  have "is_tree s1 (rlink nd) r" using S(5) by (intro is_tree_frame [OF nd(5) ag]) auto
  then have "\<exists>s2. ?rec (rlink nd) s1 = Some (map snd (postorder_list r), s2) \<and> root s2 = root s1 \<and> nodes s2 = (\<lambda>p. if p \<in> addrs r then None else nodes s1 p)"
    using Node.IH(2) [OF _ _ S(2)] z by (cases "r = Leaf") auto
  then obtain s2 where s2: "?rec (rlink nd) s1 = Some (map snd (postorder_list r), s2)" "root s2 = root s1"
    "nodes s2 = (\<lambda>p. if p \<in> addrs r then None else nodes s1 p)" by blast
  have p: "nodes s1 p = Some nd" "nodes s2 p = Some nd" using s1(3) s2(3) S(3,4) nd(1) by auto
  have "tdestroy_rec a s = Some (map snd (postorder_list (Node l x r)), s2\<lparr>nodes := (nodes s2)(p := None)\<rparr>)"
    using nd p s1(1) s2(1) x by (subst tdestroy_rec.simps) (simp add: free_node_def)
  moreover have "(nodes s2)(p := None) = (\<lambda>q. if q \<in> addrs (Node l x r) then None else nodes s q)"
    using s1(3) s2(3) x by (auto simp: image_Un)
  ultimately show ?case using s1(2) s2(2) by simp
qed simp

lemma tdestroy_eq:
  assumes "is_tree s a t" "separate t"
  shows "\<exists>s'. tdestroy a s = Some (map snd (postorder_list t), s') \<and> nodes s' = (\<lambda>p. if p \<in> addrs t then None else nodes s p)"
  using tdestroy_rec_eq [OF assms(1) _ assms(2)] raddr_0_iff [OF assms(1)] is_tree_raddr [OF assms(1)]
  by (cases "t = Leaf") (auto simp: tdestroy_def)

section \<open>Sequences of operations\<close>

inductive tree_reach :: "('k \<Rightarrow> 'k \<Rightarrow> int) \<Rightarrow> 'k set \<Rightarrow> 'k tree_state \<Rightarrow> bool" for cmp S where
  reach_empty: "tree_reach cmp S \<lparr>root = NULL, nodes = Map.empty\<rparr>"
| reach_tsearch: "tree_reach cmp S s \<Longrightarrow> k \<in> S \<Longrightarrow> nodes s q = None \<Longrightarrow> tsearch q cmp k (Some Root) s = Some (p, s') \<Longrightarrow> tree_reach cmp S s'"
| reach_tdelete: "tree_reach cmp S s \<Longrightarrow> k \<in> S \<Longrightarrow> tdelete cmp k (Some Root) s = Some (p, s') \<Longrightarrow> tree_reach cmp S s'"

context comparator
begin

lemma tsearch_spec:
  assumes "search_tree cmp S s t" "k \<in> S" "nodes s q = None"
  shows "if \<exists>x \<in> snd ` set_tree t. cmp k x = 0
     then \<exists>p x. (p, x) \<in> set_tree t \<and> cmp k x = 0 \<and> tsearch q cmp k (Some Root) s = Some (p, s) \<and> tfind cmp k (Some Root) s = Some p
     else tfind cmp k (Some Root) s = Some NULL \<and>
       (if q = NULL then tsearch q cmp k (Some Root) s = Some (NULL, s)
        else \<exists>s' t'. tsearch q cmp k (Some Root) s = Some (q, s') \<and> search_tree cmp S s' t' \<and> set_tree t' = insert (q, k) (set_tree t))"
proof -
  have T: "is_tree s (root s) t" using assms(1) by (simp add: search_tree_def)
  note loop = search_loop_eq [OF T, of Root cmp k]
  show ?thesis
  proof (cases "sub_at (spath cmp k t) t")
    case Leaf
    then have "\<not> (\<exists>x \<in> snd ` set_tree t. cmp k x = 0)" using found_iff [OF assms(1,2)] by blast
    with search_tree_insert [OF assms(1,2) this _ assms(3)] loop Leaf show ?thesis by (auto simp: tfind_def tsearch_def)
  next
    case (Node l nd r)
    obtain p x where nd: "nd = (p, x)" by force
    have "(p, x) \<in> set_tree t" "cmp k x = 0" using set_sub_at [of "spath cmp k t" t] sub_spath_eq [of cmp k t l p x r] Node nd by auto
    then show ?thesis using tsearch_found [OF T, of cmp k q] loop Node nd by (auto simp: tfind_def image_iff intro!: bexI [of _ "(p, x)"])
  qed
qed

lemma tree_reach_inv: "tree_reach cmp S s \<Longrightarrow> \<exists>t. search_tree cmp S s t"
proof (induction rule: tree_reach.induct)
  case reach_empty
  have "search_tree cmp S \<lparr>root = NULL, nodes = Map.empty\<rparr> Leaf" by (simp add: search_tree_def)
  then show ?case by blast
next
  case (reach_tsearch s k q p s')
  then obtain t where "search_tree cmp S s t" by blast
  from tsearch_spec [OF this reach_tsearch.hyps(2,3)] reach_tsearch.hyps(4) this show ?case by (auto split: if_splits)
next
  case (reach_tdelete s k p s')
  then obtain t where t: "search_tree cmp S s t" by blast
  show ?case
  proof (cases "\<exists>x \<in> snd ` set_tree t. cmp k x = 0")
    case True
    then show ?thesis using search_tree_remove [OF t reach_tdelete.hyps(2)] reach_tdelete.hyps(3) by fastforce
  next
    case False
    then have "s' = s" using tdelete_absent [of s t cmp k] found_iff [OF t reach_tdelete.hyps(2)] t reach_tdelete.hyps(3)
      by (auto simp: search_tree_def)
    with t show ?thesis by blast
  qed
qed

end

section \<open>Properties\<close>

text \<open>
  In a search tree \<^verbatim>\<open>tsearch\<close> and \<^verbatim>\<open>tfind\<close> stop and return the node with an equal key when there is
  one, and change nothing.  When there is none, \<^verbatim>\<open>tfind\<close> returns \<^verbatim>\<open>NULL\<close>, and \<^verbatim>\<open>tsearch\<close> links the node
  that \<^verbatim>\<open>malloc\<close> gave (or returns \<^verbatim>\<open>NULL\<close> if it gave none) so that the result is a search tree with
  exactly this node more.
\<close>

theorem tsearch_correct:
  assumes "comparator cmp S" "search_tree cmp S s t" "k \<in> S" "nodes s q = None"
  shows "if \<exists>x \<in> snd ` set_tree t. cmp k x = 0
     then \<exists>p x. (p, x) \<in> set_tree t \<and> cmp k x = 0 \<and> tsearch q cmp k (Some Root) s = Some (p, s) \<and> tfind cmp k (Some Root) s = Some p
     else tfind cmp k (Some Root) s = Some NULL \<and>
       (if q = NULL then tsearch q cmp k (Some Root) s = Some (NULL, s)
        else \<exists>s' t'. tsearch q cmp k (Some Root) s = Some (q, s') \<and> search_tree cmp S s' t' \<and> set_tree t' = insert (q, k) (set_tree t))"
  by (rule comparator.tsearch_spec [OF assms])

text \<open>A tree of one node.\<close>

definition one_node :: "byte list tree_state" where
  "one_node = \<lparr>root = 8, nodes = [8 \<mapsto> \<lparr>key = [97], llink = NULL, rlink = NULL\<rparr>]\<rparr>"

lemma one_node_search_tree: "search_tree cmp_str {s. 0 \<notin> set s} one_node (Node Leaf (8, [97]) Leaf)"
  by (simp add: search_tree_def one_node_def is_tree_Node)

theorem tsearch_correct_witness:
  "\<exists>s' t'. tsearch 24 cmp_str [98] (Some Root) one_node = Some (24, s') \<and> search_tree cmp_str {s. 0 \<notin> set s} s' t' \<and>
     set_tree t' = {(24, [98]), (8, [97])}"
  using tsearch_correct [OF strings.comparator_axioms one_node_search_tree, of "[98]" 24]
  by (simp add: cmp_str_simps one_node_def)

text \<open>
  C3.  \<^verbatim>\<open>tdelete\<close> stops.  When the tree has an equal key, exactly its node is taken out of the tree and
  freed, in each of the cases of Knuth's algorithm, the rest is a search tree again, and a non-null
  pointer is returned; when it has none, \<^verbatim>\<open>NULL\<close> is returned and nothing changes.
\<close>

theorem tdelete_correct:
  assumes "comparator cmp S" "search_tree cmp S s t" "k \<in> S"
  shows "if \<exists>x \<in> snd ` set_tree t. cmp k x = 0
     then \<exists>p s' t' a y. tdelete cmp k (Some Root) s = Some (p, s') \<and> p \<noteq> NULL \<and> search_tree cmp S s' t' \<and> cmp k y = 0 \<and>
       (a, y) \<in> set_tree t \<and> set_tree t' = set_tree t - {(a, y)} \<and> dom (nodes s') = dom (nodes s) - {a}
     else tdelete cmp k (Some Root) s = Some (NULL, s)"
proof (cases "\<exists>x \<in> snd ` set_tree t. cmp k x = 0")
  case True
  then obtain x where "x \<in> snd ` set_tree t" "cmp k x = 0" by blast
  from comparator.search_tree_remove [OF assms this] True show ?thesis by (simp only: if_True)
next
  case False
  then show ?thesis using comparator.found_iff [OF assms] tdelete_absent [of s t cmp k] assms(2) by (simp add: search_tree_def)
qed

theorem tdelete_correct_witness:
  "\<exists>p s' t'. tdelete cmp_str [97] (Some Root) one_node = Some (p, s') \<and> search_tree cmp_str {s. 0 \<notin> set s} s' t' \<and> set_tree t' = {}"
  using tdelete_correct [OF strings.comparator_axioms one_node_search_tree, of "[97]"] by (auto simp: cmp_str_simps)

text \<open>
  C14.  Every state that calls of \<^verbatim>\<open>tsearch\<close> and \<^verbatim>\<open>tdelete\<close> can reach from the empty tree is a search tree:
  the keys increase from left to right, no node is shared, and exactly the nodes of the tree are
  allocated, so that nothing leaks.
\<close>

theorem tree_reach_invariant:
  assumes "comparator cmp S" "tree_reach cmp S s"
  shows "\<exists>t. search_tree cmp S s t"
  by (rule comparator.tree_reach_inv [OF assms])

theorem tree_reach_invariant_witness: "\<exists>t. search_tree cmp_str {s. 0 \<notin> set s} one_node t"
proof -
  let ?s = "\<lparr>root = NULL, nodes = Map.empty\<rparr>"
  have "tsearch 8 cmp_str [97] (Some Root) ?s = Some (8, one_node)"
    by (simp add: tsearch_def search_loop.simps one_node_def)
  then have "tree_reach cmp_str {s. 0 \<notin> set s} one_node"
    using reach_tsearch [OF reach_empty, of "[97]" "{s. 0 \<notin> set s}" 8 cmp_str 8 one_node] by simp
  from tree_reach_invariant [OF strings.comparator_axioms this] show ?thesis .
qed

text \<open>
  C22.  \<^verbatim>\<open>twalk\<close> ends and its calls with \<^verbatim>\<open>postorder\<close> or \<^verbatim>\<open>leaf\<close> come in the order of the keys; \<^verbatim>\<open>tdestroy\<close>
  ends, gives each key to the free function once, and frees every node, each only once and
  never after it was read.
\<close>

theorem twalk_tdestroy_correct:
  assumes "search_tree cmp S s t"
  shows "\<exists>vs s'. twalk s (root s) True = Some vs \<and>
     map fst (filter (\<lambda>(p, v, n). v = postorder \<or> v = leaf) vs) = map fst (inorder t) \<and>
     tdestroy (root s) s = Some (map snd (postorder_list t), s') \<and> nodes s' = Map.empty"
proof -
  have T: "is_tree s (root s) t" "separate t" "dom (nodes s) = addrs t" using assms by (auto simp: search_tree_def)
  obtain s' where s': "tdestroy (root s) s = Some (map snd (postorder_list t), s')"
    "nodes s' = (\<lambda>p. if p \<in> addrs t then None else nodes s p)" using tdestroy_eq [OF T(1,2)] by blast
  have "nodes s' = Map.empty" using s'(2) unfolding T(3) [symmetric] by (auto simp: domIff)
  then show ?thesis using twalk_eq [OF T(1)] visits_inorder [of 0 t] s'(1) by blast
qed

theorem twalk_tdestroy_correct_witness:
  "\<exists>vs s'. twalk one_node (root one_node) True = Some vs \<and> tdestroy (root one_node) one_node = Some ([[97]], s') \<and> nodes s' = Map.empty"
  using twalk_tdestroy_correct [OF one_node_search_tree] by auto

end
