(* ===== verification/HashTable.thy ===== *)
theory HashTable
  imports StrScan Comparator
begin

unbundle bit_operations_syntax

text \<open>
  The hash tables of \<^verbatim>\<open>search.h\<close>: \<^verbatim>\<open>hash_func.c\<close>, \<^verbatim>\<open>hash_log2.c\<close>, \<^verbatim>\<open>hcreate_r.c\<close> and \<^verbatim>\<open>hcreate.c\<close>.  The keys are
  strings in the byte memory, read by \<^verbatim>\<open>strlen\<close>, \<^verbatim>\<open>strcmp\<close> and the hash function; the bucket
  heads and the list entries are objects of a heap of their own.  The addresses that \<^verbatim>\<open>malloc\<close>
  returns are arguments.
\<close>

section \<open>The hash function\<close>

text \<open>\<^verbatim>\<open>HASH4b\<close>: \<^verbatim>\<open>h = (h << 5) + h + *key++\<close>\<close>

definition HASH4 :: "mem \<Rightarrow> u32 \<times> addr \<Rightarrow> (u32 \<times> addr) option" where
  "HASH4 m = (\<lambda>(h, key). do { c \<leftarrow> load8 m key; Some (push_bit 5 h + h + ucast c, key + 1) })"

text \<open>The labels \<^verbatim>\<open>case k: ... case 1:\<close> of the unrolled body, entered at \<open>k\<close>.\<close>

primrec hash4_from :: "nat \<Rightarrow> mem \<Rightarrow> u32 \<times> addr \<Rightarrow> (u32 \<times> addr) option" where
  "hash4_from 0 m hk = Some hk"
| "hash4_from (Suc k) m hk = do { hk \<leftarrow> HASH4 m hk; hash4_from k m hk }"

text \<open>\<^verbatim>\<open>do { ... } while (--loop)\<close>, entered at label \<open>k\<close>.\<close>

fun hash4_loop :: "nat \<Rightarrow> nat \<Rightarrow> mem \<Rightarrow> u32 \<times> addr \<Rightarrow> (u32 \<times> addr) option" where
  "hash4_loop loop k m hk =
     do { hk \<leftarrow> hash4_from k m hk;
          if loop - 1 \<noteq> 0 then hash4_loop (loop - 1) 8 m hk else Some hk }"

declare hash4_loop.simps [simp del]

definition hash4 :: "mem \<Rightarrow> addr \<Rightarrow> nat \<Rightarrow> u32 option" where
  "hash4 m keyarg len =
     (if len > 0
      then let loop = drop_bit 3 (len + 8 - 1) in
           do { (h, key) \<leftarrow> hash4_loop loop (if len mod 8 = 0 then 8 else len mod 8) m (0, keyarg); Some h }
      else Some 0)"

text \<open>\<^verbatim>\<open>__log2\<close> of \<^verbatim>\<open>hash_log2.c\<close>, on 32-bit words.\<close>

partial_function (option) log2_loop :: "u32 \<Rightarrow> u32 \<Rightarrow> u32 \<Rightarrow> u32 option" where
  "log2_loop num limit i = (if limit < num then log2_loop num (push_bit 1 limit) (i + 1) else Some i)"

definition log2 :: "u32 \<Rightarrow> u32 option" where
  "log2 num = log2_loop num 1 0"

section \<open>Tables\<close>

record 'd ENTRY =
  ekey :: addr
  edata :: 'd

record 'd internal_entry =
  link_next :: addr
  ent :: "'d ENTRY"

datatype ACTION = FIND | ENTER

datatype herrno = EINVAL | ENOMEM

record 'd hsearch_data =
  htable :: addr
  htablesize :: nat
  heads :: "addr \<rightharpoonup> addr list"
  ientries :: "addr \<rightharpoonup> 'd internal_entry"

definition MIN_BUCKETS :: nat where "MIN_BUCKETS = 16"

definition MAX_BUCKETS :: nat where "MAX_BUCKETS = 2 ^ 26"

text \<open>\<^verbatim>\<open>for (p2 = 0; nel != 0; p2++) nel >>= 1;\<close>\<close>

function p2_loop :: "nat \<Rightarrow> nat \<Rightarrow> nat" where
  "p2_loop nel p2 = (if nel \<noteq> 0 then p2_loop (drop_bit 1 nel) (p2 + 1) else p2)"
  by pat_completeness auto
termination by (relation "measure fst") (auto simp: drop_bit_Suc)

declare p2_loop.simps [simp del]

text \<open>The number of buckets for a wish of \<open>nel\<close>.\<close>

definition round_buckets :: "nat \<Rightarrow> nat" where
  "round_buckets nel =
     (let nel = (if nel < MIN_BUCKETS then MIN_BUCKETS else nel);
          nel = (if nel > MAX_BUCKETS then MAX_BUCKETS else nel) in
      if nel AND (nel - 1) \<noteq> 0 then 2 ^ p2_loop nel 0 else nel)"

text \<open>\<^verbatim>\<open>for (idx = 0; idx < htablesize; idx++) SLIST_INIT (...)\<close>\<close>

function slist_init :: "nat \<Rightarrow> nat \<Rightarrow> addr list \<Rightarrow> addr list" where
  "slist_init idx n hs = (if idx < n then slist_init (idx + 1) n (hs[idx := NULL]) else hs)"
  by pat_completeness auto
termination by (relation "measure (\<lambda>(idx, n, hs). n - idx)") auto

declare slist_init.simps [simp del]

text \<open>\<open>q\<close> is the block that \<^verbatim>\<open>malloc\<close> returns and \<open>junk\<close> what is in it.\<close>

definition hcreate_r :: "addr \<Rightarrow> (nat \<Rightarrow> addr) \<Rightarrow> nat \<Rightarrow> 'd hsearch_data \<Rightarrow> int \<times> herrno option \<times> 'd hsearch_data" where
  "hcreate_r q junk nel htab =
     (if htable htab \<noteq> NULL then (0, Some EINVAL, htab)
      else let n = round_buckets nel; htab = htab\<lparr>htablesize := n, htable := q\<rparr> in
           if q = NULL then (0, Some ENOMEM, htab)
           else (1, None, htab\<lparr>heads := (heads htab)(q \<mapsto> slist_init 0 n (map junk [0 ..< n]))\<rparr>))"

text \<open>The list entries are not freed: that part of \<^verbatim>\<open>hdestroy_r\<close> is not compiled.\<close>

definition hdestroy_r :: "'d hsearch_data \<Rightarrow> 'd hsearch_data" where
  "hdestroy_r htab =
     (if htable htab = NULL then htab
      else htab\<lparr>heads := (heads htab)(htable htab := None), htable := NULL\<rparr>)"

text \<open>\<^verbatim>\<open>while (ie != NULL) { if (strcmp (ie->ent.key, item.key) == 0) break; ... }\<close>\<close>

partial_function (option) chain_find :: "mem \<Rightarrow> 'd hsearch_data \<Rightarrow> addr \<Rightarrow> addr \<Rightarrow> addr option" where
  "chain_find m htab key ie =
     (if ie = NULL then Some NULL
      else do { e \<leftarrow> ientries htab ie;
                c \<leftarrow> strcmp m (ekey (ent e)) key;
                if c = 0 then Some ie else chain_find m htab key (link_next e) })"

text \<open>\<open>q\<close> is what \<^verbatim>\<open>malloc (sizeof *ie)\<close> returns; the results are the value, \<^verbatim>\<open>*retval\<close> and the table.\<close>

definition hsearch_r :: "addr \<Rightarrow> mem \<Rightarrow> 'd ENTRY \<Rightarrow> ACTION \<Rightarrow> 'd hsearch_data \<Rightarrow> (int \<times> addr \<times> 'd hsearch_data) option" where
  "hsearch_r q m item action htab =
     do { len \<leftarrow> strlen m (ekey item);
          hashval \<leftarrow> hash4 m (ekey item) len;
          hs \<leftarrow> heads htab (htable htab);
          let i = unat (hashval AND (of_nat (htablesize htab) - 1));
          if length hs \<le> i then None
          else do { ie \<leftarrow> chain_find m htab (ekey item) (hs ! i);
                    if ie \<noteq> NULL then Some (1, ie, htab)
                    else if action = FIND then Some (0, NULL, htab)
                    else if q = NULL then Some (0, NULL, htab)
                    else let e = \<lparr>link_next = hs ! i, ent = item\<rparr> in
                         Some (1, q, htab\<lparr>ientries := (ientries htab)(q \<mapsto> e),
                                          heads := (heads htab)(htable htab \<mapsto> hs[i := q])\<rparr>) } }"

text \<open>\<^verbatim>\<open>hsearch\<close> on the one static table: only \<^verbatim>\<open>retval\<close> is returned.\<close>

definition hsearch :: "addr \<Rightarrow> mem \<Rightarrow> 'd ENTRY \<Rightarrow> ACTION \<Rightarrow> 'd hsearch_data \<Rightarrow> (addr \<times> 'd hsearch_data) option" where
  "hsearch q m item action htab = do { (_, retval, htab) \<leftarrow> hsearch_r q m item action htab; Some (retval, htab) }"

section \<open>What the hash function computes\<close>

definition hash33 :: "byte list \<Rightarrow> u32" where
  "hash33 s = foldl (\<lambda>h c. 33 * h + ucast c) 0 s"

lemma hash4_from_eq:
  "bytes m p xs \<Longrightarrow> hash4_from (length xs) m (h, p) = Some (foldl (\<lambda>h c. 33 * h + ucast c) h xs, p + length xs)"
  by (induction xs arbitrary: h p) (auto simp: HASH4_def load8_def push_bit_eq_mult algebra_simps)

lemma hash4_loop_eq:
  "bytes m p xs \<Longrightarrow> k + 8 * n = length xs \<Longrightarrow>
     hash4_loop (Suc n) k m (h, p) = Some (foldl (\<lambda>h c. 33 * h + ucast c) h xs, p + length xs)"
proof (induction n arbitrary: k xs h p)
  case 0
  then show ?case using hash4_from_eq [of m p xs h] by (subst hash4_loop.simps) simp
next
  case (Suc n)
  let ?xs = "take k xs" and ?ys = "drop k xs"
  have len: "length ?xs = k" "length ?ys = 8 + 8 * n" using Suc.prems(2) by auto
  have "hash4_from k m (h, p) = Some (foldl (\<lambda>h c. 33 * h + ucast c) h ?xs, p + k)"
    using hash4_from_eq [of m p ?xs h] Suc.prems len bytes_take [of m p xs k] by simp
  moreover have "bytes m (p + k) ?ys" using bytes_drop [of m p xs k] Suc.prems by simp
  from Suc.IH [OF this] len have "hash4_loop (Suc n) 8 m (foldl (\<lambda>h c. 33 * h + ucast c) h ?xs, p + k) =
      Some (foldl (\<lambda>h c. 33 * h + ucast c) (foldl (\<lambda>h c. 33 * h + ucast c) h ?xs) ?ys, p + k + length ?ys)" by simp
  moreover have "foldl (\<lambda>h c. 33 * h + ucast c) (foldl (\<lambda>h c. 33 * h + ucast c) h ?xs) ?ys = foldl (\<lambda>h c. 33 * h + ucast c) h xs"
    by (metis append_take_drop_id foldl_append)
  ultimately show ?case using Suc.prems(2) by (subst hash4_loop.simps) simp
qed

lemma duff_count:
  assumes "0 < (n :: nat)"
  shows "\<exists>j. drop_bit 3 (n + 8 - 1) = Suc j \<and> (if n mod 8 = 0 then 8 else n mod 8) + 8 * j = n"
proof -
  obtain k where n: "n = Suc k" using assms by (cases n) auto
  have "drop_bit 3 (n + 8 - 1) = (k + 8) div 8" by (simp add: drop_bit_eq_div n add.commute)
  moreover have "(if n mod 8 = 0 then 8 else n mod 8) = Suc (k mod 8)" by (simp add: n mod_Suc)
  ultimately show ?thesis using mod_mult_div_eq [of k 8] n by (intro exI [of _ "k div 8"]) simp
qed

lemma hash4_eq:
  assumes "bytes m p xs" shows "hash4 m p (length xs) = Some (hash33 xs)"
proof (cases "xs = []")
  case False
  let ?n = "length xs"
  let ?k = "if ?n mod 8 = 0 then 8 else ?n mod 8"
  obtain j where "drop_bit 3 (?n + 8 - 1) = Suc j" "?k + 8 * j = ?n" using duff_count [of ?n] False by auto
  then show ?thesis using hash4_loop_eq [OF assms, of ?k j 0] False by (simp add: hash4_def Let_def hash33_def)
qed (simp add: hash4_def hash33_def)

section \<open>The number of buckets\<close>

lemma p2_loop_bounds: "0 < nel \<Longrightarrow> \<exists>j. p2_loop nel p = p + Suc j \<and> 2 ^ j \<le> nel \<and> nel < 2 ^ Suc j"
proof (induction nel p rule: p2_loop.induct)
  case (1 nel p)
  have step: "p2_loop nel p = p2_loop (nel div 2) (p + 1)" using 1 by (subst p2_loop.simps) (simp add: drop_bit_Suc)
  show ?case
  proof (cases "nel = 1")
    case True
    then show ?thesis using step by (subst (asm) (2) p2_loop.simps) auto
  next
    case False
    then obtain j where "p2_loop (nel div 2) (p + 1) = p + 1 + Suc j" "2 ^ j \<le> nel div 2" "nel div 2 < 2 ^ Suc j"
      using 1 by (auto simp: drop_bit_Suc)
    then show ?thesis using step by (intro exI [of _ "Suc j"]) auto
  qed
qed

lemma power_of_2_test:
  assumes "2 ^ j \<le> (n :: nat)" "n < 2 ^ Suc j" "n AND (n - 1) = 0"
  shows "n = 2 ^ j"
proof (rule ccontr)
  assume "n \<noteq> 2 ^ j"
  then have "2 ^ j \<le> n - 1" "n - 1 < 2 ^ Suc j" using assms by auto
  then have "n div 2 ^ j = 1" "(n - 1) div 2 ^ j = 1" using assms by (simp_all add: div_nat_eqI)
  then have "bit n j \<and> bit (n - 1) j" by (simp add: bit_iff_odd)
  then have "bit (n AND (n - 1)) j" by (simp add: bit_and_iff)
  with assms(3) show False by simp
qed

lemma pow2_and: "(2 ^ j :: nat) AND (2 ^ j - 1) = 0"
  using take_bit_eq_mask [of j "2 ^ j :: nat"] by (simp add: mask_eq_exp_minus_1)

lemma round_buckets_spec:
  "\<exists>j. round_buckets nel = 2 ^ j \<and> 4 \<le> j \<and> j \<le> 26 \<and> min nel MAX_BUCKETS \<le> 2 ^ j \<and> (2 ^ j = MIN_BUCKETS \<or> 2 ^ j < 2 * nel)"
proof -
  define n where "n = (if (if nel < MIN_BUCKETS then MIN_BUCKETS else nel) > MAX_BUCKETS then MAX_BUCKETS
    else (if nel < MIN_BUCKETS then MIN_BUCKETS else nel))"
  have n: "16 \<le> n" "n \<le> 2 ^ 26" "min nel MAX_BUCKETS \<le> n" "n = 16 \<or> n \<le> nel" by (auto simp: n_def MIN_BUCKETS_def MAX_BUCKETS_def)
  have r: "round_buckets nel = (if n AND (n - 1) \<noteq> 0 then 2 ^ p2_loop n 0 else n)" unfolding round_buckets_def n_def Let_def by simp
  obtain j where j: "p2_loop n 0 = Suc j" "2 ^ j \<le> n" "n < 2 ^ Suc j" using p2_loop_bounds [of n 0] n by auto
  have j4: "4 \<le> j" using n(1) j(3) power_strict_increasing_iff [of "2::nat" 4 "Suc j"] by (simp del: power_Suc)
  show ?thesis
  proof (cases "n AND (n - 1) = 0")
    case True
    then have "n = 2 ^ j" using power_of_2_test j by blast
    moreover have "j \<le> 26" using n(2) calculation power_increasing_iff [of "2::nat" j 26] by simp
    ultimately show ?thesis using True r n j4 by (intro exI [of _ j]) (auto simp: MIN_BUCKETS_def)
  next
    case False
    have "n \<noteq> 2 ^ i" for i using False pow2_and [of i] by metis
    from this [of 4] this [of 26] this [of j] have "n \<noteq> 16" "n < 2 ^ 26" "2 ^ j < n" using n j by auto
    moreover from this have "j < 26" using j(2) power_strict_increasing_iff [of "2::nat" j 26] by linarith
    ultimately show ?thesis using False r n j j4 by (intro exI [of _ "Suc j"]) auto
  qed
qed

lemma slist_init_eq: "length hs = n \<Longrightarrow> idx \<le> n \<Longrightarrow> slist_init idx n hs = take idx hs @ replicate (n - idx) NULL"
proof (induction idx n hs rule: slist_init.induct)
  case (1 idx n hs)
  show ?case
  proof (cases "idx < n")
    case True
    then have "take (idx + 1) (hs[idx := NULL]) = take idx hs @ [NULL]" using 1 by (simp add: take_Suc_conv_app_nth)
    moreover have "n - idx = Suc (n - (idx + 1))" using True by simp
    ultimately show ?thesis using 1 True by (subst slist_init.simps) simp
  qed (use 1 in \<open>subst slist_init.simps, simp\<close>)
qed

section \<open>The binary logarithm\<close>

lemma unat_pow2: "j < 32 \<Longrightarrow> unat (2 ^ j :: u32) = 2 ^ j"
proof -
  assume "j < 32"
  then have "(2 :: nat) ^ j < 2 ^ 32" by (intro power_strict_increasing) auto
  then have "(2 :: nat) ^ j < 2 ^ LENGTH(32)" by simp
  then have "unat (of_nat (2 ^ j) :: u32) = 2 ^ j" by (simp only: unat_of_nat mod_less)
  then show ?thesis by simp
qed

lemma push_bit_pow2: "push_bit 1 (2 ^ j :: u32) = 2 ^ Suc j"
  by (simp add: push_bit_eq_mult)

lemma log2_loop_next: "limit < num \<Longrightarrow> log2_loop num limit i = log2_loop num (push_bit 1 limit) (i + 1)"
  by (subst log2_loop.simps) simp

lemma log2_loop_ok:
  assumes "unat num \<le> 2 ^ 31" "j \<le> 31" "\<forall>i < j. 2 ^ i < unat num"
  shows "\<exists>k \<le> 31. log2_loop num (2 ^ j) (of_nat j) = Some (of_nat k) \<and> unat num \<le> 2 ^ k \<and> (\<forall>i < k. 2 ^ i < unat num)"
  using assms(2,3)
proof (induction "31 - j" arbitrary: j)
  case 0
  then have "j = 31" by simp
  with 0 assms(1) show ?case by (subst log2_loop.simps) (auto simp: word_less_nat_alt unat_pow2 intro!: exI [of _ 31])
next
  case (Suc n)
  then have j: "j < 31" by simp
  show ?case
  proof (cases "2 ^ j < unat num")
    case True
    with Suc j have "\<exists>k \<le> 31. log2_loop num (2 ^ Suc j) (of_nat (Suc j)) = Some (of_nat k) \<and> unat num \<le> 2 ^ k \<and> (\<forall>i < k. 2 ^ i < unat num)"
      by (intro Suc.hyps) (auto simp: less_Suc_eq)
    with True j show ?thesis
      by (subst log2_loop_next) (simp_all only: word_less_nat_alt unat_pow2 push_bit_pow2 of_nat_Suc add.commute)
  next
    case False
    with Suc.prems j show ?thesis
      by (subst log2_loop.simps) (auto simp: word_less_nat_alt unat_pow2 intro!: exI [of _ j])
  qed
qed

text \<open>After \<open>2 ^ 31\<close> the limit is \<open>0\<close> and stays so.\<close>

lemma log2_loop_zero: "num \<noteq> 0 \<Longrightarrow> log2_loop num 0 i = None"
proof -
  have "log2_loop num limit i = Some y \<Longrightarrow> limit = 0 \<longrightarrow> num = 0" for num limit i y
    by (erule log2_loop.raw_induct [where P = "\<lambda>num limit i y. limit = 0 \<longrightarrow> num = 0", rotated]) (auto simp: word_gt_0 split: if_splits)
  then show "num \<noteq> 0 \<Longrightarrow> ?thesis" by (metis not_None_eq)
qed

lemma log2_loop_big:
  assumes "2 ^ 31 < unat num" "j \<le> 31"
  shows "log2_loop num (2 ^ j) i = None"
  using assms(2)
proof (induction "31 - j" arbitrary: j i)
  case 0
  then have j: "j = 31" by simp
  have "push_bit 1 (2 ^ 31 :: u32) = 0" "(2 ^ 31 :: u32) < num" "num \<noteq> 0" using assms(1) by (auto simp: word_less_nat_alt)
  then show ?case unfolding j by (metis log2_loop_next log2_loop_zero)
next
  case (Suc n)
  then have "log2_loop num (2 ^ Suc j) i = None" for i by (intro Suc.hyps) auto
  moreover have "(2 ^ j :: nat) \<le> 2 ^ 31" using Suc.prems by (intro power_increasing) auto
  then have "(2 ^ j :: u32) < num" using assms(1) Suc by (simp add: word_less_nat_alt unat_pow2)
  ultimately show ?case by (subst log2_loop_next) (simp_all only: push_bit_pow2)
qed

section \<open>Tables as maps\<close>

text \<open>A bucket: the entries \<open>ps\<close> linked from \<open>a\<close> on.\<close>

fun slist :: "(addr \<rightharpoonup> 'd internal_entry) \<Rightarrow> addr \<Rightarrow> addr list \<Rightarrow> bool" where
  "slist h a [] \<longleftrightarrow> a = NULL"
| "slist h a (p # ps) \<longleftrightarrow> a = p \<and> p \<noteq> NULL \<and> (\<exists>e. h p = Some e \<and> slist h (link_next e) ps)"

definition has_key :: "mem \<Rightarrow> (addr \<rightharpoonup> 'd internal_entry) \<Rightarrow> addr \<Rightarrow> byte list \<Rightarrow> bool" where
  "has_key m h p s \<longleftrightarrow> (\<exists>e. h p = Some e \<and> cstr m (ekey (ent e)) s)"

definition bucket :: "nat \<Rightarrow> byte list \<Rightarrow> nat" where
  "bucket n s = unat (hash33 s AND (of_nat n - 1))"

text \<open>
  \<open>hash_table m htab M\<close>: the table is well formed and maps the string \<open>s\<close> to the entry \<open>M s\<close>.  The
  bucket lists end and share no entry, every key is in the bucket of its hash value, and no
  string is the key of two entries.
\<close>

definition chains :: "mem \<Rightarrow> 'd hsearch_data \<Rightarrow> addr list \<Rightarrow> addr list list \<Rightarrow> bool" where
  "chains m htab hs css \<longleftrightarrow>
     heads htab (htable htab) = Some hs \<and> length hs = htablesize htab \<and> length css = htablesize htab \<and>
     0 < htablesize htab \<and> htablesize htab \<le> MAX_BUCKETS \<and>
     (\<forall>i < htablesize htab. slist (ientries htab) (hs ! i) (css ! i)) \<and> distinct (concat css) \<and>
     (\<forall>i < htablesize htab. \<forall>p \<in> set (css ! i). \<exists>s. has_key m (ientries htab) p s \<and> bucket (htablesize htab) s = i)"

definition hash_table :: "mem \<Rightarrow> 'd hsearch_data \<Rightarrow> (byte list \<rightharpoonup> addr) \<Rightarrow> bool" where
  "hash_table m htab M \<longleftrightarrow> (\<exists>hs css. chains m htab hs css \<and>
     (\<forall>s p. M s = Some p \<longleftrightarrow> p \<in> set (concat css) \<and> has_key m (ientries htab) p s))"

lemma chainsD:
  assumes "chains m htab hs css"
  shows chains_heads: "heads htab (htable htab) = Some hs" and chains_length: "length hs = htablesize htab" "length css = htablesize htab"
    and chains_size: "0 < htablesize htab" "htablesize htab \<le> MAX_BUCKETS"
    and chains_slist: "i < htablesize htab \<Longrightarrow> slist (ientries htab) (hs ! i) (css ! i)" and chains_distinct: "distinct (concat css)"
    and chains_key: "i < htablesize htab \<Longrightarrow> p \<in> set (css ! i) \<Longrightarrow> \<exists>s. has_key m (ientries htab) p s \<and> bucket (htablesize htab) s = i"
  using assms by (auto simp: chains_def)

lemma bucket_less: "0 < n \<Longrightarrow> n \<le> MAX_BUCKETS \<Longrightarrow> bucket n s < n"
proof -
  assume n: "0 < n" "n \<le> MAX_BUCKETS"
  then have "n - 1 < 2 ^ LENGTH(32)" by (simp add: MAX_BUCKETS_def)
  then have u: "unat (of_nat (n - 1) :: u32) = n - 1" by (simp only: unat_of_nat mod_less)
  have e: "(of_nat n - 1 :: u32) = of_nat (n - 1)" using n by simp
  have "unat (of_nat n - 1 :: u32) = n - 1" unfolding e by (fact u)
  moreover have "unat (hash33 s AND (of_nat n - 1)) \<le> unat (of_nat n - 1 :: u32)" using word_and_le1 unat_mono word_le_nat_alt by blast
  ultimately show ?thesis using n by (simp add: bucket_def)
qed

lemma has_key_unique: "has_key m h p s \<Longrightarrow> has_key m h p t \<Longrightarrow> s = t"
  using cstr_unique by (auto simp: has_key_def)

lemma slist_upd: "slist h a ps \<Longrightarrow> q \<notin> set ps \<Longrightarrow> slist (h(q \<mapsto> e)) a ps"
  by (induction ps arbitrary: a) auto

lemma slist_dom: "slist h a ps \<Longrightarrow> set ps \<subseteq> dom h"
  by (induction ps arbitrary: a) auto

lemma cmp_str_0_iff: "0 \<notin> set s \<Longrightarrow> 0 \<notin> set t \<Longrightarrow> cmp_str s t = 0 \<longleftrightarrow> s = t"
  unfolding cmp_str_def by (induction s t rule: list_induct2') (auto simp: word_uint_eq_iff split: if_splits)

lemma in_concat: "length css = n \<Longrightarrow> p \<in> set (concat css) \<longleftrightarrow> (\<exists>j < n. p \<in> set (css ! j))"
  by (auto simp: set_conv_nth [of css])

lemma set_concat_upd: "i < length css \<Longrightarrow> set (concat (css[i := q # css ! i])) = insert q (set (concat css))"
proof -
  assume i: "i < length css"
  have "set (concat css) = set (concat (take i css @ css ! i # drop (Suc i) css))" using id_take_nth_drop [OF i] by simp
  then show ?thesis unfolding upd_conv_take_nth_drop [OF i] by auto
qed

lemma chain_find_eq:
  assumes "paged m" "cstr m key s"
  shows "slist (ientries htab) a ps \<Longrightarrow> \<forall>p \<in> set ps. \<exists>t. has_key m (ientries htab) p t \<Longrightarrow>
    \<exists>r. chain_find m htab key a = Some r \<and>
      (if r = NULL then \<forall>p \<in> set ps. \<not> has_key m (ientries htab) p s else r \<in> set ps \<and> has_key m (ientries htab) r s)"
proof (induction ps arbitrary: a)
  case Nil
  then show ?case by (subst chain_find.simps) simp
next
  case (Cons p ps)
  then obtain e t where e: "a = p" "p \<noteq> 0" "ientries htab p = Some e" "slist (ientries htab) (link_next e) ps"
    "cstr m (ekey (ent e)) t" by (auto simp: has_key_def)
  have c: "strcmp m (ekey (ent e)) key = Some (cmp_str t s)" using strcmp_eq assms e(5) by blast
  have eq: "cmp_str t s = 0 \<longleftrightarrow> t = s" using cmp_str_0_iff assms(2) e(5) by (auto simp: cstr_def)
  have hk: "has_key m (ientries htab) p u \<longleftrightarrow> u = t" for u using e cstr_unique by (auto simp: has_key_def)
  show ?case
  proof (cases "t = s")
    case True
    then show ?thesis using e c eq hk by (subst chain_find.simps) auto
  next
    case False
    then have "chain_find m htab key a = chain_find m htab key (link_next e)" using e c eq by (subst chain_find.simps) auto
    with Cons.IH [OF e(4)] Cons.prems(2) hk False show ?thesis by auto
  qed
qed

lemma chains_find:
  assumes "paged m" "chains m htab hs css" "cstr m key s"
  shows "\<exists>r. chain_find m htab key (hs ! bucket (htablesize htab) s) = Some r \<and>
    (if r = NULL then \<forall>p \<in> set (concat css). \<not> has_key m (ientries htab) p s else r \<in> set (concat css) \<and> has_key m (ientries htab) r s)"
proof -
  let ?i = "bucket (htablesize htab) s"
  have i: "?i < htablesize htab" using assms(2) bucket_less by (simp add: chains_def)
  obtain r where r: "chain_find m htab key (hs ! ?i) = Some r"
    "if r = NULL then \<forall>p \<in> set (css ! ?i). \<not> has_key m (ientries htab) p s else r \<in> set (css ! ?i) \<and> has_key m (ientries htab) r s"
    using chain_find_eq [OF assms(1,3) chains_slist [OF assms(2) i]] chains_key [OF assms(2) i] by blast
  have other: "p \<in> set (css ! ?i)" if p: "p \<in> set (concat css)" "has_key m (ientries htab) p s" for p
  proof -
    obtain j where j: "j < htablesize htab" "p \<in> set (css ! j)" using in_concat [OF chains_length(2) [OF assms(2)], THEN iffD1, OF p(1)] by blast
    then obtain t where "has_key m (ientries htab) p t" "bucket (htablesize htab) t = j" using chains_key [OF assms(2)] by blast
    then show ?thesis using has_key_unique [OF that(2)] j(2) by metis
  qed
  moreover have "set (css ! ?i) \<subseteq> set (concat css)" using i in_concat [OF chains_length(2) [OF assms(2)]] by blast
  ultimately have "if r = NULL then \<forall>p \<in> set (concat css). \<not> has_key m (ientries htab) p s
      else r \<in> set (concat css) \<and> has_key m (ientries htab) r s" using r(2) by (metis subsetD)
  with r(1) show ?thesis by blast
qed

lemma hsearch_r_unfold:
  assumes "paged m" "chains m htab hs css" "cstr m (ekey item) s"
  shows "hsearch_r q m item action htab = do { ie \<leftarrow> chain_find m htab (ekey item) (hs ! bucket (htablesize htab) s);
     if ie \<noteq> NULL then Some (1, ie, htab)
     else if action = FIND then Some (0, NULL, htab)
     else if q = NULL then Some (0, NULL, htab)
     else Some (1, q, htab\<lparr>ientries := (ientries htab)(q \<mapsto> \<lparr>link_next = hs ! bucket (htablesize htab) s, ent = item\<rparr>),
                           heads := (heads htab)(htable htab \<mapsto> hs[bucket (htablesize htab) s := q])\<rparr>) }"
proof -
  have "hash4 m (ekey item) (length s) = Some (hash33 s)" using assms(3) by (intro hash4_eq) (simp add: cstr_def)
  moreover have "bucket (htablesize htab) s < length hs" "heads htab (htable htab) = Some hs"
    using assms(2) bucket_less by (auto simp: chains_def)
  ultimately show ?thesis using strlen_cstr [OF assms(1,3)] unfolding bucket_def hsearch_r_def Let_def by simp
qed

lemma chains_enter:
  assumes C: "chains m htab hs css" and q: "q \<noteq> NULL" "ientries htab q = None" and key: "cstr m (ekey item) s"
  defines "i \<equiv> bucket (htablesize htab) s"
  shows "chains m (htab\<lparr>ientries := (ientries htab)(q \<mapsto> \<lparr>link_next = hs ! i, ent = item\<rparr>),
       heads := (heads htab)(htable htab \<mapsto> hs[i := q])\<rparr>) (hs[i := q]) (css[i := q # css ! i])"
proof -
  have i: "i < htablesize htab" using C bucket_less by (simp add: chains_def i_def)
  have out: "q \<notin> set (css ! j)" if "j < htablesize htab" for j
    using slist_dom [of "ientries htab" "hs ! j" "css ! j"] C that q(2) by (auto simp: chains_def)
  then have qc: "q \<notin> set (concat css)" using in_concat [OF chains_length(2) [OF C]] by blast
  have css: "css = take i css @ css ! i # drop (Suc i) css" using C i by (simp add: chains_def id_take_nth_drop)
  have "css[i := q # css ! i] = take i css @ (q # css ! i) # drop (Suc i) css" using C i by (simp add: chains_def upd_conv_take_nth_drop)
  moreover have "distinct (concat (take i css @ css ! i # drop (Suc i) css))" "q \<notin> set (concat (take i css @ css ! i # drop (Suc i) css))"
    using C qc css unfolding chains_def by metis+
  ultimately have "distinct (concat (css[i := q # css ! i]))" by auto
  moreover have "slist ((ientries htab)(q \<mapsto> \<lparr>link_next = hs ! i, ent = item\<rparr>)) (hs[i := q] ! j) (css[i := q # css ! i] ! j)"
    if "j < htablesize htab" for j
    using slist_upd [OF chains_slist [OF C that] out [OF that]] that i q(1) chains_length [OF C] by (auto simp: nth_list_update)
  moreover have "\<exists>t. has_key m ((ientries htab)(q \<mapsto> \<lparr>link_next = hs ! i, ent = item\<rparr>)) p t \<and> bucket (htablesize htab) t = j"
    if "j < htablesize htab" "p \<in> set (css[i := q # css ! i] ! j)" for j p
  proof (cases "p = q")
    case True
    then have "j = i" using that out chains_length [OF C] i by (auto simp: nth_list_update split: if_splits)
    with True key show ?thesis by (auto simp: has_key_def i_def)
  next
    case False
    then have "p \<in> set (css ! j)" using that chains_length [OF C] i by (auto simp: nth_list_update split: if_splits)
    with chains_key [OF C that(1)] False show ?thesis by (auto simp: has_key_def)
  qed
  ultimately show ?thesis using chains_length [OF C] chains_size [OF C] unfolding chains_def by simp
qed

lemma hash_table_enter:
  assumes "paged m" "hash_table m htab M" "cstr m (ekey item) s" "M s = None" "q \<noteq> NULL" "ientries htab q = None"
  shows "\<exists>htab'. hsearch_r q m item ENTER htab = Some (1, q, htab') \<and> hash_table m htab' (M(s \<mapsto> q)) \<and>
    (\<exists>e. ientries htab' q = Some e \<and> ent e = item) \<and> (\<forall>p. p \<noteq> q \<longrightarrow> ientries htab' p = ientries htab p)"
proof -
  obtain hs css where C: "chains m htab hs css" and M: "\<And>s p. M s = Some p \<longleftrightarrow> p \<in> set (concat css) \<and> has_key m (ientries htab) p s"
    using assms(2) by (auto simp: hash_table_def)
  let ?i = "bucket (htablesize htab) s"
  let ?e = "\<lparr>link_next = hs ! ?i, ent = item\<rparr>"
  let ?h = "htab\<lparr>ientries := (ientries htab)(q \<mapsto> ?e), heads := (heads htab)(htable htab \<mapsto> hs[?i := q])\<rparr>"
  have i: "?i < length css" using bucket_less [OF chains_size [OF C]] chains_length [OF C] by simp
  have no: "\<not> has_key m (ientries htab) p s" if "p \<in> set (concat css)" for p using M [of s p] that assms(4) by (metis option.distinct(1))
  obtain r where r: "chain_find m htab (ekey item) (hs ! ?i) = Some r"
    "if r = NULL then \<forall>p \<in> set (concat css). \<not> has_key m (ientries htab) p s else r \<in> set (concat css) \<and> has_key m (ientries htab) r s"
    using chains_find [OF assms(1) C assms(3)] by blast
  then have "r = NULL" using no by (auto split: if_splits)
  with r have "hsearch_r q m item ENTER htab = Some (1, q, ?h)"
    using hsearch_r_unfold [OF assms(1) C assms(3), of q ENTER] assms(5) by simp
  moreover have "hash_table m ?h (M(s \<mapsto> q))"
    unfolding hash_table_def
  proof (intro exI conjI allI)
    show "chains m ?h (hs[?i := q]) (css[?i := q # css ! ?i])" using chains_enter [OF C assms(5,6,3)] by simp
    fix t p
    have "set (concat (css[?i := q # css ! ?i])) = insert q (set (concat css))" using i by (rule set_concat_upd)
    moreover have "q \<notin> set (concat css)" using in_concat [OF refl, of q css] slist_dom [OF chains_slist [OF C]] assms(6) chains_length [OF C] by (metis domIff subsetD)
    moreover have "has_key m (ientries ?h) q t \<longleftrightarrow> t = s" using assms(3) cstr_unique by (auto simp: has_key_def)
    moreover have "has_key m (ientries ?h) p t \<longleftrightarrow> has_key m (ientries htab) p t" if "p \<noteq> q" using that by (simp add: has_key_def)
    ultimately show "(M(s \<mapsto> q)) t = Some p \<longleftrightarrow> p \<in> set (concat (css[?i := q # css ! ?i])) \<and> has_key m (ientries ?h) p t"
      using M [of t p] no by (cases "p = q"; cases "t = s") auto
  qed
  ultimately show ?thesis by (intro exI [of _ ?h]) simp
qed

lemma hash_table_find:
  assumes "paged m" "hash_table m htab M" "cstr m (ekey item) s"
  shows "M s = Some p \<Longrightarrow> hsearch_r q m item action htab = Some (1, p, htab)"
    "M s = None \<Longrightarrow> action = FIND \<or> q = NULL \<Longrightarrow> hsearch_r q m item action htab = Some (0, NULL, htab)"
proof -
  obtain hs css where C: "chains m htab hs css" and M: "\<And>s p. M s = Some p \<longleftrightarrow> p \<in> set (concat css) \<and> has_key m (ientries htab) p s"
    using assms(2) by (auto simp: hash_table_def)
  obtain r where r: "chain_find m htab (ekey item) (hs ! bucket (htablesize htab) s) = Some r"
    "if r = NULL then \<forall>p \<in> set (concat css). \<not> has_key m (ientries htab) p s else r \<in> set (concat css) \<and> has_key m (ientries htab) r s"
    using chains_find [OF assms(1) C assms(3)] by blast
  note u = hsearch_r_unfold [OF assms(1) C assms(3), of q action]
  have "M s = (if r = NULL then None else Some r)" using r(2) M [of s r] M [of s] by (cases "M s") (auto split: if_splits)
  with u r(1) show "M s = Some p \<Longrightarrow> hsearch_r q m item action htab = Some (1, p, htab)"
    "M s = None \<Longrightarrow> action = FIND \<or> q = NULL \<Longrightarrow> hsearch_r q m item action htab = Some (0, NULL, htab)"
    by (auto split: if_splits)
qed

lemma hash_table_create:
  assumes "htable htab = NULL" "q \<noteq> NULL"
  shows "\<exists>htab'. hcreate_r q junk nel htab = (1, None, htab') \<and> hash_table m htab' Map.empty \<and> htable htab' = q \<and>
    htablesize htab' = round_buckets nel"
proof -
  let ?n = "round_buckets nel"
  let ?h = "htab\<lparr>htablesize := ?n, htable := q, heads := (heads htab)(q \<mapsto> slist_init 0 ?n (map junk [0 ..< ?n]))\<rparr>"
  obtain j where j: "?n = 2 ^ j" "4 \<le> j" "j \<le> 26" using round_buckets_spec by blast
  have "(2 :: nat) ^ j \<le> 2 ^ 26" using j by (intro power_increasing) auto
  moreover have "slist_init 0 ?n (map junk [0 ..< ?n]) = replicate ?n NULL" by (simp add: slist_init_eq)
  ultimately have "chains m ?h (replicate ?n NULL) (replicate ?n [])" using j by (auto simp: chains_def MAX_BUCKETS_def)
  then have "hash_table m ?h Map.empty" unfolding hash_table_def
    by (intro exI [of _ "replicate ?n NULL"] exI [of _ "replicate ?n []"]) auto
  then show ?thesis using assms by (auto simp: hcreate_r_def Let_def)
qed

section \<open>Properties\<close>

text \<open>
  C2.  A table implements a map from strings to entries.  \<^verbatim>\<open>hcreate_r\<close> makes the empty map;
  \<^verbatim>\<open>hsearch_r\<close> returns the entry of a string that the map has, for either action, and leaves the
  table as it is; for another string it reports failure when it shall only find, or when memory
  is exhausted, and otherwise enters the item, so that the table implements the updated map.
\<close>

theorem hsearch_refines_map:
  assumes "paged m" "hash_table m htab M" "cstr m (ekey item) s" "ientries htab q = None"
  shows "case M s of
      Some p \<Rightarrow> hsearch_r q m item action htab = Some (1, p, htab)
    | None \<Rightarrow>
        if action = FIND \<or> q = NULL then hsearch_r q m item action htab = Some (0, NULL, htab)
        else \<exists>htab' e. hsearch_r q m item action htab = Some (1, q, htab') \<and> hash_table m htab' (M(s \<mapsto> q)) \<and>
          ientries htab' q = Some e \<and> ent e = item \<and> (\<forall>p. p \<noteq> q \<longrightarrow> ientries htab' p = ientries htab p)"
proof (cases "M s")
  case None
  show ?thesis
  proof (cases "action = FIND \<or> q = NULL")
    case True
    with None hash_table_find(2) [OF assms(1-3)] show ?thesis by simp
  next
    case False
    then have "action = ENTER" by (cases action) auto
    with None False hash_table_enter [OF assms(1-3) None _ assms(4)] show ?thesis by auto
  qed
qed (use hash_table_find(1) [OF assms(1-3)] in simp)

definition empty_htab :: "int hsearch_data" where
  "empty_htab = \<lparr>htable = NULL, htablesize = 0, heads = Map.empty, ientries = Map.empty\<rparr>"

theorem hsearch_refines_map_witness:
  "\<exists>htab htab' e. hcreate_r 64 (\<lambda>_. 7) 20 empty_htab = (1, None, htab) \<and>
     hsearch_r 200 (mem_image 4 [97, 98, 0, 0]) \<lparr>ekey = 4, edata = 5\<rparr> ENTER htab = Some (1, 200, htab') \<and>
     hash_table (mem_image 4 [97, 98, 0, 0]) htab' [[97, 98] \<mapsto> 200]"
proof -
  let ?m = "mem_image 4 [97, 98, 0, 0]"
  obtain htab where h: "hcreate_r 64 (\<lambda>_. 7) 20 empty_htab = (1, None, htab)" "hash_table ?m htab Map.empty"
    using hash_table_create [of empty_htab 64 "\<lambda>_. 7" 20 ?m] by (auto simp: empty_htab_def)
  have "ientries htab 200 = None" using h(1) by (auto simp: hcreate_r_def empty_htab_def Let_def)
  from hsearch_refines_map [OF _ h(2), of "\<lparr>ekey = 4, edata = 5\<rparr>" "[97, 98]", OF _ _ this, of ENTER] h(1)
  show ?thesis by (auto simp: paged_mem_image cstr_def)
qed

text \<open>
  \<^verbatim>\<open>hash4\<close>, whose loop is unrolled eight times and entered in the middle, computes for every
  length the hash of one plain pass over the bytes, and reads no others.
\<close>

theorem hash4_unrolled:
  assumes "bytes m p xs"
  shows "hash4 m p (length xs) = Some (foldl (\<lambda>h c. 33 * h + ucast c) 0 xs)"
  using hash4_eq [OF assms] by (simp add: hash33_def)

theorem hash4_unrolled_witness:
  "hash4 (mem_image 4 [1, 2, 3, 4, 5, 6, 7, 8, 9]) 4 (length [1, 2, 3, 4, 5, 6, 7, 8, 9 :: byte]) =
     Some (foldl (\<lambda>h c. 33 * h + ucast c) 0 [1, 2, 3, 4, 5, 6, 7, 8, 9 :: byte])"
  by (rule hash4_unrolled) (auto simp: numeral_eq_Suc)

text \<open>
  C23.  \<^verbatim>\<open>__log2\<close> stops exactly for arguments up to \<open>2 ^ 31\<close>, and then returns the least \<open>k\<close> with
  \<open>num \<le> 2 ^ k\<close>; for greater ones the shifted limit becomes zero and the loop never ends.
\<close>

theorem log2_terminates_iff:
  "if unat num \<le> 2 ^ 31 then \<exists>k \<le> 31. log2 num = Some (of_nat k) \<and> unat num \<le> 2 ^ k \<and> \<not> (\<exists>i < k. unat num \<le> 2 ^ i)
   else log2 num = None"
proof (cases "unat num \<le> 2 ^ 31")
  case True
  then obtain k where "k \<le> 31" "log2_loop num 1 0 = Some (of_nat k)" "unat num \<le> 2 ^ k" "\<forall>i < k. 2 ^ i < unat num"
    using log2_loop_ok [of num 0] by auto
  with True show ?thesis by (auto simp: log2_def not_le)
next
  case False
  then show ?thesis using log2_loop_big [of num 0 0] by (simp add: log2_def)
qed

end
