(* ===== verification/CTime.thy ===== *)
theory CTime
  imports "HOL-Library.Signed_Division" CMem
begin

text \<open>
  Calendar time, \<^verbatim>\<open>src/runtime/libc/time\<close>: \<^verbatim>\<open>_mktm_r\<close> under \<^verbatim>\<open>gmtime_r\<close> and \<^verbatim>\<open>localtime_r\<close>, \<^verbatim>\<open>__tzcalc_limits\<close>, and
  \<^verbatim>\<open>mktime\<close> with \<^verbatim>\<open>validate_structure\<close>.  The fields are integers, \<^verbatim>\<open>/\<close> and \<^verbatim>\<open>%\<close> the truncating division of C;
  the carries between the fields are taken not to overflow an \<^verbatim>\<open>int\<close> (C leaves that undefined).
  A \<^verbatim>\<open>time_t\<close> has 32 bits, and its arithmetic in \<^verbatim>\<open>mktime\<close> wraps around.  An index out of the range of a
  table is a fault, \<open>None\<close>.  The time zone data are passed in and returned.
\<close>

section \<open>Data\<close>

record tm =
  tm_sec :: int
  tm_min :: int
  tm_hour :: int
  tm_mday :: int
  tm_mon :: int
  tm_year :: int
  tm_wday :: int
  tm_yday :: int
  tm_isdst :: int

record tzrule =
  tz_ch :: char
  tz_m :: int
  tz_n :: int
  tz_d :: int
  tz_s :: int
  tz_change :: int
  tz_offset :: int

record tzinfo =
  tznorth :: bool
  tzyear :: int
  tzrule0 :: tzrule
  tzrule1 :: tzrule

definition isleap :: "int \<Rightarrow> bool" where
  "isleap y \<longleftrightarrow> (y smod 4 = 0 \<and> y smod 100 \<noteq> 0) \<or> y smod 400 = 0"

definition mon_lengths :: "bool \<Rightarrow> int list" where
  "mon_lengths leap = (if leap then [31, 29, 31, 30, 31, 30, 31, 31, 30, 31, 30, 31]
     else [31, 28, 31, 30, 31, 30, 31, 31, 30, 31, 30, 31])"

definition year_lengths :: "bool \<Rightarrow> int" where
  "year_lengths leap = (if leap then 366 else 365)"

text \<open>\<^verbatim>\<open>ip[i]\<close>\<close>

definition at :: "'a list \<Rightarrow> int \<Rightarrow> 'a option" where
  "at xs i = (if 0 \<le> i \<and> i < int (length xs) then Some (xs ! nat i) else None)"

text \<open>The value of an \<open>int\<close> or \<open>long\<close> after overflow.\<close>

definition s32 :: "int \<Rightarrow> int" where
  "s32 x = (x + 2 ^ 31) mod 2 ^ 32 - 2 ^ 31"

section \<open>From seconds to fields\<close>

text \<open>\<^verbatim>\<open>while (rem < 0)\<close> and \<^verbatim>\<open>while (rem >= SECSPERDAY)\<close>\<close>

function rem_up :: "int \<Rightarrow> int \<Rightarrow> int \<times> int" where
  "rem_up rem days = (if rem < 0 then rem_up (rem + 86400) (days - 1) else (rem, days))"
  by pat_completeness auto
termination by (relation "measure (\<lambda>(rem, days). nat (- rem))") auto

function rem_down :: "int \<Rightarrow> int \<Rightarrow> int \<times> int" where
  "rem_down rem days = (if rem \<ge> 86400 then rem_down (rem - 86400) (days + 1) else (rem, days))"
  by pat_completeness auto
termination by (relation "measure (\<lambda>(rem, days). nat rem)") auto

text \<open>The loops over the years, with the year and the day in it as results.\<close>

function year_up :: "int \<Rightarrow> int \<Rightarrow> int \<times> int" where
  "year_up y days = (if days < year_lengths (isleap y) then (y, days) else year_up (y + 1) (days - year_lengths (isleap y)))"
  by pat_completeness auto
termination by (relation "measure (\<lambda>(y, days). nat days)") (auto simp: year_lengths_def split: if_splits)

function year_down :: "int \<Rightarrow> int \<Rightarrow> int \<times> int" where
  "year_down y days =
     (let y = y - 1; days = days + year_lengths (isleap y) in
      if days < 0 then year_down y days else (y, days))"
  by pat_completeness auto
termination by (relation "measure (\<lambda>(y, days). nat (- days))") (auto simp: year_lengths_def Let_def split: if_splits)

text \<open>\<^verbatim>\<open>for (tm_mon = 0; days >= ip[tm_mon]; ++tm_mon) days -= ip[tm_mon];\<close>\<close>

function mon_loop :: "int list \<Rightarrow> int \<Rightarrow> int \<Rightarrow> (int \<times> int) option" where
  "mon_loop ip mon days =
     (case at ip mon of None \<Rightarrow> None
      | Some n \<Rightarrow> if days \<ge> n then mon_loop ip (mon + 1) (days - n) else Some (mon, days))"
  by pat_completeness auto
termination by (relation "measure (\<lambda>(ip, mon, days). nat (int (length ip) - mon))") (auto simp: at_def split: if_splits)

declare rem_up.simps [simp del] rem_down.simps [simp del] year_up.simps [simp del] year_down.simps [simp del] mon_loop.simps [simp del]

definition day_of_week :: "int \<Rightarrow> int" where
  "day_of_week n = (let wday = n smod 7 in if wday < 0 then wday + 7 else wday)"

text \<open>The part of \<^verbatim>\<open>_mktm_r\<close> up to the time zone: the year, the month lengths and the fields.\<close>

definition mktm_fields :: "int \<Rightarrow> (int \<times> int list \<times> tm) option" where
  "mktm_fields lcltime =
     (let days = lcltime sdiv 86400; rem = lcltime smod 86400;
          (rem, days) = rem_up rem days;
          (rem, days) = rem_down rem days;
          hour = rem sdiv 3600; rem = rem smod 3600;
          min = rem sdiv 60; sec = rem smod 60;
          wday = day_of_week (4 + days);
          (y, days) = (if days \<ge> 0 then year_up 1970 days else year_down 1970 days);
          ip = mon_lengths (isleap y) in
      do { (mon, d) \<leftarrow> mon_loop ip 0 days;
           Some (y, ip, \<lparr>tm_sec = sec, tm_min = min, tm_hour = hour, tm_mday = d + 1, tm_mon = mon, tm_year = y - 1900,
                         tm_wday = wday, tm_yday = days, tm_isdst = 0\<rparr>) })"

text \<open>\<^verbatim>\<open>__tzcalc_limits\<close>: the day of a rule in the year that begins \<open>year_days\<close> after the epoch.\<close>

function month_days :: "int list \<Rightarrow> int \<Rightarrow> int \<Rightarrow> int \<Rightarrow> (int \<times> int) option" where
  "month_days ip m j days =
     (if j < m then case at ip (j - 1) of None \<Rightarrow> None | Some n \<Rightarrow> month_days ip m (j + 1) (days + n) else Some (j, days))"
  by pat_completeness auto
termination by (relation "measure (\<lambda>(ip, m, j, days). nat (m - j))") auto

function week_back :: "int \<Rightarrow> int \<Rightarrow> int" where
  "week_back len m_day = (if 0 < len \<and> m_day \<ge> len then week_back len (m_day - 7) else m_day)"
  by pat_completeness auto
termination by (relation "measure (\<lambda>(len, m_day). nat m_day)") auto

declare month_days.simps [simp del] week_back.simps [simp del]

definition rule_days :: "int \<Rightarrow> int \<Rightarrow> tzrule \<Rightarrow> int option" where
  "rule_days year year_days r =
     (if tz_ch r = CHR ''J'' then Some (year_days + tz_d r + (if isleap year \<and> tz_d r \<ge> 60 then 1 else 0))
      else if tz_ch r = CHR ''D'' then Some (year_days + tz_d r)
      else let ip = mon_lengths (isleap year) in
           do { (j, days) \<leftarrow> month_days ip (tz_m r) 1 year_days;
                let m_wday = (4 + days) smod 7;
                let wday_diff = tz_d r - m_wday;
                let wday_diff = (if wday_diff < 0 then wday_diff + 7 else wday_diff);
                let m_day = (tz_n r - 1) * 7 + wday_diff;
                len \<leftarrow> at ip (j - 1);
                Some (days + week_back len m_day) })"

definition year_days_of :: "int \<Rightarrow> int" where
  "year_days_of year =
     (let years = year - 1970 in
      years * 365 + (years - 1 + 2) sdiv 4 - (years - 1 + 70) sdiv 100 + (years - 1 + 370) sdiv 400)"

definition set_change :: "int \<Rightarrow> tzrule \<Rightarrow> tzrule" where
  "set_change days r = r\<lparr>tz_change := s32 (days * 86400 + tz_s r + tz_offset r)\<rparr>"

definition tzcalc_limits :: "int \<Rightarrow> tzinfo \<Rightarrow> (bool \<times> tzinfo) option" where
  "tzcalc_limits year tz =
     (if year < 1970 then Some (False, tz)
      else do { let year_days = year_days_of year;
                d0 \<leftarrow> rule_days year year_days (tzrule0 tz);
                d1 \<leftarrow> rule_days year year_days (tzrule1 tz);
                let r0 = set_change d0 (tzrule0 tz);
                let r1 = set_change d1 (tzrule1 tz);
                Some (True, tz\<lparr>tzyear := year, tzrule0 := r0, tzrule1 := r1, tznorth := tz_change r0 < tz_change r1\<rparr>) })"

section \<open>Local time\<close>

text \<open>The tests of \<^verbatim>\<open>_mktm_r\<close> after the offset was subtracted: seconds and minutes, then the day.\<close>

definition carry_sec :: "tm \<Rightarrow> tm" where
  "carry_sec res =
     (let res = (if tm_sec res \<ge> 60 then res\<lparr>tm_min := tm_min res + 1, tm_sec := tm_sec res - 60\<rparr>
                 else if tm_sec res < 0 then res\<lparr>tm_min := tm_min res - 1, tm_sec := tm_sec res + 60\<rparr>
                 else res) in
      if tm_min res \<ge> 60 then res\<lparr>tm_hour := tm_hour res + 1, tm_min := tm_min res - 60\<rparr>
      else if tm_min res < 0 then res\<lparr>tm_hour := tm_hour res - 1, tm_min := tm_min res + 60\<rparr>
      else res)"

definition next_day :: "int list \<Rightarrow> tm \<Rightarrow> tm option" where
  "next_day ip res =
     do { let res = res\<lparr>tm_yday := tm_yday res + 1,
                        tm_wday := (if tm_wday res + 1 > 6 then 0 else tm_wday res + 1),
                        tm_mday := tm_mday res + 1, tm_hour := tm_hour res - 24\<rparr>;
          n \<leftarrow> at ip (tm_mon res);
          Some (if tm_mday res > n
                then let res = res\<lparr>tm_mday := tm_mday res - n, tm_mon := tm_mon res + 1\<rparr> in
                     if tm_mon res = 12 then res\<lparr>tm_mon := 0, tm_year := tm_year res + 1, tm_yday := 0\<rparr> else res
                else res) }"

definition prev_day :: "int list \<Rightarrow> tm \<Rightarrow> tm option" where
  "prev_day ip res =
     do { let res = res\<lparr>tm_yday := tm_yday res - 1,
                        tm_wday := (if tm_wday res - 1 < 0 then 6 else tm_wday res - 1),
                        tm_mday := tm_mday res - 1, tm_hour := tm_hour res + 24\<rparr>;
          if tm_mday res = 0
          then do { let res = res\<lparr>tm_mon := tm_mon res - 1\<rparr>;
                    let res = (if tm_mon res < 0
                               then res\<lparr>tm_mon := 11, tm_year := tm_year res - 1,
                                        tm_yday := 365 + (if isleap (tm_year res - 1) then 1 else 0)\<rparr>
                               else res);
                    n \<leftarrow> at ip (tm_mon res);
                    Some (res\<lparr>tm_mday := n\<rparr>) }
          else Some res }"

definition local_isdst :: "bool \<Rightarrow> int \<Rightarrow> int \<Rightarrow> tzinfo \<Rightarrow> (int \<times> tzinfo) option" where
  "local_isdst daylight y tim tz =
     (if daylight
      then do { (ok, tz) \<leftarrow> (if y = tzyear tz then Some (True, tz) else tzcalc_limits y tz);
                let c0 = tz_change (tzrule0 tz);
                let c1 = tz_change (tzrule1 tz);
                Some (if ok
                      then if (if tznorth tz then tim \<ge> c0 \<and> tim < c1 else tim \<ge> c0 \<or> tim < c1) then 1 else 0
                      else -1, tz) }
      else Some (0, tz))"

definition mktm_r :: "bool \<Rightarrow> int \<Rightarrow> bool \<Rightarrow> tzinfo \<Rightarrow> (tm \<times> tzinfo) option" where
  "mktm_r daylight tim is_gmtime tz =
     do { (y, ip, res) \<leftarrow> mktm_fields tim;
          if is_gmtime then Some (res\<lparr>tm_isdst := 0\<rparr>, tz)
          else do { (isdst, tz) \<leftarrow> local_isdst daylight y tim tz;
                    let offset = (if isdst = 1 then tz_offset (tzrule1 tz) else tz_offset (tzrule0 tz));
                    let hours = offset sdiv 3600;
                    let offset = offset smod 3600;
                    let mins = offset sdiv 60;
                    let secs = offset smod 60;
                    let res = carry_sec (res\<lparr>tm_isdst := isdst, tm_sec := tm_sec res - secs, tm_min := tm_min res - mins,
                                             tm_hour := tm_hour res - hours\<rparr>);
                    res \<leftarrow> (if tm_hour res \<ge> 24 then next_day ip res
                           else if tm_hour res < 0 then prev_day ip res else Some res);
                    Some (res, tz) } }"

definition gmtime_r :: "int \<Rightarrow> tzinfo \<Rightarrow> (tm \<times> tzinfo) option" where
  "gmtime_r tim tz = mktm_r False tim True tz"

definition localtime_r :: "bool \<Rightarrow> int \<Rightarrow> tzinfo \<Rightarrow> (tm \<times> tzinfo) option" where
  "localtime_r daylight tim tz = mktm_r daylight tim False tz"

section \<open>From fields to seconds\<close>

definition DAYS_IN_MONTH :: "int list" where
  "DAYS_IN_MONTH = [31, 28, 31, 30, 31, 30, 31, 31, 30, 31, 30, 31]"

definition days_in_month :: "int \<Rightarrow> int \<Rightarrow> int option" where
  "days_in_month days_in_feb x = (if x = 1 then Some days_in_feb else at DAYS_IN_MONTH x)"

definition DAYS_BEFORE_MONTH :: "int list" where
  "DAYS_BEFORE_MONTH = [0, 31, 59, 90, 120, 151, 181, 212, 243, 273, 304, 334]"

text \<open>\<^verbatim>\<open>_ISLEAP\<close> and \<^verbatim>\<open>_DAYS_IN_YEAR\<close>, of a year counted from 1900\<close>

definition ISLEAP :: "int \<Rightarrow> bool" where
  "ISLEAP y \<longleftrightarrow> y smod 4 = 0 \<and> (y smod 100 \<noteq> 0 \<or> (y + 1900) smod 400 = 0)"

definition DAYS_IN_YEAR :: "int \<Rightarrow> int" where
  "DAYS_IN_YEAR year = (if ISLEAP year then 366 else 365)"

text \<open>\<^verbatim>\<open>res = div (x, n)\<close> with the correction of a negative remainder: what is carried and what is left.\<close>

definition div_norm :: "int \<Rightarrow> int \<Rightarrow> int \<times> int" where
  "div_norm x n = (let quot = x sdiv n; rem = x smod n in if rem < 0 then (quot - 1, rem + n) else (quot, rem))"

definition norm_time :: "tm \<Rightarrow> tm" where
  "norm_time t =
     (let t = (if tm_sec t < 0 \<or> tm_sec t > 59
               then (case div_norm (tm_sec t) 60 of (q, r) \<Rightarrow> t\<lparr>tm_min := tm_min t + q, tm_sec := r\<rparr>) else t);
          t = (if tm_min t < 0 \<or> tm_min t > 59
               then (case div_norm (tm_min t) 60 of (q, r) \<Rightarrow> t\<lparr>tm_hour := tm_hour t + q, tm_min := r\<rparr>) else t);
          t = (if tm_hour t < 0 \<or> tm_hour t > 23
               then (case div_norm (tm_hour t) 24 of (q, r) \<Rightarrow> t\<lparr>tm_mday := tm_mday t + q, tm_hour := r\<rparr>) else t) in
      if tm_mon t > 11
      then (case div_norm (tm_mon t) 12 of (q, r) \<Rightarrow> t\<lparr>tm_year := tm_year t + q, tm_mon := r\<rparr>) else t)"

definition feb_days :: "int \<Rightarrow> int" where
  "feb_days year = (if DAYS_IN_YEAR year = 366 then 29 else 28)"

text \<open>\<^verbatim>\<open>while (tm_mday <= 0)\<close>\<close>

function mday_up :: "int \<Rightarrow> int \<Rightarrow> int \<Rightarrow> int \<Rightarrow> (int \<times> int \<times> int) option" where
  "mday_up feb year mon mday =
     (if mday \<le> 0
      then let (year, mon, feb) = (if mon - 1 = -1 then (year - 1, 11, feb_days (year - 1)) else (year, mon - 1, feb)) in
           case days_in_month feb mon of None \<Rightarrow> None
           | Some n \<Rightarrow> if n \<le> 0 then None else mday_up feb year mon (mday + n)
      else Some (year, mon, mday))"
  by pat_completeness auto
termination by (relation "measure (\<lambda>(feb, year, mon, mday). nat (1 - mday))") (auto split: if_splits)

text \<open>\<^verbatim>\<open>while (tm_mday > _DAYS_IN_MONTH (tm_mon))\<close>\<close>

function mday_down :: "int \<Rightarrow> int \<Rightarrow> int \<Rightarrow> int \<Rightarrow> (int \<times> int \<times> int) option" where
  "mday_down feb year mon mday =
     (case days_in_month feb mon of None \<Rightarrow> None
      | Some n \<Rightarrow>
          if mday > n
          then if n \<le> 0 then None
               else let (year, mon', feb) = (if mon + 1 = 12 then (year + 1, 0, feb_days (year + 1)) else (year, mon + 1, feb)) in
                    mday_down feb year mon' (mday - n)
          else Some (year, mon, mday))"
  by pat_completeness auto
termination by (relation "measure (\<lambda>(feb, year, mon, mday). nat mday)") (auto split: if_splits)

declare mday_up.simps [simp del] mday_down.simps [simp del]

definition validate_structure :: "tm \<Rightarrow> tm option" where
  "validate_structure t =
     do { let t = norm_time t;
          let feb = feb_days (tm_year t);
          (year, mon, mday) \<leftarrow> (if tm_mday t \<le> 0 then mday_up feb (tm_year t) (tm_mon t) (tm_mday t)
                               else mday_down feb (tm_year t) (tm_mon t) (tm_mday t));
          Some (t\<lparr>tm_year := year, tm_mon := mon, tm_mday := mday\<rparr>) }"

text \<open>The loops over the years: \<^verbatim>\<open>for (year = 70; year < tm_year; year++)\<close> and \<^verbatim>\<open>for (year = 69; year > tm_year; year--)\<close>\<close>

function years_after :: "int \<Rightarrow> int \<Rightarrow> int \<Rightarrow> int" where
  "years_after tm_yr year days = (if year < tm_yr then years_after tm_yr (year + 1) (days + DAYS_IN_YEAR year) else days)"
  by pat_completeness auto
termination by (relation "measure (\<lambda>(tm_yr, year, days). nat (tm_yr - year))") auto

function years_before :: "int \<Rightarrow> int \<Rightarrow> int \<Rightarrow> int \<times> int" where
  "years_before tm_yr year days =
     (if year > tm_yr then years_before tm_yr (year - 1) (days - DAYS_IN_YEAR year) else (year, days))"
  by pat_completeness auto
termination by (relation "measure (\<lambda>(tm_yr, year, days). nat (year - tm_yr))") auto

declare years_after.simps [simp del] years_before.simps [simp del]

definition days_to_year :: "int \<Rightarrow> int \<Rightarrow> int" where
  "days_to_year tm_yr days =
     (if tm_yr > 70 then years_after tm_yr 70 days
      else if tm_yr < 70 then (case years_before tm_yr 69 days of (year, days) \<Rightarrow> days - DAYS_IN_YEAR year)
      else days)"

text \<open>The part of \<^verbatim>\<open>mktime\<close> on daylight saving time: the flag, the fields, the time and the zone data.\<close>

definition mktime_dst :: "tm \<Rightarrow> int \<Rightarrow> tzinfo \<Rightarrow> (int \<times> tm \<times> int \<times> tzinfo) option" where
  "mktime_dst t tim tz =
     do { let isdst0 = (if tm_isdst t > 0 then 1 else tm_isdst t);
          let y = tm_year t + 1900;
          (ok, tz) \<leftarrow> (if y = tzyear tz then Some (True, tz) else tzcalc_limits y tz);
          let startdst_dst = s32 (tz_change (tzrule0 tz) - tz_offset (tzrule1 tz));
          let startstd_dst = s32 (tz_change (tzrule1 tz) - tz_offset (tzrule1 tz));
          let startstd_std = s32 (tz_change (tzrule1 tz) - tz_offset (tzrule0 tz));
          if \<not> ok \<or> tim \<ge> startstd_std \<and> tim < startstd_dst then Some (isdst0, t, tim, tz)
          else do { let isdst = (if (if tznorth tz then tim \<ge> startdst_dst \<and> tim < startstd_std
                                     else tim \<ge> startdst_dst \<or> tim < startstd_std) then 1 else 0);
                    if isdst0 \<ge> 0 \<and> isdst \<noteq> isdst0
                    then do { let diff = tz_offset (tzrule0 tz) - tz_offset (tzrule1 tz);
                              let diff = (if isdst = 0 then - diff else diff);
                              t \<leftarrow> validate_structure (t\<lparr>tm_sec := tm_sec t + diff\<rparr>);
                              Some (isdst, t, s32 (tim + diff), tz) }
                    else Some (isdst, t, tim, tz) } }"

text \<open>\<^verbatim>\<open>tm_mday - 1 + _DAYS_BEFORE_MONTH[tm_mon]\<close>, and one more after February of a leap year\<close>

definition day_of_year :: "tm \<Rightarrow> int \<Rightarrow> int" where
  "day_of_year t before = tm_mday t - 1 + before + (if tm_mon t > 1 \<and> DAYS_IN_YEAR (tm_year t) = 366 then 1 else 0)"

definition mktime :: "bool \<Rightarrow> tm \<Rightarrow> tzinfo \<Rightarrow> (int \<times> tm \<times> tzinfo) option" where
  "mktime daylight t tz =
     do { t \<leftarrow> validate_structure t;
          let tim = tm_sec t + tm_min t * 60 + tm_hour t * 3600;
          before \<leftarrow> at DAYS_BEFORE_MONTH (tm_mon t);
          let days = day_of_year t before;
          let t = t\<lparr>tm_yday := days\<rparr>;
          if tm_year t > 10000 \<or> tm_year t < -10000 then Some (-1, t, tz)
          else do { let days = days_to_year (tm_year t) days;
                    let t = t\<lparr>tm_wday := day_of_week (days + 4)\<rparr>;
                    let tim = s32 (tim + days * 86400);
                    (isdst, t, tim, tz) \<leftarrow>
                      (if daylight then mktime_dst t tim tz
                       else Some (if tm_isdst t > 0 then 1 else tm_isdst t, t, tim, tz));
                    let tim = s32 (tim + (if isdst = 1 then tz_offset (tzrule1 tz) else tz_offset (tzrule0 tz)));
                    Some (tim, t\<lparr>tm_isdst := isdst\<rparr>, tz) } }"

section \<open>Division\<close>

lemma smod_0_iff: "(a :: int) smod b = 0 \<longleftrightarrow> b dvd a"
  by (auto simp: smod_int_alt_def sgn_if dvd_eq_mod_eq_0 [symmetric])

lemma div_norm_eq:
  assumes "0 < n"
  shows "div_norm x n = (x div n, x mod n)"
proof -
  let ?q = "x sdiv n" and ?r = "x smod n"
  have x: "x = n * ?q + ?r" by (simp add: mult_sdiv_smod_eq)
  have r: "- n < ?r" "?r < n" using smod_int_range [of n x] assms by auto
  show ?thesis
  proof (cases "?r < 0")
    case True
    have x': "x = n * (?q - 1) + (?r + n)" using x by (simp add: algebra_simps)
    have "x div n = ?q - 1" "x mod n = ?r + n" using int_div_pos_eq [OF x'] int_mod_pos_eq [OF x'] True r by auto
    with True show ?thesis by (simp add: div_norm_def)
  next
    case False
    have "x div n = ?q" "x mod n = ?r" using int_div_pos_eq [OF x] int_mod_pos_eq [OF x] False r by auto
    with False show ?thesis by (simp add: div_norm_def)
  qed
qed

lemma smod_floor: "0 < (b :: int) \<Longrightarrow> (if a smod b < 0 then a smod b + b else a smod b) = a mod b"
  using div_norm_eq [of b a] by (auto simp: div_norm_def Let_def split: if_splits)

lemma day_of_week_eq: "day_of_week n = n mod 7"
  using smod_floor [of 7 n] by (simp add: day_of_week_def Let_def)

lemma sdiv_pos: "0 \<le> (a :: int) \<Longrightarrow> 0 < b \<Longrightarrow> a sdiv b = a div b"
  by (auto simp: signed_divide_int_def sgn_if)

section \<open>The calendar\<close>

text \<open>The days from the epoch to the first of January of a year, in the Gregorian calendar.\<close>

definition leaps :: "int \<Rightarrow> int" where
  "leaps n = n div 4 - n div 100 + n div 400"

definition year_start :: "int \<Rightarrow> int" where
  "year_start y = 365 * (y - 1970) + leaps (y - 1) - leaps 1969"

lemma div_step: "0 < (n :: int) \<Longrightarrow> y div n = (y - 1) div n + (if n dvd y then 1 else 0)"
proof (cases "n dvd y")
  case True
  assume n: "0 < n"
  obtain k where y: "y = n * k" using True by blast
  have "(y - 1) div n = k - 1" using n by (intro int_div_pos_eq [of _ _ _ "n - 1"]) (auto simp: y algebra_simps)
  then show ?thesis using True y n by simp
next
  case False
  assume n: "0 < n"
  have "y mod n \<noteq> 0" "0 \<le> y mod n" "y mod n < n" using False n by auto
  then have "0 < y mod n" "y mod n < n" by linarith+
  then have "(y - 1) div n = y div n" by (intro int_div_pos_eq [of _ _ _ "y mod n - 1"]) auto
  then show ?thesis using False by simp
qed

lemma isleap_iff: "isleap y \<longleftrightarrow> 4 dvd y \<and> \<not> 100 dvd y \<or> 400 dvd y"
  by (simp add: isleap_def smod_0_iff)

lemma ISLEAP_eq: "ISLEAP y \<longleftrightarrow> isleap (y + 1900)"
proof -
  have "4 dvd (y + 1900) \<longleftrightarrow> 4 dvd y" "100 dvd (y + 1900) \<longleftrightarrow> 100 dvd y" by presburger+
  moreover have "400 dvd (y + 1900) \<Longrightarrow> 4 dvd y" by presburger
  ultimately show ?thesis by (auto simp: ISLEAP_def isleap_iff smod_0_iff)
qed

lemma DAYS_IN_YEAR_eq: "DAYS_IN_YEAR y = year_lengths (isleap (y + 1900))"
  by (simp add: DAYS_IN_YEAR_def year_lengths_def ISLEAP_eq)

lemma year_start_Suc: "year_start (y + 1) = year_start y + year_lengths (isleap y)"
proof -
  have "400 dvd y \<Longrightarrow> 100 dvd y" "100 dvd y \<Longrightarrow> 4 dvd y" using dvd_trans [of 100 400 y] dvd_trans [of 4 100 y] by simp_all
  then show ?thesis using div_step [of 4 y] div_step [of 100 y] div_step [of 400 y]
    by (auto simp: year_start_def leaps_def year_lengths_def isleap_iff)
qed

lemma year_start_1901: "year_start (y + 1901) = year_start (y + 1900) + year_lengths (isleap (y + 1900))"
proof -
  have "y + 1901 = y + 1900 + 1" by simp
  then show ?thesis using year_start_Suc [of "y + 1900"] by metis
qed

lemma year_start_1970 [simp]: "year_start 1970 = 0"
  by (simp add: year_start_def)

lemma year_days_of_eq: "1970 \<le> year \<Longrightarrow> year_days_of year = year_start year"
proof -
  assume y: "1970 \<le> year"
  have d: "(k + c * n) div n = k div n + c" if "0 < n" for k c n :: int using that by simp
  from d [of 4 "year - 1969" 492] d [of 100 "year - 1901" 19] d [of 400 "year - 1601" 4]
  have "(year - 1) div 4 = (year - 1969) div 4 + 492" "(year - 1) div 100 = (year - 1901) div 100 + 19"
    "(year - 1) div 400 = (year - 1601) div 400 + 4" by (simp_all add: algebra_simps)
  with y show ?thesis by (simp add: year_days_of_def Let_def year_start_def leaps_def sdiv_pos algebra_simps)
qed

lemma year_start_ge: "1970 \<le> y \<Longrightarrow> 365 * (y - 1970) \<le> year_start y"
  by (induction y rule: int_ge_induct) (auto simp: year_start_Suc year_lengths_def)

lemma year_start_le: "y \<le> 1970 \<Longrightarrow> year_start y \<le> 365 * (y - 1970)"
proof (induction y rule: int_le_induct)
  case (step i)
  then show ?case using year_start_Suc [of "i - 1"] by (auto simp: year_lengths_def split: if_splits)
qed simp

text \<open>The days of a year before a month.\<close>

definition month_start :: "bool \<Rightarrow> int \<Rightarrow> int" where
  "month_start leap mon = sum_list (take (nat mon) (mon_lengths leap))"

lemma month_cases: "0 \<le> (m :: int) \<Longrightarrow> m < 12 \<Longrightarrow> m \<in> {0, 1, 2, 3, 4, 5, 6, 7, 8, 9, 10, 11}"
  by simp arith

lemma month_facts:
  assumes "0 \<le> m" "m < 12"
  shows "at (mon_lengths leap) m = Some (mon_lengths leap ! nat m)"
    and "days_in_month (if leap then 29 else 28) m = Some (mon_lengths leap ! nat m)"
    and "28 \<le> mon_lengths leap ! nat m"
    and "month_start leap m + mon_lengths leap ! nat m = (if m = 11 then year_lengths leap else month_start leap (m + 1))"
    and "\<exists>b. at DAYS_BEFORE_MONTH m = Some b \<and> b + (if m > 1 \<and> leap then 1 else 0) = month_start leap m"
  using month_cases [OF assms] by (cases leap; auto simp: at_def mon_lengths_def days_in_month_def DAYS_IN_MONTH_def
      DAYS_BEFORE_MONTH_def month_start_def year_lengths_def)+

section \<open>gmtime\<close>

lemma rem_up_inv: "rem_up rem days = (r, d) \<Longrightarrow> rem < 86400 \<Longrightarrow> d * 86400 + r = days * 86400 + rem \<and> 0 \<le> r \<and> r < 86400"
proof (induction rem days rule: rem_up.induct)
  case (1 rem days)
  show ?case
  proof (cases "rem < 0")
    case True
    then have "rem_up (rem + 86400) (days - 1) = (r, d)" using "1.prems"(1) by (subst (asm) rem_up.simps) simp
    from "1.IH" [OF True this] True show ?thesis by simp
  qed (use "1.prems" in \<open>subst (asm) rem_up.simps, auto\<close>)
qed

lemma day_split: "(case rem_up (t smod 86400) (t sdiv 86400) of (rem, days) \<Rightarrow> rem_down rem days) = (t mod 86400, t div 86400)"
proof -
  obtain r d where rd: "rem_up (t smod 86400) (t sdiv 86400) = (r, d)" by force
  have "t smod 86400 < 86400" using smod_int_range [of 86400 t] by simp
  from rem_up_inv [OF rd this] have "t = 86400 * d + r" "0 \<le> r" "r < 86400" using mult_sdiv_smod_eq [of 86400 t] by linarith+
  then have "t div 86400 = d" "t mod 86400 = r" by (auto intro: int_div_pos_eq int_mod_pos_eq)
  with rd \<open>r < 86400\<close> show ?thesis by (simp add: rem_down.simps)
qed

lemma year_up_inv:
  "year_up y days = (y', d) \<Longrightarrow> 0 \<le> days \<Longrightarrow> year_start y' + d = year_start y + days \<and> 0 \<le> d \<and> d < year_lengths (isleap y')"
proof (induction y days rule: year_up.induct)
  case (1 y days)
  show ?case
  proof (cases "days < year_lengths (isleap y)")
    case True
    with "1.prems" show ?thesis by (subst (asm) year_up.simps) auto
  next
    case False
    then have "year_up (y + 1) (days - year_lengths (isleap y)) = (y', d)" using "1.prems"(1) by (subst (asm) year_up.simps) simp
    from "1.IH" [OF False this] False show ?thesis by (simp add: year_start_Suc)
  qed
qed

lemma year_down_inv:
  "year_down y days = (y', d) \<Longrightarrow> days < 0 \<Longrightarrow> year_start y' + d = year_start y + days \<and> 0 \<le> d \<and> d < year_lengths (isleap y')"
proof (induction y days rule: year_down.induct)
  case (1 y days)
  let ?d = "days + year_lengths (isleap (y - 1))"
  have s: "year_start y = year_start (y - 1) + year_lengths (isleap (y - 1))" using year_start_Suc [of "y - 1"] by simp
  show ?case
  proof (cases "?d < 0")
    case True
    then have "year_down (y - 1) ?d = (y', d)" using "1.prems"(1) by (subst (asm) year_down.simps) (simp add: Let_def)
    from "1.IH" [OF refl refl True this True] s show ?thesis by simp
  next
    case False
    then have "y' = y - 1" "d = ?d" using "1.prems"(1) by (subst (asm) year_down.simps; auto simp: Let_def)+
    with False "1.prems"(2) s show ?thesis by simp
  qed
qed

lemma mon_loop_ok:
  assumes "0 \<le> mon" "0 \<le> days" "month_start leap mon + days < year_lengths leap"
  shows "\<exists>mon' d. mon_loop (mon_lengths leap) mon days = Some (mon', d) \<and> 0 \<le> mon' \<and> mon' < 12 \<and> 0 \<le> d \<and>
    d < mon_lengths leap ! nat mon' \<and> month_start leap mon' + d = month_start leap mon + days"
  using assms
proof (induction "nat (12 - mon)" arbitrary: mon days)
  case 0
  then have "take (nat mon) (mon_lengths leap) = mon_lengths leap" by (simp add: mon_lengths_def)
  with 0 show ?case by (auto simp: month_start_def year_lengths_def mon_lengths_def split: if_splits)
next
  case (Suc k)
  then have m: "0 \<le> mon" "mon < 12" by auto
  note f = month_facts [OF m, of leap]
  show ?case
  proof (cases "days < mon_lengths leap ! nat mon")
    case True
    with Suc.prems m f show ?thesis by (subst mon_loop.simps) auto
  next
    case False
    then have "mon \<noteq> 11" using f(4) Suc.prems(3) by auto
    with f(4) have "month_start leap (mon + 1) = month_start leap mon + mon_lengths leap ! nat mon" by simp
    moreover have "\<exists>mon' d. mon_loop (mon_lengths leap) (mon + 1) (days - mon_lengths leap ! nat mon) = Some (mon', d) \<and> 0 \<le> mon' \<and> mon' < 12 \<and> 0 \<le> d \<and>
        d < mon_lengths leap ! nat mon' \<and> month_start leap mon' + d = month_start leap (mon + 1) + (days - mon_lengths leap ! nat mon)"
      using Suc.hyps(2) Suc.prems False calculation m by (intro Suc.hyps(1)) auto
    moreover have "mon_loop (mon_lengths leap) mon days = mon_loop (mon_lengths leap) (mon + 1) (days - mon_lengths leap ! nat mon)"
      using False f(1) by (subst mon_loop.simps) simp
    ultimately show ?thesis by simp
  qed
qed

lemma month_start_0 [simp]: "month_start leap 0 = 0"
  by (simp add: month_start_def)

lemma mktm_fields_ok:
  "\<exists>y mon d. mktm_fields t = Some (y, mon_lengths (isleap y),
      \<lparr>tm_sec = t mod 60, tm_min = t mod 3600 div 60, tm_hour = t mod 86400 div 3600, tm_mday = d + 1, tm_mon = mon, tm_year = y - 1900,
       tm_wday = (4 + t div 86400) mod 7, tm_yday = t div 86400 - year_start y, tm_isdst = 0\<rparr>) \<and>
    0 \<le> mon \<and> mon < 12 \<and> 0 \<le> d \<and> d < mon_lengths (isleap y) ! nat mon \<and>
    t div 86400 = year_start y + month_start (isleap y) mon + d \<and>
    0 \<le> t div 86400 - year_start y \<and> t div 86400 - year_start y < year_lengths (isleap y)"
proof -
  let ?days = "t div 86400" and ?rem = "t mod 86400"
  obtain y yd where y: "(if ?days \<ge> 0 then year_up 1970 ?days else year_down 1970 ?days) = (y, yd)" by force
  have yd: "year_start y + yd = ?days" "0 \<le> yd" "yd < year_lengths (isleap y)"
    using year_up_inv [of 1970 ?days y yd] year_down_inv [of 1970 ?days y yd] y by (auto split: if_splits)
  obtain mon d where md: "mon_loop (mon_lengths (isleap y)) 0 yd = Some (mon, d)" "0 \<le> mon" "mon < 12" "0 \<le> d"
    "d < mon_lengths (isleap y) ! nat mon" "month_start (isleap y) mon + d = yd"
    using mon_loop_ok [of 0 yd "isleap y"] yd by auto
  have rem: "?rem sdiv 3600 = t mod 86400 div 3600" "?rem smod 3600 = t mod 3600"
    by (simp_all add: sdiv_pos smod_mod_positive mod_mod_cancel)
  have min: "t mod 3600 sdiv 60 = t mod 3600 div 60" "t mod 3600 smod 60 = t mod 60"
    by (simp_all add: sdiv_pos smod_mod_positive mod_mod_cancel)
  have ds: "rem_up (t smod 86400) (t sdiv 86400) = (r, d) \<Longrightarrow> rem_down r d = (?rem, ?days)" for r d using day_split [of t] by simp
  have "mktm_fields t = Some (y, mon_lengths (isleap y),
      \<lparr>tm_sec = t mod 60, tm_min = t mod 3600 div 60, tm_hour = t mod 86400 div 3600, tm_mday = d + 1, tm_mon = mon, tm_year = y - 1900,
       tm_wday = (4 + ?days) mod 7, tm_yday = yd, tm_isdst = 0\<rparr>)"
    unfolding mktm_fields_def Let_def
    using y md(1) by (auto split: prod.split simp: ds rem min day_of_week_eq)
  moreover have "yd = ?days - year_start y" using yd(1) by simp
  ultimately show ?thesis using md yd by auto
qed

section \<open>mktime\<close>

text \<open>The number of a day, for a year counted from 1900 and a month of it.\<close>

definition day_no :: "int \<Rightarrow> int \<Rightarrow> int \<Rightarrow> int" where
  "day_no year mon mday = year_start (year + 1900) + month_start (isleap (year + 1900)) mon + mday - 1"

text \<open>The seconds that the fields stand for, whatever their size.\<close>

definition tm_value :: "tm \<Rightarrow> int" where
  "tm_value t = tm_sec t + 60 * tm_min t + 3600 * tm_hour t +
     86400 * day_no (tm_year t + tm_mon t div 12) (tm_mon t mod 12) (tm_mday t)"

definition time_in_range :: "tm \<Rightarrow> bool" where
  "time_in_range t \<longleftrightarrow> 0 \<le> tm_sec t \<and> tm_sec t < 60 \<and> 0 \<le> tm_min t \<and> tm_min t < 60 \<and> 0 \<le> tm_hour t \<and> tm_hour t < 24 \<and>
     0 \<le> tm_mon t \<and> tm_mon t < 12"

definition tm_in_range :: "tm \<Rightarrow> bool" where
  "tm_in_range t \<longleftrightarrow> time_in_range t \<and> 1 \<le> tm_mday t \<and> tm_mday t \<le> mon_lengths (isleap (tm_year t + 1900)) ! nat (tm_mon t)"

lemma carry_arith:
  fixes s m h :: int
  assumes "s = 60 * q1 + r1" "m + q1 = 60 * q2 + r2" "h + q2 = 24 * q3 + r3"
  shows "r1 + 60 * r2 + 3600 * r3 + 86400 * q3 = s + 60 * m + 3600 * h"
  using assms by linarith

lemma digits_arith:
  fixes x :: int
  assumes "x = 86400 * D + y" "y = 3600 * h + z" "z = 60 * m + w"
  shows "w + 60 * m + 3600 * h + 86400 * D = x"
  using assms by linarith

lemma norm_time_ok:
  assumes "0 \<le> tm_mon t"
  shows "time_in_range (norm_time t)" and "tm_value (norm_time t) = tm_value t" and "time_in_range t \<Longrightarrow> norm_time t = t"
proof -
  let ?q1 = "tm_sec t div 60"
  let ?min = "tm_min t + ?q1"
  let ?hour = "tm_hour t + ?min div 60"
  have steps:
    "(if tm_sec t < 0 \<or> tm_sec t > 59 then (case div_norm (tm_sec t) 60 of (q, r) \<Rightarrow> t\<lparr>tm_min := tm_min t + q, tm_sec := r\<rparr>) else t) =
      t\<lparr>tm_min := tm_min t + tm_sec t div 60, tm_sec := tm_sec t mod 60\<rparr>"
    "(if tm_min t < 0 \<or> tm_min t > 59 then (case div_norm (tm_min t) 60 of (q, r) \<Rightarrow> t\<lparr>tm_hour := tm_hour t + q, tm_min := r\<rparr>) else t) =
      t\<lparr>tm_hour := tm_hour t + tm_min t div 60, tm_min := tm_min t mod 60\<rparr>"
    "(if tm_hour t < 0 \<or> tm_hour t > 23 then (case div_norm (tm_hour t) 24 of (q, r) \<Rightarrow> t\<lparr>tm_mday := tm_mday t + q, tm_hour := r\<rparr>) else t) =
      t\<lparr>tm_mday := tm_mday t + tm_hour t div 24, tm_hour := tm_hour t mod 24\<rparr>"
    "0 \<le> tm_mon t \<Longrightarrow> (if tm_mon t > 11 then (case div_norm (tm_mon t) 12 of (q, r) \<Rightarrow> t\<lparr>tm_year := tm_year t + q, tm_mon := r\<rparr>) else t) =
      t\<lparr>tm_year := tm_year t + tm_mon t div 12, tm_mon := tm_mon t mod 12\<rparr>" for t
    by (simp_all add: div_norm_eq)
  have n: "norm_time t = t\<lparr>tm_sec := tm_sec t mod 60, tm_min := ?min mod 60, tm_hour := ?hour mod 24,
      tm_mday := tm_mday t + ?hour div 24, tm_mon := tm_mon t mod 12, tm_year := tm_year t + tm_mon t div 12\<rparr>"
    unfolding norm_time_def Let_def steps(1-3) using assms by (subst steps(4)) (simp_all add: add.assoc)
  show "time_in_range (norm_time t)" unfolding n by (simp add: time_in_range_def)
  have "tm_sec t mod 60 + 60 * (?min mod 60) + 3600 * (?hour mod 24) + 86400 * (?hour div 24) = tm_sec t + 60 * tm_min t + 3600 * tm_hour t"
    by (rule carry_arith [OF mult_div_mod_eq [symmetric] mult_div_mod_eq [symmetric] mult_div_mod_eq [symmetric]])
  note sum = this
  have dn: "day_no y m (d + e) = day_no y m d + e" for y m d e by (simp add: day_no_def)
  have "tm_value (norm_time t) = (tm_sec t mod 60 + 60 * (?min mod 60) + 3600 * (?hour mod 24) + 86400 * (?hour div 24)) +
      86400 * day_no (tm_year t + tm_mon t div 12) (tm_mon t mod 12) (tm_mday t)"
    unfolding n tm_value_def by (simp add: dn distrib_left)
  also have "\<dots> = tm_value t" unfolding sum tm_value_def ..
  finally show "tm_value (norm_time t) = tm_value t" .
  show "time_in_range t \<Longrightarrow> norm_time t = t" by (auto simp: norm_time_def time_in_range_def)
qed

lemma feb_days_eq: "feb_days year = (if isleap (year + 1900) then 29 else 28)"
  by (simp add: feb_days_def DAYS_IN_YEAR_def ISLEAP_eq)

lemma days_in_month_eq:
  "0 \<le> mon \<Longrightarrow> mon < 12 \<Longrightarrow> days_in_month (feb_days year) mon = Some (mon_lengths (isleap (year + 1900)) ! nat mon)"
  by (simp add: feb_days_eq month_facts)

lemma day_no_next:
  assumes "0 \<le> mon" "mon < 12"
  shows "day_no year mon (mday + mon_lengths (isleap (year + 1900)) ! nat mon) =
    (if mon + 1 = 12 then day_no (year + 1) 0 mday else day_no year (mon + 1) mday)"
  using month_facts(4) [OF assms, of "isleap (year + 1900)"] year_start_Suc [of "year + 1900"] by (auto simp: day_no_def)

lemma mday_up_ok:
  "0 \<le> mon \<Longrightarrow> mon < 12 \<Longrightarrow> mday \<le> 0 \<Longrightarrow>
     \<exists>y m d. mday_up (feb_days year) year mon mday = Some (y, m, d) \<and> 0 \<le> m \<and> m < 12 \<and> 1 \<le> d \<and>
       d \<le> mon_lengths (isleap (y + 1900)) ! nat m \<and> day_no y m d = day_no year mon mday"
proof (induction "nat (1 - mday)" arbitrary: year mon mday rule: less_induct)
  case less
  define y m where "y = (if mon - 1 = -1 then year - 1 else year)" and "m = (if mon - 1 = -1 then 11 else mon - 1)"
  have m: "0 \<le> m" "m < 12" using less.prems by (auto simp: m_def)
  let ?n = "mon_lengths (isleap (y + 1900)) ! nat m"
  have n: "28 \<le> ?n" "days_in_month (feb_days y) m = Some ?n" using month_facts(3) [OF m] days_in_month_eq [OF m] by auto
  have step: "mday_up (feb_days year) year mon mday = mday_up (feb_days y) y m (mday + ?n)"
    using less.prems n by (subst mday_up.simps) (auto simp: y_def m_def)
  have dn: "day_no y m (mday + ?n) = day_no year mon mday"
    using day_no_next [OF m, of y mday] less.prems by (auto simp: y_def m_def split: if_splits)
  show ?case
  proof (cases "mday + ?n \<le> 0")
    case True
    with less.hyps [of "mday + ?n" m y] m n step dn less.prems show ?thesis by auto
  next
    case False
    then have "mday_up (feb_days y) y m (mday + ?n) = Some (y, m, mday + ?n)" by (subst mday_up.simps) simp
    with False m step dn less.prems show ?thesis by auto
  qed
qed

lemma mday_down_ok:
  "0 \<le> mon \<Longrightarrow> mon < 12 \<Longrightarrow> 1 \<le> mday \<Longrightarrow>
     \<exists>y m d. mday_down (feb_days year) year mon mday = Some (y, m, d) \<and> 0 \<le> m \<and> m < 12 \<and> 1 \<le> d \<and>
       d \<le> mon_lengths (isleap (y + 1900)) ! nat m \<and> day_no y m d = day_no year mon mday"
proof (induction "nat mday" arbitrary: year mon mday rule: less_induct)
  case less
  let ?n = "mon_lengths (isleap (year + 1900)) ! nat mon"
  have n: "28 \<le> ?n" "days_in_month (feb_days year) mon = Some ?n"
    using month_facts(3) days_in_month_eq less.prems by auto
  show ?case
  proof (cases "mday > ?n")
    case True
    define y m where "y = (if mon + 1 = 12 then year + 1 else year)" and "m = (if mon + 1 = 12 then 0 else mon + 1)"
    have m: "0 \<le> m" "m < 12" using less.prems by (auto simp: m_def)
    have step: "mday_down (feb_days year) year mon mday = mday_down (feb_days y) y m (mday - ?n)"
      using True n by (subst mday_down.simps) (auto simp: y_def m_def)
    have dn: "day_no y m (mday - ?n) = day_no year mon mday"
      using day_no_next [OF less.prems(1,2), of year "mday - ?n"] by (auto simp: y_def m_def split: if_splits)
    have "\<exists>y' m' d. mday_down (feb_days y) y m (mday - ?n) = Some (y', m', d) \<and> 0 \<le> m' \<and> m' < 12 \<and> 1 \<le> d \<and>
       d \<le> mon_lengths (isleap (y' + 1900)) ! nat m' \<and> day_no y' m' d = day_no y m (mday - ?n)"
      using True n m by (intro less.hyps) auto
    with step dn show ?thesis by auto
  next
    case False
    with n less.prems show ?thesis by (subst mday_down.simps) auto
  qed
qed

lemma validate_structure_ok:
  assumes "0 \<le> tm_mon t"
  shows "\<exists>t'. validate_structure t = Some t' \<and> tm_in_range t' \<and> tm_value t' = tm_value t \<and> tm_isdst t' = tm_isdst t"
proof -
  let ?n = "norm_time t"
  note N = norm_time_ok [OF assms]
  have mon: "0 \<le> tm_mon ?n" "tm_mon ?n < 12" using N(1) by (auto simp: time_in_range_def)
  obtain y m d where ymd: "(if tm_mday ?n \<le> 0 then mday_up (feb_days (tm_year ?n)) (tm_year ?n) (tm_mon ?n) (tm_mday ?n)
      else mday_down (feb_days (tm_year ?n)) (tm_year ?n) (tm_mon ?n) (tm_mday ?n)) = Some (y, m, d)"
    "0 \<le> m" "m < 12" "1 \<le> d" "d \<le> mon_lengths (isleap (y + 1900)) ! nat m" "day_no y m d = day_no (tm_year ?n) (tm_mon ?n) (tm_mday ?n)"
    using mday_up_ok [OF mon, of "tm_mday ?n" "tm_year ?n"] mday_down_ok [OF mon, of "tm_mday ?n" "tm_year ?n"]
    by (cases "tm_mday ?n \<le> 0") auto
  let ?t = "?n\<lparr>tm_year := y, tm_mon := m, tm_mday := d\<rparr>"
  have "validate_structure t = Some ?t" using ymd(1) by (simp add: validate_structure_def Let_def)
  moreover have "tm_in_range ?t" using N(1) ymd by (simp add: tm_in_range_def time_in_range_def)
  moreover have "tm_value ?t = tm_value ?n" using ymd mon by (simp add: tm_value_def)
  moreover have "tm_isdst ?n = tm_isdst t" by (simp add: norm_time_def Let_def split: prod.split)
  ultimately show ?thesis using N(2) by auto
qed

lemma validate_structure_id: "tm_in_range t \<Longrightarrow> validate_structure t = Some t"
proof -
  assume t: "tm_in_range t"
  then have mon: "0 \<le> tm_mon t" "tm_mon t < 12" by (auto simp: tm_in_range_def time_in_range_def)
  have "mday_down (feb_days (tm_year t)) (tm_year t) (tm_mon t) (tm_mday t) = Some (tm_year t, tm_mon t, tm_mday t)"
    using t days_in_month_eq [OF mon, of "tm_year t"] by (subst mday_down.simps) (simp add: tm_in_range_def)
  with t norm_time_ok(3) [OF mon(1)] show ?thesis by (simp add: validate_structure_def tm_in_range_def Let_def)
qed

lemma years_after_eq: "year \<le> y \<Longrightarrow> years_after y year days = days + year_start (y + 1900) - year_start (year + 1900)"
proof (induction "nat (y - year)" arbitrary: year days rule: less_induct)
  case less
  show ?case
  proof (cases "year < y")
    case True
    then have "years_after y year days = days + DAYS_IN_YEAR year + year_start (y + 1900) - year_start (year + 1 + 1900)"
      using less.hyps [of "year + 1" "days + DAYS_IN_YEAR year"] by (subst years_after.simps) simp
    then show ?thesis using year_start_Suc [of "year + 1900"] by (simp add: DAYS_IN_YEAR_eq)
  qed (use less.prems in \<open>subst years_after.simps, simp\<close>)
qed

lemma years_before_eq:
  "y \<le> year \<Longrightarrow> years_before y year days = (y, days + year_start (y + 1901) - year_start (year + 1901))"
proof (induction "nat (year - y)" arbitrary: year days rule: less_induct)
  case less
  show ?case
  proof (cases "year > y")
    case True
    then have "years_before y year days = (y, days - DAYS_IN_YEAR year + year_start (y + 1901) - year_start (year - 1 + 1901))"
      using less.hyps [of "year - 1" "days - DAYS_IN_YEAR year"] by (subst years_before.simps) simp
    moreover have e: "year - 1 + 1901 = year + 1900" by simp
    ultimately show ?thesis unfolding e using year_start_1901 [of year] by (simp add: DAYS_IN_YEAR_eq)
  qed (use less.prems in \<open>subst years_before.simps, simp\<close>)
qed

lemma days_to_year_eq: "days_to_year y days = days + year_start (y + 1900)"
proof -
  consider "y > 70" | "y < 70" | "y = 70" by linarith
  then show ?thesis
  proof cases
    case 2
    then show ?thesis using year_start_1901 [of y] year_start_1901 [of 69] by (simp add: days_to_year_def years_before_eq DAYS_IN_YEAR_eq)
  qed (simp_all add: days_to_year_def years_after_eq)
qed

lemma s32_id: "- (2 ^ 31) \<le> x \<Longrightarrow> x < 2 ^ 31 \<Longrightarrow> s32 x = x"
  by (simp add: s32_def)

lemma s32_eq_iff: "s32 x = x \<longleftrightarrow> - (2 ^ 31) \<le> x \<and> x < 2 ^ 31"
proof
  assume "s32 x = x"
  then have "x + 2 ^ 31 = (x + 2 ^ 31) mod 2 ^ 32" by (simp add: s32_def)
  moreover have "0 \<le> (x + 2 ^ 31) mod 2 ^ 32" "(x + 2 ^ 31) mod 2 ^ 32 < 2 ^ 32" by simp_all
  ultimately have "0 \<le> x + 2 ^ 31" "x + 2 ^ 31 < 2 ^ 32" by (simp_all only:)
  then show "- (2 ^ 31) \<le> x \<and> x < 2 ^ 31" by simp
qed (simp add: s32_id)

lemma s32_add: "s32 (s32 a + b) = s32 (a + b)"
proof -
  have "s32 (s32 a + b) = ((a + 2 ^ 31) mod 2 ^ 32 + b) mod 2 ^ 32 - 2 ^ 31" unfolding s32_def by (rule arg_cong [where f = "\<lambda>x. x mod 2 ^ 32 - 2 ^ 31"]) simp
  also have "\<dots> = (a + 2 ^ 31 + b) mod 2 ^ 32 - 2 ^ 31" by (simp only: mod_add_left_eq)
  also have "\<dots> = s32 (a + b)" unfolding s32_def by (simp only: ac_simps)
  finally show ?thesis .
qed

text \<open>\<^verbatim>\<open>mktime\<close> without daylight saving time, on fields in range.\<close>

lemma mktime_in_range:
  assumes "tm_in_range t" "\<bar>tm_year t\<bar> \<le> 10000" "tm_isdst t \<le> 0"
  shows "mktime False t tz = Some (s32 (tm_value t + tz_offset (tzrule0 tz)),
    t\<lparr>tm_yday := day_no (tm_year t) (tm_mon t) (tm_mday t) - year_start (tm_year t + 1900),
      tm_wday := (4 + day_no (tm_year t) (tm_mon t) (tm_mday t)) mod 7\<rparr>, tz)"
proof -
  let ?leap = "isleap (tm_year t + 1900)" and ?D = "day_no (tm_year t) (tm_mon t) (tm_mday t)"
  have mon: "0 \<le> tm_mon t" "tm_mon t < 12" using assms(1) by (auto simp: tm_in_range_def time_in_range_def)
  obtain b where b: "at DAYS_BEFORE_MONTH (tm_mon t) = Some b" "b + (if tm_mon t > 1 \<and> ?leap then 1 else 0) = month_start ?leap (tm_mon t)"
    using month_facts(5) [OF mon, of ?leap] by blast
  have yd: "day_of_year t b = ?D - year_start (tm_year t + 1900)"
    using b(2) by (cases ?leap; cases "tm_mon t > 1") (simp_all add: day_of_year_def day_no_def DAYS_IN_YEAR_eq year_lengths_def)
  have val: "tm_value t = tm_sec t + tm_min t * 60 + tm_hour t * 3600 + ?D * 86400" using mon by (simp add: tm_value_def)
  have side: "\<not> 0 < tm_isdst t" "tm_isdst t \<noteq> 1" "\<not> 10000 < tm_year t" "\<not> tm_year t < - 10000" using assms(2,3) by auto
  show ?thesis
    unfolding mktime_def validate_structure_id [OF assms(1)]
    by (simp add: Let_def b(1) yd days_to_year_eq day_of_week_eq side s32_add val add.commute [of 4])
qed

lemma mktime_validate: "validate_structure t = Some t' \<Longrightarrow> tm_in_range t' \<Longrightarrow> mktime d t tz = mktime d t' tz"
  by (simp add: mktime_def validate_structure_id)

lemma mktime_far:
  assumes "tm_in_range t" "10000 < \<bar>tm_year t\<bar>"
  shows "mktime d t tz = Some (-1, t\<lparr>tm_yday := day_no (tm_year t) (tm_mon t) (tm_mday t) - year_start (tm_year t + 1900)\<rparr>, tz)"
proof -
  let ?leap = "isleap (tm_year t + 1900)"
  have mon: "0 \<le> tm_mon t" "tm_mon t < 12" using assms(1) by (auto simp: tm_in_range_def time_in_range_def)
  obtain b where b: "at DAYS_BEFORE_MONTH (tm_mon t) = Some b" "b + (if tm_mon t > 1 \<and> ?leap then 1 else 0) = month_start ?leap (tm_mon t)"
    using month_facts(5) [OF mon, of ?leap] by blast
  have "day_of_year t b = day_no (tm_year t) (tm_mon t) (tm_mday t) - year_start (tm_year t + 1900)"
    using b(2) by (cases ?leap; cases "tm_mon t > 1") (simp_all add: day_of_year_def day_no_def DAYS_IN_YEAR_eq year_lengths_def)
  moreover have "10000 < tm_year t \<or> tm_year t < - 10000" using assms(2) by auto
  ultimately show ?thesis unfolding mktime_def validate_structure_id [OF assms(1)] using b(1) by (simp add: Let_def)
qed

lemma gmtime_fields:
  "\<exists>res. gmtime_r t tz = Some (res, tz) \<and> tm_in_range res \<and> tm_value res = t \<and>
     tm_yday res = t div 86400 - year_start (tm_year res + 1900) \<and> 0 \<le> tm_yday res \<and>
     tm_yday res < year_lengths (isleap (tm_year res + 1900)) \<and> tm_wday res = (4 + t div 86400) mod 7 \<and> tm_isdst res = 0"
proof -
  obtain y mon d where f: "mktm_fields t = Some (y, mon_lengths (isleap y),
      \<lparr>tm_sec = t mod 60, tm_min = t mod 3600 div 60, tm_hour = t mod 86400 div 3600, tm_mday = d + 1, tm_mon = mon, tm_year = y - 1900,
       tm_wday = (4 + t div 86400) mod 7, tm_yday = t div 86400 - year_start y, tm_isdst = 0\<rparr>)"
    "0 \<le> mon" "mon < 12" "0 \<le> d" "d < mon_lengths (isleap y) ! nat mon" "t div 86400 = year_start y + month_start (isleap y) mon + d"
    "0 \<le> t div 86400 - year_start y" "t div 86400 - year_start y < year_lengths (isleap y)"
    using mktm_fields_ok by blast
  let ?r = "\<lparr>tm_sec = t mod 60, tm_min = t mod 3600 div 60, tm_hour = t mod 86400 div 3600, tm_mday = d + 1, tm_mon = mon,
    tm_year = y - 1900, tm_wday = (4 + t div 86400) mod 7, tm_yday = t div 86400 - year_start y, tm_isdst = 0\<rparr>"
  have g: "gmtime_r t tz = Some (?r, tz)" using f(1) by (simp add: gmtime_r_def mktm_r_def)
  have "t mod 3600 div 60 < 60" "t mod 86400 div 3600 < 24" "0 \<le> t mod 3600 div 60" "0 \<le> t mod 86400 div 3600"
    using zdiv_mono1 [of "t mod 3600" 3599 60] zdiv_mono1 [of "t mod 86400" 86399 3600]
      pos_mod_bound [of 3600 t] pos_mod_bound [of 86400 t] by (simp_all add: pos_imp_zdiv_nonneg_iff)
  then have range: "tm_in_range ?r" using f(2-5) by (simp add: tm_in_range_def time_in_range_def)
  have val: "tm_value ?r = t"
  proof -
    have m: "t mod 3600 mod 60 = t mod 60" "t mod 86400 mod 3600 = t mod 3600" by (simp_all add: mod_mod_cancel)
    have "t mod 60 + 60 * (t mod 3600 div 60) + 3600 * (t mod 86400 div 3600) + 86400 * (t div 86400) = t"
      by (rule digits_arith [OF mult_div_mod_eq [of 86400 t, symmetric] mult_div_mod_eq [of 3600 "t mod 86400", symmetric, unfolded m(2)]
          mult_div_mod_eq [of 60 "t mod 3600", symmetric, unfolded m(1)]])
    moreover have "day_no (y - 1900) mon (d + 1) = t div 86400" using f(6) by (simp add: day_no_def)
    ultimately show ?thesis using f(2,3) by (simp add: tm_value_def)
  qed
  show ?thesis
    by (rule exI [of _ ?r], intro conjI; (rule g | rule range | rule val)?; simp only: tm.simps diff_add_cancel f(7,8))
qed

section \<open>Examples\<close>

text \<open>The thirty-seventh of February 2023, one minute before midnight and 90 seconds.\<close>

definition odd_date :: tm where
  "odd_date = \<lparr>tm_sec = 90, tm_min = 59, tm_hour = 23, tm_mday = 37, tm_mon = 1, tm_year = 123, tm_wday = 0, tm_yday = 0, tm_isdst = 0\<rparr>"

definition UTC :: tzinfo where
  "UTC = (let r = \<lparr>tz_ch = CHR ''J'', tz_m = 0, tz_n = 0, tz_d = 0, tz_s = 0, tz_change = 0, tz_offset = 0\<rparr> in
     \<lparr>tznorth = True, tzyear = 0, tzrule0 = r, tzrule1 = r\<rparr>)"

text \<open>
  One hour west of Greenwich the epoch is the evening of 31 December 1969, the day 364 of its
  year counted from 0.  \<^verbatim>\<open>_mktm_r\<close> says 365: on the way back over a new year it takes the length of the year for
  its last day.
\<close>

lemma localtime_yday_past_new_year:
  "\<exists>res tz. localtime_r False 0 (UTC\<lparr>tzrule0 := (tzrule0 UTC)\<lparr>tz_offset := 3600\<rparr>\<rparr>) = Some (res, tz) \<and>
     tm_year res = 69 \<and> tm_mon res = 11 \<and> tm_mday res = 31 \<and> tm_yday res = 365 \<and>
     tm_yday res \<noteq> day_no (tm_year res) (tm_mon res) (tm_mday res) - year_start (tm_year res + 1900)"
proof -
  let ?res = "\<lparr>tm_sec = 0, tm_min = 0, tm_hour = 23, tm_mday = 31, tm_mon = 11, tm_year = 69, tm_wday = 3, tm_yday = 365, tm_isdst = 0\<rparr>"
  have "map_option fst (localtime_r False 0 (UTC\<lparr>tzrule0 := (tzrule0 UTC)\<lparr>tz_offset := 3600\<rparr>\<rparr>)) = Some ?res" by code_simp
  moreover have "day_no 69 11 31 - year_start 1969 = 364" by code_simp
  ultimately show ?thesis by (auto simp: map_option_eq_Some)
qed

section \<open>Properties\<close>

text \<open>
  C7.  \<^verbatim>\<open>gmtime\<close> ends for every time and finds the fields of the Gregorian calendar: the day, month,
  hour, minute and second in their ranges that stand for exactly this number of seconds, the day
  of the year and the day of the week, and it leaves the time zone data alone.
\<close>

theorem gmtime_correct:
  "\<exists>res. gmtime_r t tz = Some (res, tz) \<and> tm_in_range res \<and> tm_value res = t \<and>
     tm_yday res = t div 86400 - year_start (tm_year res + 1900) \<and> 0 \<le> tm_yday res \<and>
     tm_yday res < year_lengths (isleap (tm_year res + 1900)) \<and> tm_wday res = (4 + t div 86400) mod 7 \<and> tm_isdst res = 0"
  by (rule gmtime_fields)

text \<open>
  C8.  \<^verbatim>\<open>mktime\<close>, outside daylight saving time, accepts fields of any size (the month not negative), brings
  them into range without changing the time they stand for, and returns that time plus the zone
  offset, reduced to 32 bits, so the true value exactly when that is a 32-bit value; only when the year is more than 10000 away
  from 1900 it returns \<open>-1\<close>.
\<close>

theorem mktime_correct:
  assumes "0 \<le> tm_mon t" "tm_isdst t \<le> 0"
  shows "\<exists>t'. tm_in_range t' \<and> tm_value t' = tm_value t \<and> tm_isdst t' = tm_isdst t \<and>
    (let v = tm_value t + tz_offset (tzrule0 tz) in s32 v = v \<longleftrightarrow> - (2 ^ 31) \<le> v \<and> v < 2 ^ 31) \<and>
    (if \<bar>tm_year t'\<bar> \<le> 10000
     then mktime False t tz = Some (s32 (tm_value t + tz_offset (tzrule0 tz)),
       t'\<lparr>tm_yday := day_no (tm_year t') (tm_mon t') (tm_mday t') - year_start (tm_year t' + 1900),
          tm_wday := (4 + day_no (tm_year t') (tm_mon t') (tm_mday t')) mod 7\<rparr>, tz)
     else \<exists>u. mktime False t tz = Some (-1, u, tz))"
proof -
  obtain t' where t': "validate_structure t = Some t'" "tm_in_range t'" "tm_value t' = tm_value t" "tm_isdst t' = tm_isdst t"
    using validate_structure_ok [OF assms(1)] by blast
  with mktime_in_range [OF t'(2), of tz] mktime_far [OF t'(2), of False tz] mktime_validate [OF t'(1,2)] assms(2)
  show ?thesis unfolding Let_def s32_eq_iff by (intro exI [of _ t']) auto
qed

theorem mktime_correct_witness:
  "0 \<le> tm_mon odd_date \<and> tm_isdst odd_date \<le> 0 \<and>
   (\<exists>t'. tm_in_range t' \<and> tm_value t' = tm_value odd_date \<and> tm_isdst t' = tm_isdst odd_date \<and>
    (let v = tm_value odd_date + tz_offset (tzrule0 UTC) in s32 v = v \<longleftrightarrow> - (2 ^ 31) \<le> v \<and> v < 2 ^ 31) \<and>
    (if \<bar>tm_year t'\<bar> \<le> 10000
     then mktime False odd_date UTC = Some (s32 (tm_value odd_date + tz_offset (tzrule0 UTC)),
       t'\<lparr>tm_yday := day_no (tm_year t') (tm_mon t') (tm_mday t') - year_start (tm_year t' + 1900),
          tm_wday := (4 + day_no (tm_year t') (tm_mon t') (tm_mday t')) mod 7\<rparr>, UTC)
     else \<exists>u. mktime False odd_date UTC = Some (-1, u, UTC)))"
  by (intro conjI mktime_correct) (simp_all add: odd_date_def)

text \<open>
  C15.  In UTC, \<^verbatim>\<open>mktime\<close> is the inverse of \<^verbatim>\<open>gmtime\<close>: for every 32-bit \<^verbatim>\<open>time_t\<close> it gives back the time and
  finds the same fields.
\<close>

theorem gmtime_mktime_roundtrip:
  assumes "- (2 ^ 31) \<le> t" "t < 2 ^ 31" "tz_offset (tzrule0 tz) = 0"
  shows "\<exists>res. gmtime_r t tz = Some (res, tz) \<and> mktime False res tz = Some (t, res, tz)"
proof -
  obtain res where res: "gmtime_r t tz = Some (res, tz)" "tm_in_range res" "tm_value res = t"
     "tm_yday res = t div 86400 - year_start (tm_year res + 1900)" "0 \<le> tm_yday res"
     "tm_yday res < year_lengths (isleap (tm_year res + 1900))" "tm_wday res = (4 + t div 86400) mod 7" "tm_isdst res = 0"
    using gmtime_fields by blast
  let ?D = "day_no (tm_year res) (tm_mon res) (tm_mday res)"
  have "tm_value res = 86400 * ?D + (tm_sec res + 60 * tm_min res + 3600 * tm_hour res)" "0 \<le> tm_sec res + 60 * tm_min res + 3600 * tm_hour res"
    "tm_sec res + 60 * tm_min res + 3600 * tm_hour res < 86400"
    using res(2) by (auto simp: tm_value_def tm_in_range_def time_in_range_def)
  then have D: "?D = t div 86400" using int_div_pos_eq [of t 86400 ?D] res(3) by simp
  have "(- (2 ^ 31)) div 86400 \<le> t div 86400" "t div 86400 \<le> 2 ^ 31 div 86400" using assms(1,2) by (intro zdiv_mono1; simp)+
  then have "- 25223 \<le> year_start (tm_year res + 1900)" "year_start (tm_year res + 1900) \<le> 24855"
    using res(4-6) by (auto simp: year_lengths_def split: if_splits)
  then have "\<bar>tm_year res\<bar> \<le> 10000"
    using year_start_ge [of "tm_year res + 1900"] year_start_le [of "tm_year res + 1900"] by (cases "tm_year res \<ge> 70") auto
  from mktime_in_range [OF res(2) this] have "mktime False res tz = Some (t, res, tz)"
    using res D s32_id [OF assms(1,2)] assms(3) by simp
  with res(1) show ?thesis by blast
qed

theorem gmtime_mktime_roundtrip_witness:
  "\<exists>res. gmtime_r 951782400 UTC = Some (res, UTC) \<and> mktime False res UTC = Some (951782400, res, UTC)"
  by (rule gmtime_mktime_roundtrip) (simp_all add: UTC_def Let_def)

end
