(* ===== verification/StdNum.thy ===== *)
theory StdNum
  imports "HOL-Library.Signed_Division" CMem
begin

unbundle bit_operations_syntax

text \<open>
  The small arithmetic routines of \<^verbatim>\<open>src/runtime/libc/stdlib\<close>: absolute values and division, the
  pseudo-random generators (of \<^verbatim>\<open>rand48.c\<close> those with integer results), and the conversions between
  a \<^verbatim>\<open>long\<close> and its base-64 digits.
\<close>

section \<open>Absolute values and division\<close>

definition abs_int :: "u32 \<Rightarrow> u32" where
  "abs_int i = (if sint i < 0 then - i else i)"

definition labs :: "u32 \<Rightarrow> u32" where
  "labs x = (if sint x < 0 then - x else x)"

definition llabs :: "u64 \<Rightarrow> u64" where
  "llabs j = (if sint j < 0 then - j else j)"

record div_t =
  quot :: int
  remd :: int

text \<open>
  The machine's division truncates, so that the corrections of \<^verbatim>\<open>div\<close>, \<^verbatim>\<open>ldiv\<close> and \<^verbatim>\<open>lldiv\<close> never apply.
  \<open>None\<close> stands for the two cases in which \<^verbatim>\<open>/\<close> is undefined: the denominator 0 and a quotient that
  does not fit.
\<close>

definition div_undefined :: "nat \<Rightarrow> int \<Rightarrow> int \<Rightarrow> bool" where
  "div_undefined w num denom \<longleftrightarrow> denom = 0 \<or> num = - (2 ^ (w - 1)) \<and> denom = -1"

definition div_int :: "int \<Rightarrow> int \<Rightarrow> div_t option" where
  "div_int num denom =
     (if div_undefined 32 num denom then None
      else let q = num sdiv denom; r = num smod denom in
           if num \<ge> 0 \<and> r < 0 then Some \<lparr>quot = q + 1, remd = r - denom\<rparr>
           else if num < 0 \<and> r > 0 then Some \<lparr>quot = q - 1, remd = r + denom\<rparr>
           else Some \<lparr>quot = q, remd = r\<rparr>)"

definition ldiv :: "int \<Rightarrow> int \<Rightarrow> div_t option" where
  "ldiv num denom =
     (if div_undefined 32 num denom then None
      else let q = num sdiv denom; r = num smod denom in
           if num \<ge> 0 \<and> r < 0 then Some \<lparr>quot = q + 1, remd = r - denom\<rparr>
           else if num < 0 \<and> r > 0 then Some \<lparr>quot = q - 1, remd = r + denom\<rparr>
           else Some \<lparr>quot = q, remd = r\<rparr>)"

definition lldiv :: "int \<Rightarrow> int \<Rightarrow> div_t option" where
  "lldiv numer denom =
     (if div_undefined 64 numer denom then None
      else let q = numer sdiv denom; r = numer smod denom in
           if numer \<ge> 0 \<and> r < 0 then Some \<lparr>quot = q + 1, remd = r - denom\<rparr>
           else Some \<lparr>quot = q, remd = r\<rparr>)"

section \<open>Random numbers\<close>

type_synonym u16 = "16 word"

record rand48 =
  seed48_of :: "u16 \<times> u16 \<times> u16"
  mult48 :: "u16 \<times> u16 \<times> u16"
  add48 :: u16
  rand_next :: u64

definition srand :: "u32 \<Rightarrow> rand48 \<Rightarrow> rand48" where
  "srand seed r = r\<lparr>rand_next := ucast seed\<rparr>"

definition rand :: "rand48 \<Rightarrow> u32 \<times> rand48" where
  "rand r =
     (let n = rand_next r * 6364136223846793005 + 1 in
      (ucast (drop_bit 32 n AND 0x7fffffff), r\<lparr>rand_next := n\<rparr>))"

definition rand_r :: "u32 \<Rightarrow> u32 \<times> u32" where
  "rand_r seed =
     (let s = sint seed;
          s = (if s = 0 then 0x12345987 else s);
          k = s sdiv 127773;
          s = 16807 * (s - k * 127773) - 2836 * k;
          s = (if s < 0 then s + 2147483647 else s);
          seed = (of_int s :: u32) in
      (seed AND 0x7fffffff, seed))"

text \<open>\<^verbatim>\<open>__dorand48\<close>: the state with the next seed.  The accumulator has 32 bits.\<close>

definition dorand48 :: "rand48 \<Rightarrow> u16 \<times> u16 \<times> u16 \<Rightarrow> u16 \<times> u16 \<times> u16" where
  "dorand48 r xseed =
     (case (mult48 r, xseed) of ((m0, m1, m2), (x0, x1, x2)) \<Rightarrow>
        let accu = ucast m0 * ucast x0 + ucast (add48 r) :: u32;
            temp0 = ucast accu :: u16;
            accu = drop_bit 16 accu;
            accu = accu + (ucast m0 * ucast x1 + ucast m1 * ucast x0);
            temp1 = ucast accu :: u16;
            accu = drop_bit 16 accu;
            accu = accu + (ucast m0 * ucast x2 + ucast m1 * ucast x1 + ucast m2 * ucast x0) in
        (temp0, temp1, ucast accu))"

definition nrand48 :: "rand48 \<Rightarrow> u16 \<times> u16 \<times> u16 \<Rightarrow> u32 \<times> (u16 \<times> u16 \<times> u16)" where
  "nrand48 r xseed =
     (case dorand48 r xseed of (x0, x1, x2) \<Rightarrow> (push_bit 15 (ucast x2) + drop_bit 1 (ucast x1), (x0, x1, x2)))"

definition jrand48 :: "rand48 \<Rightarrow> u16 \<times> u16 \<times> u16 \<Rightarrow> u32 \<times> (u16 \<times> u16 \<times> u16)" where
  "jrand48 r xseed =
     (case dorand48 r xseed of (x0, x1, x2) \<Rightarrow> (push_bit 16 (ucast x2) + ucast x1, (x0, x1, x2)))"

definition lrand48 :: "rand48 \<Rightarrow> u32 \<times> rand48" where
  "lrand48 r =
     (case dorand48 r (seed48_of r) of (x0, x1, x2) \<Rightarrow>
        (push_bit 15 (ucast x2) + drop_bit 1 (ucast x1), r\<lparr>seed48_of := (x0, x1, x2)\<rparr>))"

definition mrand48 :: "rand48 \<Rightarrow> u32 \<times> rand48" where
  "mrand48 r =
     (case dorand48 r (seed48_of r) of (x0, x1, x2) \<Rightarrow> (push_bit 16 (ucast x2) + ucast x1, r\<lparr>seed48_of := (x0, x1, x2)\<rparr>))"

definition srand48 :: "u32 \<Rightarrow> rand48 \<Rightarrow> rand48" where
  "srand48 seed r = r\<lparr>seed48_of := (0x330e, ucast seed, ucast (drop_bit 16 seed)),
     mult48 := (0xe66d, 0xdeec, 0x0005), add48 := 0x000b\<rparr>"

text \<open>The old seed and the state.\<close>

definition seed48 :: "u16 \<times> u16 \<times> u16 \<Rightarrow> rand48 \<Rightarrow> (u16 \<times> u16 \<times> u16) \<times> rand48" where
  "seed48 xseed r = (seed48_of r, r\<lparr>seed48_of := xseed, mult48 := (0xe66d, 0xdeec, 0x0005), add48 := 0x000b\<rparr>)"

definition lcong48 :: "(u16 \<times> u16 \<times> u16) \<Rightarrow> (u16 \<times> u16 \<times> u16) \<Rightarrow> u16 \<Rightarrow> rand48 \<Rightarrow> rand48" where
  "lcong48 p012 p345 p6 r = r\<lparr>seed48_of := p012, mult48 := p345, add48 := p6\<rparr>"

section \<open>Base 64\<close>

definition R64_ARRAY :: "byte list" where
  "R64_ARRAY = map of_nat ([46, 47] @ [48 ..< 58] @ [65 ..< 91] @ [97 ..< 123])"

text \<open>\<^verbatim>\<open>for (i = 0; i < 6; ++i)\<close> of \<^verbatim>\<open>_l64a_r\<close>\<close>

primrec l64a_loop :: "nat \<Rightarrow> mem \<Rightarrow> addr \<Rightarrow> u32 \<Rightarrow> mem option" where
  "l64a_loop 0 m ptr tmp = Some m"
| "l64a_loop (Suc i) m ptr tmp =
     (if tmp = 0 then store8 m ptr 0
      else do { m \<leftarrow> store8 m ptr (R64_ARRAY ! unat (tmp AND 63)); l64a_loop i m (ptr + 1) (drop_bit 6 tmp) })"

text \<open>\<open>buf\<close> is the buffer of the reentrancy structure.\<close>

definition l64a :: "mem \<Rightarrow> addr \<Rightarrow> u32 \<Rightarrow> (addr \<times> mem) option" where
  "l64a m buf value = do { m \<leftarrow> l64a_loop 6 m buf value; Some (buf, m) }"

primrec a64l_end :: "nat \<Rightarrow> mem \<Rightarrow> addr \<Rightarrow> addr option" where
  "a64l_end 0 m ptr = Some ptr"
| "a64l_end (Suc i) m ptr = do { c \<leftarrow> load8 m ptr; a64l_end i m (if c \<noteq> 0 then ptr + 1 else ptr) }"

definition a64l_digit :: "byte \<Rightarrow> u32" where
  "a64l_digit ch =
     (if ch = 47 then 1
      else if 48 \<le> ch \<and> ch \<le> 57 then ucast ch - 48 + 2
      else if 65 \<le> ch \<and> ch \<le> 90 then ucast ch - 65 + 12
      else if 97 \<le> ch \<and> ch \<le> 122 then ucast ch - 65 + 38
      else 0)"

fun a64l_loop :: "nat \<Rightarrow> mem \<Rightarrow> addr \<Rightarrow> u32 \<Rightarrow> u32 option" where
  "a64l_loop 0 m input result = Some result"
| "a64l_loop (Suc n) m input result =
     do { ch \<leftarrow> load8 m (input + n); a64l_loop n m input (push_bit 6 result + a64l_digit ch) }"

definition a64l :: "mem \<Rightarrow> addr \<Rightarrow> u32 option" where
  "a64l m input = (if input = NULL then Some 0 else do { ptr \<leftarrow> a64l_end 6 m input; a64l_loop (ptr - input) m input 0 })"

section \<open>Division and minimal standard generator\<close>

lemma smod_int_sign:
  fixes num denom :: int
  shows "denom \<noteq> 0 \<Longrightarrow> (0 \<le> num \<longrightarrow> 0 \<le> num smod denom) \<and> (num < 0 \<longrightarrow> num smod denom \<le> 0)"
  using pos_mod_sign [of "\<bar>denom\<bar>" num] pos_mod_sign [of "\<bar>denom\<bar>" "- num"]
  by (simp add: smod_int_alt_def sgn_if)

lemma div_eq:
  "\<not> div_undefined 32 num denom \<Longrightarrow> div_int num denom = Some \<lparr>quot = num sdiv denom, remd = num smod denom\<rparr>"
  "\<not> div_undefined 32 num denom \<Longrightarrow> ldiv num denom = Some \<lparr>quot = num sdiv denom, remd = num smod denom\<rparr>"
  "\<not> div_undefined 64 num denom \<Longrightarrow> lldiv num denom = Some \<lparr>quot = num sdiv denom, remd = num smod denom\<rparr>"
  using smod_int_sign [of denom num]
  by (auto simp: div_int_def ldiv_def lldiv_def Let_def) (simp_all add: div_undefined_def)

lemma schrage:
  fixes s :: int
  assumes "0 < s" "s < 2147483647"
  shows "(let v = 16807 * (s - s sdiv 127773 * 127773) - 2836 * (s sdiv 127773) in
          if v < 0 then v + 2147483647 else v) = 16807 * s mod 2147483647"
proof -
  define k r where "k = s div 127773" and "r = s mod 127773"
  define v where "v = 16807 * r - 2836 * k"
  have sd: "s sdiv 127773 = k" using assms(1) by (simp add: signed_divide_int_def k_def)
  have k: "0 \<le> k" "k \<le> 16807"
    using assms zdiv_mono1 [of s 2147483646 127773] by (auto simp: k_def pos_imp_zdiv_nonneg_iff)
  have r: "0 \<le> r" "r < 127773" by (simp_all add: r_def)
  have s: "s = 127773 * k + r" by (simp add: k_def r_def)
  have e: "16807 * s = 2147483647 * k + v" unfolding s v_def by simp
  have e': "16807 * s = 2147483647 * (k - 1) + (v + 2147483647)" unfolding s v_def by simp
  have "(if v < 0 then v + 2147483647 else v) = 16807 * s mod 2147483647"
    using int_mod_pos_eq [OF e] int_mod_pos_eq [OF e'] k r by (auto simp: v_def)
  moreover have "16807 * (s - k * 127773) - 2836 * k = v" unfolding s v_def by simp
  ultimately show ?thesis unfolding sd Let_def by (simp only: )
qed

lemma sint_small:
  assumes "unat (w :: u32) < 2 ^ 31"
  shows "sint w = int (unat w)"
proof -
  have "int (unat w) < 2 ^ 31" using assms by (simp only: of_nat_less_iff [symmetric, where ?'a = int]) simp
  then have "uint w < 2 ^ 31" by (simp only: of_nat_unat)
  then have "signed_take_bit 31 (uint w) = uint w" by (intro signed_take_bit_int_eq_self order_trans [OF _ uint_ge_0]) simp_all
  moreover have "sint w = signed_take_bit 31 (uint w)" by (simp add: sint_uint)
  ultimately show ?thesis by (simp only: of_nat_unat)
qed

lemma take_bit_of_int_small:
  assumes "0 \<le> v" "v < 2 ^ 31"
  shows "take_bit 31 (of_int v :: u32) = of_int v"
proof -
  have "uint (take_bit 31 (of_int v :: u32)) = uint (of_int v :: u32)"
    using assms by (simp add: unsigned_take_bit_eq uint_word_of_int take_bit_int_eq_self)
  then show ?thesis by (simp only: word_uint_eq_iff)
qed

text \<open>\<^verbatim>\<open>rand_r\<close> is the minimal standard generator: Schrage's division keeps every product within 31 bits.\<close>

lemma rand_r_minimal_standard:
  assumes "0 < unat seed" "unat seed < 2147483647"
  shows "rand_r seed = (let s = of_int (16807 * int (unat seed) mod 2147483647) in (s, s))"
proof -
  define s where "s = int (unat seed)"
  have si: "sint seed = s" using assms by (simp add: sint_small s_def del: of_nat_unat)
  have s: "0 < s" "s < 2147483647" "s \<noteq> 0" using assms by (simp_all add: s_def del: of_nat_unat)
  let ?v = "16807 * s mod 2147483647"
  have "of_int ?v AND (0x7fffffff :: u32) = take_bit 31 (of_int ?v)"
    by (simp add: take_bit_eq_mask mask_eq_exp_minus_1)
  also have "\<dots> = of_int ?v"
    by (rule take_bit_of_int_small) simp_all
  finally have m: "of_int ?v AND (0x7fffffff :: u32) = of_int ?v" .
  show ?thesis
    using schrage [OF s(1,2)] s(3) unfolding rand_r_def si s_def [symmetric]
    by (simp only: Let_def if_False simp_thms m)
qed

section \<open>The 48-bit generator\<close>

definition val48 :: "u16 \<times> u16 \<times> u16 \<Rightarrow> nat" where
  "val48 x = (case x of (x0, x1, x2) \<Rightarrow> unat x0 + 2 ^ 16 * unat x1 + 2 ^ 32 * unat x2)"

lemma mod3_digits:
  fixes w a b c d :: nat
  assumes "0 < w"
  shows "(a + w * b + w * w * c + w * w * w * d) mod (w * w * w) =
    a mod w + w * ((a div w + b) mod w) + w * w * (((a div w + b) mod (w * w) div w + c) mod w)"
proof -
  have 1: "(a + w * b + w * w * c + w * w * w * d) mod w = a mod w" 
    by (simp add: mult.assoc)
  have "a + w * b + w * w * c + w * w * w * d = a + w * (b + w * (c + w * d))" by (simp add: algebra_simps)
  then have 2: "(a + w * b + w * w * c + w * w * w * d) div w = a div w + b + w * (c + w * d)"
    using assms by (simp only: div_mult_self2 add.assoc)
  have 3: "(a div w + b) mod (w * w) div w mod w = (a div w + b) div w mod w"
    by (simp add: mod_mult2_eq assms)
  have 4: "(a div w + b + w * (c + w * d)) div w mod w = ((a div w + b) div w + c) mod w"
    using assms by (simp add: add.assoc [symmetric]) (metis add.assoc add.commute mod_mult_self2)
  have "(a + w * b + w * w * c + w * w * w * d) mod (w * (w * w)) =
    w * (w * (((a div w + b) div w + c) mod w) + (a div w + b) mod w) + a mod w"
    by (simp only: mod_mult2_eq 1 2 4) (simp add: mult.commute)
  also have "((a div w + b) div w + c) mod w = ((a div w + b) mod (w * w) div w + c) mod w"
    using 3 by (metis mod_add_left_eq)
  finally show ?thesis by (simp add: algebra_simps)
qed

text \<open>
  C31: one step of the generator replaces the 48-bit number held in three 16-bit words by
  \<open>a \<cdot> x + c\<close> modulo \<open>2\<^sup>4\<^sup>8\<close>, for every multiplier \<open>a\<close> and addend \<open>c\<close>: the carry that the 32-bit
  accumulator can lose in the middle sum belongs to bit 48.
\<close>

theorem dorand48_correct:
  "val48 (dorand48 r x) = (val48 (mult48 r) * val48 x + unat (add48 r)) mod 2 ^ 48"
proof -
  obtain m0 m1 m2 where m: "mult48 r = (m0, m1, m2)" by (cases "mult48 r")
  obtain x0 x1 x2 where x: "x = (x0, x1, x2)" by (cases x)
  define a b c where "a = unat m0 * unat x0 + unat (add48 r)" and "b = unat m0 * unat x1 + unat m1 * unat x0"
    and "c = unat m0 * unat x2 + unat m1 * unat x1 + unat m2 * unat x0"
  define A B C :: u32 where "A = ucast m0 * ucast x0 + ucast (add48 r)"
    and "B = drop_bit 16 A + (ucast m0 * ucast x1 + ucast m1 * ucast x0)"
    and "C = drop_bit 16 B + (ucast m0 * ucast x2 + ucast m1 * ucast x1 + ucast m2 * ucast x0)"
  have up: "unat (ucast w :: u32) = unat w" for w :: u16
    using unsigned_less [of w, where ?'a = nat] by (simp add: unsigned_ucast_eq take_bit_nat_eq_self)
  have down: "unat (ucast w :: u16) = unat w mod 65536" for w :: u32
    by (simp add: unsigned_ucast_eq take_bit_eq_mod)
  have lt: "unat w \<le> 65535" for w :: u16 using unsigned_less [of w, where ?'a = nat] by simp
  have "a \<le> 65535 * 65535 + 65535"
    using lt unfolding a_def by (intro add_mono mult_mono) simp_all
  then have A: "unat A = a"
    by (simp add: A_def a_def up unat_word_ariths)
  have B: "unat B = (a div 65536 + b) mod (65536 * 65536)"
    by (simp add: B_def b_def up unat_word_ariths unat_drop_bit_eq A drop_bit_eq_div mod_simps)
  have "unat C = (unat B div 65536 + c) mod (65536 * 65536)"
    by (simp add: C_def c_def up unat_word_ariths unat_drop_bit_eq drop_bit_eq_div mod_simps)
  then have C: "unat C mod 65536 = ((a div 65536 + b) mod (65536 * 65536) div 65536 + c) mod 65536"
    by (simp only: B mod_mult_right_eq mod_mod_cancel dvd_triv_left)
  have "dorand48 r x = (ucast A, ucast B, ucast C)"
    by (simp add: dorand48_def m x Let_def A_def B_def C_def)
  then have "val48 (dorand48 r x) = (a + 65536 * b + 65536 * 65536 * c +
      65536 * 65536 * 65536 * (unat m1 * unat x2 + unat m2 * unat x1 + 65536 * (unat m2 * unat x2))) mod (65536 * 65536 * 65536)"
    by (subst mod3_digits) (simp_all add: val48_def down A B C [simplified B] mod_mod_cancel)
  also have "\<dots> = (val48 (mult48 r) * val48 x + unat (add48 r)) mod 2 ^ 48"
    by (simp add: val48_def m x a_def b_def c_def algebra_simps)
  finally show ?thesis .
qed

section \<open>Base-64 digits\<close>

text \<open>
  \<^verbatim>\<open>a64l\<close> reads the digits of \<^verbatim>\<open>l64a\<close> back up to \<^verbatim>\<open>Z\<close>; a lowercase letter is taken relative to \<^verbatim>\<open>'A'\<close>
  and counts 32 too many.
\<close>

lemma length_R64_ARRAY: "length R64_ARRAY = 64"
  by (simp add: R64_ARRAY_def)

lemma a64l_digit_table:
  "map a64l_digit R64_ARRAY = map (\<lambda>i. of_nat (if i < 38 then i else i + 32)) [0 ..< 64]"
  by (simp add: R64_ARRAY_def a64l_digit_def upt_rec)

lemma a64l_digit_R64:
  assumes "i < 64"
  shows "a64l_digit (R64_ARRAY ! i) = of_nat (if i < 38 then i else i + 32)"
proof -
  have "a64l_digit (R64_ARRAY ! i) = map a64l_digit R64_ARRAY ! i"
    using assms by (simp add: length_R64_ARRAY)
  also have "\<dots> = of_nat (if i < 38 then i else i + 32)"
    unfolding a64l_digit_table using assms by (subst nth_map) (simp_all del: upt_Suc)
  finally show ?thesis .
qed

end
