(* ===== verification/Bignum.thy ===== *)
theory Bignum
  imports CMem
begin

unbundle bit_operations_syntax

text \<open>
  Integers of any size: \<^verbatim>\<open>src/runtime/libc/stdlib/mprec.c\<close>, compiled with
  \<^verbatim>\<open>Pack_32\<close> (32 bits to a word) for an IEEE machine.

  A \<^verbatim>\<open>_Bigint\<close> is a record, its flexible array the list of its \<open>maxwds\<close> words.  A number belongs to the
  one variable that points to it, so that the routines take and return the records; the state holds
  the free lists and the chain of powers of 5 that \<^verbatim>\<open>struct _reent\<close> owns.  \<^verbatim>\<open>calloc\<close> is outside the
  model: the state says how many more of its calls will succeed.  \<open>None\<close> is a fault, as following
  the null pointer of a failed allocation is.
\<close>

section \<open>Data\<close>

record Bigint =
  big_k :: nat
  big_maxwds :: nat
  big_sign :: int
  big_wds :: nat
  big_x :: "u32 list"

record mp_state =
  freelist :: "Bigint list list option"
  p5s :: "Bigint list"
  callocs :: nat

definition Kmax :: nat where
  "Kmax = 15"

definition calloc :: "mp_state \<Rightarrow> bool \<times> mp_state" where
  "calloc s = (if callocs s = 0 then (False, s) else (True, s\<lparr>callocs := callocs s - 1\<rparr>))"

text \<open>The first part of \<^verbatim>\<open>Balloc\<close>: the table of the free lists, or \<open>None\<close> when it cannot be had.\<close>

definition get_freelist :: "mp_state \<Rightarrow> Bigint list list option \<times> mp_state" where
  "get_freelist s =
     (case freelist s of
        Some fl \<Rightarrow> (Some fl, s)
      | None \<Rightarrow> (case calloc s of
                  (False, s) \<Rightarrow> (None, s)
                | (True, s) \<Rightarrow> let fl = replicate (Kmax + 1) [] in (Some fl, s\<lparr>freelist := Some fl\<rparr>)))"

definition Balloc :: "nat \<Rightarrow> mp_state \<Rightarrow> (Bigint option \<times> mp_state) option" where
  "Balloc k s =
     (case get_freelist s of
        (None, s) \<Rightarrow> Some (None, s)
      | (Some fl, s) \<Rightarrow>
          if length fl \<le> k then None
          else case fl ! k of
            rv # rest \<Rightarrow> Some (Some (rv\<lparr>big_sign := 0, big_wds := 0\<rparr>), s\<lparr>freelist := Some (fl[k := rest])\<rparr>)
          | [] \<Rightarrow> (case calloc s of
                     (False, s) \<Rightarrow> Some (None, s)
                   | (True, s) \<Rightarrow> let x = 2 ^ k in
                       Some (Some \<lparr>big_k = k, big_maxwds = x, big_sign = 0, big_wds = 0, big_x = replicate x 0\<rparr>, s)))"

text \<open>The callers of \<^verbatim>\<open>Balloc\<close> follow its result.\<close>

definition Balloc_used :: "nat \<Rightarrow> mp_state \<Rightarrow> (Bigint \<times> mp_state) option" where
  "Balloc_used k s = do { (rv, s) \<leftarrow> Balloc k s; b \<leftarrow> rv; Some (b, s) }"

definition Bfree :: "Bigint \<Rightarrow> mp_state \<Rightarrow> mp_state option" where
  "Bfree v s =
     do { fl \<leftarrow> freelist s;
          if length fl \<le> big_k v then None
          else Some (s\<lparr>freelist := Some (fl[big_k v := v # fl ! big_k v])\<rparr>) }"

text \<open>\<^verbatim>\<open>Bcopy\<close> copies the sign, the number of words and the words in use.\<close>

definition Bcopy :: "Bigint \<Rightarrow> Bigint \<Rightarrow> Bigint option" where
  "Bcopy x y =
     (if length (big_x x) < big_wds y \<or> length (big_x y) < big_wds y then None
      else Some (x\<lparr>big_sign := big_sign y, big_wds := big_wds y,
                   big_x := take (big_wds y) (big_x y) @ drop (big_wds y) (big_x x)\<rparr>))"

definition set_word :: "nat \<Rightarrow> u32 \<Rightarrow> Bigint \<Rightarrow> Bigint option" where
  "set_word i w b = (if i < length (big_x b) then Some (b\<lparr>big_x := (big_x b)[i := w]\<rparr>) else None)"

definition get_word :: "Bigint \<Rightarrow> nat \<Rightarrow> u32 option" where
  "get_word b i = (if i < length (big_x b) then Some (big_x b ! i) else None)"

abbreviation lo16 :: "u32 \<Rightarrow> u32" where
  "lo16 w \<equiv> w AND 0xffff"

abbreviation hi16 :: "u32 \<Rightarrow> u32" where
  "hi16 w \<equiv> drop_bit 16 w"

text \<open>\<^verbatim>\<open>Storeinc(a, b, c)\<close>: the word stored\<close>

definition Storeinc :: "u32 \<Rightarrow> u32 \<Rightarrow> u32" where
  "Storeinc b c = push_bit 16 b OR lo16 c"

section \<open>Multiplication and addition of small numbers\<close>

primrec multadd_loop :: "u32 \<Rightarrow> u32 list \<Rightarrow> u32 \<Rightarrow> u32 list \<times> u32" where
  "multadd_loop m [] a = ([], a)"
| "multadd_loop m (xi # xs) a =
     (let y = lo16 xi * m + a;
          z = hi16 xi * m + hi16 y;
          (ws, a) = multadd_loop m xs (hi16 z) in
      ((push_bit 16 z + lo16 y) # ws, a))"

definition make_room :: "Bigint \<Rightarrow> mp_state \<Rightarrow> (Bigint \<times> mp_state) option" where
  "make_room b s =
     (if big_wds b \<ge> big_maxwds b
      then do { (b1, s) \<leftarrow> Balloc_used (big_k b + 1) s;
                b1 \<leftarrow> Bcopy b1 b;
                s \<leftarrow> Bfree b s;
                Some (b1, s) }
      else Some (b, s))"

definition multadd :: "Bigint \<Rightarrow> u32 \<Rightarrow> u32 \<Rightarrow> mp_state \<Rightarrow> (Bigint \<times> mp_state) option" where
  "multadd b m a s =
     (let wds = big_wds b; n = max 1 wds in
      if length (big_x b) < n then None
      else let (ws, a) = multadd_loop m (take n (big_x b)) a;
               b = b\<lparr>big_x := ws @ drop n (big_x b)\<rparr> in
           if a = 0 then Some (b, s)
           else do { (b, s) \<leftarrow> make_room b s;
                     b \<leftarrow> set_word wds a b;
                     Some (b\<lparr>big_wds := wds + 1\<rparr>, s) })"

text \<open>\<^verbatim>\<open>for (k = 0, y = 1; x > y; y <<= 1, k++);\<close>\<close>

function s2b_k :: "nat \<Rightarrow> nat \<Rightarrow> nat \<Rightarrow> nat" where
  "s2b_k x y k = (if x > y \<and> y \<noteq> 0 then s2b_k x (2 * y) (k + 1) else k)"
  by pat_completeness auto
termination by (relation "measure (\<lambda>(x, y, k). x - y)") auto

text \<open>\<open>n\<close> times \<^verbatim>\<open>b = multadd (ptr, b, 10, *s++ - '0')\<close>\<close>

primrec s2b_digits :: "nat \<Rightarrow> mem \<Rightarrow> addr \<Rightarrow> Bigint \<Rightarrow> mp_state \<Rightarrow> (Bigint \<times> addr \<times> mp_state) option" where
  "s2b_digits 0 m p b s = Some (b, p, s)"
| "s2b_digits (Suc n) m p b s =
     do { c \<leftarrow> load8 m p;
          (b, s) \<leftarrow> multadd b 10 (of_int (sint c - 48)) s;
          s2b_digits n m (p + 1) b s }"

definition s2b :: "mem \<Rightarrow> addr \<Rightarrow> nat \<Rightarrow> nat \<Rightarrow> u32 \<Rightarrow> mp_state \<Rightarrow> (Bigint \<times> mp_state) option" where
  "s2b m p nd0 nd y9 s =
     do { (b, s) \<leftarrow> Balloc_used (s2b_k ((nd + 8) div 9) 1 0) s;
          b \<leftarrow> set_word 0 y9 b;
          let b = b\<lparr>big_wds := 1\<rparr>;
          (b, p, s, i) \<leftarrow>
            (if 9 < nd0
             then do { (b, p, s) \<leftarrow> s2b_digits (nd0 - 9) m (p + 9) b s; Some (b, p + 1, s, nd0) }
             else Some (b, p + 10, s, 9));
          (b, p, s) \<leftarrow> s2b_digits (nd - i) m p b s;
          Some (b, s) }"

section \<open>Multiplication\<close>

definition i2b :: "u32 \<Rightarrow> mp_state \<Rightarrow> (Bigint \<times> mp_state) option" where
  "i2b i s = do { (b, s) \<leftarrow> Balloc_used 1 s; b \<leftarrow> set_word 0 i b; Some (b\<lparr>big_wds := 1\<rparr>, s) }"

text \<open>
  The two inner loops of \<^verbatim>\<open>mult\<close>, for the low and the high half of a word of \<open>b\<close>: the words of \<open>a\<close>, and
  the words of \<open>c\<close> from \<^verbatim>\<open>xc0\<close> on, which they replace.
\<close>

fun mult_lo :: "u32 \<Rightarrow> u32 list \<Rightarrow> u32 list \<Rightarrow> u32 \<Rightarrow> u32 list option" where
  "mult_lo y (x # xs) (c # cs) carry =
     (let z = lo16 x * y + lo16 c + carry;
          z2 = hi16 x * y + hi16 c + hi16 z in
      do { cs \<leftarrow> mult_lo y xs cs (hi16 z2); Some (Storeinc z2 z # cs) })"
| "mult_lo y [] (c # cs) carry = Some (carry # cs)"
| "mult_lo y xs [] carry = None"

fun mult_hi :: "u32 \<Rightarrow> u32 list \<Rightarrow> u32 list \<Rightarrow> u32 \<Rightarrow> u32 \<Rightarrow> u32 list option" where
  "mult_hi y (x # xs) (c # c' # cs) carry z2 =
     (let z = lo16 x * y + hi16 c + carry;
          w = Storeinc z z2;
          z2 = hi16 x * y + lo16 c' + hi16 z in
      do { cs \<leftarrow> mult_hi y xs (c' # cs) (hi16 z2) z2; Some (w # cs) })"
| "mult_hi y [] (c # cs) carry z2 = Some (z2 # cs)"
| "mult_hi y xs cs carry z2 = None"

primrec mult_loop :: "u32 list \<Rightarrow> u32 list \<Rightarrow> u32 list \<Rightarrow> u32 list option" where
  "mult_loop [] xa xc0 = Some xc0"
| "mult_loop (xb # xbs) xa xc0 =
     do { xc0 \<leftarrow> (let y = lo16 xb in if y \<noteq> 0 then mult_lo y xa xc0 0 else Some xc0);
          xc0 \<leftarrow> (let y = hi16 xb in if y \<noteq> 0 then mult_hi y xa xc0 0 (hd xc0) else Some xc0);
          case xc0 of [] \<Rightarrow> None
          | c # cs \<Rightarrow> do { cs \<leftarrow> mult_loop xbs xa cs; Some (c # cs) } }"

text \<open>\<^verbatim>\<open>for (...; wc > 0 && !*--xc; --wc);\<close>\<close>

primrec trim :: "nat \<Rightarrow> u32 list \<Rightarrow> nat" where
  "trim 0 xs = 0"
| "trim (Suc wc) xs = (if xs ! wc = 0 then trim wc xs else Suc wc)"

definition multiply :: "Bigint \<Rightarrow> Bigint \<Rightarrow> mp_state \<Rightarrow> (Bigint \<times> mp_state) option" where
  "multiply a b s =
     (let (a, b) = (if big_wds a < big_wds b then (b, a) else (a, b));
          wa = big_wds a; wb = big_wds b; wc = wa + wb;
          k = (if wc > big_maxwds a then big_k a + 1 else big_k a) in
      do { (c, s) \<leftarrow> Balloc_used k s;
           if length (big_x c) < wc \<or> length (big_x a) < wa \<or> length (big_x b) < wb then None
           else do { ws \<leftarrow> mult_loop (take wb (big_x b)) (take wa (big_x a)) (replicate wc 0);
                     Some (c\<lparr>big_x := ws @ drop wc (big_x c), big_wds := trim wc ws\<rparr>, s) } })"

text \<open>
  The loop of \<^verbatim>\<open>pow5mult\<close>: \<open>i\<close> is the place of \<^verbatim>\<open>p5\<close> in the chain, which grows when its end is reached.
\<close>

function pow5_loop :: "nat \<Rightarrow> nat \<Rightarrow> Bigint \<Rightarrow> mp_state \<Rightarrow> (Bigint \<times> mp_state) option" where
  "pow5_loop k i b s =
     (if length (p5s s) \<le> i then None
      else do { let p5 = p5s s ! i;
                (b, s) \<leftarrow> (if k mod 2 = 1
                            then do { (b1, s) \<leftarrow> multiply b p5 s; s \<leftarrow> Bfree b s; Some (b1, s) }
                            else Some (b, s));
                if k div 2 = 0 then Some (b, s)
                else do { s \<leftarrow> (if length (p5s s) = i + 1
                                 then do { (p51, s) \<leftarrow> multiply p5 p5 s; Some (s\<lparr>p5s := p5s s @ [p51]\<rparr>) }
                                 else Some s);
                          pow5_loop (k div 2) (i + 1) b s } })"
  by pat_completeness auto
termination by (relation "measure (\<lambda>(k, i, b, s). k)") auto

definition p05 :: "u32 list" where
  "p05 = [5, 25, 125]"

definition pow5mult :: "Bigint \<Rightarrow> nat \<Rightarrow> mp_state \<Rightarrow> (Bigint \<times> mp_state) option" where
  "pow5mult b k s =
     do { (b, s) \<leftarrow> (let i = k mod 4 in if i \<noteq> 0 then multadd b (p05 ! (i - 1)) 0 s else Some (b, s));
          if k div 4 = 0 then Some (b, s)
          else do { s \<leftarrow> (if p5s s = [] then do { (p5, s) \<leftarrow> i2b 625 s; Some (s\<lparr>p5s := [p5]\<rparr>) } else Some s);
                    pow5_loop (k div 4) 0 b s } }"

section \<open>Shift\<close>

text \<open>\<^verbatim>\<open>for (i = b->_maxwds; n1 > i; i <<= 1) k1++;\<close>\<close>

function shift_k :: "nat \<Rightarrow> nat \<Rightarrow> nat \<Rightarrow> nat" where
  "shift_k n1 i k1 = (if n1 > i \<and> i \<noteq> 0 then shift_k n1 (2 * i) (k1 + 1) else k1)"
  by pat_completeness auto
termination by (relation "measure (\<lambda>(n1, i, k1). n1 - i)") auto

primrec shift_loop :: "nat \<Rightarrow> u32 list \<Rightarrow> u32 \<Rightarrow> u32 list \<times> u32" where
  "shift_loop k [] z = ([], z)"
| "shift_loop k (x # xs) z =
     (let (ws, z') = shift_loop k xs (drop_bit (32 - k) x) in ((push_bit k x OR z) # ws, z'))"

declare s2b_k.simps [simp del] pow5_loop.simps [simp del] shift_k.simps [simp del]

definition shift_words :: "nat \<Rightarrow> u32 list \<Rightarrow> nat \<Rightarrow> u32 list \<times> nat" where
  "shift_words k xs n1 =
     (if k \<noteq> 0 then let (ws, z) = shift_loop k xs 0 in (ws @ [z], if z \<noteq> 0 then n1 + 1 else n1) else (xs, n1))"

definition lshift :: "Bigint \<Rightarrow> nat \<Rightarrow> mp_state \<Rightarrow> (Bigint \<times> mp_state) option" where
  "lshift b k s =
     (let n = k div 32; n1 = n + big_wds b + 1; len = max 1 (big_wds b) in
      do { (b1, s) \<leftarrow> Balloc_used (shift_k n1 (big_maxwds b) (big_k b)) s;
           if length (big_x b) < len then None
           else let (ws, n1) = shift_words (k mod 32) (take len (big_x b)) n1;
                    ws = replicate n 0 @ ws in
                if length (big_x b1) < length ws then None
                else do { s \<leftarrow> Bfree b s;
                          Some (b1\<lparr>big_x := ws @ drop (length ws) (big_x b1), big_wds := n1 - 1\<rparr>, s) } })"

section \<open>Halves of words\<close>

lemma lo16_take_bit: "lo16 w = take_bit 16 w"
  by (simp add: take_bit_eq_mask mask_eq_exp_minus_1)

lemma unat_lo16: "unat (lo16 w) = unat w mod 65536"
  unfolding lo16_take_bit by (simp only: unsigned_take_bit_eq) (simp add: take_bit_eq_mod)

lemma unat_hi16: "unat (hi16 w) = unat w div 65536"
  by (simp only: unat_drop_bit_eq) (simp add: drop_bit_eq_div)

lemma unat32_less: "unat (w :: u32) < 4294967296"
  using unsigned_less [of w, where ?'a = nat] by simp

lemma hi16_less: "unat w div 65536 < 65536" for w :: u32
  using unat32_less [of w] by (simp add: less_mult_imp_div_less)

lemma add32: "unat x + unat y < 4294967296 \<Longrightarrow> unat (x + y :: u32) = unat x + unat y"
  by (simp add: unat_word_ariths)

lemma mult32: "unat x * unat y < 4294967296 \<Longrightarrow> unat (x * y :: u32) = unat x * unat y"
  by (simp add: unat_word_ariths)

lemma unat_push16: "unat (push_bit 16 b :: u32) = unat b mod 65536 * 65536"
proof -
  have "unat (push_bit 16 b :: u32) = unat b * 65536 mod (65536 * 65536)"
    by (simp add: push_bit_eq_mult unat_word_ariths)
  then show ?thesis by (simp only: mult_mod_left)
qed

lemma unat_push16_add: "unat (push_bit 16 b + lo16 c :: u32) = unat b mod 65536 * 65536 + unat c mod 65536"
proof -
  have "unat b mod 65536 * 65536 \<le> 65535 * 65536" by (intro mult_right_mono) simp_all
  then show ?thesis by (subst add32) (simp_all add: unat_push16 unat_lo16, linarith?)
qed

lemma unat_Storeinc: "unat (Storeinc b c) = unat b mod 65536 * 65536 + unat c mod 65536"
proof -
  have "Storeinc b c = push_bit 16 b + lo16 c"
    unfolding Storeinc_def lo16_take_bit
    by (rule disjunctive_add_eq_or [symmetric], rule bit_eqI) (auto simp add: bit_simps)
  then show ?thesis by (simp only: unat_push16_add)
qed

section \<open>The value of a sequence of words\<close>

abbreviation W :: nat where
  "W \<equiv> 4294967296"

primrec wval :: "u32 list \<Rightarrow> nat" where
  "wval [] = 0"
| "wval (x # xs) = unat x + W * wval xs"

lemma wval_append: "wval (xs @ ys) = wval xs + W ^ length xs * wval ys"
  by (induction xs) (simp_all add: algebra_simps)

lemma wval_replicate_0 [simp]: "wval (replicate n 0) = 0"
  by (induction n) simp_all

lemma wval_less: "wval xs < W ^ length xs"
proof (induction xs)
  case (Cons x xs)
  have "unat x + W * wval xs < W + W * wval xs" using unat32_less [of x] by simp
  also have "\<dots> = W * Suc (wval xs)" by simp
  also have "\<dots> \<le> W * W ^ length xs" using Cons by (intro mult_left_mono) simp_all
  finally show ?case by simp
qed simp

lemma wval_drop_zero: "(\<forall>x \<in> set ys. x = 0) \<Longrightarrow> wval (xs @ ys) = wval xs"
  by (induction ys rule: rev_induct) (auto simp: wval_append append_assoc [symmetric] simp del: append_assoc)

section \<open>Multiplication by a small number\<close>

lemma halves: "unat w = unat w div 65536 * 65536 + unat w mod 65536" for w :: u32
  by simp

lemma carry_out: "a mod 65536 * 65536 + c + W * (a div 65536) = a * 65536 + c"
proof -
  define q r where "q = a div 65536" and "r = a mod 65536"
  have a: "65536 * q + r = a" by (simp add: q_def r_def)
  have "r * 65536 + c + W * q = (65536 * q + r) * 65536 + c" by simp
  then show ?thesis unfolding a unfolding q_def r_def .
qed

lemma multadd_step:
  fixes m a x :: u32
  assumes "unat m \<le> 65536" "unat a < 65536"
  defines "y \<equiv> lo16 x * m + a"
  defines "z \<equiv> hi16 x * m + hi16 y"
  shows "unat (push_bit 16 z + lo16 y) + W * unat (hi16 z) = unat m * unat x + unat a" "unat (hi16 z) < 65536"
proof -
  define l h where "l = unat x mod 65536" and "h = unat x div 65536"
  have x: "unat x = h * 65536 + l" by (simp add: l_def h_def)
  have lh: "l \<le> 65535" "h \<le> 65535" using hi16_less [of x] by (simp_all add: l_def h_def)
  have lm: "l * unat m \<le> 65535 * 65536" "h * unat m \<le> 65535 * 65536" using lh assms(1) by (intro mult_mono; simp)+
  have lx: "unat (lo16 x * m) = l * unat m" "unat (hi16 x * m) = h * unat m"
    using lm by (subst mult32; simp add: unat_lo16 unat_hi16 l_def h_def)+
  have y: "unat y = l * unat m + unat a" unfolding y_def using lm assms(2) by (subst add32) (simp_all add: lx)
  have hy: "unat y div 65536 < 65536" by (rule hi16_less)
  have z: "unat z = h * unat m + unat y div 65536"
    unfolding z_def using lm hy by (subst add32) (simp_all add: lx unat_hi16)
  have "unat (push_bit 16 z + lo16 y) + W * unat (hi16 z) = unat z * 65536 + unat y mod 65536"
    by (simp add: unat_push16_add unat_hi16 carry_out)
  also have "\<dots> = h * unat m * 65536 + unat y" unfolding z by (simp add: algebra_simps)
  also have "\<dots> = unat m * unat x + unat a" unfolding y x by (simp add: algebra_simps)
  finally show "unat (push_bit 16 z + lo16 y) + W * unat (hi16 z) = unat m * unat x + unat a" .
  show "unat (hi16 z) < 65536" by (simp add: unat_hi16 hi16_less)
qed

lemma multadd_loop_val:
  assumes "unat m \<le> 65536"
  shows "unat a < 65536 \<Longrightarrow> multadd_loop m xs a = (ws, a') \<Longrightarrow>
    length ws = length xs \<and> unat a' < 65536 \<and> wval ws + W ^ length xs * unat a' = unat m * wval xs + unat a"
proof (induction xs arbitrary: a ws a')
  case (Cons x xs)
  define y z where "y = lo16 x * m + a" and "z = hi16 x * m + hi16 y"
  obtain vs where vs: "multadd_loop m xs (hi16 z) = (vs, a')" and ws: "ws = (push_bit 16 z + lo16 y) # vs"
    using Cons.prems(2) by (auto simp: Let_def y_def z_def split: prod.splits)
  note st = multadd_step [OF assms Cons.prems(1), of x, folded y_def, folded z_def]
  note IH = Cons.IH [OF st(2) vs]
  have "wval ws + W ^ length (x # xs) * unat a' = unat (push_bit 16 z + lo16 y) + W * (wval vs + W ^ length xs * unat a')"
    by (simp add: ws algebra_simps)
  also have "\<dots> = unat (push_bit 16 z + lo16 y) + W * unat (hi16 z) + W * (unat m * wval xs)"
    using IH by (simp add: distrib_left)
  also have "\<dots> = unat m * wval (x # xs) + unat a" using st(1) by (simp add: algebra_simps)
  finally show ?case using IH ws by simp
qed simp

section \<open>Well-formed numbers and states\<close>

definition big_wf :: "Bigint \<Rightarrow> bool" where
  "big_wf b \<longleftrightarrow> big_k b \<le> Kmax \<and> big_maxwds b = 2 ^ big_k b \<and> length (big_x b) = big_maxwds b \<and> big_wds b \<le> big_maxwds b"

definition big_val :: "Bigint \<Rightarrow> nat" where
  "big_val b = wval (take (big_wds b) (big_x b))"

text \<open>
  The numbers in use: when \<open>wds = 0\<close>, which \<^verbatim>\<open>mult\<close> gives for the product 0, the first word of the array is
  still 0, and \<^verbatim>\<open>multadd\<close> and \<^verbatim>\<open>lshift\<close> rely on it.
\<close>

definition big_ok :: "Bigint \<Rightarrow> bool" where
  "big_ok b \<longleftrightarrow> big_wf b \<and> (big_wds b = 0 \<longrightarrow> big_x b ! 0 = 0)"

text \<open>No zero words at the top.\<close>

definition big_normal :: "Bigint \<Rightarrow> bool" where
  "big_normal b \<longleftrightarrow> (big_wds b = 0 \<or> big_wds b = 1 \<or> big_x b ! (big_wds b - 1) \<noteq> 0)"

definition usable :: "Bigint \<Rightarrow> bool" where
  "usable b \<longleftrightarrow> big_ok b \<and> big_normal b \<and> 0 < big_wds b"

definition free_ok :: "mp_state \<Rightarrow> bool" where
  "free_ok s \<longleftrightarrow>
     (case freelist s of None \<Rightarrow> True
      | Some fl \<Rightarrow> length fl = Kmax + 1 \<and> (\<forall>k < Kmax + 1. \<forall>b \<in> set (fl ! k). big_wf b \<and> big_k b = k))"

definition chain_ok :: "mp_state \<Rightarrow> bool" where
  "chain_ok s \<longleftrightarrow> (\<forall>i < length (p5s s). big_ok (p5s s ! i) \<and> big_val (p5s s ! i) = 625 ^ 2 ^ i \<and> big_k (p5s s ! i) \<le> i + 1)"

text \<open>\<open>n\<close> more numbers can be allocated.\<close>

definition room :: "nat \<Rightarrow> mp_state \<Rightarrow> bool" where
  "room n s \<longleftrightarrow> n + (if freelist s = None then 1 else 0) \<le> callocs s"

lemma room_mono: "room n s \<Longrightarrow> n' \<le> n \<Longrightarrow> room n' s"
  by (simp add: room_def)

lemma Balloc_ok:
  assumes "free_ok s" "room (Suc n) s" "k \<le> Kmax"
  obtains b s' where "Balloc_used k s = Some (b, s')" "big_wf b" "big_k b = k" "big_wds b = 0"
    "free_ok s'" "freelist s' \<noteq> None" "room n s'" "p5s s' = p5s s" "big_sign b = 0"
proof -
  define fl s1 where "fl = (case freelist s of Some fl \<Rightarrow> fl | None \<Rightarrow> replicate (Kmax + 1) [])"
    and "s1 = (case freelist s of Some fl \<Rightarrow> s | None \<Rightarrow> s\<lparr>callocs := callocs s - 1, freelist := Some fl\<rparr>)"
  have g: "get_freelist s = (Some fl, s1)" "freelist s1 = Some fl" "Suc n \<le> callocs s1" "p5s s1 = p5s s"
    using assms(2) by (auto simp: get_freelist_def calloc_def room_def Let_def fl_def s1_def split: option.splits)
  have fl: "length fl = Kmax + 1" "\<forall>k < Kmax + 1. \<forall>b \<in> set (fl ! k). big_wf b \<and> big_k b = k"
    using assms(1) by (auto simp: free_ok_def fl_def nth_replicate simp del: replicate_Suc split: option.splits)
  then have k: "k < length fl" using assms(3) by simp
  show ?thesis
  proof (cases "fl ! k")
    case Nil
    let ?b = "\<lparr>big_k = k, big_maxwds = 2 ^ k, big_sign = 0, big_wds = 0, big_x = replicate (2 ^ k) 0\<rparr>"
    let ?s = "s1\<lparr>callocs := callocs s1 - 1\<rparr>"
    have "Balloc_used k s = Some (?b, ?s)"
      using Nil k g by (simp add: Balloc_used_def Balloc_def calloc_def Let_def)
    moreover have "free_ok ?s" using fl g(2) by (simp add: free_ok_def)
    moreover have "room n ?s" using g by (simp add: room_def)
    ultimately show ?thesis using assms(3) g by (intro that [of ?b ?s]) (simp_all add: big_wf_def)
  next
    case (Cons rv rest)
    let ?s = "s1\<lparr>freelist := Some (fl[k := rest])\<rparr>"
    have rv: "big_wf rv" "big_k rv = k" using fl k Cons by auto
    have "Balloc_used k s = Some (rv\<lparr>big_sign := 0, big_wds := 0\<rparr>, ?s)"
      using Cons k g by (simp add: Balloc_used_def Balloc_def)
    moreover have "\<forall>b \<in> set (fl[k := rest] ! j). big_wf b \<and> big_k b = j" if "j < Kmax + 1" for j
      using fl that Cons by (cases "j = k") auto
    then have "free_ok ?s" using fl(1) by (simp add: free_ok_def)
    moreover have "room n ?s" using g by (simp add: room_def)
    moreover have "big_wf (rv\<lparr>big_sign := 0, big_wds := 0\<rparr>)" using rv by (simp add: big_wf_def)
    ultimately show ?thesis using that rv(2) g(4) by simp
  qed
qed

lemma Bfree_ok:
  assumes "free_ok s" "freelist s \<noteq> None" "big_wf b"
  obtains s' where "Bfree b s = Some s'" "free_ok s'" "freelist s' \<noteq> None" "callocs s' = callocs s" "p5s s' = p5s s"
proof -
  obtain fl where fl: "freelist s = Some fl" using assms(2) by auto
  let ?s = "s\<lparr>freelist := Some (fl[big_k b := b # fl ! big_k b])\<rparr>"
  have k: "big_k b < length fl" "length fl = Kmax + 1" using assms fl by (auto simp: free_ok_def big_wf_def)
  then have "Bfree b s = Some ?s" using fl by (simp add: Bfree_def)
  moreover have "free_ok ?s" using assms(1,3) fl k by (auto simp: free_ok_def nth_list_update)
  ultimately show ?thesis by (intro that [of ?s]) simp_all
qed

lemma room_keep: "room n s \<Longrightarrow> freelist s \<noteq> None \<Longrightarrow> freelist s' \<noteq> None \<Longrightarrow> callocs s' = callocs s \<Longrightarrow> room n s'"
  by (auto simp: room_def)

section \<open>multadd and s2b\<close>

lemma big_val_ok: "big_ok b \<Longrightarrow> big_val b = wval (take (max 1 (big_wds b)) (big_x b))"
  by (cases "big_x b") (auto simp: big_ok_def big_val_def big_wf_def max_def Suc_le_eq)

lemma big_ok_pos: "big_ok b \<Longrightarrow> 0 < length (big_x b)"
  by (simp add: big_ok_def big_wf_def)

lemma take_list_update_end: "i < length xs \<Longrightarrow> take (Suc i) (xs[i := v]) = take i xs @ [v]"
  by (simp add: take_Suc_conv_app_nth)

lemma make_room_ok:
  assumes b: "big_wf b" and s: "free_ok s" "room (Suc n) s" and k: "big_k b < Kmax"
  obtains b' s' where
    "make_room b s = Some (b', s')"
    "big_wf b'" "big_wds b' = big_wds b" "take (big_wds b) (big_x b') = take (big_wds b) (big_x b)"
    "big_wds b < length (big_x b')" "free_ok s'" "room n s'" "p5s s' = p5s s"
    "big_k b' \<le> big_k b + 1"
proof (cases "big_wds b \<ge> big_maxwds b")
  case False
  then show ?thesis using assms by (intro that [of b s]) (auto simp: make_room_def big_wf_def room_mono)
next
  case True
  from k have k': "big_k b + 1 \<le> Kmax" by simp
  obtain b1 s1 where 1: "Balloc_used (big_k b + 1) s = Some (b1, s1)" "big_wf b1" "big_k b1 = big_k b + 1"
    "free_ok s1" "freelist s1 \<noteq> None" "room n s1" "p5s s1 = p5s s"
    by (rule Balloc_ok [OF s k'])
  obtain s2 where 2: "Bfree b s1 = Some s2" "free_ok s2" "freelist s2 \<noteq> None" "callocs s2 = callocs s1" "p5s s2 = p5s s1"
    using Bfree_ok [OF 1(4,5) b] by blast
  let ?b = "b1\<lparr>big_sign := big_sign b, big_wds := big_wds b,
    big_x := take (big_wds b) (big_x b) @ drop (big_wds b) (big_x b1)\<rparr>"
  have len: "big_wds b = length (big_x b)" "length (big_x b1) = 2 * length (big_x b)" "0 < length (big_x b)"
    using b 1(2,3) True by (auto simp: big_wf_def)
  have "Bcopy b1 b = Some ?b" using len by (simp add: Bcopy_def)
  then have "make_room b s = Some (?b, s2)" using True 1(1) 2(1) by (simp add: make_room_def)
  moreover have "big_wf ?b" using 1(2) len by (simp add: big_wf_def)
  moreover have "room n s2" using room_keep [OF 1(6,5) 2(3,4)] .
  ultimately show ?thesis using that 1(3,7) 2(2,5) len by simp
qed

lemma multadd_ok:
  assumes b: "big_ok b" and s: "free_ok s" "room (Suc n) s" and m: "unat m \<le> 65536" "unat a < 65536"
    and k: "big_k b < Kmax" and a: "0 < big_wds b \<or> a = 0"
  obtains b' s' where "multadd b m a s = Some (b', s')" "big_ok b'" "big_val b' = unat m * big_val b + unat a"
    "free_ok s'" "room n s'" "p5s s' = p5s s" "big_k b' \<le> big_k b + 1" "0 < big_wds b \<Longrightarrow> 0 < big_wds b'"
proof -
  let ?n = "max 1 (big_wds b)"
  let ?xs = "take ?n (big_x b)"
  have wf: "big_wf b" and n: "?n \<le> length (big_x b)" using b big_ok_pos [OF b] by (auto simp: big_ok_def big_wf_def)
  obtain ws a' where L: "multadd_loop m ?xs a = (ws, a')" by fastforce
  have ws: "length ws = ?n" "unat a' < 65536" "wval ws + W ^ ?n * unat a' = unat m * big_val b + unat a"
    using multadd_loop_val [OF m L] n by (simp_all add: big_val_ok [OF b])
  let ?b = "b\<lparr>big_x := ws @ drop ?n (big_x b)\<rparr>"
  have wf': "big_wf ?b" using wf n ws(1) by (simp add: big_wf_def)
  show ?thesis
  proof (cases "a' = 0")
    case True
    have v: "wval ws = unat m * big_val b + unat a" using ws(3) True by simp
    have "big_val ?b = wval ws \<and> big_ok ?b"
    proof (cases "big_wds b")
      case 0
      then have "wval ws = 0" using v a by (simp add: big_val_def)
      moreover obtain w where "ws = [w]" using ws(1) 0 by (cases ws) auto
      ultimately show ?thesis using 0 wf' by (simp add: big_val_def big_ok_def unat_eq_0)
    next
      case (Suc j)
      then show ?thesis using ws(1) wf' by (simp add: big_val_def big_ok_def)
    qed
    then show ?thesis using L n True v s by (intro that [of ?b s]) (simp_all add: multadd_def Let_def room_mono not_less)
  next
    case False
    then have pos: "0 < big_wds b"
    proof (rule_tac ccontr)
      assume "\<not> 0 < big_wds b"
      then have "wval ws + W ^ ?n * unat a' = 0" using ws(3) a by (simp add: big_val_def)
      then show False using \<open>a' \<noteq> 0\<close> by (simp add: unat_eq_0)
    qed
    then have n': "?n = big_wds b" by simp
    have k': "big_k ?b < Kmax" using k by simp
    have t: "take (big_wds ?b) (big_x ?b) = ws" using ws(1) n' by simp
    obtain b2 s2 where g: "make_room ?b s = Some (b2, s2)"
      "big_wf b2" "big_wds b2 = big_wds b" "take (big_wds b) (big_x b2) = ws"
      "big_wds b < length (big_x b2)" "free_ok s2" "room n s2" "p5s s2 = p5s s" "big_k b2 \<le> big_k b + 1"
      using make_room_ok [OF wf' s k'] unfolding t by auto
    let ?c = "b2\<lparr>big_x := (big_x b2)[big_wds b := a'], big_wds := big_wds b + 1\<rparr>"
    have "multadd b m a s = Some (?c, s2)"
      using L n False g(1,5) by (simp add: multadd_def Let_def set_word_def not_less)
    moreover have "big_ok ?c" using g(2,5) by (simp add: big_ok_def big_wf_def)
    moreover have "big_val ?c = unat m * big_val b + unat a"
      using g(4,5) ws(1,3) n' by (simp add: big_val_def take_list_update_end wval_append)
    ultimately show ?thesis using g by (intro that [of ?c s2]) simp_all
  qed
qed

section \<open>Multiplication\<close>

lemma half_product:
  assumes "a < 65536" "b < 65536" "c < 65536" "d < (65536 :: nat)"
  shows "a * b + c + d < W"
proof -
  have "a * b \<le> 65535 * 65535" using assms by (intro mult_mono) simp_all
  then show ?thesis using assms by simp
qed

lemma unat_half_product:
  assumes "unat x < 65536" "unat y < 65536" "unat c < 65536" "unat d < 65536"
  shows "unat (x * y + c + d :: u32) = unat x * unat y + unat c + unat d"
proof -
  have "unat (x * y) = unat x * unat y" using half_product [OF assms(1,2), of 0 0] by (subst mult32) simp_all
  moreover have "unat (x * y + c) = unat (x * y) + unat c"
    using half_product [OF assms(1-3), of 0] calculation by (subst add32) simp_all
  ultimately show ?thesis using half_product [OF assms] by (subst add32) simp_all
qed

lemma lo16_less: "unat (lo16 w) < 65536" and hi16_less': "unat (hi16 w) < 65536"
  by (simp_all add: unat_lo16 unat_hi16 hi16_less)

lemmas half_simps = unat_half_product [OF lo16_less] unat_half_product [OF hi16_less']

lemma mult_lo_step:
  fixes x y c carry :: u32
  assumes "unat y < 65536" "unat carry < 65536"
  defines "z \<equiv> lo16 x * y + lo16 c + carry"
  defines "z2 \<equiv> hi16 x * y + hi16 c + hi16 z"
  shows "unat (Storeinc z2 z) + W * unat (hi16 z2) = unat y * unat x + unat c + unat carry"
proof -
  have z: "unat z = unat x mod 65536 * unat y + unat c mod 65536 + unat carry"
    unfolding z_def using assms by (simp add: half_simps lo16_less) (simp add: unat_lo16)
  have z2: "unat z2 = unat x div 65536 * unat y + unat c div 65536 + unat z div 65536"
    unfolding z2_def using assms(1) by (simp add: half_simps hi16_less') (simp add: unat_hi16)
  define xl xh cl ch where d: "xl = unat x mod 65536" "xh = unat x div 65536" "cl = unat c mod 65536" "ch = unat c div 65536"
  have x: "unat x = xh * 65536 + xl" "unat c = ch * 65536 + cl" by (simp_all add: d)
  have "unat (Storeinc z2 z) + W * unat (hi16 z2) = unat z2 * 65536 + unat z mod 65536"
    by (simp add: unat_Storeinc unat_hi16 carry_out)
  also have "\<dots> = (xh * unat y + ch) * 65536 + unat z" unfolding z2 d by (simp add: algebra_simps)
  also have "\<dots> = unat y * unat x + unat c + unat carry" unfolding z unfolding d [symmetric] unfolding x by (simp add: algebra_simps)
  finally show ?thesis .
qed

lemma mult_lo_val:
  assumes "unat y < 65536"
  shows "length cs1 = length xs \<Longrightarrow> unat carry < 65536 \<Longrightarrow>
    \<exists>ws c'. mult_lo y xs (cs1 @ c # cs2) carry = Some (ws @ c' # cs2) \<and> length ws = length xs \<and> unat c' < 65536 \<and>
      wval ws + W ^ length xs * unat c' = wval cs1 + unat y * wval xs + unat carry"
proof (induction xs arbitrary: cs1 carry)
  case Nil
  then show ?case by (intro exI [of _ "[]"] exI [of _ carry]) simp
next
  case (Cons x xs)
  then obtain d ds where cs1: "cs1 = d # ds" by (cases cs1) auto
  define z z2 where "z = lo16 x * y + lo16 d + carry" and "z2 = hi16 x * y + hi16 d + hi16 z"
  note st = mult_lo_step [OF assms Cons.prems(2), of x d, folded z_def, folded z2_def]
  obtain ws c' where IH: "mult_lo y xs (ds @ c # cs2) (hi16 z2) = Some (ws @ c' # cs2)" "length ws = length xs" "unat c' < 65536"
    "wval ws + W ^ length xs * unat c' = wval ds + unat y * wval xs + unat (hi16 z2)"
    using Cons.IH [of ds "hi16 z2"] Cons.prems(1) cs1 hi16_less' by auto
  have "wval (Storeinc z2 z # ws) + W ^ length (x # xs) * unat c'
    = unat (Storeinc z2 z) + W * (wval ws + W ^ length xs * unat c')" by (simp add: algebra_simps)
  also have "\<dots> = wval cs1 + unat y * wval (x # xs) + unat carry"
    unfolding IH(4) using st by (simp add: cs1 algebra_simps)
  finally show ?case
    using IH(1-3) cs1 by (intro exI [of _ "Storeinc z2 z # ws"] exI [of _ c']) (simp add: Let_def z_def z2_def)
qed

lemma mult_hi_val:
  assumes "unat y < 65536"
  shows "length cs1 = length xs \<Longrightarrow> unat carry < 65536 \<Longrightarrow> unat (last (c # cs1)) < 65536 \<Longrightarrow>
    xs \<noteq> [] \<or> unat carry = unat z2 div 65536 \<Longrightarrow>
    \<exists>ws. mult_hi y xs (c # cs1 @ cs2) carry z2 = Some (ws @ cs2) \<and> length ws = length xs + 1 \<and>
      wval ws = unat z2 mod 65536 + 65536 * (unat c div 65536 + unat carry) + 65536 * (unat y * wval xs) + W * wval cs1"
proof (induction xs arbitrary: cs1 c carry z2)
  case Nil
  then show ?case by (intro exI [of _ "[z2]"]) simp
next
  case (Cons x xs)
  then obtain d ds where cs1: "cs1 = d # ds" by (cases cs1) auto
  define z z2' where "z = lo16 x * y + hi16 c + carry" and "z2' = hi16 x * y + lo16 d + hi16 z"
  have z: "unat z = unat x mod 65536 * unat y + unat c div 65536 + unat carry"
    unfolding z_def using assms Cons.prems(2) by (simp add: half_simps hi16_less') (simp add: unat_lo16 unat_hi16)
  have z2': "unat z2' = unat x div 65536 * unat y + unat d mod 65536 + unat z div 65536"
    unfolding z2'_def using assms by (simp add: half_simps lo16_less hi16_less') (simp add: unat_lo16 unat_hi16)
  obtain ws where IH: "mult_hi y xs (d # ds @ cs2) (hi16 z2') z2' = Some (ws @ cs2)" "length ws = length xs + 1"
    "wval ws = unat z2' mod 65536 + 65536 * (unat d div 65536 + unat (hi16 z2')) + 65536 * (unat y * wval xs) + W * wval ds"
    using Cons.IH [of ds "hi16 z2'" d z2'] Cons.prems cs1 by (auto simp: unat_hi16 hi16_less)
  define xl xh dl dh where d: "xl = unat x mod 65536" "xh = unat x div 65536" "dl = unat d mod 65536" "dh = unat d div 65536"
  have x: "unat x = xh * 65536 + xl" "unat d = dh * 65536 + dl" by (simp_all add: d)
  have ws: "wval ws = unat d + xh * unat y + unat z div 65536 + 65536 * (unat y * wval xs) + W * wval ds"
  proof -
    have "unat z2' mod 65536 + 65536 * (dh + unat z2' div 65536) = unat z2' + 65536 * dh" by (simp add: distrib_left)
    also have "\<dots> = unat d + xh * unat y + unat z div 65536" unfolding z2' unfolding d [symmetric] unfolding x by simp
    finally show ?thesis unfolding IH(3) unat_hi16 d(4) [symmetric] by simp
  qed
  have "wval (Storeinc z z2 # ws) = unat z mod 65536 * 65536 + unat z2 mod 65536 + W * (unat z div 65536) +
      W * (unat d + xh * unat y + 65536 * (unat y * wval xs) + W * wval ds)"
    unfolding wval.simps unat_Storeinc ws by (simp add: algebra_simps)
  also have "\<dots> = unat z * 65536 + unat z2 mod 65536 + W * (unat d + xh * unat y + 65536 * (unat y * wval xs) + W * wval ds)"
    by (simp only: carry_out)
  also have "\<dots> = unat z2 mod 65536 + 65536 * (unat c div 65536 + unat carry) + 65536 * (unat y * wval (x # xs)) + W * wval cs1"
    unfolding z cs1 wval.simps unfolding d(1) [symmetric] unfolding x(1) by (simp add: algebra_simps)
  finally show ?case
    using IH(1,2) cs1 by (intro exI [of _ "Storeinc z z2 # ws"]) (simp add: Let_def z_def z2'_def)
qed

text \<open>One word of \<open>b\<close>: both halves are multiplied into the words of \<open>c\<close>.\<close>

lemma mult_row:
  assumes "xa \<noteq> []" "length cs = length xa"
  shows "\<exists>ws. do { xc0 \<leftarrow> (let y = lo16 xb in if y \<noteq> 0 then mult_lo y xa (cs @ 0 # zs) 0 else Some (cs @ 0 # zs));
      let y = hi16 xb in if y \<noteq> 0 then mult_hi y xa xc0 0 (hd xc0) else Some xc0 } = Some (ws @ zs) \<and>
    length ws = length xa + 1 \<and> wval ws = wval cs + unat xb * wval xa"
proof -
  obtain vs c' where lo: "(let y = lo16 xb in if y \<noteq> 0 then mult_lo y xa (cs @ 0 # zs) 0 else Some (cs @ 0 # zs)) = Some (vs @ c' # zs)"
    "length vs = length xa" "unat c' < 65536" "wval (vs @ [c']) = wval cs + unat (lo16 xb) * wval xa"
  proof (cases "lo16 xb = 0")
    case True
    then show ?thesis by (intro that [of cs 0]) (simp_all add: assms wval_append)
  next
    case False
    with mult_lo_val [OF lo16_less [of xb] assms(2), of 0 0 zs] that show ?thesis by (auto simp: wval_append)
  qed
  obtain v vs' where v: "vs @ [c'] = v # vs'" by (cases "vs @ [c']") auto
  then have v': "vs @ c' # zs = v # vs' @ zs" "length vs' = length xa" "last (v # vs') = c'"
    using lo(2) by (metis append.assoc append_Cons append_Nil, metis length_append_singleton length_Cons nat.inject, metis last_snoc)
  have xb: "unat xb = unat (lo16 xb) + 65536 * unat (hi16 xb)" by (simp add: unat_lo16 unat_hi16)
  show ?thesis
  proof (cases "hi16 xb = 0")
    case True
    then show ?thesis using lo v v'(2) xb by (intro exI [of _ "vs @ [c']"]) simp
  next
    case False
    obtain ws where "mult_hi (hi16 xb) xa (v # vs' @ zs) 0 v = Some (ws @ zs)" "length ws = length xa + 1"
      "wval ws = unat v mod 65536 + 65536 * (unat v div 65536 + unat (0 :: u32)) + 65536 * (unat (hi16 xb) * wval xa) + W * wval vs'"
      using mult_hi_val [OF hi16_less' [of xb] v'(2), of 0 v v zs] lo(3) v'(3) assms(1) by auto
    moreover have "wval (v # vs') = wval cs + unat (lo16 xb) * wval xa" using lo(4) v by simp
    ultimately show ?thesis
      using False lo(1) v'(1) xb by (intro exI [of _ ws]) (simp add: algebra_simps)
  qed
qed

lemma mult_loop_val:
  assumes "xa \<noteq> []"
  shows "length cs = length xa \<Longrightarrow> \<exists>ws. mult_loop xbs xa (cs @ replicate (length xbs) 0) = Some ws \<and>
    length ws = length xa + length xbs \<and> wval ws = wval cs + wval xbs * wval xa"
proof (induction xbs arbitrary: cs)
  case (Cons xb xbs)
  obtain ws where row: "do { xc0 \<leftarrow> (let y = lo16 xb in if y \<noteq> 0 then mult_lo y xa (cs @ 0 # replicate (length xbs) 0) 0
          else Some (cs @ 0 # replicate (length xbs) 0));
      let y = hi16 xb in if y \<noteq> 0 then mult_hi y xa xc0 0 (hd xc0) else Some xc0 } = Some (ws @ replicate (length xbs) 0)"
    "length ws = length xa + 1" "wval ws = wval cs + unat xb * wval xa"
    using mult_row [OF assms Cons.prems] by blast
  then obtain w ws' where w: "ws = w # ws'" by (cases ws) auto
  obtain vs where IH: "mult_loop xbs xa (ws' @ replicate (length xbs) 0) = Some vs"
    "length vs = length xa + length xbs" "wval vs = wval ws' + wval xbs * wval xa"
    using Cons.IH [of ws'] row(2) w by auto
  have "mult_loop (xb # xbs) xa (cs @ replicate (length (xb # xbs)) 0) = Some (w # vs)"
    using row(1) IH(1) by (auto simp: w bind_eq_Some_conv)
  moreover have "wval (w # vs) = wval cs + wval (xb # xbs) * wval xa"
    using row(3) by (simp add: w IH(3) algebra_simps)
  ultimately show ?case using IH(2) by auto
qed simp

lemma trim_ok:
  assumes "n \<le> length xs"
  shows "trim n xs \<le> n \<and> wval (take (trim n xs) xs) = wval (take n xs) \<and>
    (0 < trim n xs \<longrightarrow> xs ! (trim n xs - 1) \<noteq> 0) \<and> (\<forall>i < n. trim n xs \<le> i \<longrightarrow> xs ! i = 0)"
  using assms by (induction n) (auto simp: take_Suc_conv_app_nth wval_append less_Suc_eq)

lemma multiply_ok:
  assumes a: "big_ok a" and b: "big_ok b" and s: "free_ok s" "room (Suc n) s"
    and k: "big_k a < Kmax" "big_k b < Kmax" and pos: "0 < big_wds a \<or> 0 < big_wds b"
  obtains c s' where "multiply a b s = Some (c, s')" "big_ok c" "big_normal c" "big_val c = big_val a * big_val b"
    "free_ok s'" "freelist s' \<noteq> None" "room n s'" "p5s s' = p5s s" "big_k c \<le> max (big_k a) (big_k b) + 1"
proof -
  obtain a' b' where ab: "(if big_wds a < big_wds b then (b, a) else (a, b)) = (a', b')" by fastforce
  have ab': "big_wf a'" "big_wf b'" "big_wds b' \<le> big_wds a'" "0 < big_wds a'" "big_val a' * big_val b' = big_val a * big_val b"
    "big_k a' < Kmax" "big_k a' \<le> max (big_k a) (big_k b)"
    using ab a b k pos by (auto simp: big_ok_def split: if_splits)
  let ?wc = "big_wds a' + big_wds b'"
  let ?k = "if ?wc > big_maxwds a' then big_k a' + 1 else big_k a'"
  have k': "?k \<le> Kmax" using ab'(6) by simp
  obtain c s' where c: "Balloc_used ?k s = Some (c, s')" "big_wf c" "big_k c = ?k" "big_wds c = 0"
    "free_ok s'" "freelist s' \<noteq> None" "room n s'" "p5s s' = p5s s"
    by (rule Balloc_ok [OF s k'])
  have len: "?wc \<le> length (big_x c)" "big_wds a' \<le> length (big_x a')" "big_wds b' \<le> length (big_x b')"
    using ab'(1-3) c(2,3) by (auto simp: big_wf_def split: if_splits)
  let ?xa = "take (big_wds a') (big_x a')" and ?xb = "take (big_wds b') (big_x b')"
  have xa: "?xa \<noteq> []" using ab'(4) len(2) by auto
  obtain ws where ws: "mult_loop ?xb ?xa (replicate ?wc 0) = Some ws" "length ws = ?wc" "wval ws = big_val a' * big_val b'"
    using mult_loop_val [OF xa, of "replicate (big_wds a') 0" ?xb] len
    by (auto simp: replicate_add [symmetric] min_absorb2 big_val_def mult.commute)
  let ?c = "c\<lparr>big_x := ws @ drop ?wc (big_x c), big_wds := trim ?wc ws\<rparr>"
  have t: "trim ?wc ws \<le> ?wc" "wval (take (trim ?wc ws) ws) = wval ws" "0 < trim ?wc ws \<longrightarrow> ws ! (trim ?wc ws - 1) \<noteq> 0"
    "\<forall>i < ?wc. trim ?wc ws \<le> i \<longrightarrow> ws ! i = 0"
    using trim_ok [of ?wc ws] ws(2) by auto
  have "multiply a b s = Some (?c, s')"
    using ab c(1) ws(1) len by (simp add: multiply_def Let_def)
  moreover have "big_ok ?c" "big_normal ?c" "big_val ?c = big_val a * big_val b"
    using c(2) len(1) ws t ab'(4,5) by (auto simp: big_ok_def big_wf_def big_normal_def big_val_def nth_append)
  moreover have "big_k ?c \<le> max (big_k a) (big_k b) + 1" using c(3) ab'(7) by (simp split: if_splits)
  ultimately show ?thesis using that c by blast
qed

section \<open>Powers of 5\<close>

lemma chain_ok_cong: "p5s s' = p5s s \<Longrightarrow> chain_ok s' = chain_ok s"
  by (simp add: chain_ok_def)

lemma big_val_pos: "big_val b \<noteq> 0 \<Longrightarrow> 0 < big_wds b"
  by (cases "big_wds b") (auto simp: big_val_def)

lemma chain_extend:
  assumes s: "free_ok s" "room (Suc n) s" "chain_ok s" and i: "length (p5s s) = i + 1" "i + 1 < Kmax"
  obtains p51 s' where "multiply (p5s s ! i) (p5s s ! i) s = Some (p51, s')" "free_ok s'" "room n s'"
    "chain_ok (s'\<lparr>p5s := p5s s' @ [p51]\<rparr>)" "length (p5s s') = i + 1"
proof -
  let ?p = "p5s s ! i"
  have p: "big_ok ?p" "big_val ?p = 625 ^ 2 ^ i" "big_k ?p \<le> i + 1" using s(3) i(1) by (auto simp: chain_ok_def)
  then have pos: "0 < big_wds ?p" by (intro big_val_pos) simp
  obtain p51 s' where m: "multiply ?p ?p s = Some (p51, s')" "big_ok p51" "big_val p51 = big_val ?p * big_val ?p"
    "free_ok s'" "room n s'" "p5s s' = p5s s" "big_k p51 \<le> max (big_k ?p) (big_k ?p) + 1"
    using multiply_ok [OF p(1,1) s(1,2), where thesis = thesis] p(3) i(2) pos that by auto
  have "big_val p51 = 625 ^ 2 ^ (i + 1)" using m(3) p(2) by (simp add: power_add [symmetric] mult_2)
  then have "chain_ok (s'\<lparr>p5s := p5s s' @ [p51]\<rparr>)"
    using s(3) m(2,6,7) p(3) i(1) by (auto simp: chain_ok_def nth_append less_Suc_eq)
  then show ?thesis using that m i(1) by simp
qed

lemma pow5_loop_ok:
  assumes "0 < k" "k < 2 ^ j" "big_ok b" "free_ok s" "room (2 * j + n) s" "chain_ok s" "i < length (p5s s)"
    "max (big_k b) (i + 1) + j \<le> Kmax"
  shows "\<exists>b' s'. pow5_loop k i b s = Some (b', s') \<and> big_ok b' \<and> big_val b' = big_val b * (625 ^ 2 ^ i) ^ k \<and>
    free_ok s' \<and> chain_ok s' \<and> room n s'"
  using assms
proof (induction j arbitrary: k i b s)
  case (Suc j)
  let ?p = "p5s s ! i"
  have p: "big_ok ?p" "big_val ?p = 625 ^ 2 ^ i" "big_k ?p \<le> i + 1" using Suc.prems(6,7) by (auto simp: chain_ok_def)
  then have pos: "0 < big_wds ?p" by (intro big_val_pos) simp
  let ?b = "if k mod 2 = 1 then do { (b1, s) \<leftarrow> multiply b ?p s; s \<leftarrow> Bfree b s; Some (b1, s) } else Some (b, s)"
  have "\<exists>b1 s1. ?b = Some (b1, s1) \<and> big_ok b1 \<and> big_val b1 = big_val b * (625 ^ 2 ^ i) ^ (k mod 2) \<and>
      free_ok s1 \<and> room (2 * j + n + 1) s1 \<and> p5s s1 = p5s s \<and> big_k b1 \<le> max (big_k b) (i + 1) + 1"
  proof (cases "k mod 2 = 1")
    case True
    have r: "room (Suc (2 * j + n + 1)) s" using Suc.prems(5) by (rule room_mono) simp
    obtain b1 s1 where m: "multiply b ?p s = Some (b1, s1)" "big_ok b1" "big_val b1 = big_val b * big_val ?p"
      "free_ok s1" "freelist s1 \<noteq> None" "room (2 * j + n + 1) s1" "p5s s1 = p5s s" "big_k b1 \<le> max (big_k b) (big_k ?p) + 1"
    proof (rule multiply_ok [OF Suc.prems(3) p(1) Suc.prems(4) r])
      show "big_k b < Kmax" "big_k ?p < Kmax" using p(3) Suc.prems(8) by simp_all
      show "0 < big_wds b \<or> 0 < big_wds ?p" using pos by simp
    qed blast
    obtain s2 where f: "Bfree b s1 = Some s2" "free_ok s2" "freelist s2 \<noteq> None" "callocs s2 = callocs s1" "p5s s2 = p5s s1"
      using Bfree_ok [OF m(4,5)] Suc.prems(3) unfolding big_ok_def by blast
    then show ?thesis using True m p room_keep [OF m(6,5) f(3,4)] by simp
  next
    case False
    then have "k mod 2 = 0" by simp
    then show ?thesis using Suc.prems room_mono [OF Suc.prems(5), of "2 * j + n + 1"] by simp
  qed
  then obtain b1 s1 where 1: "?b = Some (b1, s1)" "big_ok b1" "big_val b1 = big_val b * (625 ^ 2 ^ i) ^ (k mod 2)"
      "free_ok s1" "room (2 * j + n + 1) s1" "p5s s1 = p5s s" "big_k b1 \<le> max (big_k b) (i + 1) + 1" by blast
  have len: "\<not> length (p5s s) \<le> i" "i < length (p5s s1)" "p5s s1 ! i = ?p" using Suc.prems(7) 1(6) by simp_all
  have c1: "chain_ok s1" using 1(6) Suc.prems(6) chain_ok_cong by blast
  show ?case
  proof (cases "k div 2 = 0")
    case True
    then have "k mod 2 = k" using mult_div_mod_eq [of 2 k] by simp
    then show ?thesis using True 1 len c1 room_mono [OF 1(5), of n] by (subst pow5_loop.simps) (simp add: Let_def)
  next
    case False
    have i: "i + 1 < Kmax" using Suc.prems(8) False Suc.prems(2) by (cases j) auto
    have k: "0 < k div 2" "k div 2 < 2 ^ j" using False Suc.prems(2) by auto
    let ?s = "if length (p5s s1) = i + 1 then do { (p51, s) \<leftarrow> multiply ?p ?p s1; Some (s\<lparr>p5s := p5s s @ [p51]\<rparr>) } else Some s1"
    have "\<exists>s2. ?s = Some s2 \<and> free_ok s2 \<and> room (2 * j + n) s2 \<and> chain_ok s2 \<and> i + 1 < length (p5s s2)"
    proof (cases "length (p5s s1) = i + 1")
      case True
      have r: "room (Suc (2 * j + n)) s1" using 1(5) by simp
      obtain p51 s2 where "multiply ?p ?p s1 = Some (p51, s2)" "free_ok s2" "room (2 * j + n) s2"
        "chain_ok (s2\<lparr>p5s := p5s s2 @ [p51]\<rparr>)" "length (p5s s2) = i + 1"
        using chain_extend [OF 1(4) r c1 True i] unfolding len(3) by blast
      then show ?thesis using True by (simp add: free_ok_def room_def)
    next
      case False
      then show ?thesis using 1(4,5) c1 len room_mono [OF 1(5), of "2 * j + n"] by simp
    qed
    then obtain s2 where 2: "?s = Some s2" "free_ok s2" "room (2 * j + n) s2" "chain_ok s2" "i + 1 < length (p5s s2)" by blast
    have "max (big_k b1) (i + 1 + 1) + j \<le> Kmax" using 1(7) Suc.prems(8) by simp
    from Suc.IH [OF k 1(2) 2(2-5) this] obtain b' s' where
      3: "pow5_loop (k div 2) (i + 1) b1 s2 = Some (b', s')" "big_ok b'" "big_val b' = big_val b1 * (625 ^ 2 ^ (i + 1)) ^ (k div 2)"
        "free_ok s'" "chain_ok s'" "room n s'" by blast
    have "(625 :: nat) ^ 2 ^ (i + 1) = (625 ^ 2 ^ i) ^ 2" by (simp add: power_mult [symmetric] mult.commute)
    then have "(625 ^ 2 ^ i) ^ (k mod 2) * (625 ^ 2 ^ (i + 1)) ^ (k div 2) = ((625 :: nat) ^ 2 ^ i) ^ (k mod 2 + 2 * (k div 2))"
      by (simp only: power_add power_mult)
    then have "big_val b' = big_val b * (625 ^ 2 ^ i) ^ k" using 3(3) 1(3) by (simp add: mult.assoc)
    then show ?thesis using 1(1) 2(1) 3 len False by (subst pow5_loop.simps) (simp add: Let_def)
  qed
qed simp

lemma i2b_ok:
  assumes s: "free_ok s" "room (Suc n) s"
  obtains b s' where "i2b i s = Some (b, s')" "big_ok b" "big_val b = unat i" "big_k b = 1"
    "free_ok s'" "room n s'" "p5s s' = p5s s"
proof -
  obtain b s' where b: "Balloc_used 1 s = Some (b, s')" "big_wf b" "big_k b = 1" "big_wds b = 0"
    "free_ok s'" "freelist s' \<noteq> None" "room n s'" "p5s s' = p5s s"
    by (rule Balloc_ok [OF s, of 1]) (simp add: Kmax_def)
  then obtain x y where x: "big_x b = [x, y]" by (auto simp: big_wf_def length_Suc_conv numeral_2_eq_2)
  let ?b = "b\<lparr>big_x := [i, y], big_wds := 1\<rparr>"
  have "i2b i s = Some (?b, s')" using b x by (simp add: i2b_def set_word_def)
  moreover have "big_ok ?b" "big_val ?b = unat i" using b x by (simp_all add: big_ok_def big_wf_def big_val_def)
  ultimately show ?thesis using that b by simp
qed

lemma pow5mult_ok:
  assumes b: "big_ok b" and k: "k < 4 * 2 ^ j" and s: "free_ok s" "room (2 * j + n + 2) s" "chain_ok s"
    and K: "big_k b + 1 + j \<le> Kmax" 
  shows "\<exists>b' s'. pow5mult b k s = Some (b', s') \<and> big_ok b' \<and> big_val b' = big_val b * 5 ^ k \<and>
    free_ok s' \<and> chain_ok s' \<and> room n s'"
proof -
  let ?b = "let i = k mod 4 in if i \<noteq> 0 then multadd b (p05 ! (i - 1)) 0 s else Some (b, s)"
  have "\<exists>b1 s1. ?b = Some (b1, s1) \<and> big_ok b1 \<and> big_val b1 = big_val b * 5 ^ (k mod 4) \<and>
      free_ok s1 \<and> room (2 * j + n + 1) s1 \<and> chain_ok s1 \<and> big_k b1 \<le> big_k b + 1"
  proof (cases "k mod 4 = 0")
    case True
    then show ?thesis using assms room_mono [OF s(2), of "2 * j + n + 1"] by simp
  next
    case False
    moreover have "k mod 4 < 4" by simp
    ultimately have "k mod 4 \<in> {1, 2, 3}" by auto
    then have p: "unat (p05 ! (k mod 4 - 1)) = 5 ^ (k mod 4)" "unat (p05 ! (k mod 4 - 1)) \<le> 65536"
      by (auto simp: p05_def)
    have r: "room (Suc (2 * j + n + 1)) s" using s(2) by simp
    obtain b1 s1 where "multadd b (p05 ! (k mod 4 - 1)) 0 s = Some (b1, s1)" "big_ok b1"
      "big_val b1 = unat (p05 ! (k mod 4 - 1)) * big_val b + unat (0 :: u32)" "free_ok s1" "room (2 * j + n + 1) s1"
      "p5s s1 = p5s s" "big_k b1 \<le> big_k b + 1"
      by (rule multadd_ok [OF b s(1) r p(2), of 0]) (use K in simp_all)
    moreover from this have "chain_ok s1" using chain_ok_cong [of s1 s] s(3) by simp
    ultimately show ?thesis using False p(1) by (simp add: Let_def mult.commute)
  qed
  then obtain b1 s1 where 1: "?b = Some (b1, s1)" "big_ok b1" "big_val b1 = big_val b * 5 ^ (k mod 4)"
      "free_ok s1" "room (2 * j + n + 1) s1" "chain_ok s1" "big_k b1 \<le> big_k b + 1" by blast
  show ?thesis
  proof (cases "k div 4 = 0")
    case True
    then have "k mod 4 = k" by simp
    then show ?thesis using 1 True room_mono [OF 1(5), of n] by (simp add: pow5mult_def)
  next
    case False
    have r: "room (Suc (2 * j + n)) s1" using 1(5) by simp
    have "\<exists>s2. (if p5s s1 = [] then do { (p5, s) \<leftarrow> i2b 625 s1; Some (s\<lparr>p5s := [p5]\<rparr>) } else Some s1) = Some s2 \<and>
        free_ok s2 \<and> room (2 * j + n) s2 \<and> chain_ok s2 \<and> 0 < length (p5s s2)"
    proof (cases "p5s s1 = []")
      case True
      obtain p5 s2 where "i2b 625 s1 = Some (p5, s2)" "big_ok p5" "big_val p5 = unat (625 :: u32)" "big_k p5 = 1"
        "free_ok s2" "room (2 * j + n) s2" by (rule i2b_ok [OF 1(4) r])
      then show ?thesis using True by (simp add: chain_ok_def free_ok_def room_def)
    next
      case False
      then show ?thesis using 1 room_mono [OF 1(5), of "2 * j + n"] by simp
    qed
    then obtain s2 where 2: "(if p5s s1 = [] then do { (p5, s) \<leftarrow> i2b 625 s1; Some (s\<lparr>p5s := [p5]\<rparr>) } else Some s1) = Some s2"
        "free_ok s2" "room (2 * j + n) s2" "chain_ok s2" "0 < length (p5s s2)" by blast
    have kk: "0 < k div 4" "k div 4 < 2 ^ j" using False k by auto
    have "max (big_k b1) (0 + 1) + j \<le> Kmax" using 1(7) K by simp
    from pow5_loop_ok [OF kk 1(2) 2(2-5) this] obtain b' s' where
      3: "pow5_loop (k div 4) 0 b1 s2 = Some (b', s')" "big_ok b'" "big_val b' = big_val b1 * (625 ^ 2 ^ 0) ^ (k div 4)"
        "free_ok s'" "chain_ok s'" "room n s'" by blast
    have "(625 :: nat) = 5 ^ 4" by simp
    then have "5 ^ (k mod 4) * 625 ^ (k div 4) = (5 :: nat) ^ (k mod 4 + 4 * (k div 4))"
      by (simp only: power_add power_mult)
    then have "big_val b' = big_val b * 5 ^ k" using 3(3) 1(3) by simp
    then show ?thesis using 1(1) 2(1) 3 False by (auto simp: pow5mult_def)
  qed
qed

section \<open>Shift\<close>

lemma shift_k_ok:
  assumes "0 < i"
  shows "k1 \<le> shift_k n1 i k1 \<and> n1 \<le> i * 2 ^ (shift_k n1 i k1 - k1)"
  using assms
proof (induction n1 i k1 rule: shift_k.induct)
  case (1 n1 i k1)
  show ?case
  proof (cases "i < n1")
    case True
    from 1 True have IH: "k1 + 1 \<le> shift_k n1 (2 * i) (k1 + 1)" "n1 \<le> 2 * i * 2 ^ (shift_k n1 (2 * i) (k1 + 1) - (k1 + 1))"
      by auto
    then have "shift_k n1 (2 * i) (k1 + 1) - k1 = Suc (shift_k n1 (2 * i) (k1 + 1) - (k1 + 1))" by simp
    moreover have "shift_k n1 i k1 = shift_k n1 (2 * i) (k1 + 1)" using True 1(2) by (subst shift_k.simps) simp
    ultimately show ?thesis using IH by (simp add: mult.assoc mult.left_commute)
  next
    case False
    then show ?thesis by (simp add: shift_k.simps)
  qed
qed

lemma shift_k_le:
  "k1 \<le> K \<Longrightarrow> i = 2 ^ k1 \<Longrightarrow> n1 \<le> 2 ^ K \<Longrightarrow> shift_k n1 i k1 \<le> K"
proof (induction n1 i k1 rule: shift_k.induct)
  case (1 n1 i k1)
  have "k1 \<noteq> K" if "i < n1" using that 1(3,4) by auto
  then show ?case using 1 by (subst shift_k.simps) auto
qed

lemma push_or:
  fixes x z :: u32
  assumes "unat z < 2 ^ k" "k < 32"
  shows "unat (push_bit k x OR z) + W * unat (drop_bit (32 - k) x) = 2 ^ k * unat x + unat z"
proof -
  have z: "take_bit k z = z"
    using assms(1) by (simp only: word_unat_eq_iff unsigned_take_bit_eq take_bit_nat_eq_self)
  have "push_bit k x OR take_bit k z = push_bit k x + take_bit k z"
    by (rule disjunctive_add_eq_or [symmetric], rule bit_eqI) (auto simp: bit_simps)
  then have "push_bit k x OR z = push_bit k x + z" by (simp only: z)
  moreover have p: "unat (push_bit k x) = 2 ^ k * (unat x mod 2 ^ (32 - k))"
  proof -
    have "unat (push_bit k x) = 2 ^ k * unat x mod (2 ^ k * 2 ^ (32 - k))"
      using assms(2) by (simp only: unsigned_push_bit_eq) (simp add: push_bit_eq_mult take_bit_eq_mod power_add [symmetric] mult.commute)
    then show ?thesis by (simp only: mod_mult_mult1)
  qed
  moreover have "2 ^ k * (unat x mod 2 ^ (32 - k)) + unat z < W"
  proof -
    have "2 ^ k * (unat x mod 2 ^ (32 - k)) + unat z < 2 ^ k * Suc (unat x mod 2 ^ (32 - k))" using assms(1) by simp
    also have "\<dots> \<le> 2 ^ k * 2 ^ (32 - k)" by (intro mult_left_mono) (simp_all add: Suc_le_eq)
    also have "\<dots> = W" using assms(2) by (simp add: power_add [symmetric])
    finally show ?thesis .
  qed
  ultimately have "unat (push_bit k x OR z) = 2 ^ k * (unat x mod 2 ^ (32 - k)) + unat z"
    by (simp add: add32)
  moreover have "unat (drop_bit (32 - k) x) = unat x div 2 ^ (32 - k)"
    by (simp only: unat_drop_bit_eq) (simp add: drop_bit_eq_div)
  moreover have "W * (unat x div 2 ^ (32 - k)) = 2 ^ k * (2 ^ (32 - k) * (unat x div 2 ^ (32 - k)))"
    using assms(2) by (simp add: mult.assoc [symmetric] power_add [symmetric])
  moreover have "2 ^ k * unat x = 2 ^ k * (2 ^ (32 - k) * (unat x div 2 ^ (32 - k)) + unat x mod 2 ^ (32 - k))"
    by (simp only: mult_div_mod_eq)
  ultimately show ?thesis by (simp only: distrib_left)
qed

lemma shift_loop_val:
  assumes "0 < k" "k < 32"
  shows "unat z < 2 ^ k \<Longrightarrow> shift_loop k xs z = (ws, z') \<Longrightarrow>
    length ws = length xs \<and> unat z' < 2 ^ k \<and> wval ws + W ^ length xs * unat z' = 2 ^ k * wval xs + unat z"
proof (induction xs arbitrary: z ws z')
  case (Cons x xs)
  obtain vs where vs: "shift_loop k xs (drop_bit (32 - k) x) = (vs, z')" "ws = (push_bit k x OR z) # vs"
    using Cons.prems(2) by (auto simp: Let_def split: prod.splits)
  have "unat x < 2 ^ (32 - k) * 2 ^ k" using unat32_less [of x] assms(2) by (simp add: power_add [symmetric])
  then have "unat (drop_bit (32 - k) x) < 2 ^ k"
    by (simp only: unat_drop_bit_eq) (simp add: drop_bit_eq_div less_mult_imp_div_less mult.commute)
  note IH = Cons.IH [OF this vs(1)]
  have "wval ws + W ^ length (x # xs) * unat z' = unat (push_bit k x OR z) + W * (wval vs + W ^ length xs * unat z')"
    by (simp add: vs(2) algebra_simps)
  also have "\<dots> = 2 ^ k * wval (x # xs) + unat z"
    using IH push_or [OF Cons.prems(1) assms(2), of x] by (simp add: algebra_simps)
  finally show ?case using IH vs(2) by simp
qed simp

lemma wval_top:
  assumes "0 < n" "n \<le> length xs"
  shows "xs ! (n - 1) \<noteq> 0 \<longleftrightarrow> W ^ (n - 1) \<le> wval (take n xs)"
proof -
  obtain m where n: "n = Suc m" using assms(1) by (cases n) auto
  have v: "wval (take n xs) = wval (take m xs) + W ^ m * unat (xs ! m)"
    using assms(2) n by (simp add: take_Suc_conv_app_nth wval_append)
  show ?thesis
  proof (cases "xs ! m = 0")
    case True
    then show ?thesis using v n wval_less [of "take m xs"] assms(2) by simp
  next
    case False
    then have "1 \<le> unat (xs ! m)" by (simp add: Suc_le_eq unat_gt_0)
    then have "W ^ m \<le> W ^ m * unat (xs ! m)" by simp
    then have "W ^ m \<le> wval (take n xs)" unfolding v by (rule trans_le_add2)
    then show ?thesis using False n by simp
  qed
qed

lemma big_normal_iff:
  assumes "big_wf b"
  shows "big_normal b \<longleftrightarrow> big_wds b \<le> 1 \<or> W ^ (big_wds b - 1) \<le> big_val b"
  using assms wval_top [of "big_wds b" "big_x b"] unfolding big_normal_def big_val_def big_wf_def
  by (cases "big_wds b = 0 \<or> big_wds b = 1") auto

lemma lshift_ok:
  assumes b: "big_ok b" "0 < big_wds b" and s: "free_ok s" "room (Suc n) s"
    and K: "k div 32 + big_wds b + 1 \<le> 2 ^ Kmax"
  obtains b' s' where "lshift b k s = Some (b', s')" "big_ok b'" "big_val b' = big_val b * 2 ^ k"
    "free_ok s'" "room n s'" "p5s s' = p5s s" "0 < big_wds b'" "big_normal b \<and> big_val b \<noteq> 0 \<Longrightarrow> big_normal b'"
proof -
  have wf: "big_wf b" using b by (simp add: big_ok_def)
  let ?q = "k div 32" and ?r = "k mod 32" and ?w = "big_wds b"
  let ?n1 = "?q + ?w + 1"
  let ?k = "shift_k ?n1 (big_maxwds b) (big_k b)"
  have k: "?k \<le> Kmax" using shift_k_le [of "big_k b" Kmax "big_maxwds b" ?n1] wf K by (simp add: big_wf_def)
  have k1: "big_k b \<le> ?k" "?n1 \<le> 2 ^ ?k"
    using shift_k_ok [of "big_maxwds b" "big_k b" ?n1] wf by (auto simp: big_wf_def power_add [symmetric])
  obtain b1 s1 where 1: "Balloc_used ?k s = Some (b1, s1)" "big_wf b1" "big_k b1 = ?k" "big_wds b1 = 0"
    "free_ok s1" "freelist s1 \<noteq> None" "room n s1" "p5s s1 = p5s s" by (rule Balloc_ok [OF s k])
  obtain s2 where 2: "Bfree b s1 = Some s2" "free_ok s2" "freelist s2 \<noteq> None" "callocs s2 = callocs s1" "p5s s2 = p5s s1"
    by (rule Bfree_ok [OF 1(5,6) wf])
  let ?xs = "take ?w (big_x b)"
  have len: "?w \<le> length (big_x b)" "?n1 \<le> length (big_x b1)" using wf 1(2,3) k1(2) by (simp_all add: big_wf_def)
  obtain ws m where ws: "shift_words ?r ?xs ?n1 = (ws, m)"
    "?q + length ws \<le> ?n1" "m - 1 - ?q \<le> length ws" "m - 1 - ?q \<ge> ?w" "?q < m" "wval (take (m - 1 - ?q) ws) = 2 ^ ?r * big_val b"
    "m - 1 - ?q = ?w \<or> W ^ ?w \<le> 2 ^ ?r * big_val b \<and> m - 1 - ?q = ?w + 1"
  proof (cases "?r = 0")
    case True
    then show ?thesis using that [of ?xs ?n1] len(1) by (simp add: shift_words_def big_val_def)
  next
    case False
    obtain us z where u: "shift_loop ?r ?xs 0 = (us, z)" by fastforce
    have v: "length us = ?w" "wval us + W ^ ?w * unat z = 2 ^ ?r * big_val b"
      using shift_loop_val [of ?r 0 ?xs us z] u False len(1) by (simp_all add: big_val_def)
    show ?thesis
    proof (cases "z = 0")
      case True
      then show ?thesis using that [of "us @ [z]" ?n1] False u v by (simp add: shift_words_def)
    next
      case z: False
      then have "W ^ ?w \<le> W ^ ?w * unat z" by (simp add: Suc_le_eq unat_gt_0)
      then have "W ^ ?w \<le> 2 ^ ?r * big_val b" unfolding v(2) [symmetric] by (rule trans_le_add2)
      then show ?thesis using that [of "us @ [z]" "?n1 + 1"] False u v z by (simp add: shift_words_def wval_append)
    qed
  qed
  let ?ws = "replicate ?q 0 @ ws"
  let ?b = "b1\<lparr>big_x := ?ws @ drop (length ?ws) (big_x b1), big_wds := m - 1\<rparr>"
  have "lshift b k s = Some (?b, s2)"
    using 1(1) 2(1) ws(1,2) len b(2) by (simp add: lshift_def Let_def max_def)
  moreover have wf': "big_wf ?b" using 1(2) ws(2,3) len(2) by (auto simp: big_wf_def)
  moreover have m: "0 < m - 1" using ws(4,5) b(2) by simp
  moreover have v: "big_val ?b = big_val b * 2 ^ k"
  proof -
    have "big_val ?b = W ^ ?q * wval (take (m - 1 - ?q) ws)"
      using ws(3,5) by (simp add: big_val_def wval_append min_def)
    also have "\<dots> = (2 ^ 32) ^ ?q * 2 ^ ?r * big_val b" using ws(6) by simp
    also have "(2 ^ 32) ^ ?q * 2 ^ ?r = (2 :: nat) ^ k" by (simp only: power_mult [symmetric] power_add [symmetric] mult_div_mod_eq)
    finally show ?thesis by simp
  qed
  moreover have "big_normal ?b" if "big_normal b \<and> big_val b \<noteq> 0"
  proof -
    have "W ^ (?w - 1) \<le> big_val b" using that big_normal_iff [OF wf] b(2) by (cases "?w = 1") (auto simp: Suc_le_eq)
    also have "big_val b \<le> 2 ^ ?r * big_val b" by simp
    finally have le: "W ^ (?w - 1) \<le> 2 ^ ?r * big_val b" .
    from ws(7) have "W ^ (m - 1 - ?q - 1) \<le> 2 ^ ?r * big_val b"
    proof
      assume "m - 1 - ?q = ?w"
      with le show ?thesis by (simp only:)
    next
      assume "W ^ ?w \<le> 2 ^ ?r * big_val b \<and> m - 1 - ?q = ?w + 1"
      then show ?thesis by (simp only: add_diff_cancel_right')
    qed
    then have "W ^ ?q * W ^ (m - 1 - ?q - 1) \<le> W ^ ?q * (2 ^ ?r * big_val b)" by (intro mult_left_mono) simp_all
    moreover have "W ^ ?q * W ^ (m - 1 - ?q - 1) = W ^ (m - 1 - 1)" using ws(4) b(2) by (simp add: power_add [symmetric])
    moreover have "W ^ ?q * (2 ^ ?r * big_val b) = big_val b * 2 ^ k"
    proof -
      have "W ^ ?q * 2 ^ ?r = (2 ^ 32) ^ ?q * 2 ^ ?r" by simp
      also have "\<dots> = (2 :: nat) ^ k" by (simp only: power_mult [symmetric] power_add [symmetric] mult_div_mod_eq)
      finally show ?thesis by (simp add: algebra_simps)
    qed
    ultimately show ?thesis using big_normal_iff [OF wf'] v by simp
  qed
  ultimately show ?thesis
    using that [of ?b s2] 2 1(8) room_keep [OF 1(7,6) 2(3,4)] by (simp add: big_ok_def)
qed

section \<open>Reading decimal digits\<close>

definition dec_val :: "nat list \<Rightarrow> nat" where
  "dec_val ds = foldl (\<lambda>a d. 10 * a + d) 0 ds"

definition digit_bytes :: "nat list \<Rightarrow> byte list" where
  "digit_bytes ds = map (\<lambda>d. of_nat (48 + d)) ds"

lemma foldl_dec: "foldl (\<lambda>a d. 10 * a + d) a ds = a * 10 ^ length ds + dec_val ds"
proof (induction ds arbitrary: a)
  case (Cons d ds)
  have "foldl (\<lambda>a d. 10 * a + d) a (d # ds) = (10 * a + d) * 10 ^ length ds + dec_val ds" using Cons by simp
  moreover have "dec_val (d # ds) = d * 10 ^ length ds + dec_val ds" unfolding dec_val_def [of "d # ds"] using Cons [of d] by simp
  ultimately show ?case by (simp add: algebra_simps)
qed (simp add: dec_val_def)

lemma dec_val_Cons: "dec_val (d # ds) = d * 10 ^ length ds + dec_val ds"
  unfolding dec_val_def [of "d # ds"] using foldl_dec [of d ds] by simp

lemma dec_val_append: "dec_val (xs @ ys) = dec_val xs * 10 ^ length ys + dec_val ys"
  unfolding dec_val_def [of "xs @ ys"] using foldl_dec [of "dec_val xs" ys] by (simp add: dec_val_def)

lemma dec_val_less: "\<forall>d \<in> set ds. d \<le> 9 \<Longrightarrow> dec_val ds < 10 ^ length ds"
proof (induction ds)
  case (Cons d ds)
  have "d * 10 ^ length ds \<le> 9 * 10 ^ length ds" using Cons.prems by (intro mult_right_mono) simp_all
  moreover have "dec_val ds < 10 ^ length ds" using Cons by simp
  ultimately have "d * 10 ^ length ds + dec_val ds < 10 * 10 ^ length ds" by linarith
  then show ?case by (simp add: dec_val_Cons)
qed (simp add: dec_val_def)

lemma digit_word:
  assumes "d \<le> 9"
  shows "unat (of_int (sint (of_nat (48 + d) :: byte) - 48) :: u32) = d"
proof -
  have "d \<in> {0, 1, 2, 3, 4, 5, 6, 7, 8, 9}" using assms by auto
  then show ?thesis by auto
qed

text \<open>When the result fits in the array, nothing is allocated.\<close>

lemma multadd_fits:
  assumes b: "big_ok b" "0 < big_wds b" and m: "unat m \<le> 65536" "unat a < 65536"
    and fits: "unat m * big_val b + unat a < W ^ 2 ^ big_k b"
  obtains b' where "multadd b m a s = Some (b', s)" "big_ok b'" "0 < big_wds b'" "big_k b' = big_k b"
    "big_val b' = unat m * big_val b + unat a"
proof -
  let ?w = "big_wds b"
  let ?xs = "take ?w (big_x b)"
  have wf: "big_wf b" and n: "?w \<le> length (big_x b)" and mx: "max 1 ?w = ?w" using b by (auto simp: big_ok_def big_wf_def)
  obtain ws a' where L: "multadd_loop m ?xs a = (ws, a')" by fastforce
  have ws: "length ws = ?w" "wval ws + W ^ ?w * unat a' = unat m * big_val b + unat a"
    using multadd_loop_val [OF m L] n by (simp_all add: big_val_def)
  let ?b = "b\<lparr>big_x := ws @ drop ?w (big_x b)\<rparr>"
  have wf': "big_wf ?b" using wf n ws(1) by (simp add: big_wf_def)
  show ?thesis
  proof (cases "a' = 0")
    case True
    then have "multadd b m a s = Some (?b, s)" using L n mx by (simp add: multadd_def Let_def not_less)
    moreover have "big_ok ?b" "big_val ?b = unat m * big_val b + unat a"
      using wf' ws True b(2) by (simp_all add: big_ok_def big_val_def)
    ultimately show ?thesis using that [of ?b] b(2) by simp
  next
    case False
    then have "W ^ ?w \<le> W ^ ?w * unat a'" by (simp add: Suc_le_eq unat_gt_0)
    then have "W ^ ?w < W ^ 2 ^ big_k b" using fits ws(2) by linarith
    then have w: "?w < 2 ^ big_k b" by (simp only: power_strict_increasing_iff)
    then have r: "make_room ?b s = Some (?b, s)" using wf by (simp add: make_room_def big_wf_def)
    let ?c = "b\<lparr>big_x := (ws @ drop ?w (big_x b))[?w := a'], big_wds := ?w + 1\<rparr>"
    have l: "?w < length (ws @ drop ?w (big_x b))" using w wf ws(1) by (simp add: big_wf_def)
    have "multadd b m a s = Some (?c, s)"
      using L n mx r False l by (simp add: multadd_def Let_def not_less set_word_def)
    moreover have "big_ok ?c" using wf' w by (simp add: big_ok_def big_wf_def)
    moreover have "big_val ?c = unat m * big_val b + unat a"
      using ws l by (simp add: big_val_def take_list_update_end wval_append del: length_append)
    ultimately show ?thesis using that [of ?c] by simp
  qed
qed

lemma s2b_digits_ok:
  assumes "\<forall>d \<in> set ds. d \<le> 9"
  shows "bytes m p (digit_bytes ds) \<Longrightarrow> big_ok b \<Longrightarrow> 0 < big_wds b \<Longrightarrow> big_val b * 10 ^ length ds + dec_val ds < W ^ 2 ^ big_k b \<Longrightarrow>
    \<exists>b'. s2b_digits (length ds) m p b s = Some (b', p + length ds, s) \<and> big_ok b' \<and> 0 < big_wds b' \<and> big_k b' = big_k b \<and>
      big_val b' = big_val b * 10 ^ length ds + dec_val ds"
  using assms
proof (induction ds arbitrary: p b)
  case (Cons d ds)
  let ?a = "of_int (sint (of_nat (48 + d) :: byte) - 48) :: u32"
  have d: "unat ?a = d" "d \<le> 9" using digit_word [of d] Cons.prems(5) by simp_all
  have e: "(10 * big_val b + d) * 10 ^ length ds + dec_val ds = big_val b * 10 ^ length (d # ds) + dec_val (d # ds)"
    by (simp add: dec_val_Cons algebra_simps)
  have "10 * big_val b + d \<le> (10 * big_val b + d) * 10 ^ length ds + dec_val ds" by (simp add: trans_le_add1)
  then have f: "unat (10 :: u32) * big_val b + unat ?a < W ^ 2 ^ big_k b" using Cons.prems(4) d(1) unfolding e by simp
  obtain b1 where 1: "multadd b 10 ?a s = Some (b1, s)" "big_ok b1" "0 < big_wds b1" "big_k b1 = big_k b"
    "big_val b1 = unat (10 :: u32) * big_val b + unat ?a"
    by (rule multadd_fits [OF Cons.prems(2,3) _ _ f]) (use d in simp_all)
  have v: "big_val b1 = 10 * big_val b + d" using 1(5) d(1) by simp
  have m: "m p = Some (of_nat (48 + d))" "bytes m (p + 1) (digit_bytes ds)" using Cons.prems(1) by (simp_all add: digit_bytes_def)
  obtain b2 where "s2b_digits (length ds) m (p + 1) b1 s = Some (b2, p + 1 + length ds, s)" "big_ok b2" "0 < big_wds b2"
    "big_k b2 = big_k b1" "big_val b2 = big_val b1 * 10 ^ length ds + dec_val ds"
    using Cons.IH [OF m(2) 1(2,3)] Cons.prems(4,5) 1(4) unfolding v e by auto
  then show ?case using m(1) 1(1,4) e v by (simp add: load8_def del: of_nat_add)
qed (simp add: dec_val_def)

lemma s2b_k_ok:
  "y = 2 ^ k \<Longrightarrow> x \<le> 2 ^ s2b_k x y k \<and> (x \<le> 2 ^ K \<longrightarrow> k \<le> K \<longrightarrow> s2b_k x y k \<le> K)"
proof (induction x y k rule: s2b_k.induct)
  case (1 x y k)
  show ?case
  proof (cases "y < x")
    case True
    then have "s2b_k x y k = s2b_k x (2 * y) (k + 1)" using 1(2) by (subst s2b_k.simps) simp
    moreover have "x \<le> 2 ^ K \<Longrightarrow> k \<le> K \<Longrightarrow> k \<noteq> K" using True 1(2) by auto
    ultimately show ?thesis using 1 True by auto
  next
    case False
    then show ?thesis using 1(2) by (simp add: s2b_k.simps)
  qed
qed

lemma decimal_fits:
  assumes "n \<le> 9 * x"
  shows "10 ^ n \<le> W ^ x"
proof -
  have "(10 :: nat) ^ n \<le> 10 ^ (9 * x)" using assms by (intro power_increasing) simp_all
  also have "\<dots> = (10 ^ 9) ^ x" by (simp only: power_mult)
  also have "\<dots> \<le> W ^ x" by (intro power_mono) simp_all
  finally show ?thesis .
qed

lemma digit_bytes_append: "digit_bytes (xs @ ys) = digit_bytes xs @ digit_bytes ys"
  by (simp add: digit_bytes_def)

lemma s2b_ok:
  assumes ds: "\<forall>d \<in> set ds. d \<le> 9" "length ds = nd" "nd0 \<le> nd" "nd \<le> 9 * 2 ^ Kmax"
    and m: "bytes m p (digit_bytes (take nd0 ds) @ pt # digit_bytes (drop nd0 ds))" and y9: "unat y9 = dec_val (take 9 ds)"
    and s: "free_ok s" "room (Suc n) s"
  shows "\<exists>b s'. s2b m p nd0 nd y9 s = Some (b, s') \<and> big_ok b \<and> 0 < big_wds b \<and> big_val b = dec_val ds \<and>
    free_ok s' \<and> room n s' \<and> p5s s' = p5s s"
proof -
  let ?x = "(nd + 8) div 9"
  let ?k = "s2b_k ?x 1 0"
  have nd: "nd \<le> 9 * ?x" "?x \<le> 2 ^ Kmax" using ds(4) by linarith+
  have k: "?x \<le> 2 ^ ?k" "?k \<le> Kmax" using s2b_k_ok [of 1 0 ?x Kmax] nd(2) by simp_all
  obtain b0 s0 where 0: "Balloc_used ?k s = Some (b0, s0)" "big_wf b0" "big_k b0 = ?k" "big_wds b0 = 0"
    "free_ok s0" "freelist s0 \<noteq> None" "room n s0" "p5s s0 = p5s s" by (rule Balloc_ok [OF s k(2)])
  let ?b = "b0\<lparr>big_x := (big_x b0)[0 := y9], big_wds := 1\<rparr>"
  have l: "0 < length (big_x b0)" using 0(2) by (simp add: big_wf_def)
  then have b: "big_ok ?b" "big_val ?b = dec_val (take 9 ds)" "big_k ?b = ?k" "0 < big_wds ?b"
    using 0(2,3) y9 by (cases "big_x b0"; simp add: big_ok_def big_wf_def big_val_def)+
  have F: "dec_val xs < W ^ 2 ^ ?k" if "length xs \<le> nd" "\<forall>d \<in> set xs. d \<le> 9" for xs
  proof -
    have "dec_val xs < 10 ^ length xs" using that(2) by (rule dec_val_less)
    also have "\<dots> \<le> W ^ 2 ^ ?k" using that(1) nd(1) k(1) by (intro decimal_fits) simp
    finally show ?thesis .
  qed
  have step: "\<exists>b'. s2b_digits (length xs) m q b s0 = Some (b', q + length xs, s0) \<and> big_ok b' \<and> 0 < big_wds b' \<and>
      big_k b' = ?k \<and> big_val b' = dec_val (us @ xs)"
    if "bytes m q (digit_bytes xs)" "us @ xs @ vs = ds" "big_ok b" "0 < big_wds b" "big_k b = ?k" "big_val b = dec_val us" for q us xs vs b
  proof -
    have x: "length (us @ xs) \<le> nd" "\<forall>d \<in> set (us @ xs). d \<le> 9" using ds(1,2) that(2) by auto
    have "big_val b * 10 ^ length xs + dec_val xs < W ^ 2 ^ big_k b"
      using F [OF x] that(5,6) by (simp add: dec_val_append)
    with s2b_digits_ok [OF _ that(1,3,4), of s0] x(2) that(5,6) show ?thesis by (auto simp: dec_val_append)
  qed
  have start: "Balloc_used ?k s = Some (b0, s0)" "set_word 0 y9 b0 = Some (b0\<lparr>big_x := (big_x b0)[0 := y9]\<rparr>)"
    using 0(1) l by (simp_all add: set_word_def)
  show ?thesis
  proof (cases "9 < nd0")
    case True
    let ?u = "take 9 ds" and ?v = "take (nd0 - 9) (drop 9 ds)" and ?w = "drop nd0 ds"
    have uv: "take nd0 ds = ?u @ ?v" using True by (metis add_diff_inverse_nat less_imp_not_less take_add)
    then have e: "?u @ ?v @ ?w = ds" by (metis append.assoc append_take_drop_id)
    have len: "length ?u = 9" "length ?v = nd0 - 9" "length ?w = nd - nd0" using True ds(2,3) by simp_all
    have "bytes m (p + 9) (digit_bytes ?v)" "bytes m (p + 9 + (nd0 - 9) + 1) (digit_bytes ?w)"
      using m len(1,2) unfolding uv digit_bytes_append bytes_append by (simp_all add: digit_bytes_def)
    note mv = this
    obtain b1 where 1: "s2b_digits (nd0 - 9) m (p + 9) ?b s0 = Some (b1, p + 9 + (nd0 - 9), s0)" "big_ok b1" "0 < big_wds b1"
      "big_k b1 = ?k" "big_val b1 = dec_val (?u @ ?v)"
      using step [OF mv(1) e b(1,4,3,2)] unfolding len by blast
    have e': "(?u @ ?v) @ ?w @ [] = ds" using e by simp
    obtain b2 where 2: "s2b_digits (nd - nd0) m (p + 9 + (nd0 - 9) + 1) b1 s0 = Some (b2, p + 9 + (nd0 - 9) + 1 + (nd - nd0), s0)"
      "big_ok b2" "0 < big_wds b2" "big_val b2 = dec_val ((?u @ ?v) @ ?w)"
      using step [OF mv(2) e' 1(2-5)] unfolding len by blast
    then show ?thesis using True start 1 e 0 by (simp add: s2b_def)
  next
    case False
    let ?u = "take 9 ds" and ?w = "drop 9 ds"
    have e: "?u @ ?w @ [] = ds" by simp
    have mw: "bytes m (p + 10) (digit_bytes ?w)"
    proof (cases "9 \<le> nd")
      case True
      have "drop nd0 ds = take (9 - nd0) (drop nd0 ds) @ ?w" using False by (metis append_take_drop_id drop_drop le_add_diff_inverse2 not_less)
      moreover have "length (take (9 - nd0) (drop nd0 ds)) = 9 - nd0" using True ds(2) by simp
      moreover have "bytes m (p + nd0 + 1) (digit_bytes (drop nd0 ds))" using m ds(2,3) by (simp add: bytes_append digit_bytes_def)
      ultimately have "bytes m (p + nd0 + 1 + (9 - nd0)) (digit_bytes ?w)"
        by (metis bytes_append digit_bytes_append length_map digit_bytes_def)
      then show ?thesis using False by (simp add: add.commute)
    qed (use ds(2) in \<open>simp add: digit_bytes_def\<close>)
    obtain b2 where "s2b_digits (nd - 9) m (p + 10) ?b s0 = Some (b2, p + 10 + (nd - 9), s0)"
      "big_ok b2" "0 < big_wds b2" "big_val b2 = dec_val (?u @ ?w)"
      using step [OF mw e b(1,4,3,2)] ds(2) by auto
    then show ?thesis using False start 0 by (simp add: s2b_def)
  qed
qed

section \<open>Properties\<close>

text \<open>The invariant of the state: the free lists and the chain of the powers \<open>625 ^ 2 ^ i\<close>.\<close>

definition mp_ok :: "mp_state \<Rightarrow> bool" where
  "mp_ok s \<longleftrightarrow> free_ok s \<and> chain_ok s"

lemma chain_keep: "chain_ok s \<Longrightarrow> p5s s' = p5s s \<Longrightarrow> chain_ok s'"
  by (simp add: chain_ok_def)

definition mp_start :: mp_state where
  "mp_start = \<lparr>freelist = None, p5s = [], callocs = 64\<rparr>"

lemma mp_start_ok: "mp_ok mp_start" "free_ok mp_start" "n \<le> 63 \<Longrightarrow> room n mp_start"
  by (simp_all add: mp_ok_def free_ok_def chain_ok_def room_def mp_start_def)

text \<open>Examples: \<open>big2 x y\<close> has two words.\<close>

definition big2 :: "u32 \<Rightarrow> u32 \<Rightarrow> Bigint" where
  "big2 x y = \<lparr>big_k = 1, big_maxwds = 2, big_sign = 0, big_wds = 2, big_x = [x, y]\<rparr>"

lemma big2_ok: "big_ok (big2 x y)" "big_k (big2 x y) = 1" "big_wds (big2 x y) = 2" "big_val (big2 x y) = unat x + W * unat y"
  "y \<noteq> 0 \<Longrightarrow> usable (big2 x y)"
  by (simp_all add: big_ok_def big_wf_def big2_def Kmax_def big_val_def usable_def big_normal_def)

text \<open>
  C26.  \<^verbatim>\<open>mult\<close> returns the product of two numbers of any size up to the limit of the free lists, without zero words at the
  top, and keeps the invariant of the allocation state, when memory can be had.
\<close>

theorem multiply_correct:
  assumes "big_ok a" "big_ok b" "0 < big_wds a \<or> 0 < big_wds b" "big_k a < Kmax" "big_k b < Kmax" "mp_ok s" "room (Suc n) s"
  shows "\<exists>c s'. multiply a b s = Some (c, s') \<and> big_val c = big_val a * big_val b \<and> big_ok c \<and> big_normal c \<and> mp_ok s' \<and> room n s'"
proof -
  have "free_ok s" "chain_ok s" using assms(6) by (simp_all add: mp_ok_def)
  with multiply_ok [OF assms(1,2) _ assms(7,4,5,3)] chain_keep show ?thesis unfolding mp_ok_def by metis
qed

theorem multiply_correct_witness:
  "\<exists>c s'. multiply (big2 1 2) (big2 3 0xffffffff) mp_start = Some (c, s') \<and>
     big_val c = big_val (big2 1 2) * big_val (big2 3 0xffffffff) \<and> big_ok c \<and> big_normal c \<and> mp_ok s' \<and> room 5 s'"
  by (rule multiply_correct) (simp_all add: big2_ok mp_start_ok Kmax_def)

text \<open>
  C27.  \<^verbatim>\<open>pow5mult\<close> multiplies by \<open>5 ^ k\<close>, extending the chain of powers that later calls share as far as \<open>k\<close> needs, and
  keeps the invariant that the chain holds \<open>625\<close>, \<open>625\<^sup>2\<close>, \<open>625\<^sup>4\<close> and so on.
\<close>

theorem pow5mult_correct:
  assumes "big_ok b" "k < 4 * 2 ^ j" "big_k b + 1 + j \<le> Kmax" "mp_ok s" "room (2 * j + n + 2) s"
  shows "\<exists>b' s'. pow5mult b k s = Some (b', s') \<and> big_val b' = big_val b * 5 ^ k \<and> big_ok b' \<and> mp_ok s' \<and> room n s'"
  using pow5mult_ok [OF assms(1,2) _ assms(5) _ assms(3)] assms(4) unfolding mp_ok_def by blast

theorem pow5mult_correct_witness:
  "\<exists>b' s'. pow5mult (big2 7 1) 300 mp_start = Some (b', s') \<and> big_val b' = big_val (big2 7 1) * 5 ^ 300 \<and>
     big_ok b' \<and> mp_ok s' \<and> room 3 s'"
  by (rule pow5mult_correct [of _ _ 7]) (simp_all add: big2_ok mp_start_ok Kmax_def)

text \<open>
  \<^verbatim>\<open>s2b\<close> reads a decimal number of any length, with a decimal point after \<open>nd0\<close> digits that it skips, given the
  value of the first nine digits; it allocates once.
\<close>

theorem s2b_correct:
  assumes "\<forall>d \<in> set ds. d \<le> 9" "length ds = nd" "nd0 \<le> nd" "nd \<le> 9 * 2 ^ Kmax"
    "bytes m p (digit_bytes (take nd0 ds) @ pt # digit_bytes (drop nd0 ds))" "unat y9 = dec_val (take 9 ds)"
    "mp_ok s" "room (Suc n) s"
  shows "\<exists>b s'. s2b m p nd0 nd y9 s = Some (b, s') \<and> big_val b = dec_val ds \<and> big_ok b \<and> mp_ok s' \<and> room n s'"
proof -
  have "free_ok s" "chain_ok s" using assms(7) by (simp_all add: mp_ok_def)
  with s2b_ok [OF assms(1-6) _ assms(8)] chain_keep show ?thesis unfolding mp_ok_def by metis
qed

theorem s2b_correct_witness:
  "\<exists>b s'. s2b (mem_image 4 (digit_bytes [1, 2] @ 46 # digit_bytes [3, 4, 5, 6, 7, 8, 9, 0, 1, 2])) 4 2 12 123456789 mp_start = Some (b, s') \<and>
     big_val b = dec_val [1, 2, 3, 4, 5, 6, 7, 8, 9, 0, 1, 2] \<and> big_ok b \<and> mp_ok s' \<and> room 5 s'"
proof (rule s2b_correct [where pt = 46])
  let ?ds = "[1, 2, 3, 4, 5, 6, 7, 8, 9, 0, 1, 2] :: nat list"
  have "take 2 ?ds = [1, 2]" "drop 2 ?ds = [3, 4, 5, 6, 7, 8, 9, 0, 1, 2]" by simp_all
  then show "bytes (mem_image 4 (digit_bytes [1, 2] @ 46 # digit_bytes [3, 4, 5, 6, 7, 8, 9, 0, 1, 2])) 4
      (digit_bytes (take 2 ?ds) @ 46 # digit_bytes (drop 2 ?ds))"
    by (simp only: mem_image_def bytes_wr_same)
  show "unat (123456789 :: u32) = dec_val (take 9 ?ds)" by (simp add: dec_val_def)
qed (simp_all add: mp_start_ok Kmax_def)

end
