(* ===== verification/BigDivide.thy ===== *)
theory BigDivide
  imports Bignum
begin

unbundle bit_operations_syntax

text \<open>
  Comparison and subtraction of the numbers of \<^verbatim>\<open>mprec.c\<close>, and \<^verbatim>\<open>quorem\<close>, the division step of \<^verbatim>\<open>dtoa.c\<close>.
\<close>

section \<open>Comparison and difference\<close>

text \<open>From the word with index \<open>j - 1\<close> down; with no words the loop looks at the word before the array.\<close>

primrec mcmp_loop :: "nat \<Rightarrow> u32 list \<Rightarrow> u32 list \<Rightarrow> int option" where
  "mcmp_loop 0 xa xb = None"
| "mcmp_loop (Suc j) xa xb =
     (if length xa \<le> j \<or> length xb \<le> j then None
      else if xa ! j \<noteq> xb ! j then Some (if xa ! j < xb ! j then -1 else 1)
      else if j = 0 then Some 0 else mcmp_loop j xa xb)"

definition mcmp :: "Bigint \<Rightarrow> Bigint \<Rightarrow> int option" where
  "mcmp a b =
     (let i = int (big_wds a) - int (big_wds b) in
      if i \<noteq> 0 then Some i else mcmp_loop (big_wds b) (big_x a) (big_x b))"

text \<open>The two loops of \<^verbatim>\<open>diff\<close> on the words of both numbers; \<^verbatim>\<open>>>\<close> of a \<^verbatim>\<open>__Long\<close> keeps the sign.\<close>

fun mdiff_loop :: "u32 list \<Rightarrow> u32 list \<Rightarrow> u32 \<Rightarrow> u32 list option" where
  "mdiff_loop (xa # xas) (xb # xbs) borrow =
     (let y = lo16 xa - lo16 xb + borrow;
          z = hi16 xa - hi16 xb + signed_drop_bit 16 y in
      do { ws \<leftarrow> mdiff_loop xas xbs (signed_drop_bit 16 z); Some (Storeinc z y # ws) })"
| "mdiff_loop (xa # xas) [] borrow =
     (let y = lo16 xa + borrow;
          z = hi16 xa + signed_drop_bit 16 y in
      do { ws \<leftarrow> mdiff_loop xas [] (signed_drop_bit 16 z); Some (Storeinc z y # ws) })"
| "mdiff_loop [] [] borrow = Some []"
| "mdiff_loop [] (xb # xbs) borrow = None"

text \<open>\<^verbatim>\<open>while (!*--xc) wa--;\<close>, which runs out of the array when every word is 0\<close>

primrec mdiff_trim :: "nat \<Rightarrow> u32 list \<Rightarrow> nat option" where
  "mdiff_trim 0 xs = None"
| "mdiff_trim (Suc wa) xs = (if xs ! wa = 0 then mdiff_trim wa xs else Some (Suc wa))"

definition mdiff :: "Bigint \<Rightarrow> Bigint \<Rightarrow> mp_state \<Rightarrow> (Bigint \<times> mp_state) option" where
  "mdiff a b s =
     do { i \<leftarrow> mcmp a b;
          if i = 0
          then do { (c, s) \<leftarrow> Balloc_used 0 s; c \<leftarrow> set_word 0 0 (c\<lparr>big_wds := 1\<rparr>); Some (c, s) }
          else do { let (a, b, i) = (if i < 0 then (b, a, 1) else (a, b, 0));
                    (c, s) \<leftarrow> Balloc_used (big_k a) s;
                    let wa = big_wds a; let wb = big_wds b;
                    if length (big_x a) < wa \<or> length (big_x b) < max 1 wb \<or> length (big_x c) < wa then None
                    else do { ws \<leftarrow> mdiff_loop (take wa (big_x a)) (take (max 1 wb) (big_x b)) 0;
                              w \<leftarrow> mdiff_trim wa ws;
                              Some (c\<lparr>big_sign := i, big_x := ws @ drop wa (big_x c), big_wds := w\<rparr>, s) } } }"

section \<open>The division step of dtoa\<close>

text \<open>The loop of \<^verbatim>\<open>quorem\<close> that subtracts \<open>q\<close> times the words of \<open>S\<close> (the second loop has \<open>q = 1\<close>).\<close>

fun quorem_loop :: "u32 \<Rightarrow> u32 list \<Rightarrow> u32 list \<Rightarrow> u32 \<Rightarrow> u32 \<Rightarrow> u32 list option" where
  "quorem_loop q (si # sx) (b # bx) borrow carry =
     (let ys = lo16 si * q + carry;
          zs = hi16 si * q + hi16 ys;
          y = lo16 b - lo16 ys + borrow;
          z = hi16 b - lo16 zs + signed_drop_bit 16 y in
      do { ws \<leftarrow> quorem_loop q sx bx (signed_drop_bit 16 z) (hi16 zs); Some (Storeinc z y # ws) })"
| "quorem_loop q [] bx borrow carry = Some bx"
| "quorem_loop q (si # sx) [] borrow carry = None"

text \<open>\<^verbatim>\<open>while (--bxe > bx && !*bxe) --n;\<close>\<close>

primrec quorem_trim :: "nat \<Rightarrow> u32 list \<Rightarrow> nat" where
  "quorem_trim 0 xs = 0"
| "quorem_trim (Suc n) xs = (if n > 0 \<and> xs ! n = 0 then quorem_trim n xs else Suc n)"

text \<open>Subtract \<open>q\<close> times \<open>S\<close> and drop zero words from the top, if the word \<open>n\<close> became 0.\<close>

definition quorem_sub :: "u32 \<Rightarrow> u32 list \<Rightarrow> nat \<Rightarrow> Bigint \<Rightarrow> (nat \<times> Bigint) option" where
  "quorem_sub q sx n b =
     do { ws \<leftarrow> quorem_loop q sx (big_x b) 0 0;
          let b = b\<lparr>big_x := ws\<rparr>;
          if length ws \<le> n then None
          else if ws ! n = 0
          then let n = quorem_trim n ws in Some (n, b\<lparr>big_wds := n\<rparr>)
          else Some (n, b) }"

definition quorem :: "Bigint \<Rightarrow> Bigint \<Rightarrow> (u32 \<times> Bigint) option" where
  "quorem b S =
     (let n = big_wds S in
      if big_wds b < n then Some (0, b)
      else if n = 0 then None
      else do { let n = n - 1;
                let sx = take (n + 1) (big_x S);
                bxe \<leftarrow> get_word b n; sxe \<leftarrow> get_word S n;
                if sxe + 1 = 0 then None
                else do { let q = bxe div (sxe + 1);
                          (n, b) \<leftarrow> (if q \<noteq> 0 then quorem_sub q sx n b else Some (n, b));
                          c \<leftarrow> mcmp b S;
                          if c \<ge> 0
                          then do { (n, b) \<leftarrow> quorem_sub 1 sx n b; Some (q + 1, b) }
                          else Some (q, b) } })"

section \<open>Comparison\<close>

lemma wval_split:
  assumes "j < length xs"
  shows "wval (take (Suc j) xs) = wval (take j xs) + W ^ j * unat (xs ! j)"
  using assms by (simp add: take_Suc_conv_app_nth wval_append)

lemma wval_lt_top:
  assumes "j < length xa" "j < length xb" "xa ! j < xb ! j"
  shows "wval (take (Suc j) xa) < wval (take (Suc j) xb)"
proof -
  have "wval (take j xa) < W ^ j" using wval_less [of "take j xa"] assms(1) by simp
  then have "wval (take (Suc j) xa) < W ^ j + W ^ j * unat (xa ! j)" using assms(1) by (simp add: wval_split)
  also have "\<dots> = W ^ j * Suc (unat (xa ! j))" by simp
  also have "\<dots> \<le> W ^ j * unat (xb ! j)" using assms(3) by (intro mult_left_mono) (simp_all add: Suc_le_eq word_less_nat_alt)
  also have "\<dots> \<le> wval (take (Suc j) xb)" using assms(2) by (simp add: wval_split)
  finally show ?thesis .
qed

lemma mcmp_loop_ok:
  assumes "0 < j" "j \<le> length xa" "j \<le> length xb"
  shows "\<exists>r. mcmp_loop j xa xb = Some r \<and> (r < 0 \<longleftrightarrow> wval (take j xa) < wval (take j xb)) \<and>
    (r = 0 \<longleftrightarrow> wval (take j xa) = wval (take j xb))"
  using assms
proof (induction j)
  case (Suc j)
  have l: "j < length xa" "j < length xb" using Suc.prems by simp_all
  show ?case
  proof (cases "xa ! j = xb ! j")
    case True
    then have e: "wval (take (Suc j) xa) < wval (take (Suc j) xb) \<longleftrightarrow> wval (take j xa) < wval (take j xb)"
      "wval (take (Suc j) xa) = wval (take (Suc j) xb) \<longleftrightarrow> wval (take j xa) = wval (take j xb)"
      using l by (simp_all add: wval_split)
    show ?thesis
    proof (cases "j = 0")
      case j: False
      then obtain r where "mcmp_loop j xa xb = Some r" "r < 0 \<longleftrightarrow> wval (take j xa) < wval (take j xb)"
        "r = 0 \<longleftrightarrow> wval (take j xa) = wval (take j xb)"
        using Suc.IH Suc.prems by auto
      then show ?thesis using True l j e by (simp only: mcmp_loop.simps) simp
    qed (use True l e in simp)
  next
    case False
    then consider "xa ! j < xb ! j" | "xb ! j < xa ! j" by (meson linorder_neqE)
    then show ?thesis
    proof cases
      case 1
      with False l wval_lt_top [OF l 1] show ?thesis by (simp only: mcmp_loop.simps) simp
    next
      case 2
      then have "\<not> xa ! j < xb ! j" by auto
      with False l wval_lt_top [OF l(2,1) 2] show ?thesis by (simp only: mcmp_loop.simps) simp
    qed
  qed
qed simp

lemma big_val_less: "big_wf b \<Longrightarrow> big_val b < W ^ big_wds b"
  using wval_less [of "take (big_wds b) (big_x b)"] by (simp add: big_val_def big_wf_def)

lemma normal_wds_less:
  assumes "big_wf a" "big_wf b" "big_normal b" "0 < big_wds a" "big_wds a < big_wds b"
  shows "big_val a < big_val b"
proof -
  have "big_val a < W ^ big_wds a" using assms(1) by (rule big_val_less)
  also have "\<dots> \<le> W ^ (big_wds b - 1)" using assms(5) by (intro power_increasing) simp_all
  also have "\<dots> \<le> big_val b" using big_normal_iff [OF assms(2)] assms(3-5) by simp
  finally show ?thesis .
qed

lemma mcmp_ok:
  assumes "big_wf a" "big_wf b" "big_normal a" "big_normal b" "0 < big_wds a" "0 < big_wds b"
  shows "\<exists>r. mcmp a b = Some r \<and> (r < 0 \<longleftrightarrow> big_val a < big_val b) \<and> (r = 0 \<longleftrightarrow> big_val a = big_val b)"
proof (cases "big_wds a = big_wds b")
  case True
  have "big_wds b \<le> length (big_x a)" "big_wds b \<le> length (big_x b)" using assms(1,2) True by (auto simp: big_wf_def)
  from mcmp_loop_ok [OF assms(6) this] True show ?thesis by (simp add: mcmp_def big_val_def)
next
  case False
  then consider "big_wds a < big_wds b" | "big_wds b < big_wds a" by linarith
  then show ?thesis
  proof cases
    case 1
    then show ?thesis using normal_wds_less [OF assms(1,2,4,5)] by (simp add: mcmp_def)
  next
    case 2
    then show ?thesis using normal_wds_less [OF assms(2,1,3,6)] by (simp add: mcmp_def)
  qed
qed

section \<open>Subtraction\<close>

lemma of_int_half:
  assumes "-65536 \<le> v" "v < 65536"
  shows "signed_drop_bit 16 (of_int v :: u32) = of_int (v div 65536)" "int (unat (of_int v :: u32) mod 65536) = v mod 65536"
proof -
  have "sint (of_int v :: u32) = v"
    using assms by (subst signed_of_int) (simp add: signed_take_bit_int_eq_self)
  then have "sint (signed_drop_bit 16 (of_int v :: u32)) = v div 65536"
    by (simp add: sint_signed_drop_bit_eq drop_bit_eq_div)
  then have "of_int (sint (signed_drop_bit 16 (of_int v :: u32))) = (of_int (v div 65536) :: u32)" by (simp only:)
  then show "signed_drop_bit 16 (of_int v :: u32) = of_int (v div 65536)" by (simp only: of_int_sint scast_id)
  have "int (unat (of_int v :: u32)) = v mod 4294967296" by (simp add: uint_word_of_int)
  then have "int (unat (of_int v :: u32)) mod 65536 = v mod 65536" by (simp add: mod_mod_cancel)
  then show "int (unat (of_int v :: u32) mod 65536) = v mod 65536" by (simp add: zmod_int)
qed

lemma half_div:
  assumes "-65536 \<le> v" "v < 65536"
  shows "v div 65536 = 0 \<or> v div 65536 = (-1 :: int)"
proof (cases "0 \<le> v")
  case True
  then show ?thesis using assms(2) by (simp add: div_pos_pos_trivial)
next
  case False
  then show ?thesis using int_div_pos_eq [of v 65536 "-1" "v + 65536"] assms(1) by simp
qed

lemma sub_step:
  fixes al ah bl bh :: u32 and \<beta> :: int
  assumes "unat al < 65536" "unat ah < 65536" "unat bl < 65536" "unat bh < 65536" "\<beta> = 0 \<or> \<beta> = -1"
  defines "y \<equiv> al - bl + of_int \<beta>"
  defines "z \<equiv> ah - bh + signed_drop_bit 16 y"
  obtains \<beta>' where "\<beta>' = 0 \<or> \<beta>' = -1" "signed_drop_bit 16 z = of_int \<beta>'"
    "int (unat (Storeinc z y)) + int W * \<beta>' = (int (unat al) + 65536 * int (unat ah)) - (int (unat bl) + 65536 * int (unat bh)) + \<beta>"
proof -
  define vy where "vy = int (unat al) - int (unat bl) + \<beta>"
  define vz where "vz = int (unat ah) - int (unat bh) + vy div 65536"
  have y: "y = of_int vy" by (simp add: y_def vy_def)
  have vy: "-65536 \<le> vy" "vy < 65536" unfolding vy_def using assms(1,3,5) by linarith+
  then have dy: "vy div 65536 = 0 \<or> vy div 65536 = -1" by (rule half_div)
  have z: "z = of_int vz" unfolding z_def y of_int_half(1) [OF vy] by (simp add: vz_def)
  have vz: "-65536 \<le> vz" "vz < 65536" unfolding vz_def using assms(2,4) dy by linarith+
  then have dz: "vz div 65536 = 0 \<or> vz div 65536 = -1" by (rule half_div)
  have "int (unat (Storeinc z y)) = vz mod 65536 * 65536 + vy mod 65536"
    by (simp add: unat_Storeinc y z of_int_half(2) [OF vy] of_int_half(2) [OF vz] flip: of_nat_mod)
  moreover have "vz mod 65536 * 65536 + int W * (vz div 65536) = vz * 65536" 
  proof -
    have "vz * 65536 = (65536 * (vz div 65536) + vz mod 65536) * 65536" by (simp only: mult_div_mod_eq)
    then show ?thesis by (simp only: distrib_right)
  qed
  moreover have "vz * 65536 + vy mod 65536 = 65536 * (int (unat ah) - int (unat bh)) + vy"
    unfolding vz_def by (simp add: algebra_simps)
  ultimately show ?thesis
    using that [of "vz div 65536"] dz of_int_half(1) [OF vz] unfolding z by (simp add: vy_def)
qed

lemma word_halves: "int (unat w) = int (unat (lo16 w)) + 65536 * int (unat (hi16 w))"
proof -
  have "unat w = unat (lo16 w) + 65536 * unat (hi16 w)" by (simp add: unat_lo16 unat_hi16)
  then show ?thesis by simp
qed

lemma mdiff_loop_pad:
  "length xbs \<le> length xas \<Longrightarrow> mdiff_loop xas xbs \<beta> = mdiff_loop xas (xbs @ replicate (length xas - length xbs) 0) \<beta>"
  by (induction xas xbs \<beta> rule: mdiff_loop.induct) simp_all

lemma mdiff_loop_val:
  assumes "length xas = length xbs" "\<beta> = 0 \<or> \<beta> = -1"
  shows "\<exists>ws \<beta>'. mdiff_loop xas xbs (of_int \<beta>) = Some ws \<and> length ws = length xas \<and> (\<beta>' = 0 \<or> \<beta>' = -1) \<and>
    int (wval ws) + int W ^ length xas * \<beta>' = int (wval xas) - int (wval xbs) + \<beta>"
  using assms
proof (induction xas xbs arbitrary: \<beta> rule: list_induct2)
  case (Cons xa xas xb xbs)
  define y where "y = lo16 xa - lo16 xb + of_int \<beta>"
  define z where "z = hi16 xa - hi16 xb + signed_drop_bit 16 y"
  obtain \<beta>1 where st: "\<beta>1 = 0 \<or> \<beta>1 = -1" "signed_drop_bit 16 z = of_int \<beta>1"
    "int (unat (Storeinc z y)) + int W * \<beta>1 = int (unat xa) - int (unat xb) + \<beta>"
    by (rule sub_step [OF lo16_less [of xa] hi16_less' [of xa] lo16_less [of xb] hi16_less' [of xb] Cons.prems,
        folded y_def, folded z_def, folded word_halves])
  obtain ws \<beta>2 where IH: "mdiff_loop xas xbs (of_int \<beta>1) = Some ws" "length ws = length xas" "\<beta>2 = 0 \<or> \<beta>2 = -1"
    "int (wval ws) + int W ^ length xas * \<beta>2 = int (wval xas) - int (wval xbs) + \<beta>1"
    using Cons.IH [OF st(1)] by blast
  have "mdiff_loop (xa # xas) (xb # xbs) (of_int \<beta>) = Some (Storeinc z y # ws)"
    using IH(1) st(2) by (simp add: Let_def y_def z_def)
  moreover have "int (wval (Storeinc z y # ws)) + int W ^ length (xa # xas) * \<beta>2
      = int (unat (Storeinc z y)) + int W * (int (wval ws) + int W ^ length xas * \<beta>2)"
    by (simp add: algebra_simps del: of_nat_unat)
  then have "int (wval (Storeinc z y # ws)) + int W ^ length (xa # xas) * \<beta>2 = int (wval (xa # xas)) - int (wval (xb # xbs)) + \<beta>"
    using st(3) unfolding IH(4) by (simp add: algebra_simps del: of_nat_unat)
  ultimately show ?case using IH(2,3) by (intro exI [of _ "Storeinc z y # ws"] exI [of _ \<beta>2]) simp
qed simp

lemma mdiff_words:
  assumes "length xbs \<le> length xas" "wval xbs \<le> wval xas"
  obtains ws where "mdiff_loop xas xbs 0 = Some ws" "length ws = length xas" "wval ws = wval xas - wval xbs"
proof -
  let ?xbs = "xbs @ replicate (length xas - length xbs) 0"
  obtain ws \<beta> where w: "mdiff_loop xas ?xbs (of_int 0) = Some ws" "length ws = length xas" "\<beta> = 0 \<or> \<beta> = -1"
    "int (wval ws) + int W ^ length xas * \<beta> = int (wval xas) - int (wval ?xbs) + 0"
    using mdiff_loop_val [of xas ?xbs 0] assms(1) by auto
  have v: "wval ?xbs = wval xbs" by (simp add: wval_append)
  have lt: "int (wval ws) < int W ^ length xas"
    using wval_less [of ws] w(2) by (simp only: of_nat_power [symmetric] of_nat_less_iff)
  have "\<beta> \<noteq> -1"
  proof
    assume "\<beta> = -1"
    with w(4) lt v assms(2) show False by (simp only: mult_minus_right mult_1_right)
  qed
  then have "\<beta> = 0" using w(3) by simp
  then have "int (wval ws) = int (wval xas - wval xbs)" using w(4) v assms(2) by simp
  then show ?thesis using that w mdiff_loop_pad [OF assms(1), of 0] by simp
qed

lemma mdiff_trim_ok:
  assumes "wval (take n xs) \<noteq> 0" "n \<le> length xs"
  shows "\<exists>w. mdiff_trim n xs = Some w \<and> 0 < w \<and> w \<le> n \<and> xs ! (w - 1) \<noteq> 0 \<and> wval (take w xs) = wval (take n xs)"
  using assms
proof (induction n)
  case (Suc n)
  show ?case
  proof (cases "xs ! n = 0")
    case True
    have e: "wval (take (Suc n) xs) = wval (take n xs)" using Suc.prems(2) True by (simp add: wval_split)
    then obtain w where "mdiff_trim n xs = Some w \<and> 0 < w \<and> w \<le> n \<and> xs ! (w - 1) \<noteq> 0 \<and> wval (take w xs) = wval (take n xs)"
      using Suc.IH Suc.prems by auto
    then show ?thesis using True e by (intro exI [of _ w]) auto
  qed auto
qed simp

lemma mdiff_ok:
  assumes a: "usable a" and b: "usable b" and s: "free_ok s" "room (Suc n) s"
  shows "\<exists>c s'. mdiff a b s = Some (c, s') \<and> usable c \<and> big_val c = (if big_val a < big_val b then big_val b - big_val a else big_val a - big_val b) \<and>
    big_sign c = (if big_val a < big_val b then 1 else 0) \<and> free_ok s' \<and> room n s' \<and> p5s s' = p5s s"
proof -
  obtain r where r: "mcmp a b = Some r" "r < 0 \<longleftrightarrow> big_val a < big_val b" "r = 0 \<longleftrightarrow> big_val a = big_val b"
    using mcmp_ok [of a b] a b by (auto simp: usable_def big_ok_def)
  show ?thesis
  proof (cases "r = 0")
    case True
    obtain c s' where c: "Balloc_used 0 s = Some (c, s')" "big_wf c" "big_k c = 0" "big_wds c = 0"
      "free_ok s'" "freelist s' \<noteq> None" "room n s'" "p5s s' = p5s s" "big_sign c = 0" by (rule Balloc_ok [OF s, of 0]) simp
    have "length (big_x c) = 1" using c(2,3) by (simp add: big_wf_def)
    then obtain x where x: "big_x c = [x]" by (cases "big_x c") auto
    let ?c = "c\<lparr>big_wds := 1, big_x := [0]\<rparr>"
    have "mdiff a b s = Some (?c, s')" using True r(1) c(1) x by (simp add: mdiff_def set_word_def)
    moreover have "usable ?c" "big_val ?c = 0" using c(2) x by (simp_all add: usable_def big_ok_def big_wf_def big_normal_def big_val_def)
    ultimately show ?thesis using True r c by simp
  next
    case False
    define a' b' where "a' = (if r < 0 then b else a)" and "b' = (if r < 0 then a else b)"
    have ab: "usable a'" "usable b'" "big_val b' < big_val a'" using a b r False by (auto simp: a'_def b'_def)
    have le: "big_wds b' \<le> big_wds a'"
    proof (rule ccontr)
      assume "\<not> big_wds b' \<le> big_wds a'"
      then show False using normal_wds_less [of a' b'] ab by (simp add: usable_def big_ok_def)
    qed
    have "big_k a' \<le> Kmax" using ab(1) by (simp add: usable_def big_ok_def big_wf_def)
    then obtain c s' where c: "Balloc_used (big_k a') s = Some (c, s')" "big_wf c" "big_k c = big_k a'" "big_wds c = 0"
      "free_ok s'" "freelist s' \<noteq> None" "room n s'" "p5s s' = p5s s" by (rule Balloc_ok [OF s])
    let ?xa = "take (big_wds a') (big_x a')" and ?xb = "take (big_wds b') (big_x b')"
    have len: "big_wds a' \<le> length (big_x a')" "big_wds b' \<le> length (big_x b')" "length (big_x c) = length (big_x a')" "0 < big_wds b'"
      using ab c by (auto simp: usable_def big_ok_def big_wf_def)
    obtain ws where ws: "mdiff_loop ?xa ?xb 0 = Some ws" "length ws = big_wds a'" "wval ws = big_val a' - big_val b'"
      using mdiff_words [of ?xb ?xa] len le ab(3) by (auto simp: big_val_def)
    obtain w where w: "mdiff_trim (big_wds a') ws = Some w" "0 < w" "w \<le> big_wds a'" "ws ! (w - 1) \<noteq> 0" "wval (take w ws) = wval ws"
      using mdiff_trim_ok [of "big_wds a'" ws] ws(2,3) ab(3) by auto
    let ?c = "c\<lparr>big_sign := if r < 0 then 1 else 0, big_x := ws @ drop (big_wds a') (big_x c), big_wds := w\<rparr>"
    have "(if r < 0 then (b, a, 1) else (a, b, 0 :: int)) = (a', b', if r < 0 then 1 else 0)" by (simp add: a'_def b'_def)
    then have "mdiff a b s = Some (?c, s')"
      using False r(1) c(1) len ws(1) w(1) le unfolding mdiff_def
      by (simp add: Let_def max_absorb2 Suc_le_eq)
    moreover have "usable ?c" "big_val ?c = big_val a' - big_val b'"
      using c(2,3) len w ws by (auto simp: usable_def big_ok_def big_wf_def big_normal_def big_val_def nth_append)
    ultimately show ?thesis using r c by (auto simp: a'_def b'_def)
  qed
qed

section \<open>Division\<close>

lemma quorem_loop_val:
  assumes "unat q < 65536" "length sx \<le> length bx" "\<beta> = 0 \<or> \<beta> = -1" "unat c < 65536"
  shows "\<exists>ws \<beta>' c'. quorem_loop q sx bx (of_int \<beta>) c = Some ws \<and> length ws = length bx \<and> drop (length sx) ws = drop (length sx) bx \<and>
    (\<beta>' = 0 \<or> \<beta>' = -1) \<and>
    int (wval (take (length sx) ws)) + int W ^ length sx * (\<beta>' - int c') =
      int (wval (take (length sx) bx)) - int (unat q) * int (wval sx) - int (unat c) + \<beta>"
  using assms(2-4)
proof (induction sx arbitrary: bx \<beta> c)
  case Nil
  then show ?case by (intro exI [of _ bx] exI [of _ \<beta>] exI [of _ "unat c"]) simp
next
  case (Cons si sx)
  then obtain b bx' where bx: "bx = b # bx'" by (cases bx) auto
  define ys where "ys = lo16 si * q + c"
  define zs where "zs = hi16 si * q + hi16 ys"
  define y where "y = lo16 b - lo16 ys + of_int \<beta>"
  define z where "z = hi16 b - lo16 zs + signed_drop_bit 16 y"
  have ma: "unat (push_bit 16 zs + lo16 ys) + W * unat (hi16 zs) = unat q * unat si + unat c" "unat (hi16 zs) < 65536"
    using multadd_step [of q c si] assms(1) Cons.prems(3) by (simp_all add: ys_def zs_def)
  then have p: "int (unat (lo16 ys)) + 65536 * int (unat (lo16 zs)) = int (unat q) * int (unat si) + int (unat c) - int W * int (unat (hi16 zs))"
  proof -
    have "unat (lo16 ys) + 65536 * unat (lo16 zs) + W * unat (hi16 zs) = unat q * unat si + unat c"
      using ma(1) by (simp add: unat_push16_add unat_lo16)
    then have "int (unat (lo16 ys) + 65536 * unat (lo16 zs) + W * unat (hi16 zs)) = int (unat q * unat si + unat c)" by (simp only:)
    then show ?thesis by (simp del: of_nat_unat)
  qed
  obtain \<beta>1 where st: "\<beta>1 = 0 \<or> \<beta>1 = -1" "signed_drop_bit 16 z = of_int \<beta>1"
    "int (unat (Storeinc z y)) + int W * \<beta>1 = int (unat b) - (int (unat (lo16 ys)) + 65536 * int (unat (lo16 zs))) + \<beta>"
    by (rule sub_step [OF lo16_less [of b] hi16_less' [of b] lo16_less [of ys] lo16_less [of zs] Cons.prems(2),
        folded y_def, folded z_def, folded word_halves])
  have l: "length sx \<le> length bx'" using Cons.prems(1) bx by simp
  obtain ws \<beta>2 c2 where IH: "quorem_loop q sx bx' (of_int \<beta>1) (hi16 zs) = Some ws" "length ws = length bx'"
    "drop (length sx) ws = drop (length sx) bx'" "\<beta>2 = 0 \<or> \<beta>2 = -1"
    "int (wval (take (length sx) ws)) + int W ^ length sx * (\<beta>2 - int c2) =
      int (wval (take (length sx) bx')) - int (unat q) * int (wval sx) - int (unat (hi16 zs)) + \<beta>1"
    using Cons.IH [OF l st(1) ma(2)] by blast
  have "quorem_loop q (si # sx) bx (of_int \<beta>) c = Some (Storeinc z y # ws)"
    using IH(1) st(2) bx by (simp add: Let_def y_def z_def ys_def zs_def)
  moreover have "int (wval (take (length (si # sx)) (Storeinc z y # ws))) + int W ^ length (si # sx) * (\<beta>2 - int c2)
      = int (unat (Storeinc z y)) + int W * (int (wval (take (length sx) ws)) + int W ^ length sx * (\<beta>2 - int c2))"
    by (simp add: algebra_simps del: of_nat_unat)
  then have "int (wval (take (length (si # sx)) (Storeinc z y # ws))) + int W ^ length (si # sx) * (\<beta>2 - int c2) =
      int (wval (take (length (si # sx)) bx)) - int (unat q) * int (wval (si # sx)) - int (unat c) + \<beta>"
    using st(3) p unfolding IH(5) bx by (simp add: algebra_simps del: of_nat_unat)
  ultimately show ?case using IH(2-4) bx by (intro exI [of _ "Storeinc z y # ws"] exI [of _ \<beta>2] exI [of _ c2]) simp
qed

lemma quorem_words:
  assumes "unat q < 65536" "length sx \<le> length bx" "unat q * wval sx \<le> wval (take (length sx) bx)"
  obtains ws where "quorem_loop q sx bx 0 0 = Some ws" "length ws = length bx"
    "wval (take (length sx) ws) = wval (take (length sx) bx) - unat q * wval sx"
proof -
  obtain ws \<beta> c where w: "quorem_loop q sx bx (of_int 0) 0 = Some ws" "length ws = length bx" "\<beta> = 0 \<or> \<beta> = -1"
    "int (wval (take (length sx) ws)) + int W ^ length sx * (\<beta> - int c) =
      int (wval (take (length sx) bx)) - int (unat q) * int (wval sx) - int (unat (0 :: u32)) + 0"
    using quorem_loop_val [OF assms(1,2), of 0 0] by auto
  let ?P = "int W ^ length sx"
  have le: "int (unat q) * int (wval sx) \<le> int (wval (take (length sx) bx))"
    using assms(3) by (simp only: of_nat_mult [symmetric] of_nat_le_iff)
  have lt: "int (wval (take (length sx) ws)) < ?P"
    using wval_less [of "take (length sx) ws"] w(2) assms(2) by (simp add: min_absorb2 del: of_nat_numeral of_nat_power flip: of_nat_power)
  have "\<beta> - int c = 0"
  proof (rule ccontr)
    assume "\<beta> - int c \<noteq> 0"
    then have "\<beta> - int c \<le> -1" using w(3) by linarith
    then have "?P * (\<beta> - int c) \<le> ?P * (-1)" by (intro mult_left_mono) simp_all
    moreover have "unat (0 :: u32) = 0" by simp
    ultimately show False using w(4) le lt by linarith
  qed
  then have "int (wval (take (length sx) ws)) = int (wval (take (length sx) bx)) - int (unat q) * int (wval sx)"
    using w(4) by simp
  also have "\<dots> = int (wval (take (length sx) bx) - unat q * wval sx)" using assms(3) by (simp add: of_nat_diff)
  finally show ?thesis using that w(1,2) by simp
qed

lemma quorem_trim_ok:
  assumes "n \<le> length xs"
  shows "quorem_trim n xs \<le> n \<and> wval (take (quorem_trim n xs) xs) = wval (take n xs) \<and>
    (quorem_trim n xs = 0 \<longrightarrow> n = 0) \<and> (quorem_trim n xs = 0 \<or> quorem_trim n xs = 1 \<or> xs ! (quorem_trim n xs - 1) \<noteq> 0)"
  using assms by (induction n) (auto simp: wval_split)

lemma quorem_sub_ok:
  assumes b: "big_wf b" "big_wds b = Suc n" and sx: "length sx = Suc n" and q: "unat q < 65536" "unat q * wval sx \<le> big_val b"
  obtains n' b' where "quorem_sub q sx n b = Some (n', b')" "big_ok b'" "big_normal b'"
    "big_val b' = big_val b - unat q * wval sx" "n' = n \<and> big_wds b' = Suc n \<or> big_wds b' = n' \<and> n' \<le> n"
proof -
  have l: "Suc n \<le> length (big_x b)" using b by (simp add: big_wf_def)
  obtain ws where ws: "quorem_loop q sx (big_x b) 0 0 = Some ws" "length ws = length (big_x b)"
    "wval (take (Suc n) ws) = big_val b - unat q * wval sx"
    using quorem_words [OF q(1), of sx "big_x b"] sx l q(2) b(2) by (auto simp: big_val_def)
  show ?thesis
  proof (cases "ws ! n = 0")
    case True
    let ?n = "quorem_trim n ws"
    let ?b = "b\<lparr>big_x := ws, big_wds := ?n\<rparr>"
    have t: "?n \<le> n" "wval (take ?n ws) = wval (take n ws)" "?n = 0 \<longrightarrow> n = 0" "?n = 0 \<or> ?n = 1 \<or> ws ! (?n - 1) \<noteq> 0"
      using quorem_trim_ok [of n ws] ws(2) l by auto
    have "wval (take n ws) = wval (take (Suc n) ws)" using True ws(2) l by (simp add: wval_split)
    then have "big_val ?b = big_val b - unat q * wval sx" using t(2) ws(3) by (simp add: big_val_def)
    moreover have "big_ok ?b" "big_normal ?b" using b ws(2) t True by (auto simp: big_ok_def big_wf_def big_normal_def)
    ultimately show ?thesis using that [of ?n ?b] ws(1,2) True l t(1) by (simp add: quorem_sub_def Let_def not_le Suc_le_eq)
  next
    case False
    let ?b = "b\<lparr>big_x := ws\<rparr>"
    have "big_ok ?b" "big_normal ?b" using b ws(2) False by (auto simp: big_ok_def big_wf_def big_normal_def)
    moreover have "big_val ?b = big_val b - unat q * wval sx" using ws(3) b(2) by (simp add: big_val_def)
    ultimately show ?thesis using that [of n ?b] ws(1,2) False l b(2) by (simp add: quorem_sub_def Let_def not_le Suc_le_eq)
  qed
qed

text \<open>The estimate from the top words is the quotient or one less.\<close>

lemma quotient_estimate:
  fixes B S P :: nat
  assumes P: "0 < P" and B: "b * P \<le> B" "B < (b + 1) * P" and S: "s * P \<le> S" "S < (s + 1) * P"
    and s: "b div (s + 1) < s"
  shows "b div (s + 1) * S \<le> B" "B < (b div (s + 1) + 2) * S"
proof -
  let ?q = "b div (s + 1)"
  have "?q * S \<le> ?q * ((s + 1) * P)" using S(2) by (intro mult_left_mono) simp_all
  also have "\<dots> = ?q * (s + 1) * P" by (simp only: mult.assoc)
  also have "\<dots> \<le> b * P" by (intro mult_right_mono) (simp_all del: mult_Suc_right add_Suc_right)
  finally show "?q * S \<le> B" using B(1) by simp
  have "b < (?q + 1) * (s + 1)" using dividend_less_div_times [of "s + 1" b] by simp
  then have "b + 1 \<le> (?q + 1) * (s + 1)" by simp
  also have "\<dots> \<le> (?q + 2) * s" using s by (simp add: algebra_simps)
  finally have "(b + 1) * P \<le> (?q + 2) * s * P" by (intro mult_right_mono) simp_all
  also have "\<dots> \<le> (?q + 2) * S" using S(1) by (simp only: mult.assoc) (intro mult_left_mono, simp_all)
  finally show "B < (?q + 2) * S" using B(2) by simp
qed

lemma top_bounds:
  assumes "big_wf b" "big_wds b = Suc n"
  shows "unat (big_x b ! n) * W ^ n \<le> big_val b" "big_val b < (unat (big_x b ! n) + 1) * W ^ n"
proof -
  have l: "n < length (big_x b)" using assms by (simp add: big_wf_def)
  have "big_val b = wval (take n (big_x b)) + W ^ n * unat (big_x b ! n)" using assms(2) wval_split [OF l] by (simp add: big_val_def)
  moreover have "wval (take n (big_x b)) < W ^ n" using wval_less [of "take n (big_x b)"] l by simp
  ultimately show "unat (big_x b ! n) * W ^ n \<le> big_val b" "big_val b < (unat (big_x b ! n) + 1) * W ^ n"
    by (simp_all add: algebra_simps)
qed

lemma mcmp_less:
  assumes "big_wf b" "big_normal b" "usable S" "0 < big_val S"
  shows "\<exists>r. mcmp b S = Some r \<and> (0 \<le> r \<longleftrightarrow> big_val S \<le> big_val b)"
proof (cases "big_wds b = 0")
  case True
  then show ?thesis using assms(3,4) by (simp add: mcmp_def big_val_def usable_def)
next
  case False
  then obtain r where "mcmp b S = Some r" "r < 0 \<longleftrightarrow> big_val b < big_val S"
    using mcmp_ok [of b S] assms by (auto simp: usable_def big_ok_def)
  then show ?thesis by auto
qed

lemma wds_less:
  assumes "big_wf b" "usable S" "0 < big_val S" "big_wds b < big_wds S"
  shows "big_val b < big_val S"
  using assms normal_wds_less [of b S] by (cases "big_wds b = 0") (auto simp: big_val_def usable_def big_ok_def)

lemma quotient_less:
  fixes B S P :: nat
  assumes "b * P \<le> B" "S < (s + 1) * P" "B < 10 * S"
  shows "b div (s + 1) < 10"
proof (rule ccontr)
  assume "\<not> b div (s + 1) < 10"
  then have "10 * (s + 1) \<le> b" by (simp add: not_less less_eq_div_iff_mult_less_eq)
  then have "10 * (s + 1) * P \<le> b * P" by (intro mult_right_mono) simp_all
  then show False using assms by linarith
qed

lemma div_mod_sub:
  fixes B S q :: nat
  assumes "q * S \<le> B" "B - q * S < S"
  shows "q = B div S" "B - q * S = B mod S"
proof -
  have B: "B = q * S + (B - q * S)" using assms(1) by simp
  show "q = B div S" "B - q * S = B mod S"
    using assms(2) B by (metis div_mult_self3 div_less add_0 less_nat_zero_code not_gr_zero add.commute mult.commute,
      metis mod_mult_self3 mod_less)
qed

lemma quorem_ok:
  assumes S: "usable S" and b: "big_ok b" "big_normal b" "big_wds b \<le> big_wds S"
    and top: "10 \<le> unat (big_x S ! (big_wds S - 1))" "unat (big_x S ! (big_wds S - 1)) + 1 < W" and lt: "big_val b < 10 * big_val S"
  shows "\<exists>q b'. quorem b S = Some (q, b') \<and> unat q = big_val b div big_val S \<and> big_val b' = big_val b mod big_val S \<and>
    big_ok b' \<and> big_normal b' \<and> big_wds b' \<le> big_wds S"
proof -
  have wf: "big_wf b" "big_wf S" using S b(1) by (simp_all add: usable_def big_ok_def)
  obtain n where n: "big_wds S = Suc n" using S by (cases "big_wds S") (auto simp: usable_def)
  have pos: "0 < big_val S" using lt by simp
  show ?thesis
  proof (cases "big_wds b < big_wds S")
    case True
    then have "big_val b < big_val S" using wds_less [OF wf(1) S pos] by simp
    then show ?thesis using True b by (simp add: quorem_def Let_def)
  next
    case False
    then have wb: "big_wds b = Suc n" using b(3) n by simp
    let ?s = "big_x S ! n" and ?b = "big_x b ! n"
    have l: "n < length (big_x S)" "n < length (big_x b)" using wf n wb by (simp_all add: big_wf_def)
    have s1: "unat (?s + 1) = unat ?s + 1" using top(2) n by (subst add32) simp_all
    let ?q = "?b div (?s + 1)"
    have q: "unat ?q = unat ?b div (unat ?s + 1)" by (simp add: unat_div s1)
    note tb = top_bounds [OF wf(1) wb] and ts = top_bounds [OF wf(2) n]
    have q9: "unat ?q < 10" unfolding q by (rule quotient_less [OF tb(1) ts(2) lt])
    have e: "unat ?q * big_val S \<le> big_val b" "big_val b < (unat ?q + 2) * big_val S"
      using quotient_estimate [OF _ tb ts] q9 top(1) n unfolding q by simp_all
    let ?sx = "take (Suc n) (big_x S)"
    have sx: "length ?sx = Suc n" "wval ?sx = big_val S" using l n by (simp_all add: big_val_def)
    have ns: "?s + 1 \<noteq> 0" using s1 by (metis unsigned_0 add_is_0 one_neq_zero)
    have "\<exists>n1 b1. (if ?q \<noteq> 0 then quorem_sub ?q ?sx n b else Some (n, b)) = Some (n1, b1) \<and> big_ok b1 \<and> big_normal b1 \<and>
        big_val b1 = big_val b - unat ?q * big_val S \<and> (n1 = n \<and> big_wds b1 = Suc n \<or> big_wds b1 = n1 \<and> n1 \<le> n)"
    proof (cases "?q = 0")
      case True then show ?thesis using b wb by simp
    next
      case False
      obtain n1 b1 where "quorem_sub ?q ?sx n b = Some (n1, b1)" "big_ok b1" "big_normal b1"
        "big_val b1 = big_val b - unat ?q * wval ?sx" "n1 = n \<and> big_wds b1 = Suc n \<or> big_wds b1 = n1 \<and> n1 \<le> n"
        by (rule quorem_sub_ok [OF wf(1) wb sx(1), of ?q]) (use q9 e(1) sx(2) in simp_all)
      then show ?thesis using False sx(2) by simp
    qed
    then obtain n1 b1 where 1: "(if ?q \<noteq> 0 then quorem_sub ?q ?sx n b else Some (n, b)) = Some (n1, b1)" "big_ok b1" "big_normal b1"
        "big_val b1 = big_val b - unat ?q * big_val S" "n1 = n \<and> big_wds b1 = Suc n \<or> big_wds b1 = n1 \<and> n1 \<le> n" by blast
    have wf1: "big_wf b1" using 1(2) by (simp add: big_ok_def)
    obtain r where r: "mcmp b1 S = Some r" "0 \<le> r \<longleftrightarrow> big_val S \<le> big_val b1" using mcmp_less [OF wf1 1(3) S pos] by blast
    have Q: "quorem b S = (if r \<ge> 0 then do { (n, b) \<leftarrow> quorem_sub 1 ?sx n1 b1; Some (?q + 1, b) } else Some (?q, b1))"
      using wb n l ns 1(1) r(1) by (simp add: quorem_def Let_def get_word_def)
    show ?thesis
    proof (cases "0 \<le> r")
      case False
      then have "big_val b - unat ?q * big_val S < big_val S" using r(2) 1(4) by simp
      then show ?thesis using Q False 1 n div_mod_sub [OF e(1)] by auto
    next
      case True
      then have le: "big_val S \<le> big_val b1" using r(2) by simp
      have "n1 = n \<and> big_wds b1 = Suc n"
      proof (rule ccontr)
        assume "\<not> (n1 = n \<and> big_wds b1 = Suc n)"
        then have "big_wds b1 < big_wds S" using 1(5) n by auto
        then show False using wds_less [OF wf1 S pos] le by simp
      qed
      then have w1: "n1 = n" "big_wds b1 = Suc n" by simp_all
      obtain n2 b2 where 2: "quorem_sub 1 ?sx n b1 = Some (n2, b2)" "big_ok b2" "big_normal b2"
        "big_val b2 = big_val b1 - unat (1 :: u32) * wval ?sx" "n2 = n \<and> big_wds b2 = Suc n \<or> big_wds b2 = n2 \<and> n2 \<le> n"
        by (rule quorem_sub_ok [OF wf1 w1(2) sx(1), of 1]) (use le sx(2) in simp_all)
      have q1: "unat (?q + 1) = unat ?q + 1" using q9 by (subst add32) simp_all
      have "big_val b2 = big_val b - unat (?q + 1) * big_val S" using 2(4) 1(4) sx(2) unfolding q1 by simp
      moreover have "unat (?q + 1) * big_val S \<le> big_val b" "big_val b - unat (?q + 1) * big_val S < big_val S"
        using le e 1(4) unfolding q1 by (auto simp: algebra_simps)
      ultimately show ?thesis
        using Q True w1 2 n div_mod_sub [of "unat (?q + 1)" "big_val S" "big_val b"] by auto
    qed
  qed
qed

section \<open>Properties\<close>

text \<open>
  C28.  \<^verbatim>\<open>cmp\<close> orders two numbers by their values, and \<^verbatim>\<open>diff\<close> returns the absolute value of their difference with its sign.
\<close>

theorem mcmp_mdiff_correct:
  assumes "usable a" "usable b" "mp_ok s" "room (Suc n) s"
  shows "(\<exists>r. mcmp a b = Some r \<and> (r < 0 \<longleftrightarrow> big_val a < big_val b) \<and> (r = 0 \<longleftrightarrow> big_val a = big_val b)) \<and>
    (\<exists>c s'. mdiff a b s = Some (c, s') \<and> usable c \<and> mp_ok s' \<and> room n s' \<and>
      int (big_val a) - int (big_val b) = (if big_sign c = 0 then int (big_val c) else - int (big_val c)))"
proof (rule conjI)
  show "\<exists>r. mcmp a b = Some r \<and> (r < 0 \<longleftrightarrow> big_val a < big_val b) \<and> (r = 0 \<longleftrightarrow> big_val a = big_val b)"
    using mcmp_ok [of a b] assms(1,2) by (simp add: usable_def big_ok_def)
  have "free_ok s" "chain_ok s" using assms(3) by (simp_all add: mp_ok_def)
  from mdiff_ok [OF assms(1,2) this(1) assms(4)] this(2) chain_keep
  show "\<exists>c s'. mdiff a b s = Some (c, s') \<and> usable c \<and> mp_ok s' \<and> room n s' \<and>
      int (big_val a) - int (big_val b) = (if big_sign c = 0 then int (big_val c) else - int (big_val c))"
    unfolding mp_ok_def by (fastforce simp: of_nat_diff)
qed

theorem mcmp_mdiff_correct_witness:
  "\<exists>c s'. mdiff (big2 1 2) (big2 3 5) mp_start = Some (c, s') \<and> usable c \<and> mp_ok s' \<and> room 5 s' \<and>
     int (big_val (big2 1 2)) - int (big_val (big2 3 5)) = (if big_sign c = 0 then int (big_val c) else - int (big_val c))"
  by (rule mcmp_mdiff_correct [THEN conjunct2]) (simp_all add: big2_ok mp_start_ok)

text \<open>
  C29.  The division step of the decimal output: for \<open>b < 10 S\<close>, where the top word of \<open>S\<close> is at least 10 and not the
  largest one, \<^verbatim>\<open>quorem\<close> returns the quotient and leaves the remainder in \<open>b\<close>; its estimate from the top words is
  at most one too small.
\<close>

theorem quorem_correct:
  assumes "usable S" "big_ok b" "big_normal b" "big_wds b \<le> big_wds S"
    "10 \<le> unat (big_x S ! (big_wds S - 1))" "unat (big_x S ! (big_wds S - 1)) + 1 < 2 ^ 32" "big_val b < 10 * big_val S"
  shows "\<exists>q b'. quorem b S = Some (q, b') \<and> unat q = big_val b div big_val S \<and> big_val b' = big_val b mod big_val S \<and>
    big_ok b' \<and> big_normal b' \<and> big_wds b' \<le> big_wds S"
  by (rule quorem_ok) (use assms in simp_all)

theorem quorem_correct_witness:
  "\<exists>q b'. quorem (big2 9 255) (big2 3 40) = Some (q, b') \<and> unat q = big_val (big2 9 255) div big_val (big2 3 40) \<and>
     big_val b' = big_val (big2 9 255) mod big_val (big2 3 40) \<and> big_ok b' \<and> big_normal b' \<and> big_wds b' \<le> big_wds (big2 3 40)"
proof (rule quorem_correct)
  show "big_normal (big2 9 255)" by (simp add: big_normal_def big2_def)
  show "10 \<le> unat (big_x (big2 3 40) ! (big_wds (big2 3 40) - 1))" "unat (big_x (big2 3 40) ! (big_wds (big2 3 40) - 1)) + 1 < 2 ^ 32"
    by (simp_all add: big2_def)
qed (simp_all add: big2_ok)

end
