(* ===== verification/BigDouble.thy ===== *)
theory BigDouble
  imports BigDivide
begin

unbundle bit_operations_syntax

text \<open>
  The routines of \<^verbatim>\<open>mprec.c\<close> that look at bits: leading and trailing zeros, the number of a \<^verbatim>\<open>double\<close> (given as its two
  words, the higher one first), the bits that a shift drops.
\<close>

section \<open>Counting zero bits\<close>

text \<open>\<^verbatim>\<open>if (!(x & mask)) { k += j; x <<= j; }\<close> and the same to the right\<close>

definition hi_step :: "u32 \<Rightarrow> nat \<Rightarrow> nat \<times> u32 \<Rightarrow> nat \<times> u32" where
  "hi_step msk j kx = (case kx of (k, x) \<Rightarrow> if x AND msk = 0 then (k + j, push_bit j x) else (k, x))"

definition hi0bits :: "u32 \<Rightarrow> nat" where
  "hi0bits x =
     (let (k, x) = hi_step 0xc0000000 2 (hi_step 0xf0000000 4 (hi_step 0xff000000 8 (hi_step 0xffff0000 16 (0, x)))) in
      if x AND 0x80000000 = 0 then (if x AND 0x40000000 = 0 then 32 else k + 1) else k)"

definition lo_step :: "u32 \<Rightarrow> nat \<Rightarrow> nat \<times> u32 \<Rightarrow> nat \<times> u32" where
  "lo_step msk j kx = (case kx of (k, x) \<Rightarrow> if x AND msk = 0 then (k + j, drop_bit j x) else (k, x))"

text \<open>The count and the new value of \<^verbatim>\<open>*y\<close>\<close>

definition lo0bits :: "u32 \<Rightarrow> nat \<times> u32" where
  "lo0bits y =
     (let x = y in
      if x AND 7 \<noteq> 0
      then if x AND 1 \<noteq> 0 then (0, y)
           else if x AND 2 \<noteq> 0 then (1, drop_bit 1 x)
           else (2, drop_bit 2 x)
      else let (k, x) = lo_step 0x3 2 (lo_step 0xf 4 (lo_step 0xff 8 (lo_step 0xffff 16 (0, x)))) in
           if x AND 1 = 0
           then let k = k + 1; x = drop_bit 1 x in if x = 0 then (32, y) else (k, x)
           else (k, x))"

section \<open>Bits of numbers and of doubles\<close>

text \<open>The number of a \<^verbatim>\<open>double\<close>, whose words are \<open>d0\<close> and \<open>d1\<close>, with \<^verbatim>\<open>*e\<close> and \<^verbatim>\<open>*bits\<close>.\<close>

definition d2b_words :: "u32 \<Rightarrow> u32 \<Rightarrow> u32 \<times> u32 \<times> nat \<times> nat" where
  "d2b_words z d1 =
     (if d1 \<noteq> 0
      then let (k, y) = lo0bits d1;
               (x0, z) = (if k \<noteq> 0 then (y OR push_bit (32 - k) z, drop_bit k z) else (y, z)) in
           (x0, z, if z \<noteq> 0 then 2 else 1, k)
      else let (k, z) = lo0bits z in (z, 0, 1, k + 32))"

text \<open>\<^verbatim>\<open>*e\<close> and \<^verbatim>\<open>*bits\<close>, where \<open>w\<close> is the highest of the \<open>i\<close> words\<close>

definition d2b_exp :: "u32 \<Rightarrow> nat \<Rightarrow> nat \<Rightarrow> u32 \<Rightarrow> int \<times> int" where
  "d2b_exp de k i w =
     (if de \<noteq> 0 then (int (unat de) - 1023 - (53 - 1) + int k, 53 - int k)
      else (int (unat de) - 1023 - (53 - 1) + 1 + int k, 32 * int i - int (hi0bits w)))"

definition d2b :: "u32 \<Rightarrow> u32 \<Rightarrow> mp_state \<Rightarrow> (Bigint \<times> int \<times> int \<times> mp_state) option" where
  "d2b d0 d1 s =
     do { (b, s) \<leftarrow> Balloc_used 1 s;
          let z = d0 AND 0xfffff;
          let d0 = d0 AND 0x7fffffff;
          let de = drop_bit 20 d0;
          let z = (if de \<noteq> 0 then z OR 0x100000 else z);
          let (x0, x1, i, k) = d2b_words z d1;
          b \<leftarrow> set_word 0 x0 b;
          b \<leftarrow> (if d1 \<noteq> 0 then set_word 1 x1 b else Some b);
          let b = b\<lparr>big_wds := i\<rparr>;
          let (e, bits) = d2b_exp de k i (if i = 1 then x0 else x1);
          Some (b, e, bits, s) }"

text \<open>\<^verbatim>\<open>copybits\<close> fills \<open>(n - 1) / 32 + 1\<close> words at least; the words written.\<close>

definition copybits :: "nat \<Rightarrow> Bigint \<Rightarrow> u32 list option" where
  "copybits n b =
     (if length (big_x b) < big_wds b then None
      else Some (take (big_wds b) (big_x b) @ replicate ((n - 1) div 32 + 1 - big_wds b) 0))"

text \<open>\<^verbatim>\<open>while (x > x0) if (*--x) return 1; return 0;\<close>\<close>

primrec any_on_loop :: "nat \<Rightarrow> u32 list \<Rightarrow> u32" where
  "any_on_loop 0 xs = 0"
| "any_on_loop (Suc n) xs = (if xs ! n \<noteq> 0 then 1 else any_on_loop n xs)"

definition any_on :: "Bigint \<Rightarrow> nat \<Rightarrow> u32 option" where
  "any_on b k =
     (let nwds = big_wds b; n = k div 32 in
      if length (big_x b) < nwds then None
      else if n > nwds then Some (any_on_loop nwds (big_x b))
      else if n < nwds \<and> k mod 32 \<noteq> 0
      then let x2 = big_x b ! n; x1 = push_bit (k mod 32) (drop_bit (k mod 32) x2) in
           if x1 \<noteq> x2 then Some 1 else Some (any_on_loop n (big_x b))
      else Some (any_on_loop n (big_x b)))"

section \<open>Bits\<close>

lemma and_mask_0: "x AND mask j = 0 \<longleftrightarrow> 2 ^ j dvd unat x" if "j < 32" for x :: u32
proof -
  have "x AND mask j = 0 \<longleftrightarrow> take_bit j x = 0" by (simp add: take_bit_eq_mask)
  also have "\<dots> \<longleftrightarrow> unat (take_bit j x) = 0" by (simp only: unat_eq_0)
  also have "\<dots> \<longleftrightarrow> 2 ^ j dvd unat x" by (simp only: unsigned_take_bit_eq take_bit_eq_0_iff)
  finally show ?thesis .
qed

lemma unat_drop: "unat (drop_bit j x :: u32) = unat x div 2 ^ j"
  by (simp only: unat_drop_bit_eq) (simp add: drop_bit_eq_div)

lemma lo_step_ok:
  assumes "lo_step (mask j) j (k, x) = (k', x')" "j < 32" "\<not> 2 ^ (2 * j) dvd unat x"
  shows "unat x' * 2 ^ k' = unat x * 2 ^ k" "\<not> 2 ^ j dvd unat x'"
proof -
  have *: "unat x' * 2 ^ k' = unat x * 2 ^ k \<and> \<not> 2 ^ j dvd unat x'"
  proof (cases "2 ^ j dvd unat x")
    case True
    then obtain u where u: "unat x = 2 ^ j * u" by blast
    have "k' = k + j" "unat x' = u" using assms(1,2) True u by (auto simp: lo_step_def and_mask_0 unat_drop)
    moreover have "\<not> 2 ^ j dvd u" using assms(3) u by (auto simp: mult_2 power_add)
    ultimately show ?thesis using u by (simp add: power_add)
  next
    case False
    then show ?thesis using assms(1,2) by (simp add: lo_step_def and_mask_0)
  qed
  then show "unat x' * 2 ^ k' = unat x * 2 ^ k" "\<not> 2 ^ j dvd unat x'" by simp_all
qed

lemma lo_masks:
  "(7 :: u32) = mask 3" "(3 :: u32) = mask 2" "(15 :: u32) = mask 4" "(255 :: u32) = mask 8" "(65535 :: u32) = mask 16"
  by (simp_all add: mask_eq_exp_minus_1)

lemma lo0bits_small:
  assumes "y AND 7 \<noteq> 0" "lo0bits y = (k, x)"
  shows "unat y = unat x * 2 ^ k \<and> odd (unat x)"
proof -
  have y8: "\<not> 8 dvd unat y" using assms(1) and_mask_0 [of 3 y] by (simp add: lo_masks(1))
  have y1: "y AND 1 = 0 \<longleftrightarrow> 2 dvd unat y" using and_mask_0 [of 1 y] by (simp add: mask_eq_exp_minus_1)
  have "y AND 3 = (y AND 1) OR (y AND 2)" by (simp add: bit.conj_disj_distrib [symmetric])
  then have y2: "y AND 1 = 0 \<Longrightarrow> y AND 2 = 0 \<longleftrightarrow> 4 dvd unat y" using and_mask_0 [of 2 y] by (simp add: lo_masks(2))
  consider "y AND 1 \<noteq> 0" | "y AND 1 = 0" "y AND 2 \<noteq> 0" | "y AND 1 = 0" "y AND 2 = 0" by blast
  then show ?thesis
  proof cases
    case 1
    then show ?thesis using assms y1 by (simp add: lo0bits_def)
  next
    case 2
    then have "k = 1" "x = drop_bit 1 y" using assms by (auto simp: lo0bits_def)
    then have "k = 1" "unat x = unat y div 2" using unat_drop [of 1 y] by simp_all
    moreover have "2 dvd unat y" "\<not> 4 dvd unat y" using 2 y1 y2 by simp_all
    then have "unat y = unat y div 2 * 2 \<and> odd (unat y div 2)" by presburger
    ultimately show ?thesis by simp
  next
    case 3
    then have "k = 2" "x = drop_bit 2 y" using assms by (auto simp: lo0bits_def)
    then have "k = 2" "unat x = unat y div 4" using unat_drop [of 2 y] by simp_all
    moreover have "4 dvd unat y" using 3 y2 by simp
    then have "unat y = unat y div 4 * 4 \<and> odd (unat y div 4)" using y8 by presburger
    ultimately show ?thesis by simp
  qed
qed

lemma lo0bits_large:
  assumes "y \<noteq> 0" "y AND 7 = 0" "lo0bits y = (k, x)"
  shows "unat y = unat x * 2 ^ k \<and> odd (unat x)"
proof -
  obtain k1 x1 where 1: "lo_step 65535 16 (0, y) = (k1, x1)" by fastforce
  obtain k2 x2 where 2: "lo_step 255 8 (k1, x1) = (k2, x2)" by fastforce
  obtain k3 x3 where 3: "lo_step 15 4 (k2, x2) = (k3, x3)" by fastforce
  obtain k4 x4 where 4: "lo_step 3 2 (k3, x3) = (k4, x4)" by fastforce
  have "\<not> W dvd unat y" using assms(1) unat32_less [of y] by (auto dest: dvd_imp_le simp: unat_gt_0)
  then have s1: "unat x1 * 2 ^ k1 = unat y" "\<not> 2 ^ 16 dvd unat x1"
    using lo_step_ok [of 16 0 y k1 x1] 1 by (simp_all add: lo_masks)
  then have s2: "unat x2 * 2 ^ k2 = unat y" "\<not> 2 ^ 8 dvd unat x2"
    using lo_step_ok [of 8 k1 x1 k2 x2] 2 by (simp_all add: lo_masks)
  then have s3: "unat x3 * 2 ^ k3 = unat y" "\<not> 2 ^ 4 dvd unat x3"
    using lo_step_ok [of 4 k2 x2 k3 x3] 3 by (simp_all add: lo_masks)
  then have s4: "unat x4 * 2 ^ k4 = unat y" "\<not> 4 dvd unat x4"
    using lo_step_ok [of 2 k3 x3 k4 x4] 4 by (simp_all add: lo_masks)
  have x4: "x4 AND 1 = 0 \<longleftrightarrow> 2 dvd unat x4" using and_mask_0 [of 1 x4] by (simp add: mask_eq_exp_minus_1)
  show ?thesis
  proof (cases "x4 AND 1 = 0")
    case True
    have u: "unat (drop_bit 1 x4) = unat x4 div 2" using unat_drop [of 1 x4] by simp
    have "unat x4 div 2 \<noteq> 0" using s4(2) True x4 by presburger
    then have "drop_bit 1 x4 \<noteq> 0" using u by (metis unsigned_0)
    then have "k = k4 + 1" "x = drop_bit 1 x4"
      using assms(2,3) 1 2 3 4 True by (simp_all add: lo0bits_def Let_def)
    moreover have "unat x4 = unat x4 div 2 * 2" "odd (unat x4 div 2)" using s4(2) True x4 by presburger+
    moreover from this(1) have "unat y = unat x4 div 2 * 2 * 2 ^ k4" using s4(1) by simp
    ultimately show ?thesis using u by (simp add: mult.assoc)
  next
    case False
    then show ?thesis using assms(2,3) 1 2 3 4 x4 s4(1) by (simp add: lo0bits_def Let_def)
  qed
qed

lemma lo0bits_ok:
  assumes "y \<noteq> 0" "lo0bits y = (k, x)"
  shows "unat y = unat x * 2 ^ k" "odd (unat x)" "k < 32"
proof -
  have *: "unat y = unat x * 2 ^ k \<and> odd (unat x)"
    using lo0bits_small [OF _ assms(2)] lo0bits_large [OF assms(1) _ assms(2)] by blast
  then show "unat y = unat x * 2 ^ k" "odd (unat x)" by simp_all
  then have "1 \<le> unat x" by (cases "unat x") auto
  then have "2 ^ k \<le> unat y" using * by simp
  then have "(2 :: nat) ^ k < 2 ^ 32" using unat32_less [of y] by simp
  then show "k < 32" by (simp only: power_strict_increasing_iff)
qed

lemma and_top_0: "x AND NOT (mask j) = 0 \<longleftrightarrow> unat x < 2 ^ j" for x :: u32
proof -
  have "x AND NOT (mask j) = push_bit j (drop_bit j x)" by (rule bit_eqI) (auto simp: bit_simps)
  moreover have "push_bit j (drop_bit j x) + take_bit j x = x" by (rule bits_ident)
  ultimately have "x AND NOT (mask j) = 0 \<longleftrightarrow> take_bit j x = x" by (metis add.left_neutral add_right_cancel)
  also have "\<dots> \<longleftrightarrow> unat x < 2 ^ j" by (simp only: word_unat_eq_iff unsigned_take_bit_eq take_bit_nat_eq_self_iff)
  finally show ?thesis .
qed

lemma hi_masks:
  "(0x80000000 :: u32) = NOT (mask 31)" "(0xc0000000 :: u32) = NOT (mask 30)" "(0xf0000000 :: u32) = NOT (mask 28)"
  "(0xff000000 :: u32) = NOT (mask 24)" "(0xffff0000 :: u32) = NOT (mask 16)"
  by (simp_all add: mask_eq_exp_minus_1)

lemma hi_step_ok:
  assumes "hi_step (NOT (mask (32 - j))) j (k, x) = (k', x')" "j \<le> 16" "unat x = u * 2 ^ k" "2 ^ (32 - 2 * j) \<le> unat x"
  shows "unat x' = u * 2 ^ k'" "2 ^ (32 - j) \<le> unat x'"
proof -
  have *: "unat x' = u * 2 ^ k' \<and> 2 ^ (32 - j) \<le> unat x'"
  proof (cases "unat x < 2 ^ (32 - j)")
    case True
    have w: "(2 :: nat) ^ (32 - j) * 2 ^ j = W" using assms(2) by (simp add: power_add [symmetric])
    have "unat x * 2 ^ j < 2 ^ (32 - j) * 2 ^ j" using True by (intro mult_strict_right_mono) simp_all
    then have "unat (push_bit j x) = unat x * 2 ^ j"
      unfolding w by (simp only: unsigned_push_bit_eq) (simp add: push_bit_eq_mult take_bit_eq_mod)
    moreover have "k' = k + j" "x' = push_bit j x" using assms(1) True by (simp_all add: hi_step_def and_top_0)
    moreover have "2 ^ (32 - 2 * j) * 2 ^ j \<le> unat x * 2 ^ j" using assms(4) by (intro mult_right_mono) simp_all
    moreover have "(2 :: nat) ^ (32 - 2 * j) * 2 ^ j = 2 ^ (32 - j)" using assms(2) by (simp add: power_add [symmetric])
    ultimately show ?thesis using assms(3) by (simp add: power_add)
  next
    case False
    then show ?thesis using assms(1,3) by (simp add: hi_step_def and_top_0)
  qed
  then show "unat x' = u * 2 ^ k'" "2 ^ (32 - j) \<le> unat x'" by simp_all
qed

text \<open>\<^verbatim>\<open>hi0bits\<close> counts the leading zeros: shifted by that much, the highest bit is set.\<close>

lemma hi0bits_ok:
  assumes "x \<noteq> 0"
  shows "2 ^ 31 \<le> unat x * 2 ^ hi0bits x" "unat x * 2 ^ hi0bits x < 2 ^ 32"
proof -
  obtain k1 x1 where 1: "hi_step 0xffff0000 16 (0, x) = (k1, x1)" by fastforce
  obtain k2 x2 where 2: "hi_step 0xff000000 8 (k1, x1) = (k2, x2)" by fastforce
  obtain k3 x3 where 3: "hi_step 0xf0000000 4 (k2, x2) = (k3, x3)" by fastforce
  obtain k4 x4 where 4: "hi_step 0xc0000000 2 (k3, x3) = (k4, x4)" by fastforce
  have s1: "unat x1 = unat x * 2 ^ k1" "2 ^ 16 \<le> unat x1"
    using hi_step_ok [of 16 0 x k1 x1 "unat x"] 1 assms unfolding hi_masks by (simp_all add: Suc_le_eq unat_gt_0)
  have s2: "unat x2 = unat x * 2 ^ k2" "2 ^ 24 \<le> unat x2"
    using hi_step_ok [OF _ _ s1(1), of 8 k2 x2] 2 s1(2) unfolding hi_masks by simp_all
  have s3: "unat x3 = unat x * 2 ^ k3" "2 ^ 28 \<le> unat x3"
    using hi_step_ok [OF _ _ s2(1), of 4 k3 x3] 3 s2(2) unfolding hi_masks by simp_all
  have s4: "unat x4 = unat x * 2 ^ k4" "2 ^ 30 \<le> unat x4"
    using hi_step_ok [OF _ _ s3(1), of 2 k4 x4] 4 s3(2) unfolding hi_masks by simp_all
  have top: "x4 AND 0x80000000 = 0 \<longleftrightarrow> unat x4 < 2 ^ 31" unfolding hi_masks by (rule and_top_0)
  have h: "hi0bits x = (if x4 AND 0x80000000 = 0 then (if x4 AND 0x40000000 = 0 then 32 else k4 + 1) else k4)"
    unfolding hi0bits_def 1 2 3 4 by simp
  show "2 ^ 31 \<le> unat x * 2 ^ hi0bits x" "unat x * 2 ^ hi0bits x < 2 ^ 32" 
  proof -
    have "2 ^ 31 \<le> unat x * 2 ^ hi0bits x \<and> unat x * 2 ^ hi0bits x < 2 ^ 32"
    proof (cases "unat x4 < 2 ^ 31")
      case True
      have "x4 AND 0x40000000 \<noteq> 0"
      proof
        assume "x4 AND 0x40000000 = 0"
        moreover have "x4 AND 0xc0000000 = (x4 AND 0x80000000) OR (x4 AND 0x40000000)" by (simp add: bit.conj_disj_distrib [symmetric])
        ultimately have "x4 AND 0xc0000000 = 0" using True top by simp
        then have "unat x4 < 2 ^ 30" unfolding hi_masks and_top_0 .
        then show False using s4(2) by simp
      qed
      then have "hi0bits x = k4 + 1" using h True top by simp
      then have "unat x * 2 ^ hi0bits x = 2 * unat x4" using s4(1) by simp
      then show ?thesis using True s4(2) by simp
    next
      case False
      then have "hi0bits x = k4" using h top by simp
      then show ?thesis using False s4(1) unat32_less [of x4] by simp
    qed
    then show "2 ^ 31 \<le> unat x * 2 ^ hi0bits x" "unat x * 2 ^ hi0bits x < 2 ^ 32" by simp_all
  qed
qed

section \<open>The number of a double\<close>

text \<open>
  The significand of the double with the words \<open>d0\<close> and \<open>d1\<close>, and the exponent of 2 that goes with it (no
  sign, no infinity).
\<close>

definition dbl_exp :: "u32 \<Rightarrow> nat" where
  "dbl_exp d0 = unat d0 div 2 ^ 20 mod 2 ^ 11"

definition dbl_sig :: "u32 \<Rightarrow> u32 \<Rightarrow> nat" where
  "dbl_sig d0 d1 = (if dbl_exp d0 = 0 then 0 else 2 ^ 52) + unat d0 mod 2 ^ 20 * 2 ^ 32 + unat d1"

definition dbl_scale :: "u32 \<Rightarrow> int" where
  "dbl_scale d0 = int (max 1 (dbl_exp d0)) - 1075"

lemma d2b_words_ok:
  assumes "d2b_words z d1 = (x0, x1, i, k)" "z \<noteq> 0 \<or> d1 \<noteq> 0"
  shows "(unat x0 + W * unat x1) * 2 ^ k = unat z * W + unat d1" "odd (unat x0)"
    "i = 1 \<and> x1 = 0 \<or> i = 2 \<and> x1 \<noteq> 0 \<and> d1 \<noteq> 0"
proof -
  have *: "(unat x0 + W * unat x1) * 2 ^ k = unat z * W + unat d1 \<and> odd (unat x0) \<and> (i = 1 \<and> x1 = 0 \<or> i = 2 \<and> x1 \<noteq> 0 \<and> d1 \<noteq> 0)"
  proof (cases "d1 = 0")
    case True
    obtain k' z' where lz: "lo0bits z = (k', z')" by fastforce
    then show ?thesis using lo0bits_ok [OF _ lz] assms True by (auto simp: d2b_words_def power_add)
  next
    case False
    obtain k' y where lz: "lo0bits d1 = (k', y)" by fastforce
    note lo = lo0bits_ok [OF False lz]
    show ?thesis
    proof (cases "k' = 0")
      case True
      then show ?thesis using assms(1) lo lz False by (auto simp: d2b_words_def split: if_splits)
    next
      case k: False
      have e: "k = k'" "x0 = push_bit (32 - k) z OR y" "x1 = drop_bit k z" "i = (if x1 = 0 then 1 else 2)"
        using assms(1) lz False k by (auto simp: d2b_words_def or.commute split: if_splits)
      have w: "(2 :: nat) ^ (32 - k') * 2 ^ k' = W" using lo(3) by (simp add: power_add [symmetric])
      have "unat y * 2 ^ k' < 2 ^ (32 - k') * 2 ^ k'" using lo(1) unat32_less [of d1] w by simp
      then have "unat y < 2 ^ (32 - k')" by simp
      from push_or [OF this, of z] k have v: "unat x0 + W * unat x1 = 2 ^ (32 - k') * unat z + unat y"
        using e lo(3) by simp
      have "odd (2 ^ (32 - k') * unat z + unat y)" using lo(2,3) by simp
      then have "odd (unat x0)" unfolding v [symmetric] by simp
      moreover have "(unat x0 + W * unat x1) * 2 ^ k' = 2 ^ (32 - k') * 2 ^ k' * unat z + unat y * 2 ^ k'"
        unfolding v by (simp add: algebra_simps)
      ultimately show ?thesis using e lo(1) False unfolding w by simp
    qed
  qed
  then show "(unat x0 + W * unat x1) * 2 ^ k = unat z * W + unat d1" "odd (unat x0)" "i = 1 \<and> x1 = 0 \<or> i = 2 \<and> x1 \<noteq> 0 \<and> d1 \<noteq> 0" by simp_all
qed

lemma d2b_fields:
  fixes d0 :: u32
  defines "de \<equiv> drop_bit 20 (d0 AND 0x7fffffff)"
  shows "unat de = dbl_exp d0"
    "unat (if de \<noteq> 0 then (d0 AND 0xfffff) OR 0x100000 else d0 AND 0xfffff) * W + unat d1 = dbl_sig d0 d1"
proof -
  have a: "unat (d0 AND 0x7fffffff) = unat d0 mod 2 ^ 31" "unat (d0 AND 0xfffff) = unat d0 mod 2 ^ 20"
  proof -
    have "d0 AND 0x7fffffff = take_bit 31 d0" "d0 AND 0xfffff = take_bit 20 d0" by (simp_all add: take_bit_eq_mask mask_eq_exp_minus_1)
    then show "unat (d0 AND 0x7fffffff) = unat d0 mod 2 ^ 31" "unat (d0 AND 0xfffff) = unat d0 mod 2 ^ 20"
      by (simp_all only: unsigned_take_bit_eq) (simp_all only: take_bit_eq_mod)
  qed
  show de: "unat de = dbl_exp d0"
  proof -
    have "unat d0 mod (2 ^ 20 * 2 ^ 11) div 2 ^ 20 = unat d0 div 2 ^ 20 mod 2 ^ 11" by (simp only: mod_mult2_eq) simp
    then show ?thesis unfolding de_def unat_drop a dbl_exp_def by simp
  qed
  have "unat ((d0 AND 0xfffff) OR 0x100000) = unat (d0 AND 0xfffff) + 2 ^ 20"
  proof -
    have "(d0 AND 0xfffff) OR 0x100000 = (d0 AND 0xfffff) + 0x100000"
      by (rule disjunctive_add_eq_or [symmetric]) (simp add: and.assoc)
    then show ?thesis using a(2) by (simp add: add32)
  qed
  moreover have "de \<noteq> 0 \<longleftrightarrow> dbl_exp d0 \<noteq> 0" using de by (metis unsigned_0 unsigned_eq_0_iff)
  ultimately show "unat (if de \<noteq> 0 then (d0 AND 0xfffff) OR 0x100000 else d0 AND 0xfffff) * W + unat d1 = dbl_sig d0 d1"
    using a(2) by (simp add: dbl_sig_def algebra_simps)
qed

text \<open>The number of significant bits.\<close>

definition bit_count :: "nat \<Rightarrow> int \<Rightarrow> bool" where
  "bit_count v n \<longleftrightarrow> 0 < n \<and> 2 ^ nat (n - 1) \<le> v \<and> v < 2 ^ nat n"

lemma bit_count_normal:
  assumes "v * 2 ^ k = M" "2 ^ 52 \<le> M" "M < 2 ^ 53" "odd v"
  shows "bit_count v (53 - int k)"
proof -
  have "0 < v" using assms(4) by (cases v) auto
  then have "(2 :: nat) ^ k \<le> M" using assms(1) by auto
  then have "(2 :: nat) ^ k < 2 ^ 53" using assms(3) by simp
  then have k: "k < 53" by (simp only: power_strict_increasing_iff)
  have "(2 :: nat) ^ (52 - k) * 2 ^ k = 2 ^ 52" "(2 :: nat) ^ (53 - k) * 2 ^ k = 2 ^ 53" using k by (simp_all add: power_add [symmetric])
  then have "2 ^ (52 - k) * 2 ^ k \<le> v * 2 ^ k" "v * 2 ^ k < 2 ^ (53 - k) * 2 ^ k" using assms by simp_all
  then have "2 ^ (52 - k) \<le> v" "v < 2 ^ (53 - k)" by simp_all
  moreover have "nat (53 - int k - 1) = 52 - k" "nat (53 - int k) = 53 - k" using k by simp_all
  ultimately show ?thesis using k by (simp add: bit_count_def)
qed

lemma bit_count_top:
  assumes "x \<noteq> 0" "l < W ^ n"
  shows "bit_count (l + W ^ n * unat x) (32 * int (n + 1) - int (hi0bits x))"
proof -
  let ?h = "hi0bits x"
  note h = hi0bits_ok [OF assms(1)]
  have "1 \<le> unat x" using assms(1) by (simp add: Suc_le_eq unat_gt_0)
  then have "(2 :: nat) ^ ?h < 2 ^ 32" using h(2) mult_le_mono1 [of 1 "unat x" "2 ^ ?h"] by linarith
  then have l: "?h < 32" by (simp only: power_strict_increasing_iff)
  have "(2 :: nat) ^ (31 - ?h) * 2 ^ ?h = 2 ^ 31" "(2 :: nat) ^ (32 - ?h) * 2 ^ ?h = 2 ^ 32" using l by (simp_all add: power_add [symmetric])
  then have "2 ^ (31 - ?h) * 2 ^ ?h \<le> unat x * 2 ^ ?h" "unat x * 2 ^ ?h < 2 ^ (32 - ?h) * 2 ^ ?h" using h by simp_all
  then have x: "2 ^ (31 - ?h) \<le> unat x" "unat x + 1 \<le> 2 ^ (32 - ?h)" by simp_all
  have W: "W ^ n = 2 ^ (32 * n)" by (simp add: power_mult)
  have "2 ^ (32 * n + (31 - ?h)) \<le> W ^ n * unat x" unfolding power_add W using x(1) by (intro mult_left_mono) simp_all
  moreover have "l + W ^ n * unat x < W ^ n * (unat x + 1)" using assms(2) by simp
  moreover have "W ^ n * (unat x + 1) \<le> 2 ^ (32 * n + (32 - ?h))" unfolding power_add W using x(2) by (intro mult_left_mono) simp_all
  moreover have "nat (32 * int (n + 1) - int ?h - 1) = 32 * n + (31 - ?h)" "nat (32 * int (n + 1) - int ?h) = 32 * n + (32 - ?h)"
    using l by (simp_all add: nat_eq_iff algebra_simps)
  ultimately show ?thesis using l unfolding bit_count_def by (simp add: algebra_simps)
qed

lemma dbl_sig_bounds:
  "dbl_exp d0 \<noteq> 0 \<Longrightarrow> 2 ^ 52 \<le> dbl_sig d0 d1 \<and> dbl_sig d0 d1 < 2 ^ 53"
proof -
  have "unat d0 mod 2 ^ 20 \<le> 2 ^ 20 - 1" by (simp add: less_Suc_eq_le [symmetric])
  then have "unat d0 mod 2 ^ 20 * 2 ^ 32 \<le> (2 ^ 20 - 1) * 2 ^ 32" by (intro mult_right_mono) simp_all
  then show "dbl_exp d0 \<noteq> 0 \<Longrightarrow> 2 ^ 52 \<le> dbl_sig d0 d1 \<and> dbl_sig d0 d1 < 2 ^ 53"
    using unat32_less [of d1] by (simp add: dbl_sig_def)
qed

lemma d2b_ok:
  assumes s: "free_ok s" "room (Suc n) s" and nz: "dbl_sig d0 d1 \<noteq> 0"
  shows "\<exists>b e bits s' k. d2b d0 d1 s = Some (b, e, bits, s') \<and> usable b \<and> odd (big_val b) \<and>
    big_val b * 2 ^ k = dbl_sig d0 d1 \<and> e = dbl_scale d0 + int k \<and> bit_count (big_val b) bits \<and> free_ok s' \<and> room n s'"
proof -
  obtain b s' where b: "Balloc_used 1 s = Some (b, s')" "big_wf b" "big_k b = 1" "big_wds b = 0"
    "free_ok s'" "freelist s' \<noteq> None" "room n s'" by (rule Balloc_ok [OF s, of 1]) (simp add: Kmax_def)
  then obtain u v where x: "big_x b = [u, v]" by (auto simp: big_wf_def length_Suc_conv numeral_2_eq_2)
  define de where "de = drop_bit 20 (d0 AND 0x7fffffff)"
  define z where "z = (if de \<noteq> 0 then (d0 AND 0xfffff) OR 0x100000 else d0 AND 0xfffff)"
  note f = d2b_fields [of d0, folded de_def]
  have sig: "unat z * W + unat d1 = dbl_sig d0 d1" using f(2) by (simp add: z_def)
  obtain x0 x1 i k where w: "d2b_words z d1 = (x0, x1, i, k)" by (cases "d2b_words z d1") auto
  have zd: "z \<noteq> 0 \<or> d1 \<noteq> 0" using sig nz by auto
  note wk = d2b_words_ok [OF w zd]
  let ?b = "b\<lparr>big_x := [x0, if d1 \<noteq> 0 then x1 else v], big_wds := i\<rparr>"
  let ?e = "if de \<noteq> 0 then int (unat de) - 1023 - (53 - 1) + int k else int (unat de) - 1023 - (53 - 1) + 1 + int k"
  let ?bits = "if de \<noteq> 0 then 53 - int k else 32 * int i - int (hi0bits (if i = 1 then x0 else x1))"
  have D: "d2b d0 d1 s = Some (?b, ?e, ?bits, s')"
    using b(1) x w unfolding d2b_def de_def [symmetric] z_def [symmetric] by (simp add: set_word_def Let_def d2b_exp_def de_def z_def)
  have val: "big_val ?b = unat x0 + W * unat x1" using wk(3) by (auto simp: big_val_def)
  have x0: "x0 \<noteq> 0" using wk(2) by auto
  have us: "usable ?b" using b(2,3) wk(3) x0 by (auto simp: usable_def big_ok_def big_wf_def big_normal_def)
  have od: "odd (big_val ?b)" unfolding val using wk(2) by simp
  have sg: "big_val ?b * 2 ^ k = dbl_sig d0 d1" unfolding val wk(1) sig ..
  have dz: "de \<noteq> 0 \<longleftrightarrow> dbl_exp d0 \<noteq> 0" using f(1) by (metis unsigned_0 unsigned_eq_0_iff)
  have "bit_count (big_val ?b) ?bits"
  proof (cases "de = 0")
    case False
    then show ?thesis using bit_count_normal [OF sg] dbl_sig_bounds od dz by auto
  next
    case True
    then show ?thesis using wk(3) x0 bit_count_top [of x0 0 0] bit_count_top [of x1 "unat x0" 1] unat32_less [of x0]
      unfolding val by auto
  qed
  moreover have "?e = dbl_scale d0 + int k" using f(1) dz by (auto simp: dbl_scale_def)
  ultimately show ?thesis using D us od sg b(5,7) by blast
qed

section \<open>Bits that are dropped\<close>

lemma any_on_loop_ok: "n \<le> length xs \<Longrightarrow> any_on_loop n xs = (if wval (take n xs) \<noteq> 0 then 1 else 0)"
  by (induction n) (auto simp: wval_split unat_eq_0)

lemma low_bits:
  assumes "l < W ^ n" "r < 32"
  shows "(l + W ^ n * (unat x + W * h)) mod 2 ^ (32 * n + r) = l + W ^ n * (unat x mod 2 ^ r)"
proof -
  have W: "(2 :: nat) ^ (32 * n + r) = W ^ n * 2 ^ r" by (simp add: power_add power_mult)
  have "W * h = 2 ^ r * (2 ^ (32 - r) * h)" using assms(2) by (simp add: mult.assoc [symmetric] power_add [symmetric])
  then have "(unat x + W * h) mod 2 ^ r = unat x mod 2 ^ r" by (simp only: mod_mult_self2)
  moreover have "(l + W ^ n * (unat x + W * h)) mod (W ^ n * 2 ^ r) = W ^ n * ((unat x + W * h) mod 2 ^ r) + l"
    using assms(1) by (simp only: mod_mult2_eq) simp
  ultimately show ?thesis unfolding W by simp
qed

lemma shifted_back: "push_bit r (drop_bit r x) \<noteq> x \<longleftrightarrow> unat x mod 2 ^ r \<noteq> 0" for x :: u32
proof -
  have "push_bit r (drop_bit r x) + take_bit r x = x" by (rule bits_ident)
  then have "push_bit r (drop_bit r x) = x \<longleftrightarrow> take_bit r x = 0" by (metis add.right_neutral add_left_cancel)
  also have "\<dots> \<longleftrightarrow> unat (take_bit r x) = 0" by (simp only: unat_eq_0)
  also have "\<dots> \<longleftrightarrow> unat x mod 2 ^ r = 0" by (simp only: unsigned_take_bit_eq) (simp only: take_bit_eq_mod)
  finally show ?thesis by simp
qed

lemma any_on_ok:
  assumes "big_wf b"
  shows "any_on b k = Some (if big_val b mod 2 ^ k \<noteq> 0 then 1 else 0)"
proof -
  let ?n = "k div 32" and ?r = "k mod 32" and ?w = "big_wds b" and ?xs = "big_x b"
  have l: "?w \<le> length ?xs" using assms by (simp add: big_wf_def)
  have W: "W ^ ?n * 2 ^ ?r = 2 ^ k"
  proof -
    have "W ^ ?n * 2 ^ ?r = (2 ^ 32) ^ ?n * 2 ^ ?r" by simp
    also have "\<dots> = 2 ^ k" by (simp only: power_mult [symmetric] power_add [symmetric] mult_div_mod_eq)
    finally show ?thesis .
  qed
  show ?thesis
  proof (cases "?w \<le> ?n")
    case True
    have "big_val b < W ^ ?w" using assms by (rule big_val_less)
    also have "\<dots> \<le> W ^ ?n" using True by (intro power_increasing) simp_all
    also have "\<dots> \<le> 2 ^ k" unfolding W [symmetric] by simp
    finally have "big_val b mod 2 ^ k = big_val b" by simp
    then show ?thesis using True l by (auto simp: any_on_def Let_def any_on_loop_ok big_val_def not_less)
  next
    case False
    then have n: "?n < ?w" "?n < length ?xs" using l by simp_all
    have "take ?w ?xs = take ?n ?xs @ ?xs ! ?n # drop (Suc ?n) (take ?w ?xs)"
    proof -
      have "take ?w ?xs = take ?n (take ?w ?xs) @ take ?w ?xs ! ?n # drop (Suc ?n) (take ?w ?xs)"
        using n l by (intro id_take_nth_drop) simp
      moreover have "take ?n (take ?w ?xs) = take ?n ?xs" "take ?w ?xs ! ?n = ?xs ! ?n" using n by (simp_all add: min_absorb1)
      ultimately show ?thesis by (simp only:)
    qed
    then have v: "big_val b = wval (take ?n ?xs) + W ^ ?n * (unat (?xs ! ?n) + W * wval (drop (Suc ?n) (take ?w ?xs)))"
      unfolding big_val_def using n(2) by (metis wval_append wval.simps(2) length_take min.absorb4)
    have "wval (take ?n ?xs) < W ^ ?n" using wval_less [of "take ?n ?xs"] n(2) by simp
    then have "big_val b mod 2 ^ (32 * ?n + ?r) = wval (take ?n ?xs) + W ^ ?n * (unat (?xs ! ?n) mod 2 ^ ?r)"
      unfolding v by (rule low_bits) simp
    then have m: "big_val b mod 2 ^ k = wval (take ?n ?xs) + W ^ ?n * (unat (?xs ! ?n) mod 2 ^ ?r)" by simp
    have "any_on b k = Some (if (?r \<noteq> 0 \<and> unat (?xs ! ?n) mod 2 ^ ?r \<noteq> 0) \<or> wval (take ?n ?xs) \<noteq> 0 then 1 else 0)"
      using False n l by (auto simp: any_on_def Let_def any_on_loop_ok shifted_back not_less)
    then show ?thesis unfolding m by (cases "?r = 0") auto
  qed
qed

section \<open>Properties\<close>

text \<open>
  C30.  \<^verbatim>\<open>d2b\<close> splits a nonzero finite double exactly: the number returned is odd, times \<open>2 ^ e\<close> it is the value of the
  double (its significand times \<open>2 ^ dbl_scale\<close>), and \<^verbatim>\<open>*bits\<close> is its number of bits; normal and denormal doubles alike.
\<close>

theorem d2b_exact:
  assumes "mp_ok s" "room (Suc n) s" "dbl_sig d0 d1 \<noteq> 0"
  shows "\<exists>b e bits s' k. d2b d0 d1 s = Some (b, e, bits, s') \<and> usable b \<and> odd (big_val b) \<and>
    big_val b * 2 ^ k = dbl_sig d0 d1 \<and> e = dbl_scale d0 + int k \<and> bit_count (big_val b) bits \<and> free_ok s' \<and> room n s'"
  by (rule d2b_ok) (use assms in \<open>simp_all add: mp_ok_def\<close>)

theorem d2b_exact_witness:
  "\<exists>b e bits s' k. d2b 0x40590000 0 mp_start = Some (b, e, bits, s') \<and> usable b \<and> odd (big_val b) \<and>
    big_val b * 2 ^ k = dbl_sig 0x40590000 0 \<and> e = dbl_scale 0x40590000 + int k \<and> bit_count (big_val b) bits \<and> free_ok s' \<and> room 5 s'"
  by (rule d2b_exact) (simp_all add: mp_start_ok dbl_sig_def dbl_exp_def)

end
