(* ===== verification/AtExit.thy ===== *)
theory AtExit
  imports CMem
begin

unbundle bit_operations_syntax

text \<open>
  Functions called at exit: \<^verbatim>\<open>__atexit.c\<close>, \<^verbatim>\<open>__call_atexit.c\<close>, \<^verbatim>\<open>atexit.c\<close>, \<^verbatim>\<open>on_exit.c\<close>, \<^verbatim>\<open>cxa_atexit.c\<close>, \<^verbatim>\<open>cxa_finalize.c\<close>
  of \<^verbatim>\<open>src/runtime/libc/stdlib\<close>.  \<^verbatim>\<open>_ATEXIT_DYNAMIC_ALLOC\<close> is not defined in the build, so the one table \<^verbatim>\<open>_atexit0\<close> with
  32 places is all there is.  What a registered function does to the table when it is called is a
  parameter, \<open>run\<close>; the calls made are returned in order.  A loop that never ends, because the functions go
  on registering others, is \<open>None\<close>.
\<close>

section \<open>The table\<close>

datatype exit_type = et_atexit | et_onexit | et_cxa

datatype ('f, 'a) call = Call0 'f | CallOnExit 'f int 'a | CallCxa 'f 'a

definition ATEXIT_SIZE :: nat where
  "ATEXIT_SIZE = 32"

record ('f, 'a) atexit_t =
  ae_ind :: nat
  ae_fns :: "'f option list"
  ae_fnargs :: "'a list"
  ae_dso_handle :: "addr list"
  ae_fntypes :: u32
  ae_is_cxa :: u32

section \<open>The routines\<close>

definition register_exitproc ::
    "exit_type \<Rightarrow> 'f \<Rightarrow> 'a \<Rightarrow> addr \<Rightarrow> ('f, 'a) atexit_t \<Rightarrow> int \<times> ('f, 'a) atexit_t" where
  "register_exitproc type fn arg d p =
     (if ae_ind p \<ge> ATEXIT_SIZE then (-1, p)
      else let n = ae_ind p;
               p = (if type \<noteq> et_atexit
                    then p\<lparr>ae_fnargs := (ae_fnargs p)[n := arg],
                           ae_fntypes := ae_fntypes p OR push_bit n 1,
                           ae_dso_handle := (ae_dso_handle p)[n := d],
                           ae_is_cxa := (if type = et_cxa then ae_is_cxa p OR push_bit n 1 else ae_is_cxa p)\<rparr>
                    else p) in
           (0, p\<lparr>ae_fns := (ae_fns p)[n := Some fn], ae_ind := n + 1\<rparr>))"

text \<open>\<open>noarg\<close> is the null pointer that \<^verbatim>\<open>atexit\<close> passes on.\<close>

definition atexit :: "'a \<Rightarrow> 'f \<Rightarrow> ('f, 'a) atexit_t \<Rightarrow> int \<times> ('f, 'a) atexit_t" where
  "atexit noarg fn p = register_exitproc et_atexit fn noarg NULL p"

definition on_exit :: "'f \<Rightarrow> 'a \<Rightarrow> ('f, 'a) atexit_t \<Rightarrow> int \<times> ('f, 'a) atexit_t" where
  "on_exit fn arg p = register_exitproc et_onexit fn arg NULL p"

definition cxa_atexit :: "'f \<Rightarrow> 'a \<Rightarrow> addr \<Rightarrow> ('f, 'a) atexit_t \<Rightarrow> int \<times> ('f, 'a) atexit_t" where
  "cxa_atexit fn arg d p = register_exitproc et_cxa fn arg d p"

text \<open>The call of the function in place \<open>n\<close>\<close>

definition exit_call :: "int \<Rightarrow> 'f \<Rightarrow> nat \<Rightarrow> ('f, 'a) atexit_t \<Rightarrow> ('f, 'a) call" where
  "exit_call code fn n p =
     (let i = push_bit n 1 in
      if ae_fntypes p AND i = 0 then Call0 fn
      else if ae_is_cxa p AND i = 0 then CallOnExit fn code (ae_fnargs p ! n)
      else CallCxa fn (ae_fnargs p ! n))"

text \<open>The function in place \<open>n\<close> is removed before it is called.\<close>

definition exit_remove :: "nat \<Rightarrow> ('f, 'a) atexit_t \<Rightarrow> ('f, 'a) atexit_t" where
  "exit_remove n p = (if n + 1 = ae_ind p then p\<lparr>ae_ind := n\<rparr> else p\<lparr>ae_fns := (ae_fns p)[n := None]\<rparr>)"

text \<open>\<^verbatim>\<open>for (n = p->_ind - 1; n >= 0; n--)\<close> with the jump to \<^verbatim>\<open>restart\<close>; \<open>m\<close> is \<open>n + 1\<close>.\<close>

partial_function (option) exitprocs_loop ::
    "(('f, 'a) call \<Rightarrow> ('f, 'a) atexit_t \<Rightarrow> ('f, 'a) atexit_t) \<Rightarrow> int \<Rightarrow> addr \<Rightarrow> nat \<Rightarrow> ('f, 'a) atexit_t \<Rightarrow> (('f, 'a) call list \<times> ('f, 'a) atexit_t) option" where
  "exitprocs_loop run code d m p =
     (if m = 0 then Some ([], p)
      else if d \<noteq> NULL \<and> ae_dso_handle p ! (m - 1) \<noteq> d then exitprocs_loop run code d (m - 1) p
      else case ae_fns p ! (m - 1) of
        None \<Rightarrow> exitprocs_loop run code d (m - 1) (exit_remove (m - 1) p)
      | Some fn \<Rightarrow>
          let p = exit_remove (m - 1) p; c = exit_call code fn (m - 1) p; ind = ae_ind p; p = run c p in
          do { (cs, p) \<leftarrow> exitprocs_loop run code d (if ind \<noteq> ae_ind p then ae_ind p else m - 1) p;
               Some (c # cs, p) })"

definition call_exitprocs ::
    "(('f, 'a) call \<Rightarrow> ('f, 'a) atexit_t \<Rightarrow> ('f, 'a) atexit_t) \<Rightarrow> int \<Rightarrow> addr \<Rightarrow> ('f, 'a) atexit_t \<Rightarrow> (('f, 'a) call list \<times> ('f, 'a) atexit_t) option" where
  "call_exitprocs run code d p = exitprocs_loop run code d (ae_ind p) p"

definition cxa_finalize ::
    "(('f, 'a) call \<Rightarrow> ('f, 'a) atexit_t \<Rightarrow> ('f, 'a) atexit_t) \<Rightarrow> addr \<Rightarrow> ('f, 'a) atexit_t \<Rightarrow> (('f, 'a) call list \<times> ('f, 'a) atexit_t) option" where
  "cxa_finalize run d p = call_exitprocs run 0 d p"

text \<open>\<^verbatim>\<open>exit\<close> never returns: the calls it makes, whether it goes on to call \<^verbatim>\<open>__cleanup\<close> (\<open>cleanup\<close> tells whether there is one), and the
  status it hands to \<^verbatim>\<open>_exit\<close>.\<close>

definition exit ::
    "(('f, 'a) call \<Rightarrow> ('f, 'a) atexit_t \<Rightarrow> ('f, 'a) atexit_t) \<Rightarrow> bool \<Rightarrow> int \<Rightarrow> ('f, 'a) atexit_t \<Rightarrow> (('f, 'a) call list \<times> bool \<times> int) option" where
  "exit run cleanup code p = do { (cs, p) \<leftarrow> call_exitprocs run code NULL p; Some (cs, cleanup, code) }"

section \<open>Tables and what is in them\<close>

definition table_ok :: "('f, 'a) atexit_t \<Rightarrow> bool" where
  "table_ok p \<longleftrightarrow> ae_ind p \<le> ATEXIT_SIZE \<and> length (ae_fns p) = ATEXIT_SIZE \<and>
     length (ae_fnargs p) = ATEXIT_SIZE \<and> length (ae_dso_handle p) = ATEXIT_SIZE"

text \<open>The table before any registration, all zero as static data are\<close>

definition table_empty :: "('f, 'a) atexit_t \<Rightarrow> bool" where
  "table_empty p \<longleftrightarrow> table_ok p \<and> ae_ind p = 0 \<and> ae_fntypes p = 0 \<and> ae_is_cxa p = 0 \<and> (\<forall>i < ATEXIT_SIZE. ae_dso_handle p ! i = NULL)"

text \<open>A registration, the call it asks for, and the whole of a sequence of registrations.\<close>

datatype ('f, 'a) reg = Reg (reg_type: exit_type) (reg_fn: 'f) (reg_arg: 'a) (reg_dso: addr)

definition reg_call :: "int \<Rightarrow> ('f, 'a) reg \<Rightarrow> ('f, 'a) call" where
  "reg_call code r = (case reg_type r of et_atexit \<Rightarrow> Call0 (reg_fn r)
     | et_onexit \<Rightarrow> CallOnExit (reg_fn r) code (reg_arg r) | et_cxa \<Rightarrow> CallCxa (reg_fn r) (reg_arg r))"

definition register :: "('f, 'a) atexit_t \<Rightarrow> ('f, 'a) reg \<Rightarrow> ('f, 'a) atexit_t" where
  "register p r = snd (register_exitproc (reg_type r) (reg_fn r) (reg_arg r) (reg_dso r) p)"

text \<open>Place \<open>i\<close> of the table holds the registration \<open>r\<close>.  \<^verbatim>\<open>atexit\<close> leaves the handle of a place as it is, and the handle it passes on is null.\<close>

definition slot_ok :: "('f, 'a) atexit_t \<Rightarrow> nat \<Rightarrow> ('f, 'a) reg \<Rightarrow> bool" where
  "slot_ok p i r \<longleftrightarrow> ae_fns p ! i = Some (reg_fn r) \<and> ae_dso_handle p ! i = reg_dso r \<and>
     bit (ae_fntypes p) i = (reg_type r \<noteq> et_atexit) \<and>
     (reg_type r \<noteq> et_atexit \<longrightarrow> bit (ae_is_cxa p) i = (reg_type r = et_cxa) \<and> ae_fnargs p ! i = reg_arg r)"

text \<open>A table with holes, the functions already called, and the registrations left in it\<close>

definition holds :: "('f, 'a) atexit_t \<Rightarrow> ('f, 'a) reg option list \<Rightarrow> bool" where
  "holds p ss \<longleftrightarrow> table_ok p \<and> ae_ind p = length ss \<and>
     (\<forall>i < length ss. case ss ! i of None \<Rightarrow> ae_fns p ! i = None | Some r \<Rightarrow> slot_ok p i r)"

definition live :: "'r option list \<Rightarrow> 'r list" where
  "live ss = concat (map (\<lambda>s. case s of None \<Rightarrow> [] | Some r \<Rightarrow> [r]) ss)"

lemma live_simps [simp]:
  "live [] = []" "live (None # ss) = live ss" "live (Some r # ss) = r # live ss" "live (ss @ ts) = live ss @ live ts"
  by (simp_all add: live_def)

lemma live_Some [simp]: "live (map Some rs) = rs"
  by (induction rs) simp_all

lemma mask_bit: "(w :: u32) AND push_bit n 1 = 0 \<longleftrightarrow> \<not> bit w n"
  by (simp only: bit_iff_and_push_bit_not_eq_0 not_not)

lemma exit_call_eq: "exit_call code fn n p = (if \<not> bit (ae_fntypes p) n then Call0 fn
    else if \<not> bit (ae_is_cxa p) n then CallOnExit fn code (ae_fnargs p ! n) else CallCxa fn (ae_fnargs p ! n))"
  unfolding exit_call_def Let_def mask_bit ..

lemma exit_call_slot: "slot_ok p n r \<Longrightarrow> exit_call code (reg_fn r) n p = reg_call code r"
  by (cases "reg_type r") (simp_all add: slot_ok_def exit_call_eq reg_call_def)

lemma holdsD:
  assumes "holds p ss"
  shows "ae_ind p = length ss" "length ss \<le> 32" "length (ae_fns p) = 32" "length (ae_dso_handle p) = 32" "table_ok p"
    "i < length ss \<Longrightarrow> ss ! i = None \<Longrightarrow> ae_fns p ! i = None"
    "i < length ss \<Longrightarrow> ss ! i = Some r \<Longrightarrow> slot_ok p i r"
  using assms by (auto simp: holds_def table_ok_def ATEXIT_SIZE_def split: option.splits dest: spec [of _ i])

lemma exit_remove_holds:
  assumes h: "holds p ss" and n: "n < length ss"
  shows "holds (exit_remove n p) (if n + 1 = length ss then take n ss else ss[n := None])"
proof -
  let ?q = "exit_remove n p" and ?ts = "if n + 1 = length ss then take n ss else ss[n := None]"
  have "case ?ts ! i of None \<Rightarrow> ae_fns ?q ! i = None | Some r \<Rightarrow> slot_ok ?q i r" if i: "i < length ?ts" for i
  proof (cases "i = n")
    case True
    then show ?thesis using i n holdsD(1,2,3) [OF h] by (auto simp: exit_remove_def split: if_splits)
  next
    case False
    then have "?ts ! i = ss ! i" "ae_fns ?q ! i = ae_fns p ! i" "slot_ok ?q i r = slot_ok p i r" "i < length ss" for r
      using i n by (auto simp: exit_remove_def slot_ok_def split: if_splits)
    then show ?thesis using h by (cases "ss ! i") (auto simp: holds_def dest: spec [of _ i])
  qed
  moreover have "table_ok ?q" "ae_ind ?q = length ?ts"
    using h n by (auto simp: holds_def exit_remove_def table_ok_def)
  ultimately show ?thesis unfolding holds_def by blast
qed


lemma exit_call_remove [simp]: "exit_call code fn n (exit_remove k p) = exit_call code fn n p"
  by (simp add: exit_call_eq exit_remove_def)

lemma live_remove:
  assumes "n < length ss" "ts = (if n + 1 = length ss then take n ss else ss[n := None])"
  shows "take n ts = take n ss \<and> live (drop n ts) = live (drop (n + 1) ss) \<and> n \<le> length ts"
  using assms by (auto simp: drop_update_swap upd_conv_take_nth_drop Cons_nth_drop_Suc [symmetric])

text \<open>The loop, when the functions called leave the table alone: \<open>wanted\<close> are the registrations it calls.\<close>

definition wanted :: "addr \<Rightarrow> ('f, 'a) reg \<Rightarrow> bool" where
  "wanted d r \<longleftrightarrow> d = NULL \<or> reg_dso r = d"

lemma exitprocs_loop_slot:
  assumes "slot_ok p n r"
  shows "exitprocs_loop run code d (Suc n) p =
    (if wanted d r
     then let q = exit_remove n p; c = reg_call code r; q' = run c q in
          do { (cs, p') \<leftarrow> exitprocs_loop run code d (if ae_ind q \<noteq> ae_ind q' then ae_ind q' else n) q'; Some (c # cs, p') }
     else exitprocs_loop run code d n p)"
  using assms exit_call_slot [OF assms] by (subst exitprocs_loop.simps) (simp add: slot_ok_def wanted_def Let_def)

lemma exitprocs_loop_passive:
  assumes "\<And>c p. run c p = p" "holds p ss" "m \<le> length ss"
  shows "\<exists>p' ss'. exitprocs_loop run code d m p = Some (map (reg_call code) (rev (filter (wanted d) (live (take m ss)))), p') \<and>
    holds p' ss' \<and> live ss' = filter (\<lambda>r. \<not> wanted d r) (live (take m ss)) @ live (drop m ss)"
  using assms(2,3)
proof (induction m arbitrary: p ss)
  case 0
  then show ?case by (auto simp: exitprocs_loop.simps)
next
  case (Suc n)
  define ts where "ts = (if n + 1 = length ss then take n ss else ss[n := None])"
  have n: "n < length ss" using Suc.prems by simp
  have ts: "holds (exit_remove n p) ts" "take n ts = take n ss" "live (drop n ts) = live (drop (n + 1) ss)" "n \<le> length ts"
    using exit_remove_holds [OF Suc.prems(1) n] live_remove [OF n ts_def] by (simp_all add: ts_def)
  have tk: "live (take (Suc n) ss) = live (take n ss) @ live [ss ! n]" "live (drop n ss) = live [ss ! n] @ live (drop (Suc n) ss)"
    using n by (simp_all add: take_Suc_conv_app_nth Cons_nth_drop_Suc [symmetric] flip: live_simps(4))
  note IH = Suc.IH [OF ts(1) ts(4)] Suc.IH [OF Suc.prems(1) less_imp_le [OF n]]
  show ?case
  proof (cases "ss ! n")
    case None
    then have "ae_fns p ! n = None" using holdsD(6) [OF Suc.prems(1) n] by simp
    then show ?thesis using IH None ts tk by (subst exitprocs_loop.simps) auto
  next
    case (Some r)
    have sl: "slot_ok p n r" using holdsD(7) [OF Suc.prems(1) n Some] .
    show ?thesis
    proof (cases "wanted d r")
      case True
      then show ?thesis using IH(1) Some ts tk by (auto simp: exitprocs_loop_slot [OF sl] assms(1) Let_def)
    next
      case False
      then show ?thesis using IH(2) Some tk by (auto simp: exitprocs_loop_slot [OF sl])
    qed
  qed
qed

section \<open>Registration\<close>

text \<open>What the code needs of a place for the registration to be read back: \<^verbatim>\<open>atexit\<close> and \<^verbatim>\<open>on_exit\<close> do not clear the bits that
  an earlier user of the place has set.\<close>

definition place_ok :: "('f, 'a) atexit_t \<Rightarrow> nat \<Rightarrow> ('f, 'a) reg \<Rightarrow> bool" where
  "place_ok p n r \<longleftrightarrow>
     (case reg_type r of et_atexit \<Rightarrow> \<not> bit (ae_fntypes p) n \<and> ae_dso_handle p ! n = reg_dso r
      | et_onexit \<Rightarrow> \<not> bit (ae_is_cxa p) n | et_cxa \<Rightarrow> True)"

lemma bit_mask_or: "bit ((w :: u32) OR push_bit n 1) i \<longleftrightarrow> bit w i \<or> i = n \<and> n < 32"
  by (auto simp: bit_simps)

lemma register_unfold:
  "ae_ind p < ATEXIT_SIZE \<Longrightarrow> register p r = (let n = ae_ind p in
     if reg_type r = et_atexit then p\<lparr>ae_fns := (ae_fns p)[n := Some (reg_fn r)], ae_ind := n + 1\<rparr>
     else p\<lparr>ae_fns := (ae_fns p)[n := Some (reg_fn r)], ae_ind := n + 1, ae_fnargs := (ae_fnargs p)[n := reg_arg r],
            ae_fntypes := ae_fntypes p OR push_bit n 1, ae_dso_handle := (ae_dso_handle p)[n := reg_dso r],
            ae_is_cxa := (if reg_type r = et_cxa then ae_is_cxa p OR push_bit n 1 else ae_is_cxa p)\<rparr>)"
  by (simp add: register_def register_exitproc_def Let_def)

lemma register_table:
  "table_ok p \<Longrightarrow> table_ok (register p r)"
  "table_ok p \<Longrightarrow> ae_ind p < ATEXIT_SIZE \<Longrightarrow> ae_ind (register p r) = ae_ind p + 1"
  by (auto simp: register_def register_exitproc_def table_ok_def Let_def)

lemma register_slot:
  assumes "table_ok p" "ae_ind p < ATEXIT_SIZE"
  shows "place_ok p (ae_ind p) r \<Longrightarrow> slot_ok (register p r) (ae_ind p) r"
    and "i \<noteq> ae_ind p \<Longrightarrow> slot_ok (register p r) i s = slot_ok p i s"
    and "i \<noteq> ae_ind p \<Longrightarrow> ae_fns (register p r) ! i = ae_fns p ! i"
  using assms unfolding register_unfold [OF assms(2)] slot_ok_def place_ok_def table_ok_def Let_def
  by (cases "reg_type r"; simp add: bit_mask_or ATEXIT_SIZE_def del: push_bit_of_1)+

lemma register_holds:
  assumes "holds p ss" "length ss < ATEXIT_SIZE" "place_ok p (length ss) r"
  shows "holds (register p r) (ss @ [Some r])"
proof -
  have p: "table_ok p" "ae_ind p < ATEXIT_SIZE" "ae_ind p = length ss" using assms by (auto simp: holds_def)
  note sl = register_slot [OF p(1,2), where r = r, unfolded p(3)]
  have "case (ss @ [Some r]) ! i of None \<Rightarrow> ae_fns (register p r) ! i = None | Some s \<Rightarrow> slot_ok (register p r) i s"
    if i: "i < length (ss @ [Some r])" for i
  proof (cases "i = length ss")
    case True
    then show ?thesis using sl(1) assms(3) by simp
  next
    case False
    then show ?thesis using i sl(2,3) [OF False] assms(1)
      by (cases "ss ! i") (auto simp: nth_append holds_def dest: spec [of _ i])
  qed
  then show ?thesis using register_table [OF p(1)] p unfolding holds_def by simp
qed

text \<open>From an empty table every registration finds an unused place.\<close>

definition clean :: "('f, 'a) atexit_t \<Rightarrow> bool" where
  "clean p \<longleftrightarrow> (\<forall>i < ATEXIT_SIZE. ae_ind p \<le> i \<longrightarrow> \<not> bit (ae_fntypes p) i \<and> \<not> bit (ae_is_cxa p) i \<and> ae_dso_handle p ! i = NULL)"

text \<open>\<^verbatim>\<open>atexit\<close> passes a null handle on.\<close>

definition proper :: "('f, 'a) reg \<Rightarrow> bool" where
  "proper r \<longleftrightarrow> (reg_type r = et_atexit \<longrightarrow> reg_dso r = NULL)"

lemma clean_place: "clean p \<Longrightarrow> ae_ind p < ATEXIT_SIZE \<Longrightarrow> proper r \<Longrightarrow> place_ok p (ae_ind p) r"
  by (simp add: clean_def place_ok_def proper_def split: exit_type.splits)

lemma register_clean:
  assumes "table_ok p" "ae_ind p < ATEXIT_SIZE" "clean p"
  shows "clean (register p r)"
  using assms unfolding clean_def register_unfold [OF assms(2)] table_ok_def Let_def
  by (auto simp: bit_mask_or simp del: push_bit_of_1)

lemma register_all_holds:
  assumes "table_empty p" "length rs \<le> ATEXIT_SIZE" "list_all proper rs"
  shows "holds (foldl register p rs) (map Some rs) \<and> clean (foldl register p rs)"
  using assms(2,3)
proof (induction rs rule: rev_induct)
  case Nil
  then show ?case using assms(1) by (simp add: table_empty_def holds_def clean_def)
next
  case (snoc r rs)
  let ?q = "foldl register p rs"
  have q: "holds ?q (map Some rs)" "clean ?q" "table_ok ?q" "ae_ind ?q = length rs" "length rs < ATEXIT_SIZE"
    using snoc by (auto simp: holds_def)
  then have "place_ok ?q (length rs) r" using clean_place [of ?q r] snoc.prems by simp
  then show ?case using register_holds [OF q(1)] register_clean [OF q(3) _ q(2)] q(4,5) by simp
qed

text \<open>A sequence of registrations, with what each of them returns\<close>

primrec register_all :: "('f, 'a) reg list \<Rightarrow> ('f, 'a) atexit_t \<Rightarrow> int list \<times> ('f, 'a) atexit_t" where
  "register_all [] p = ([], p)"
| "register_all (r # rs) p =
     (let (a, p) = register_exitproc (reg_type r) (reg_fn r) (reg_arg r) (reg_dso r) p; (as, p) = register_all rs p in (a # as, p))"

lemma register_all_append:
  "register_all (rs @ ts) p = (let (as, q) = register_all rs p; (bs, q) = register_all ts q in (as @ bs, q))"
  by (induction rs arbitrary: p) (simp_all add: case_prod_beta Let_def)

lemma register_all_room:
  "ae_ind p + length rs \<le> ATEXIT_SIZE \<Longrightarrow> register_all rs p = (replicate (length rs) 0, foldl register p rs)"
proof (induction rs arbitrary: p)
  case (Cons r rs)
  have r: "register_exitproc (reg_type r) (reg_fn r) (reg_arg r) (reg_dso r) p = (0, register p r)" "ae_ind (register p r) = ae_ind p + 1"
    using Cons.prems by (auto simp: register_def register_exitproc_def Let_def)
  then show ?case using Cons.IH [of "register p r"] Cons.prems by simp
qed simp

lemma register_all_full: "ATEXIT_SIZE \<le> ae_ind p \<Longrightarrow> register_all rs p = (replicate (length rs) (-1), p)"
  by (induction rs) (simp_all add: register_exitproc_def)

section \<open>Functions that register others\<close>

text \<open>The stack of pending registrations and what is called when the functions called register others, \<open>further\<close>\<close>

inductive unwind :: "(('f, 'a) call \<Rightarrow> ('f, 'a) reg list) \<Rightarrow> int \<Rightarrow> ('f, 'a) reg list \<Rightarrow> ('f, 'a) call list \<Rightarrow> bool"
  for further code where
  unwind_done: "unwind further code [] []"
| unwind_call: "c = reg_call code r \<Longrightarrow> length (rs @ further c) \<le> ATEXIT_SIZE \<Longrightarrow> unwind further code (rs @ further c) cs
    \<Longrightarrow> unwind further code (rs @ [r]) (c # cs)"

text \<open>A program that uses only one of the three ways of registration\<close>

definition only :: "exit_type \<Rightarrow> ('f, 'a) reg \<Rightarrow> bool" where
  "only t r \<longleftrightarrow> reg_type r = t \<and> proper r"

definition uniform :: "exit_type \<Rightarrow> ('f, 'a) atexit_t \<Rightarrow> bool" where
  "uniform t p \<longleftrightarrow> table_ok p \<and> (case t of et_atexit \<Rightarrow> ae_fntypes p = 0 \<and> (\<forall>i < ATEXIT_SIZE. ae_dso_handle p ! i = NULL)
     | et_onexit \<Rightarrow> ae_is_cxa p = 0 | et_cxa \<Rightarrow> True)"

lemma uniform_place: "uniform t p \<Longrightarrow> only t r \<Longrightarrow> n < ATEXIT_SIZE \<Longrightarrow> place_ok p n r"
  by (cases t) (auto simp: uniform_def only_def place_ok_def proper_def)

lemma uniform_register: "uniform t p \<Longrightarrow> only t r \<Longrightarrow> uniform t (register p r)"
  using register_table(1) [of p r]
  by (cases "ae_ind p < ATEXIT_SIZE"; cases t)
    (auto simp: uniform_def only_def register_unfold Let_def register_def register_exitproc_def)

lemma uniform_remove: "uniform t p \<Longrightarrow> uniform t (exit_remove n p)"
  by (cases t) (auto simp: uniform_def exit_remove_def table_ok_def)

lemma register_uniform_holds:
  assumes "uniform t p" "holds p (map Some rs)" "list_all (only t) further" "length (rs @ further) \<le> ATEXIT_SIZE"
  shows "uniform t (foldl register p further) \<and> holds (foldl register p further) (map Some (rs @ further))"
  using assms(3,4)
proof (induction further rule: rev_induct)
  case Nil
  then show ?case using assms(1,2) by simp
next
  case (snoc r further)
  let ?q = "foldl register p further"
  have q: "uniform t ?q" "holds ?q (map Some (rs @ further))" using snoc by auto
  have l: "length (map Some (rs @ further)) < ATEXIT_SIZE" "only t r" using snoc.prems by auto
  show ?case
    using register_holds [OF q(2) l(1) uniform_place [OF q(1) l(2,1)]] uniform_register [OF q(1) l(2)] by simp
qed

lemma exitprocs_unwind:
  assumes "unwind further code rs cs" "\<And>c. list_all (only t) (further c)" "\<And>c p. run c p = foldl register p (further c)"
    "uniform t p" "holds p (map Some rs)"
  shows "\<exists>p'. exitprocs_loop run code NULL (length rs) p = Some (cs, p') \<and> ae_ind p' = 0"
  using assms(1,4,5)
proof (induction arbitrary: p)
  case unwind_done
  then show ?case by (simp add: exitprocs_loop.simps holds_def)
next
  case (unwind_call c r rs cs)
  let ?q = "exit_remove (length rs) p"
  let ?q' = "foldl register ?q (further c)"
  have sl: "slot_ok p (length rs) r"
    using holdsD(7) [OF unwind_call.prems(2), of "length rs" r] by (simp add: nth_append)
  have q: "holds ?q (map Some rs)" "uniform t ?q" 
    using exit_remove_holds [OF unwind_call.prems(2), of "length rs"] uniform_remove [OF unwind_call.prems(1)] by simp_all
  have q': "uniform t ?q'" "holds ?q' (map Some (rs @ further c))"
    using register_uniform_holds [OF q(2,1) assms(2)] unwind_call.hyps(2) by auto
  obtain p' where p': "exitprocs_loop run code NULL (length (rs @ further c)) ?q' = Some (cs, p')" "ae_ind p' = 0"
    using unwind_call.IH [OF q'] by blast
  have "ae_ind ?q = length rs" "ae_ind ?q' = length (rs @ further c)" "run c ?q = ?q'"
    using q(1) q'(2) assms(3) by (simp_all add: holds_def)
  then show ?case
    using p' unwind_call.hyps(1) by (auto simp: exitprocs_loop_slot [OF sl] wanted_def Let_def)
qed

section \<open>Properties\<close>

definition no_calls :: "('f, 'a) atexit_t" where
  "no_calls = \<lparr>ae_ind = 0, ae_fns = replicate ATEXIT_SIZE None, ae_fnargs = replicate ATEXIT_SIZE undefined,
     ae_dso_handle = replicate ATEXIT_SIZE NULL, ae_fntypes = 0, ae_is_cxa = 0\<rparr>"

lemma no_calls_empty [simp]: "table_empty no_calls"
  by (simp add: no_calls_def table_empty_def table_ok_def)

text \<open>C34. Order of the calls: after at most 32 registrations of any of the three kinds, unloading library \<open>d\<close> calls just the functions registered
  for \<open>d\<close>, the last one first and each with its own argument; the exit of the program then calls the others in the same way with the
  exit code, and nothing is left to be called again.\<close>
theorem exit_order:
  assumes "table_empty p" "length rs \<le> 32" "list_all proper rs" "d \<noteq> NULL" "\<And>c p. run c p = p"
  shows "\<exists>p1 p2 p3. cxa_finalize run d (foldl register p rs) = Some (map (reg_call 0) (rev (filter (\<lambda>r. reg_dso r = d) rs)), p1) \<and>
    call_exitprocs run code NULL p1 = Some (map (reg_call code) (rev (filter (\<lambda>r. reg_dso r \<noteq> d) rs)), p2) \<and>
    call_exitprocs run code NULL p2 = Some ([], p3) \<and>
    exit run cleanup code p1 = Some (map (reg_call code) (rev (filter (\<lambda>r. reg_dso r \<noteq> d) rs)), cleanup, code)"
proof -
  have loop: "\<exists>p' ss'. call_exitprocs run c e p = Some (map (reg_call c) (rev (filter (wanted e) (live ss))), p') \<and>
    holds p' ss' \<and> live ss' = filter (\<lambda>r. \<not> wanted e r) (live ss)" if "holds p ss" for c e p ss
    using exitprocs_loop_passive [OF assms(5) that order_refl, where code = c and d = e] holdsD(1) [OF that] by (simp add: call_exitprocs_def)
  have "holds (foldl register p rs) (map Some rs)"
    using register_all_holds [OF assms(1) _ assms(3)] assms(2) by (simp add: ATEXIT_SIZE_def)
  from loop [OF this, of 0 d] obtain p1 ss1 where 1:
    "cxa_finalize run d (foldl register p rs) = Some (map (reg_call 0) (rev (filter (\<lambda>r. reg_dso r = d) rs)), p1)"
    "holds p1 ss1" "live ss1 = filter (\<lambda>r. reg_dso r \<noteq> d) rs"
    using assms(4) by (auto simp: cxa_finalize_def wanted_def [abs_def])
  from loop [OF 1(2), of code NULL] obtain p2 ss2 where 2:
    "call_exitprocs run code NULL p1 = Some (map (reg_call code) (rev (filter (\<lambda>r. reg_dso r \<noteq> d) rs)), p2)"
    "holds p2 ss2" "live ss2 = []"
    using 1(3) by (auto simp: wanted_def [abs_def])
  from loop [OF 2(2), of code NULL] obtain p3 where "call_exitprocs run code NULL p2 = Some ([], p3)"
    using 2(3) by auto
  then show ?thesis using 1(1) 2(1) by (auto simp: exit_def)
qed

theorem exit_order_witness:
  "\<exists>p1 p2 p3. cxa_finalize (\<lambda>_ p. p) 8 (foldl register no_calls [Reg et_atexit (1 :: nat) () 0, Reg et_cxa 2 () 8, Reg et_onexit 3 () 0, Reg et_cxa 4 () 8]) =
      Some ([CallCxa 4 (), CallCxa 2 ()], p1) \<and>
    call_exitprocs (\<lambda>_ p. p) 7 NULL p1 = Some ([CallOnExit 3 7 (), Call0 1], p2) \<and>
    call_exitprocs (\<lambda>_ p. p) 7 NULL p2 = Some ([], p3) \<and>
    exit (\<lambda>_ p. p) True 7 p1 = Some ([CallOnExit 3 7 (), Call0 1], True, 7)"
  using exit_order [of no_calls "[Reg et_atexit (1 :: nat) () 0, Reg et_cxa 2 () 8, Reg et_onexit 3 () 0, Reg et_cxa 4 () 8]" 8 "\<lambda>_ p. p" 7 True]
  by (simp add: proper_def reg_call_def)

text \<open>C35. Functions that register functions: in a program that uses one kind of registration, the calls made at exit are those of a stack:
  what a function registers while it runs is called next, before the functions registered earlier, as long as no more than 32
  are pending at once; and \<^verbatim>\<open>__call_exitprocs\<close> returns, with an empty table, when the stack runs empty.\<close>
theorem exit_unwind:
  assumes "unwind further code rs cs" "table_empty p" "list_all (only t) rs" "length rs \<le> 32"
    "\<And>c. list_all (only t) (further c)" "\<And>c p. run c p = foldl register p (further c)"
  shows "\<exists>p'. call_exitprocs run code NULL (foldl register p rs) = Some (cs, p') \<and> ae_ind p' = 0"
proof -
  have p: "uniform t p" "holds p (map Some [])"
    using assms(2) by (auto simp: table_empty_def uniform_def holds_def split: exit_type.splits)
  have "uniform t (foldl register p rs)" "holds (foldl register p rs) (map Some rs)"
    using register_uniform_holds [OF p assms(3)] assms(4) by (simp_all add: ATEXIT_SIZE_def)
  moreover from this have "ae_ind (foldl register p rs) = length rs" by (simp add: holds_def)
  ultimately show ?thesis
    using exitprocs_unwind [OF assms(1,5,6)] by (simp add: call_exitprocs_def)
qed

definition one_more :: "(nat, unit) call \<Rightarrow> (nat, unit) reg list" where
  "one_more c = (if c = Call0 2 then [Reg et_atexit 5 () 0] else [])"

lemma one_more_unwind: "unwind one_more 7 [Reg et_atexit 1 () 0, Reg et_atexit 2 () 0] [Call0 2, Call0 5, Call0 1]"
proof -
  have "unwind one_more 7 [Reg et_atexit 1 () 0] [Call0 1]"
    using unwind_call [of "Call0 1" 7 "Reg et_atexit 1 () 0" "[]" one_more "[]"] by (simp add: reg_call_def one_more_def unwind_done)
  then have "unwind one_more 7 [Reg et_atexit 1 () 0, Reg et_atexit 5 () 0] [Call0 5, Call0 1]"
    using unwind_call [of "Call0 5" 7 "Reg et_atexit 5 () 0" "[Reg et_atexit 1 () 0]" one_more "[Call0 1]"]
    by (simp add: reg_call_def one_more_def ATEXIT_SIZE_def)
  then show ?thesis
    using unwind_call [of "Call0 2" 7 "Reg et_atexit 2 () 0" "[Reg et_atexit 1 () 0]" one_more "[Call0 5, Call0 1]"]
    by (simp add: reg_call_def one_more_def ATEXIT_SIZE_def)
qed

theorem exit_unwind_witness:
  "\<exists>p'. call_exitprocs (\<lambda>c p. foldl register p (one_more c)) 7 NULL (foldl register no_calls [Reg et_atexit 1 () 0, Reg et_atexit 2 () 0]) =
    Some ([Call0 2, Call0 5, Call0 1], p') \<and> ae_ind p' = 0"
  using exit_unwind [OF one_more_unwind no_calls_empty, of et_atexit "\<lambda>c p. foldl register p (one_more c)"]
  by (simp add: only_def proper_def one_more_def)

text \<open>C36. A full table: of any number of registrations the first 32 succeed, each with its function, kind, argument and handle in a place of its own,
  and all the others fail with -1 and change nothing; the exit of the program calls just the functions of the first 32, the last one first.\<close>
theorem exit_table_full:
  assumes "table_empty p" "list_all proper rs" "\<And>c p. run c p = p"
  shows "\<exists>q p'. register_all rs p = (replicate (min 32 (length rs)) 0 @ replicate (length rs - 32) (-1), q) \<and>
    ae_ind q = min 32 (length rs) \<and> (\<forall>i < min 32 (length rs). slot_ok q i (rs ! i)) \<and>
    call_exitprocs run code NULL q = Some (map (reg_call code) (rev (take 32 rs)), p')"
proof -
  let ?as = "take 32 rs"
  define q where "q = foldl register p ?as"
  have p: "ae_ind p = 0" "table_ok p" using assms(2) assms(1) by (auto simp: table_empty_def)
  have as: "list_all proper ?as" "length ?as \<le> ATEXIT_SIZE" using assms(2) set_take_subset [of 32 rs] by (auto simp: list_all_iff ATEXIT_SIZE_def)
  have h: "holds q (map Some ?as)" using register_all_holds [OF assms(1) as(2,1)] by (simp add: q_def)
  have ind: "ae_ind q = min 32 (length rs)" using holdsD(1) [OF h] by simp
  have "register_all (?as @ drop 32 rs) p = (replicate (length ?as) 0 @ fst (register_all (drop 32 rs) q), snd (register_all (drop 32 rs) q))"
    unfolding register_all_append using register_all_room [of p ?as] p as(2) by (simp add: q_def case_prod_beta)
  moreover have "register_all (drop 32 rs) q = (replicate (length rs - 32) (-1), q)"
    using register_all_full [of q "drop 32 rs"] ind by (cases "32 \<le> length rs") (simp_all add: ATEXIT_SIZE_def)
  ultimately have r: "register_all rs p = (replicate (min 32 (length rs)) 0 @ replicate (length rs - 32) (-1), q)" by (simp add: min.commute)
  have "slot_ok q i (rs ! i)" if "i < min 32 (length rs)" for i using holdsD(7) [OF h, of i "rs ! i"] that by simp
  moreover obtain p' where "call_exitprocs run code NULL q = Some (map (reg_call code) (rev ?as), p')"
    using exitprocs_loop_passive [of run, OF assms(3) h order_refl, of code NULL] holdsD(1) [OF h]
    by (auto simp: call_exitprocs_def wanted_def [abs_def])
  ultimately show ?thesis using r ind by blast
qed

theorem exit_table_full_witness:
  "\<exists>q p'. register_all (replicate 33 (Reg et_atexit (1 :: nat) () 0)) no_calls = (replicate 32 0 @ [-1], q) \<and>
    call_exitprocs (\<lambda>_ p. p) 0 NULL q = Some (replicate 32 (Call0 1), p')"
  using exit_table_full [of no_calls "replicate 33 (Reg et_atexit (1 :: nat) () 0)" "\<lambda>_ p. p" 0]
  by (auto simp: proper_def reg_call_def list_all_iff)

text \<open>A place that is used again keeps the bits of its first user: a function registered by \<^verbatim>\<open>atexit\<close> after one registered by
  \<^verbatim>\<open>__cxa_atexit\<close> has been called is called with the argument of that one.\<close>

lemma atexit_stale_argument:
  "fst (the (call_exitprocs (\<lambda>_ p. p) 0 NULL
     (register (snd (the (call_exitprocs (\<lambda>_ p. p) 0 NULL (register no_calls (Reg et_cxa (1 :: nat) True 8))))) (Reg et_atexit 2 False 0)))) =
   [CallCxa 2 True]"
  by (simp add: register_def register_exitproc_def no_calls_def ATEXIT_SIZE_def Let_def call_exitprocs_def exitprocs_loop.simps
      exit_remove_def exit_call_def)

end
