(* ===== verification/Allocator.thy ===== *)
theory Allocator
  imports CMem
begin

text \<open>
  What the routines that call \<^verbatim>\<open>malloc\<close> rely on.  The allocator is a parameter of their models: \<open>malloc m n\<close> returns an
  address, \<open>NULL\<close> on failure, and the memory with the new block.  The memory has the addresses the program may use; the data
  the allocator keeps for itself are not part of it.
\<close>

definition region :: "addr \<Rightarrow> nat \<Rightarrow> addr set" where
  "region p n = {p ..< p + n}"

text \<open>A block is new: none of its addresses was in use, and what was there stays.\<close>

definition malloc_ok :: "(mem \<Rightarrow> nat \<Rightarrow> addr \<times> mem) \<Rightarrow> bool" where
  "malloc_ok malloc \<longleftrightarrow> (\<forall>m n. paged m \<longrightarrow> (case malloc m n of (p, m') \<Rightarrow>
     if p = NULL then m' = m
     else paged m' \<and> mapped m' p n \<and> m \<subseteq>\<^sub>m m' \<and> region p n \<inter> dom m = {}))"

lemma bytes_map_le: "bytes m p xs \<Longrightarrow> m \<subseteq>\<^sub>m m' \<Longrightarrow> bytes m' p xs"
  by (auto simp: bytes_nth map_le_def dom_def)

lemma cstr_map_le: "cstr m p s \<Longrightarrow> m \<subseteq>\<^sub>m m' \<Longrightarrow> cstr m' p s"
  using bytes_map_le [of m p "s @ [0]" m'] by (auto simp: cstr_def)

lemma disjoint_regions_iff: "0 < n \<Longrightarrow> 0 < k \<Longrightarrow> disjoint_regions p n q k \<longleftrightarrow> region p n \<inter> region q k = {}"
proof
  assume a: "0 < n" "0 < k" "region p n \<inter> region q k = {}"
  then have "q \<notin> region p n \<or> q \<notin> region q k" "p \<notin> region p n \<or> p \<notin> region q k" by blast+
  with a show "disjoint_regions p n q k" by (auto simp: disjoint_regions_def region_def)
qed (auto simp: disjoint_regions_def region_def)

lemma cstr_dom: "cstr m p s \<Longrightarrow> region p (length s + 1) \<subseteq> dom m"
  using cstr_mapped [of m p s] mappedD [of m p "Suc (length s)"] by (auto simp: region_def)

lemma malloc_cases:
  assumes "malloc_ok malloc" "paged m"
  obtains "malloc m n = (NULL, m)"
  | p m' where "malloc m n = (p, m')" "p \<noteq> NULL" "paged m'" "mapped m' p n" "m \<subseteq>\<^sub>m m'" "region p n \<inter> dom m = {}"
proof -
  obtain p m' where "malloc m n = (p, m')" by fastforce
  with assms that show thesis by (cases "p = NULL") (auto simp: malloc_ok_def dest!: spec [of _ m] spec [of _ n])
qed

lemma region_apart: "region p n \<inter> dom m = {} \<Longrightarrow> 0 < n \<Longrightarrow> cstr m q t \<Longrightarrow> disjoint_regions p n q (length t + 1)"
  using cstr_dom [of m q t] by (auto simp: disjoint_regions_iff)

lemma wr_map_le: "m \<subseteq>\<^sub>m m' \<Longrightarrow> region p (length xs) \<inter> dom m = {} \<Longrightarrow> m \<subseteq>\<^sub>m wr m' p xs"
  by (auto simp: map_le_def wr_def region_def dom_def disjoint_iff)

text \<open>An allocator with one block: a concrete function that keeps the contract\<close>

definition one_block :: "mem \<Rightarrow> nat \<Rightarrow> addr \<times> mem" where
  "one_block m n =
     (let k = 4 * (n div 4 + 1) in
      if list_all (\<lambda>a. m a = None) [4096 ..< 4096 + k] then (4096, wr m 4096 (replicate k 0)) else (NULL, m))"

lemma paged_new_block:
  assumes "paged m" "p mod 4 = 0" "length xs mod 4 = 0"
  shows "paged (wr m p xs)"
proof -
  have "mapped (wr m p xs) (a - a mod 4) 4" if "wr m p xs a \<noteq> None" for a
  proof (cases "p \<le> a \<and> a < p + length xs")
    case True
    then have "mapped (mem_image p xs) (a - a mod 4) 4" using paged_mem_image [OF assms(2,3)] by (simp add: paged_def del: mapped.simps)
    then show ?thesis by (auto simp: mapped_nth wr_def split: if_splits)
  next
    case False
    then have "m a \<noteq> None" using that by (auto simp: wr_def)
    then have "mapped m (a - a mod 4) 4" using assms(1) by (simp add: paged_def)
    then show ?thesis by (auto simp: mapped_nth wr_def)
  qed
  then show ?thesis by (simp add: paged_def)
qed

lemma one_block_ok: "malloc_ok one_block"
  unfolding malloc_ok_def
proof (intro allI impI)
  fix m :: mem and n :: nat
  assume "paged m"
  let ?k = "4 * (n div 4 + 1)"
  show "case one_block m n of (p, m') \<Rightarrow> if p = NULL then m' = m
     else paged m' \<and> mapped m' p n \<and> m \<subseteq>\<^sub>m m' \<and> region p n \<inter> dom m = {}"
  proof (cases "list_all (\<lambda>a. m a = None) [4096 ..< 4096 + ?k]")
    case True
    have k: "n \<le> ?k" by presburger
    have free: "m a = None" if "4096 \<le> a" "a < 4096 + ?k" for a using True that unfolding list_all_iff by simp
    let ?m = "wr m 4096 (replicate ?k 0)"
    have "paged ?m" by (rule paged_new_block [OF \<open>paged m\<close>]) simp_all
    moreover have "mapped ?m 4096 n" using k by (auto simp: mapped_nth wr_def)
    moreover have "m \<subseteq>\<^sub>m ?m" using free by (auto simp: map_le_def wr_def dom_def)
    moreover have "region 4096 n \<inter> dom m = {}" using free k by (fastforce simp: region_def)
    ultimately show ?thesis using True by (simp add: one_block_def Let_def)
  next
    case False
    then show ?thesis by (simp add: one_block_def Let_def)
  qed
qed

end
