(* ===== verification/Environ.thy ===== *)
theory Environ
  imports StrCompare Allocator
begin

text \<open>
  The environment: \<^verbatim>\<open>getenv_r.c\<close>, \<^verbatim>\<open>setenv_r.c\<close>, \<^verbatim>\<open>putenv_r.c\<close> of \<^verbatim>\<open>src/runtime/libc/stdlib\<close>, their wrappers, and
  \<^verbatim>\<open>strdup_r.c\<close> of \<^verbatim>\<open>src/runtime/libc/string\<close>.

  The strings are in the byte memory.  The vector \<^verbatim>\<open>environ\<close> is a list of addresses with its null pointers, since
  no routine here looks at its bytes; \<open>None\<close> is a null \<^verbatim>\<open>environ\<close>.  The allocator is a parameter: \<open>malloc m n\<close>
  returns an address, \<open>NULL\<close> on failure, and the memory with the new block; \<open>free\<close> takes a block out of the memory;
  \<open>grow e n\<close> tells whether \<^verbatim>\<open>_malloc_r\<close> or \<^verbatim>\<open>_realloc_r\<close> finds \<open>n\<close> bytes for the vector.  What the
  development needs of the allocator is \<open>malloc_ok\<close> and \<open>free_ok\<close>.
\<close>

section \<open>The routines\<close>

record env =
  en_mem :: mem
  en_vec :: "addr list option"
  en_alloced :: bool

text \<open>\<^verbatim>\<open>while (*c && *c != '=') c++\<close>, in \<^verbatim>\<open>_findenv_r\<close> and \<^verbatim>\<open>_setenv_r\<close>\<close>

partial_function (option) name_end :: "mem \<Rightarrow> addr \<Rightarrow> addr option" where
  "name_end m c = do { b \<leftarrow> load8 m c; if b \<noteq> 0 \<and> b \<noteq> 61 then name_end m (c + 1) else Some c }"

text \<open>\<^verbatim>\<open>for (p = *p_environ; *p; ++p)\<close>; the value and the offset when the name is found.  A vector without a null
  pointer at its end is read out of bounds.\<close>

primrec findenv_loop :: "mem \<Rightarrow> addr \<Rightarrow> nat \<Rightarrow> nat \<Rightarrow> addr list \<Rightarrow> (addr \<times> nat) option option" where
  "findenv_loop m name len offset [] = None"
| "findenv_loop m name len offset (p # ps) =
     (if p = NULL then Some None
      else do { r \<leftarrow> strncmp m p name len;
                b \<leftarrow> (if r = 0 then load8 m (p + len) else Some 0);
                if r = 0 \<and> b = 61 then Some (Some (p + len + 1, offset))
                else findenv_loop m name len (offset + 1) ps })"

definition findenv_r :: "env \<Rightarrow> addr \<Rightarrow> (addr \<times> nat) option option" where
  "findenv_r e name =
     (case en_vec e of
        None \<Rightarrow> Some None
      | Some ps \<Rightarrow>
          do { c \<leftarrow> name_end (en_mem e) name;
               b \<leftarrow> load8 (en_mem e) c;
               if b \<noteq> 61 then findenv_loop (en_mem e) name (c - name) 0 ps else Some None })"

definition getenv_r :: "env \<Rightarrow> addr \<Rightarrow> addr option" where
  "getenv_r e name = do { r \<leftarrow> findenv_r e name; Some (case r of None \<Rightarrow> NULL | Some (p, _) \<Rightarrow> p) }"

definition getenv :: "env \<Rightarrow> addr \<Rightarrow> addr option" where
  "getenv e name = getenv_r e name"

text \<open>\<^verbatim>\<open>while ((*C++ = *value++) != 0)\<close>\<close>

partial_function (option) copy_value :: "mem \<Rightarrow> addr \<Rightarrow> addr \<Rightarrow> mem option" where
  "copy_value m c value =
     do { b \<leftarrow> load8 m value; m \<leftarrow> store8 m c b; if b \<noteq> 0 then copy_value m (c + 1) (value + 1) else Some m }"

text \<open>\<^verbatim>\<open>for (C = ...; (*C = *name++) && *C != '='; ++C)\<close>\<close>

partial_function (option) copy_name :: "mem \<Rightarrow> addr \<Rightarrow> addr \<Rightarrow> (addr \<times> mem) option" where
  "copy_name m c name =
     do { b \<leftarrow> load8 m name; m \<leftarrow> store8 m c b;
          if b \<noteq> 0 \<and> b \<noteq> 61 then copy_name m (c + 1) (name + 1) else Some (c, m) }"

text \<open>The comparisons with the literals \<^verbatim>\<open>"TZ"\<close> and \<^verbatim>\<open>"TZ="\<close>\<close>

primrec starts :: "mem \<Rightarrow> addr \<Rightarrow> byte list \<Rightarrow> bool option" where
  "starts m p [] = Some True"
| "starts m p (c # cs) = do { b \<leftarrow> load8 m p; if b = c then starts m (p + 1) cs else Some False }"

text \<open>\<^verbatim>\<open>for (P = *p_environ, cnt = 0; *P; ++P, ++cnt)\<close>\<close>

primrec vec_count :: "addr list \<Rightarrow> nat option" where
  "vec_count [] = None"
| "vec_count (p # ps) = (if p = NULL then Some 0 else do { n \<leftarrow> vec_count ps; Some (n + 1) })"

text \<open>The tail of \<^verbatim>\<open>_setenv_r\<close>: a new string for place \<open>offset\<close>.  The result is what is returned and whether \<^verbatim>\<open>tzset\<close> is called.\<close>

definition setenv_entry ::
    "(mem \<Rightarrow> nat \<Rightarrow> addr \<times> mem) \<Rightarrow> env \<Rightarrow> addr \<Rightarrow> addr \<Rightarrow> nat \<Rightarrow> nat \<Rightarrow> (int \<times> bool \<times> env) option" where
  "setenv_entry malloc e name value l_value offset =
     do { C \<leftarrow> name_end (en_mem e) name;
          let (p, m) = malloc (en_mem e) ((C - name) + l_value + 2);
          let e = e\<lparr>en_mem := m, en_vec := map_option (\<lambda>ps. ps[offset := p]) (en_vec e)\<rparr>;
          if p = NULL then Some (-1, False, e)
          else do { (C, m) \<leftarrow> copy_name m p name;
                    m \<leftarrow> store8 m C 61;
                    m \<leftarrow> copy_value m (C + 1) value;
                    tz \<leftarrow> starts m p [84, 90, 61];
                    Some (0, tz, e\<lparr>en_mem := m\<rparr>) } }"

definition setenv_r ::
    "(mem \<Rightarrow> nat \<Rightarrow> addr \<times> mem) \<Rightarrow> (env \<Rightarrow> nat \<Rightarrow> bool) \<Rightarrow> env \<Rightarrow> addr \<Rightarrow> addr \<Rightarrow> bool \<Rightarrow> (int \<times> bool \<times> env) option" where
  "setenv_r malloc grow e name value rewrite =
     do { q \<leftarrow> strchr (en_mem e) name 61;
          if q \<noteq> NULL then Some (-1, False, e)
          else do { l_value \<leftarrow> strlen (en_mem e) value;
                    r \<leftarrow> findenv_r e name;
                    case r of
                      Some (C, offset) \<Rightarrow>
                        if \<not> rewrite then Some (0, False, e)
                        else do { l \<leftarrow> strlen (en_mem e) C;
                                  if l \<ge> l_value
                                  then do { m \<leftarrow> copy_value (en_mem e) C value;
                                            tz \<leftarrow> starts m name [84, 90, 0];
                                            Some (0, tz, e\<lparr>en_mem := m\<rparr>) }
                                  else setenv_entry malloc e name value l_value offset }
                    | None \<Rightarrow>
                        do { P \<leftarrow> en_vec e;
                             cnt \<leftarrow> vec_count P;
                             if \<not> grow e (4 * (cnt + 2))
                             then Some (-1, False, e\<lparr>en_vec := (if en_alloced e then None else en_vec e), en_alloced := True\<rparr>)
                             else setenv_entry malloc (e\<lparr>en_vec := Some (take cnt P @ [NULL, NULL]), en_alloced := True\<rparr>) name value l_value cnt } } }"

definition setenv ::
    "(mem \<Rightarrow> nat \<Rightarrow> addr \<times> mem) \<Rightarrow> (env \<Rightarrow> nat \<Rightarrow> bool) \<Rightarrow> env \<Rightarrow> addr \<Rightarrow> addr \<Rightarrow> bool \<Rightarrow> (int \<times> bool \<times> env) option" where
  "setenv malloc grow e name value rewrite = setenv_r malloc grow e name value rewrite"

text \<open>\<^verbatim>\<open>for (P = &(*p_environ)[offset];; ++P) if (!(*P = *(P + 1))) break\<close>\<close>

function shift_down :: "addr list \<Rightarrow> nat \<Rightarrow> addr list option" where
  "shift_down ps i =
     (if i + 1 < length ps
      then if ps ! (i + 1) = NULL then Some (ps[i := NULL]) else shift_down (ps[i := ps ! (i + 1)]) (i + 1)
      else None)"
  by auto
termination by (relation "measure (\<lambda>(ps, i). length ps - i)") auto

declare shift_down.simps [simp del]

partial_function (option) unsetenv_loop :: "env \<Rightarrow> addr \<Rightarrow> env option" where
  "unsetenv_loop e name =
     do { r \<leftarrow> findenv_r e name;
          case r of
            None \<Rightarrow> Some e
          | Some (_, offset) \<Rightarrow>
              do { ps \<leftarrow> en_vec e;
                   ps \<leftarrow> shift_down ps offset;
                   unsetenv_loop (e\<lparr>en_vec := Some ps\<rparr>) name } }"

definition unsetenv_r :: "env \<Rightarrow> addr \<Rightarrow> (int \<times> env) option" where
  "unsetenv_r e name =
     (if name = NULL then Some (-1, e)
      else do { b \<leftarrow> load8 (en_mem e) name;
                if b = 0 then Some (-1, e)
                else do { q \<leftarrow> strchr (en_mem e) name 61;
                          if q \<noteq> NULL then Some (-1, e)
                          else do { e \<leftarrow> unsetenv_loop e name; Some (0, e) } } })"

definition unsetenv :: "env \<Rightarrow> addr \<Rightarrow> (int \<times> env) option" where
  "unsetenv e name = unsetenv_r e name"

definition strdup_r :: "(mem \<Rightarrow> nat \<Rightarrow> addr \<times> mem) \<Rightarrow> mem \<Rightarrow> addr \<Rightarrow> (addr \<times> mem) option" where
  "strdup_r malloc m str =
     do { l \<leftarrow> strlen m str;
          let (copy, m) = malloc m (l + 1);
          if copy \<noteq> NULL then do { (_, m) \<leftarrow> memcpy m copy str (l + 1); Some (copy, m) } else Some (copy, m) }"

definition strdup :: "(mem \<Rightarrow> nat \<Rightarrow> addr \<times> mem) \<Rightarrow> mem \<Rightarrow> addr \<Rightarrow> (addr \<times> mem) option" where
  "strdup malloc m str = strdup_r malloc m str"

text \<open>\<^verbatim>\<open>while (n-- > 0 && *ptr) ptr++\<close>\<close>

primrec strndup_scan :: "nat \<Rightarrow> mem \<Rightarrow> addr \<Rightarrow> addr option" where
  "strndup_scan 0 m p = Some p"
| "strndup_scan (Suc n) m p = do { b \<leftarrow> load8 m p; if b \<noteq> 0 then strndup_scan n m (p + 1) else Some p }"

definition strndup_r :: "(mem \<Rightarrow> nat \<Rightarrow> addr \<times> mem) \<Rightarrow> mem \<Rightarrow> addr \<Rightarrow> nat \<Rightarrow> (addr \<times> mem) option" where
  "strndup_r malloc m str n =
     do { q \<leftarrow> strndup_scan n m str;
          let len = q - str;
          let (copy, m) = malloc m (len + 1);
          if copy \<noteq> NULL
          then do { (_, m) \<leftarrow> memcpy m copy str len; m \<leftarrow> store8 m (copy + len) 0; Some (copy, m) }
          else Some (copy, m) }"

definition strndup :: "(mem \<Rightarrow> nat \<Rightarrow> addr \<times> mem) \<Rightarrow> mem \<Rightarrow> addr \<Rightarrow> nat \<Rightarrow> (addr \<times> mem) option" where
  "strndup malloc m str n = strndup_r malloc m str n"

definition putenv_r ::
    "(mem \<Rightarrow> nat \<Rightarrow> addr \<times> mem) \<Rightarrow> (mem \<Rightarrow> addr \<Rightarrow> mem) \<Rightarrow> (env \<Rightarrow> nat \<Rightarrow> bool) \<Rightarrow> env \<Rightarrow> addr \<Rightarrow> (int \<times> bool \<times> env) option" where
  "putenv_r malloc free grow e str =
     do { (p, m) \<leftarrow> strdup_r malloc (en_mem e) str;
          if p = NULL then Some (1, False, e\<lparr>en_mem := m\<rparr>)
          else do { equal \<leftarrow> index m p 61;
                    if equal = NULL then Some (1, False, e\<lparr>en_mem := free m p\<rparr>)
                    else do { m \<leftarrow> store8 m equal 0;
                              (rval, tz, e) \<leftarrow> setenv_r malloc grow (e\<lparr>en_mem := m\<rparr>) p (equal + 1) True;
                              Some (rval, tz, e\<lparr>en_mem := free (en_mem e) p\<rparr>) } } }"

definition putenv ::
    "(mem \<Rightarrow> nat \<Rightarrow> addr \<times> mem) \<Rightarrow> (mem \<Rightarrow> addr \<Rightarrow> mem) \<Rightarrow> (env \<Rightarrow> nat \<Rightarrow> bool) \<Rightarrow> env \<Rightarrow> addr \<Rightarrow> (int \<times> bool \<times> env) option" where
  "putenv malloc free grow e str = putenv_r malloc free grow e str"

section \<open>Environments as lists of strings\<close>

definition names :: "byte list \<Rightarrow> byte list \<Rightarrow> bool" where
  "names n s \<longleftrightarrow> take (length n + 1) s = n @ [61]"

definition env_get :: "byte list list \<Rightarrow> byte list \<Rightarrow> byte list option" where
  "env_get ss n = map_option (drop (length n + 1)) (find (names n) ss)"

primrec env_set :: "byte list \<Rightarrow> byte list \<Rightarrow> byte list list \<Rightarrow> byte list list" where
  "env_set n v [] = [n @ 61 # v]"
| "env_set n v (s # ss) = (if names n s then (n @ 61 # v) # ss else s # env_set n v ss)"

definition env_unset :: "byte list \<Rightarrow> byte list list \<Rightarrow> byte list list" where
  "env_unset n ss = filter (\<lambda>s. \<not> names n s) ss"

text \<open>The interface of a set of variables\<close>

locale variables =
  fixes get :: "'s \<Rightarrow> 'n \<Rightarrow> 'v option" and set_var :: "'n \<Rightarrow> 'v \<Rightarrow> 's \<Rightarrow> 's" and unset :: "'n \<Rightarrow> 's \<Rightarrow> 's"
    and is_name :: "'n \<Rightarrow> bool"
  assumes get_set: "is_name n \<Longrightarrow> is_name k \<Longrightarrow> get (set_var n v s) k = (if k = n then Some v else get s k)"
    and get_unset: "is_name n \<Longrightarrow> is_name k \<Longrightarrow> get (unset n s) k = (if k = n then None else get s k)"
begin

text \<open>A history of settings \<open>(n, Some v)\<close> and removals \<open>(n, None)\<close>: what counts is the last entry for a name.\<close>

lemma get_history:
  "list_all (\<lambda>(n, _). is_name n) h \<Longrightarrow> is_name k \<Longrightarrow>
     get (foldl (\<lambda>s (n, v). case v of None \<Rightarrow> unset n s | Some v \<Rightarrow> set_var n v s) s h) k =
     (case map_of (rev h) k of None \<Rightarrow> get s k | Some v \<Rightarrow> v)"
  by (induction h rule: rev_induct) (auto simp: get_set get_unset split: option.splits)

end

lemma names_iff: "names n s \<longleftrightarrow> (\<exists>v. s = n @ 61 # v)"
proof
  assume "names n s"
  then have "s = (n @ [61]) @ drop (length n + 1) s" unfolding names_def by (metis append_take_drop_id)
  then show "\<exists>v. s = n @ 61 # v" by (metis append.assoc append_Cons append_Nil)
qed (auto simp: names_def)

lemma takeWhile_name: "61 \<notin> set n \<Longrightarrow> takeWhile (\<lambda>b. b \<noteq> 61) (n @ v) = n @ takeWhile (\<lambda>b. b \<noteq> (61 :: byte)) v"
  by (induction n) auto

lemma names_unique: "61 \<notin> set n \<Longrightarrow> 61 \<notin> set k \<Longrightarrow> names n s \<Longrightarrow> names k s \<Longrightarrow> k = n"
proof -
  assume n: "61 \<notin> set n" and k: "61 \<notin> set k" and "names n s" "names k s"
  then obtain v w where "s = n @ 61 # v" "s = k @ 61 # w" unfolding names_iff by blast
  then show "k = n" using takeWhile_name [OF n, of "61 # v"] takeWhile_name [OF k, of "61 # w"] by simp
qed

lemma names_eq: "61 \<notin> set n \<Longrightarrow> 61 \<notin> set k \<Longrightarrow> names k (n @ 61 # v) \<longleftrightarrow> k = n"
  using names_unique [of n k "n @ 61 # v"] by (auto simp: names_iff)

lemma find_env_set:
  "61 \<notin> set n \<Longrightarrow> 61 \<notin> set k \<Longrightarrow> find (names k) (env_set n v ss) = (if k = n then Some (n @ 61 # v) else find (names k) ss)"
proof (induction ss)
  case (Cons s ss)
  with names_unique [of n k s] show ?case by (auto simp: names_eq)
qed (auto simp: names_eq)

lemma find_env_unset:
  "61 \<notin> set n \<Longrightarrow> 61 \<notin> set k \<Longrightarrow> find (names k) (env_unset n ss) = (if k = n then None else find (names k) ss)"
proof (induction ss)
  case (Cons s ss)
  with names_unique [of n k s] show ?case by (auto simp: env_unset_def)
qed (simp add: env_unset_def)

interpretation env_strings: variables env_get env_set env_unset "\<lambda>n. 61 \<notin> set n"
  by unfold_locales (auto simp: env_get_def find_env_set find_env_unset)

section \<open>The state of the environment\<close>

definition apart :: "addr \<times> byte list \<Rightarrow> addr \<times> byte list \<Rightarrow> bool" where
  "apart x y \<longleftrightarrow> disjoint_regions (fst x) (length (snd x) + 1) (fst y) (length (snd y) + 1)"

text \<open>The entries \<open>es\<close> of the vector, with their strings, do not overlap.\<close>

definition env_ok :: "env \<Rightarrow> (addr \<times> byte list) list \<Rightarrow> bool" where
  "env_ok e es \<longleftrightarrow> paged (en_mem e) \<and> (\<exists>rest. en_vec e = Some (map fst es @ NULL # rest)) \<and>
     (\<forall>(p, s) \<in> set es. p \<noteq> NULL \<and> cstr (en_mem e) p s) \<and> sorted_wrt apart es"

definition names_of :: "byte list \<Rightarrow> addr \<times> byte list \<Rightarrow> bool" where
  "names_of n x = names n (snd x)"

lemma env_split:
  obtains "\<forall>x \<in> set es. \<not> names_of n x"
  | as p s bs where "es = as @ (p, s) # bs" "names_of n (p, s)" "\<forall>x \<in> set as. \<not> names_of n x"
proof (cases "\<exists>x \<in> set es. names_of n x")
  case True
  then obtain as x bs where "es = as @ x # bs" "names_of n x" "\<forall>y \<in> set as. \<not> names_of n y"
    using split_list_first_prop [of es "names_of n"] by blast
  then show thesis using that(2) [of as "fst x" "snd x" bs] by simp
qed (use that(1) in blast)

lemma name_end_eq: "cstr m p s \<Longrightarrow> name_end m p = Some (p + length (takeWhile (\<lambda>b. b \<noteq> 61) s))"
proof (induction s arbitrary: p)
  case Nil
  then show ?case by (subst name_end.simps) (simp add: cstr_Nil load8_def)
next
  case (Cons c s)
  then show ?case using Cons.IH [of "p + 1"] by (subst name_end.simps) (auto simp: cstr_Cons load8_def)
qed

lemma cmp_bytes_short: "0 \<notin> set t \<Longrightarrow> length s < length t \<Longrightarrow> cmp_bytes (s @ [0]) t \<noteq> 0"
proof (induction s arbitrary: t)
  case Nil
  then show ?case by (cases t) (auto simp: word_uint_eq_iff)
next
  case (Cons c s)
  then show ?case by (cases t) (auto simp: word_uint_eq_iff)
qed

lemma cstr_byte: "cstr m p s \<Longrightarrow> i \<le> length s \<Longrightarrow> m (p + i) = Some ((s @ [0]) ! i)"
  using bytesD [of m p "s @ [0]" i] by (simp add: cstr_def)

lemma entry_test:
  assumes "paged m" "cstr m p s" "cstr m name n"
  shows "\<exists>r. strncmp m p name (length n) = Some r \<and> (r = 0 \<longrightarrow> m (p + length n) \<noteq> None) \<and>
    (r = 0 \<and> m (p + length n) = Some 61 \<longleftrightarrow> names n s)"
proof -
  let ?l = "length n"
  have r: "strncmp m p name ?l = Some (cmp_upto ?l (take ?l s) n)"
    using strncmp_eq [OF assms(1) cstr_upto_take [OF assms(2)] cstr_upto_take [OF assms(3)], of ?l] by simp
  have z: "0 \<notin> set n" using assms(3) by (simp add: cstr_def)
  show ?thesis
  proof (cases "?l \<le> length s")
    case True
    then have "cmp_upto ?l (take ?l s) n = 0 \<longleftrightarrow> take ?l s = n"
      by (simp add: cmp_upto_def cmp_bytes_eq_0)
    moreover have "m (p + ?l) = Some ((s @ [0]) ! ?l)" using cstr_byte [OF assms(2) True] .
    moreover have "names n s \<longleftrightarrow> take ?l s = n \<and> (s @ [0]) ! ?l = 61"
      using True by (cases "?l = length s") (auto simp: names_def take_Suc_conv_app_nth nth_append)
    ultimately show ?thesis using r by simp
  next
    case False
    then have "cmp_upto ?l (take ?l s) n \<noteq> 0" using cmp_bytes_short [OF z, of s] by (simp add: cmp_upto_def)
    moreover have "\<not> names n s" using False by (auto simp: names_iff)
    ultimately show ?thesis using r by simp
  qed
qed

lemma findenv_loop_skip:
  assumes "paged m" "cstr m name n" "\<forall>(p, s) \<in> set es. p \<noteq> NULL \<and> cstr m p s" "\<forall>x \<in> set es. \<not> names_of n x"
  shows "findenv_loop m name (length n) i (map fst es @ ps) = findenv_loop m name (length n) (i + length es) ps"
  using assms(3,4)
proof (induction es arbitrary: i)
  case (Cons x es)
  then obtain p s where x: "x = (p, s)" "p \<noteq> NULL" "cstr m p s" "\<not> names n s" by (cases x) (auto simp: names_of_def)
  have IH: "findenv_loop m name (length n) (i + 1) (map fst es @ ps) = findenv_loop m name (length n) (i + 1 + length es) ps"
    by (rule Cons.IH) (use Cons.prems in auto)
  from entry_test [OF assms(1) x(3) assms(2)] x IH show ?case by (auto simp: load8_def)
qed simp

lemma env_okD:
  assumes "env_ok e es"
  shows "paged (en_mem e)" "\<forall>(p, s) \<in> set es. p \<noteq> NULL \<and> cstr (en_mem e) p s" "sorted_wrt apart es"
    "\<exists>rest. en_vec e = Some (map fst es @ NULL # rest)"
  using assms by (auto simp: env_ok_def)

lemma env_ok_cstr: "env_ok e es \<Longrightarrow> x \<in> set es \<Longrightarrow> fst x \<noteq> NULL \<and> cstr (en_mem e) (fst x) (snd x)"
  using env_okD(2) [of e es] by fastforce

lemma name_end_name:
  assumes "cstr m name n" "61 \<notin> set n"
  shows "name_end m name = Some (name + length n)"
proof -
  have "takeWhile (\<lambda>b. b \<noteq> 61) n = n" using takeWhile_name [OF assms(2), of "[]"] by simp
  then show ?thesis using name_end_eq [OF assms(1)] by metis
qed

lemma findenv_name:
  assumes "en_vec e = Some ps" "cstr (en_mem e) name n" "61 \<notin> set n"
  shows "findenv_r e name = findenv_loop (en_mem e) name (length n) 0 ps"
  using assms(1) name_end_name [OF assms(2,3)] cstr_byte [OF assms(2), of "length n"]
  by (simp add: findenv_r_def load8_def)

lemma findenv_absent:
  assumes "env_ok e es" "cstr (en_mem e) name n" "61 \<notin> set n" "\<forall>x \<in> set es. \<not> names_of n x"
  shows "findenv_r e name = Some None"
  using env_okD(4) [OF assms(1)] findenv_name [OF _ assms(2,3)]
    findenv_loop_skip [OF env_okD(1) [OF assms(1)] assms(2) env_okD(2) [OF assms(1)] assms(4)] by auto

lemma findenv_present:
  assumes "env_ok e (as @ (p, s) # bs)" "cstr (en_mem e) name n" "61 \<notin> set n"
    "names_of n (p, s)" "\<forall>x \<in> set as. \<not> names_of n x"
  shows "findenv_r e name = Some (Some (p + length n + 1, length as))"
proof -
  note ok = env_okD [OF assms(1)]
  from ok(4) obtain rest where v: "en_vec e = Some (map fst as @ p # map fst bs @ NULL # rest)" by auto
  have as: "\<forall>(p, s) \<in> set as. p \<noteq> NULL \<and> cstr (en_mem e) p s" and p: "p \<noteq> NULL" "cstr (en_mem e) p s"
    using ok(2) by auto
  from entry_test [OF ok(1) p(2) assms(2)] assms(4) p show ?thesis
    by (auto simp: findenv_name [OF v assms(2,3)] findenv_loop_skip [OF ok(1) assms(2) as assms(5)] load8_def names_of_def)
qed

lemma findenv_equals_sign:
  assumes "cstr (en_mem e) name n" "61 \<in> set n"
  shows "findenv_r e name = Some None"
proof -
  let ?l = "length (takeWhile (\<lambda>b. b \<noteq> 61) n)"
  have "?l < length n" "n ! ?l = 61" using takeWhile_neq_nth [OF assms(2)] by auto
  then have "en_mem e (name + ?l) = Some 61" using cstr_byte [OF assms(1), of ?l] by (simp add: nth_append)
  then show ?thesis using name_end_eq [OF assms(1)] by (simp add: findenv_r_def load8_def split: option.split)
qed

text \<open>What \<^verbatim>\<open>getenv\<close> returns\<close>

definition yields :: "mem \<Rightarrow> addr \<Rightarrow> byte list option \<Rightarrow> bool" where
  "yields m p v \<longleftrightarrow> (case v of None \<Rightarrow> p = NULL | Some v \<Rightarrow> p \<noteq> NULL \<and> cstr m p v)"

lemma find_none: "\<forall>x \<in> set es. \<not> names_of n x \<Longrightarrow> find (names n) (map snd es) = None"
  by (auto simp: find_None_iff names_of_def)

lemma find_split: "names_of n (p, s) \<Longrightarrow> \<forall>x \<in> set as. \<not> names_of n x \<Longrightarrow> find (names n) (map snd (as @ (p, s) # bs)) = Some s"
  by (induction as) (auto simp: names_of_def)

lemma getenv_eq:
  assumes "env_ok e es" "cstr (en_mem e) name n" "61 \<notin> set n"
  shows "\<exists>p. getenv_r e name = Some p \<and> yields (en_mem e) p (env_get (map snd es) n)"
proof (cases rule: env_split [of es n])
  case 1
  then show ?thesis using findenv_absent [OF assms 1] by (simp add: getenv_r_def yields_def env_get_def find_none)
next
  case (2 as p s bs)
  have "cstr (en_mem e) p s" using env_okD(2) [OF assms(1)] 2(1) by auto
  moreover from 2(2) obtain v where v: "s = n @ 61 # v" by (auto simp: names_of_def names_iff)
  ultimately have "cstr (en_mem e) (p + length n + 1) v" using cstr_drop [of "en_mem e" p s "length n + 1"] by simp
  then show ?thesis
    using findenv_present [OF assms(1) [unfolded 2(1)] assms(2,3) 2(2,3)] find_split [OF 2(2,3)] v
    unfolding 2(1) getenv_r_def yields_def env_get_def by simp
qed

section \<open>New strings\<close>

definition new_string :: "mem \<Rightarrow> addr \<Rightarrow> byte list \<Rightarrow> mem \<Rightarrow> bool" where
  "new_string m p s m' \<longleftrightarrow> p \<noteq> NULL \<and> paged m' \<and> cstr m' p s \<and> m \<subseteq>\<^sub>m m' \<and> region p (length s + 1) \<inter> dom m = {}"



lemma new_string_apart: "new_string m p s m' \<Longrightarrow> cstr m q t \<Longrightarrow> apart (p, s) (q, t)"
  using cstr_dom [of m q t] by (auto simp: new_string_def apart_def disjoint_regions_iff)

lemma apart_sym: "apart x y = apart y x"
  by (simp add: apart_def disjoint_regions_commute)

text \<open>Two strings that overlap end at the same place.\<close>

lemma cstr_overlap:
  assumes "cstr m p s" "cstr m q t"
  shows "apart (p, s) (q, t) \<or> p + length s = q + length t"
proof -
  have "b + length y = a + length x" if "cstr m a x" "cstr m b y" "a \<le> b" "b \<le> a + length x" for a b x y
  proof -
    have "cstr m b (drop (b - a) x)" using cstr_drop [OF that(1), of "b - a"] that(3,4) by simp
    then have "y = drop (b - a) x" using that(2) cstr_unique by blast
    then show ?thesis using that(3,4) by simp
  qed
  note o = this [OF assms] this [OF assms(2,1)]
  show ?thesis
  proof (cases "p \<le> q")
    case True
    then show ?thesis using o(1) by (cases "q \<le> p + length s") (auto simp: apart_def disjoint_regions_def)
  next
    case False
    then show ?thesis using o(2) by (cases "p \<le> q + length t") (auto simp: apart_def disjoint_regions_def)
  qed
qed

text \<open>The source may be in the way as long as it is behind the destination.\<close>

lemma copy_value_eq:
  "cstr m value v \<Longrightarrow> mapped m c (length v + 1) \<Longrightarrow> c \<le> value \<or> disjoint_regions c (length v + 1) value (length v + 1) \<Longrightarrow>
     copy_value m c value = Some (wr m c (v @ [0]))"
proof (induction v arbitrary: m c "value")
  case Nil
  then show ?case by (subst copy_value.simps) (simp add: cstr_Nil load8_def store8_wr)
next
  case (Cons b v)
  have b: "b \<noteq> 0" "m value = Some b" "cstr m (value + 1) v" "m c \<noteq> None" "mapped m (c + 1) (length v + 1)"
    using Cons.prems by (auto simp: cstr_Cons)
  have d: "c + 1 \<le> value + 1 \<or> disjoint_regions (c + 1) (length v + 1) (value + 1) (length v + 1)"
    "disjoint_regions c (length [b]) (value + 1) (Suc (length v))"
    using Cons.prems(3) by (auto simp: disjoint_regions_def)
  have "copy_value (wr m c [b]) (c + 1) (value + 1) = Some (wr (wr m c [b]) (c + 1) (v @ [0]))"
    using b d cstr_wr_disjoint [OF d(2), of m] mapped_wr [of m c "[b]" "c + 1" "length v + 1"] by (intro Cons.IH) auto
  then show ?case using b by (subst copy_value.simps) (simp add: load8_def store8_wr wr_wr_step)
qed

lemma copy_name_eq:
  "cstr m name n \<Longrightarrow> 61 \<notin> set n \<Longrightarrow> mapped m c (length n + 1) \<Longrightarrow> disjoint_regions c (length n + 1) name (length n + 1) \<Longrightarrow>
     copy_name m c name = Some (c + length n, wr m c (n @ [0]))"
proof (induction n arbitrary: m c name)
  case Nil
  then show ?case by (subst copy_name.simps) (simp add: cstr_Nil load8_def store8_wr)
next
  case (Cons b v)
  have b: "b \<noteq> 0" "m name = Some b" "cstr m (name + 1) v" "m c \<noteq> None" "mapped m (c + 1) (length v + 1)"
    using Cons.prems by (auto simp: cstr_Cons)
  have d: "disjoint_regions (c + 1) (length v + 1) (name + 1) (length v + 1)"
    "disjoint_regions c (length [b]) (name + 1) (Suc (length v))"
    using Cons.prems(4) by (auto simp: disjoint_regions_def)
  have "copy_name (wr m c [b]) (c + 1) (name + 1) = Some (c + 1 + length v, wr (wr m c [b]) (c + 1) (v @ [0]))"
    using b d Cons.prems(2) cstr_wr_disjoint [OF d(2), of m] mapped_wr [of m c "[b]" "c + 1" "length v + 1"]
    by (intro Cons.IH) auto
  then show ?case using b Cons.prems(2) by (subst copy_name.simps) (simp add: load8_def store8_wr wr_wr_step)
qed

declare starts.simps [simp del]

lemma starts_eq: "cstr m p s \<Longrightarrow> 0 \<notin> set (butlast cs) \<Longrightarrow> starts m p cs = Some (take (length cs) (s @ [0]) = cs)"
proof (induction cs arbitrary: p s)
  case (Cons c cs)
  then show ?case by (cases s; cases cs) (auto simp: cstr_Nil cstr_Cons load8_def starts.simps)
qed (simp add: starts.simps)

section \<open>Setting a variable\<close>

text \<open>The new string is made in a new block.\<close>

lemma fill_entry:
  assumes m: "paged m1" "m \<subseteq>\<^sub>m m1" and b: "mapped m1 p (length n + length v + 2)" "region p (length n + length v + 2) \<inter> dom m = {}"
    and a: "cstr m name n" "61 \<notin> set n" "cstr m value v" and "p \<noteq> NULL"
  shows "\<exists>m2 m3 m4. copy_name m1 p name = Some (p + length n, m2) \<and> store8 m2 (p + length n) 61 = Some m3 \<and>
    copy_value m3 (p + length n + 1) value = Some m4 \<and> new_string m p (n @ 61 # v) m4"
proof -
  let ?l = "length n"
  have d: "disjoint_regions p (?l + length v + 2) name (?l + 1)" "disjoint_regions p (?l + length v + 2) value (length v + 1)"
    using region_apart [OF b(2) _ a(1)] region_apart [OF b(2) _ a(3)] by simp_all
  have mp: "mapped m1 p (length (n @ [0]))" "mapped m1 p (length (n @ [61]))" "mapped m1 (p + ?l + 1) (length v + 1)"
    using b(1) mapped_add [of m1 p "?l + 1" "length v + 1"] by (simp_all add: mapped_le)
  have c: "copy_name m1 p name = Some (p + ?l, wr m1 p (n @ [0]))"
    using d(1) mp(1) cstr_map_le [OF a(1) m(2)] a(2) by (intro copy_name_eq) (auto simp: disjoint_regions_def)
  have "wr m1 p (n @ [0]) (p + ?l) \<noteq> None" by (simp add: wr_apply_in)
  then have s: "store8 (wr m1 p (n @ [0])) (p + ?l) 61 = Some (wr m1 p (n @ [61]))"
    by (simp add: store8_wr wr_snoc wr_single)
  have "cstr (wr m1 p (n @ [61])) value v"
    using cstr_map_le [OF a(3) m(2)] d(2) by (subst cstr_wr_disjoint) (auto simp: disjoint_regions_def)
  then have v: "copy_value (wr m1 p (n @ [61])) (p + ?l + 1) value = Some (wr (wr m1 p (n @ [61])) (p + ?l + 1) (v @ [0]))"
    using d(2) mp(3) mapped_wr [OF mp(2)] by (intro copy_value_eq) (auto simp: disjoint_regions_def)
  have w: "wr (wr m1 p (n @ [61])) (p + ?l + 1) (v @ [0]) = wr m1 p ((n @ 61 # v) @ [0])"
    using wr_append [of m1 p "n @ [61]" "v @ [0]"] by (simp add: add.assoc)
  have "0 \<notin> set (n @ 61 # v)" using a by (auto simp: cstr_def)
  then have "new_string m p (n @ 61 # v) (wr m1 p ((n @ 61 # v) @ [0]))"
    using paged_wr [OF _ m(1), of p "(n @ 61 # v) @ [0]"] b wr_map_le [OF m(2), of p "(n @ 61 # v) @ [0]"]
      bytes_wr_same [of m1 p "(n @ 61 # v) @ [0]"] \<open>p \<noteq> NULL\<close>
    by (simp add: new_string_def cstr_def)
  then show ?thesis using c s v w by auto
qed

definition is_TZ :: "byte list \<Rightarrow> bool" where
  "is_TZ n \<longleftrightarrow> n = [84, 90]"

lemma starts_TZ:
  assumes "61 \<notin> set n" "0 \<notin> set n"
  shows "cstr m p (n @ 61 # v) \<Longrightarrow> starts m p [84, 90, 61] = Some (is_TZ n)"
    and "cstr m name n \<Longrightarrow> starts m name [84, 90, 0] = Some (is_TZ n)"
proof -
  have "names [84, 90] (n @ 61 # v @ [0]) \<longleftrightarrow> is_TZ n" using names_eq [OF assms(1), of "[84, 90]" "v @ [0]"] by (auto simp: is_TZ_def)
  then have "take (length [84, 90, 61 :: byte]) ((n @ 61 # v) @ [0]) = [84, 90, 61] \<longleftrightarrow> is_TZ n" by (simp add: names_def)
  then show "cstr m p (n @ 61 # v) \<Longrightarrow> starts m p [84, 90, 61] = Some (is_TZ n)"
    by (subst starts_eq) (assumption, simp, simp)
  show "cstr m name n \<Longrightarrow> starts m name [84, 90, 0] = Some (is_TZ n)"
  proof -
    have "take (length [84, 90, 0 :: byte]) (n @ [0]) = [84, 90, 0] \<longleftrightarrow> is_TZ n"
    proof (cases "3 \<le> length n")
      case True
      then have "0 \<notin> set (take 3 n)" using assms(2) by (auto dest: in_set_takeD)
      with True show ?thesis by (auto simp: is_TZ_def eval_nat_numeral)
    qed (auto simp: is_TZ_def)
    then show "starts m name [84, 90, 0] = Some (is_TZ n)" if "cstr m name n" using that by (subst starts_eq) (assumption, simp, simp)
  qed
qed

lemma setenv_entry_eq:
  assumes "malloc_ok malloc" "paged (en_mem e)" "cstr (en_mem e) name n" "61 \<notin> set n" "cstr (en_mem e) value v"
    "en_vec e = Some ps"
  obtains "malloc (en_mem e) (length n + length v + 2) = (NULL, en_mem e)"
      "setenv_entry malloc e name value (length v) i = Some (-1, False, e\<lparr>en_vec := Some (ps[i := NULL])\<rparr>)"
  | p m where "fst (malloc (en_mem e) (length n + length v + 2)) \<noteq> NULL" "new_string (en_mem e) p (n @ 61 # v) m"
      "setenv_entry malloc e name value (length v) i = Some (0, is_TZ n, e\<lparr>en_mem := m, en_vec := Some (ps[i := p])\<rparr>)"
proof -
  note ne = name_end_name [OF assms(3,4)]
  show thesis
  proof (cases rule: malloc_cases [OF assms(1,2), of "length n + length v + 2"])
    case 1
    with ne assms(6) that(1) show thesis by (simp add: setenv_entry_def)
  next
    case (2 p m1)
    from fill_entry [OF 2(3,5,4,6) assms(3,4,5) 2(2)] obtain m2 m3 m4 where
      "copy_name m1 p name = Some (p + length n, m2)" "store8 m2 (p + length n) 61 = Some m3"
      "copy_value m3 (p + length n + 1) value = Some m4" "new_string (en_mem e) p (n @ 61 # v) m4" by blast
    moreover from this(4) have "starts m4 p [84, 90, 61] = Some (is_TZ n)"
      using assms(3) by (intro starts_TZ(1) [OF assms(4), where v = v]) (auto simp: new_string_def cstr_def)
    ultimately show thesis using that(2) [of p m4] 2(1,2) ne assms(6) by (simp add: setenv_entry_def)
  qed
qed

lemma env_ok_new:
  assumes "env_ok e (as @ bs)" "new_string (en_mem e) p s m" "en_vec e' = Some (map fst (as @ (p, s) # cs) @ NULL # rest)"
    "en_mem e' = m" "cs = bs \<or> cs = tl bs"
  shows "env_ok e' (as @ (p, s) # cs)"
proof -
  note ok = env_okD [OF assms(1)]
  have cs: "sorted_wrt apart (as @ cs)" "set (as @ cs) \<subseteq> set (as @ bs)"
    using assms(5) ok(3) by (cases bs; auto simp: sorted_wrt_append)+
  have "apart (p, s) x" if "x \<in> set (as @ cs)" for x
  proof -
    have "x \<in> set (as @ bs)" using cs(2) that by blast
    then have "cstr (en_mem e) (fst x) (snd x)" using ok(2) by fastforce
    then show ?thesis using new_string_apart [OF assms(2), of "fst x" "snd x"] by simp
  qed
  then have "sorted_wrt apart (as @ (p, s) # cs)"
    using cs(1) apart_sym by (auto simp: sorted_wrt_append)
  moreover have "\<forall>(q, t) \<in> set (as @ (p, s) # cs). q \<noteq> NULL \<and> cstr m q t"
  proof -
    have "cstr m q t" "q \<noteq> NULL" if "(q, t) \<in> set (as @ cs)" for q t
      using that cs(2) ok(2) cstr_map_le [of "en_mem e" q t m] assms(2) unfolding new_string_def by blast+
    then show ?thesis using assms(2) by (auto simp: new_string_def)
  qed
  ultimately show ?thesis using assms(2,3,4) by (simp add: env_ok_def new_string_def)
qed

text \<open>Writing over the old value, in the place where it is\<close>

lemma env_ok_overwrite:
  assumes "env_ok e (as @ (p, n @ 61 # w) # bs)" "length v \<le> length w" "0 \<notin> set v"
  shows "env_ok (e\<lparr>en_mem := wr (en_mem e) (p + length n + 1) (v @ [0])\<rparr>) (as @ (p, n @ 61 # v) # bs)"
proof -
  let ?m = "wr (en_mem e) (p + length n + 1) (v @ [0])" and ?s = "n @ 61 # w" and ?t = "n @ 61 # v"
  note ok = env_okD [OF assms(1)]
  have p: "p \<noteq> NULL" "cstr (en_mem e) p ?s" using ok(2) by auto
  have mp: "mapped (en_mem e) (p + length n + 1) (length (v @ [0]))"
    using cstr_mapped [OF p(2)] mapped_add [of "en_mem e" p "length n + 1" "length w + 1"] assms(2) by (auto elim: mapped_le)
  have "bytes (en_mem e) p (n @ [61])" using p(2) by (simp add: cstr_def)
  then have "bytes ?m p (n @ [61])" by (subst bytes_wr_disjoint) (auto simp: disjoint_regions_def)
  then have "bytes ?m p ((n @ [61]) @ v @ [0])"
    using bytes_wr_same [of "en_mem e" "p + length n + 1" "v @ [0]"] by (simp only: bytes_append) (simp add: add.assoc)
  then have t: "cstr ?m p ?t" using p(2) assms(3) by (simp add: cstr_def)
  have ap: "apart (p, ?t) x \<and> apart x (p, ?t) \<and> cstr ?m (fst x) (snd x)" if "x \<in> set (as @ bs)" for x
  proof -
    have "apart (p, ?s) x" using ok(3) that apart_sym by (auto simp: sorted_wrt_append)
    then have a: "apart (p, ?t) x" "disjoint_regions (p + length n + 1) (length (v @ [0])) (fst x) (Suc (length (snd x)))"
      using assms(2) by (auto simp: apart_def disjoint_regions_def)
    have "cstr (en_mem e) (fst x) (snd x)" using ok(2) that by (cases x) auto
    then show ?thesis using a cstr_wr_disjoint [OF a(2)] apart_sym by blast
  qed
  then have "sorted_wrt apart (as @ (p, ?t) # bs)" "\<forall>(q, u) \<in> set (as @ (p, ?t) # bs). q \<noteq> NULL \<and> cstr ?m q u"
    using ok(2,3) t by (fastforce simp: sorted_wrt_append)+
  then show ?thesis using paged_wr [OF mp ok(1)] ok(4) by (auto simp: env_ok_def)
qed

lemma vec_count_eq: "NULL \<notin> set ps \<Longrightarrow> vec_count (ps @ NULL # rest) = Some (length ps)"
  by (induction ps) auto

lemma env_set_absent: "\<forall>x \<in> set es. \<not> names_of n x \<Longrightarrow> env_set n v (map snd es) = map snd es @ [n @ 61 # v]"
  by (induction es) (auto simp: names_of_def)

lemma env_set_split: "names_of n (p, s) \<Longrightarrow> \<forall>x \<in> set as. \<not> names_of n x \<Longrightarrow>
    env_set n v (map snd (as @ (p, s) # bs)) = map snd as @ (n @ 61 # v) # map snd bs"
  by (induction as) (auto simp: names_of_def)

lemma strchr_name: "paged m \<Longrightarrow> cstr m name n \<Longrightarrow> name \<noteq> NULL \<Longrightarrow> \<exists>q. strchr m name 61 = Some q \<and> (q = NULL \<longleftrightarrow> 61 \<notin> set n)"
  by (auto simp: strchr_cstr find_byte_def)

text \<open>After a change the environment has the strings \<open>ss\<close>, strings that are not part of it are as before, and the
  places of its strings are old ones or new.\<close>

definition area :: "addr \<times> byte list \<Rightarrow> addr set" where
  "area x = region (fst x) (length (snd x) + 1)"

definition outside :: "addr \<Rightarrow> byte list \<Rightarrow> env \<Rightarrow> (addr \<times> byte list) list \<Rightarrow> bool" where
  "outside q t e es \<longleftrightarrow> cstr (en_mem e) q t \<and> (\<forall>x \<in> set es. apart (q, t) x)"

definition changed :: "env \<Rightarrow> (addr \<times> byte list) list \<Rightarrow> env \<Rightarrow> byte list list \<Rightarrow> bool" where
  "changed e es e' ss \<longleftrightarrow> dom (en_mem e) \<subseteq> dom (en_mem e') \<and> (\<exists>es'. env_ok e' es' \<and> map snd es' = ss \<and>
     (\<forall>q t. outside q t e es \<longrightarrow> outside q t e' es') \<and> (\<forall>x \<in> set es'. area x \<subseteq> - dom (en_mem e) \<union> (\<Union>y \<in> set es. area y)))"

lemma new_string_area: "new_string m p s m' \<Longrightarrow> area (p, s) \<subseteq> - dom m \<and> dom m \<subseteq> dom m'"
  by (auto simp: new_string_def area_def dest: map_le_implies_dom_le)

lemma outside_new:
  assumes "outside q t e es" "new_string (en_mem e) p s m" "en_mem e' = m" "set es' \<subseteq> insert (p, s) (set es)"
  shows "outside q t e' es'"
  using assms cstr_map_le new_string_apart [OF assms(2)] apart_sym unfolding outside_def new_string_def by blast

lemma setenv_absent:
  assumes "malloc_ok malloc" "env_ok e es" "cstr (en_mem e) name n" "61 \<notin> set n" "cstr (en_mem e) value v"
    "en_vec e' = Some (map fst es @ [NULL, NULL])" "en_mem e' = en_mem e"
  shows "\<exists>r tz e''. setenv_entry malloc e' name value (length v) (length es) = Some (r, tz, e'') \<and>
    (r = 0 \<and> tz = is_TZ n \<and> changed e es e'' (map snd es @ [n @ 61 # v]) \<or>
     r = -1 \<and> \<not> tz \<and> fst (malloc (en_mem e) (length n + length v + 2)) = NULL \<and> en_mem e'' = en_mem e \<and> env_ok e'' es)"
proof (cases rule: setenv_entry_eq [OF assms(1) _ _ assms(4) _ assms(6), of name "value" v "length es", unfolded assms(7), OF env_okD(1) [OF assms(2)] assms(3,5)])
  case (2 p m)
  have e'': "env_ok (e'\<lparr>en_mem := m, en_vec := Some (map fst es @ [p, NULL])\<rparr>) (es @ [(p, n @ 61 # v)])"
    using env_ok_new [of e es "[]" p "n @ 61 # v" m _ "[]" "[]"] assms(2) 2(2) by simp
  then have "changed e es (e'\<lparr>en_mem := m, en_vec := Some (map fst es @ [p, NULL])\<rparr>) (map snd es @ [n @ 61 # v])"
    using new_string_area [OF 2(2)] unfolding changed_def
    by (intro conjI exI [of _ "es @ [(p, n @ 61 # v)]"]) (auto intro: outside_new [OF _ 2(2)])
  then show ?thesis using 2(3) by (simp add: list_update_append)
next
  case 1
  have "env_ok (e'\<lparr>en_vec := Some (map fst es @ [NULL, NULL])\<rparr>) es" using assms(2,7) by (simp add: env_ok_def)
  then show ?thesis using 1 assms(7) by (simp add: list_update_append ex_bool_eq)
qed

lemma setenv_replace:
  assumes "malloc_ok malloc" "env_ok e (as @ (q, s) # bs)" "cstr (en_mem e) name n" "61 \<notin> set n" "cstr (en_mem e) value v"
  shows "\<exists>r tz e'. setenv_entry malloc e name value (length v) (length as) = Some (r, tz, e') \<and>
    (r = 0 \<and> tz = is_TZ n \<and> changed e (as @ (q, s) # bs) e' (map snd as @ (n @ 61 # v) # map snd bs) \<or>
     r = -1 \<and> \<not> tz \<and> fst (malloc (en_mem e) (length n + length v + 2)) = NULL \<and> en_mem e' = en_mem e \<and> env_ok e' as)"
proof -
  obtain rest where vec: "en_vec e = Some (map fst (as @ (q, s) # bs) @ NULL # rest)" using env_okD(4) [OF assms(2)] by blast
  show ?thesis
  proof (cases rule: setenv_entry_eq [OF assms(1) env_okD(1) [OF assms(2)] assms(3,4,5) vec, of "length as"])
    case (2 p m)
    let ?e' = "e\<lparr>en_mem := m, en_vec := Some (map fst (as @ (p, n @ 61 # v) # bs) @ NULL # rest)\<rparr>"
    have "env_ok ?e' (as @ (p, n @ 61 # v) # bs)"
      using env_ok_new [of e as "(q, s) # bs" p "n @ 61 # v" m ?e' bs rest] assms(2) 2(2) by simp
    then have "changed e (as @ (q, s) # bs) ?e' (map snd as @ (n @ 61 # v) # map snd bs)"
      using new_string_area [OF 2(2)] unfolding changed_def
      by (intro conjI exI [of _ "as @ (p, n @ 61 # v) # bs"]) (auto intro: outside_new [OF _ 2(2)])
    then show ?thesis using 2(3) by (simp add: list_update_append)
  next
    case 1
    have "env_ok (e\<lparr>en_vec := Some (map fst as @ NULL # map fst bs @ NULL # rest)\<rparr>) as"
      using assms(2) by (auto simp: env_ok_def sorted_wrt_append)
    then show ?thesis using 1 by (simp add: list_update_append ex_bool_eq)
  qed
qed

lemma overwrite_value:
  assumes es: "es = as @ (p, n @ 61 # w) # bs" and "env_ok e es" "length v \<le> length w" "cstr (en_mem e) name n" "apart (name, n) (p, n @ 61 # w)"
    "cstr (en_mem e) value v"
  shows "\<exists>m. copy_value (en_mem e) (p + length n + 1) value = Some m \<and> cstr m name n \<and>
    changed e es (e\<lparr>en_mem := m\<rparr>) (map snd as @ (n @ 61 # v) # map snd bs)"
proof -
  let ?m = "wr (en_mem e) (p + length n + 1) (v @ [0])"
  have p: "cstr (en_mem e) p (n @ 61 # w)" using env_okD(2) [OF assms(2)] es by auto
  have "mapped (en_mem e) (p + length n + 1) (length v + 1)"
    using cstr_mapped [OF p] mapped_add [of "en_mem e" p "length n + 1" "length w + 1"] assms(3) by (auto elim: mapped_le)
  moreover have d: "disjoint_regions (p + length n + 1) (length v + 1) q (length t + 1)" if "apart (q, t) (p, n @ 61 # w)" for q t
    using that assms(3) by (auto simp: apart_def disjoint_regions_def)
  moreover have "apart (value, v) (p, n @ 61 # w) \<or> p + length n + 1 \<le> value" using cstr_overlap [OF assms(6) p] assms(3) by auto
  then have "p + length n + 1 \<le> value \<or> disjoint_regions (p + length n + 1) (length v + 1) value (length v + 1)" using d by blast
  ultimately have c: "copy_value (en_mem e) (p + length n + 1) value = Some ?m" using assms(6) by (intro copy_value_eq) auto
  have nm: "cstr ?m name n" using assms(4) d [OF assms(5)] by (subst cstr_wr_disjoint) simp_all
  have o: "outside q t (e\<lparr>en_mem := ?m\<rparr>) (as @ (p, n @ 61 # v) # bs)" if "outside q t e es" for q t
    using that d [of q t] assms(3) cstr_wr_disjoint [of "p + length n + 1" "v @ [0]" q t "en_mem e"]
    by (auto simp: es outside_def apart_def disjoint_regions_def)
  have "0 \<notin> set v" using assms(6) by (simp add: cstr_def)
  moreover have "area (p, n @ 61 # v) \<subseteq> area (p, n @ 61 # w)" using assms(3) by (auto simp: area_def region_def)
  moreover have "dom (en_mem e) \<subseteq> dom ?m" by (auto simp: wr_def)
  ultimately have "changed e es (e\<lparr>en_mem := ?m\<rparr>) (map snd as @ (n @ 61 # v) # map snd bs)"
    using env_ok_overwrite [OF assms(2) [unfolded es] assms(3)] o unfolding changed_def
    by (intro conjI exI [of _ "as @ (p, n @ 61 # v) # bs"]) (auto simp: es)
  then show ?thesis using c nm by simp
qed

text \<open>
  The name must not lie in the string of its own variable; the value may lie anywhere.
\<close>

definition name_arg :: "addr \<Rightarrow> byte list \<Rightarrow> env \<Rightarrow> (addr \<times> byte list) list \<Rightarrow> bool" where
  "name_arg q n e es \<longleftrightarrow> q \<noteq> NULL \<and> cstr (en_mem e) q n \<and> (\<forall>x \<in> set es. names_of n x \<longrightarrow> apart (q, n) x)"

text \<open>
  When there is no memory for the string, the environment ends before the variable; when there is none for a greater vector, it is lost if the
  vector was made here.
\<close>

definition setenv_failed ::
    "(mem \<Rightarrow> nat \<Rightarrow> addr \<times> mem) \<Rightarrow> (env \<Rightarrow> nat \<Rightarrow> bool) \<Rightarrow> env \<Rightarrow> (addr \<times> byte list) list \<Rightarrow> byte list \<Rightarrow> byte list \<Rightarrow> env \<Rightarrow> bool" where
  "setenv_failed malloc grow e es n v e' \<longleftrightarrow> en_mem e' = en_mem e \<and>
     (fst (malloc (en_mem e) (length n + length v + 2)) = NULL \<and> env_ok e' (takeWhile (\<lambda>x. \<not> names_of n x) es) \<or>
      env_get (map snd es) n = None \<and> \<not> grow e (4 * (length es + 2)) \<and> (if en_alloced e then en_vec e' = None else env_ok e' es))"

lemma setenv_eq:
  fixes rewrite :: bool
  assumes "malloc_ok malloc" "env_ok e es" "name_arg name n e es" "61 \<notin> set n" "cstr (en_mem e) value v"
  defines "put \<equiv> rewrite \<or> env_get (map snd es) n = None"
  shows "\<exists>r tz e'. setenv_r malloc grow e name value rewrite = Some (r, tz, e') \<and>
    (r = 0 \<and> tz = (put \<and> is_TZ n) \<and> changed e es e' (if put then env_set n v (map snd es) else map snd es) \<or>
     r = -1 \<and> \<not> tz \<and> setenv_failed malloc grow e es n v e')"
proof -
  have c: "cstr (en_mem e) name n" "cstr (en_mem e) value v" "name \<noteq> NULL" using assms(3,5) by (auto simp: name_arg_def)
  note ok = env_okD [OF assms(2)]
  have sc: "strchr (en_mem e) name 61 = Some NULL" using strchr_name [OF ok(1) c(1,3)] assms(4) by simp
  have sl: "strlen (en_mem e) value = Some (length v)" using strlen_cstr [OF ok(1) c(2)] .
  show ?thesis
  proof (cases rule: env_split [of es n])
    case 1
    obtain rest where vec: "en_vec e = Some (map fst es @ NULL # rest)" using ok(4) by blast
    have "NULL \<notin> set (map fst es)" using ok(2) by auto
    then have cnt: "vec_count (map fst es @ NULL # rest) = Some (length es)" using vec_count_eq [of "map fst es"] by simp
    have none: "env_get (map snd es) n = None" by (simp add: env_get_def find_none [OF 1])
    have "takeWhile (\<lambda>x. \<not> names_of n x) es = es" using 1 by (simp add: takeWhile_eq_all_conv)
    note failed = setenv_failed_def [of malloc grow e es n v, unfolded this]
    let ?e = "e\<lparr>en_vec := Some (map fst es @ [NULL, NULL]), en_alloced := True\<rparr>"
    obtain r tz e' where r: "setenv_entry malloc ?e name value (length v) (length es) = Some (r, tz, e')"
      "r = 0 \<and> tz = is_TZ n \<and> changed e es e' (map snd es @ [n @ 61 # v]) \<or>
       r = -1 \<and> \<not> tz \<and> fst (malloc (en_mem e) (length n + length v + 2)) = NULL \<and> en_mem e' = en_mem e \<and> env_ok e' es"
      using setenv_absent [OF assms(1,2) c(1) assms(4) c(2), of ?e] by auto
    note s = setenv_r_def sc sl vec cnt findenv_absent [OF assms(2) c(1) assms(4) 1]
    show ?thesis
    proof (cases "grow e (4 * (length es + 2))")
      case True
      then have "setenv_r malloc grow e name value rewrite = Some (r, tz, e')" using r(1) by (simp add: s)
      then show ?thesis using r(2) none env_set_absent [OF 1, of v] by (auto simp: failed put_def)
    next
      case False
      let ?f = "e\<lparr>en_vec := (if en_alloced e then None else en_vec e), en_alloced := True\<rparr>"
      have "setenv_r malloc grow e name value rewrite = Some (-1, False, ?f)" using False by (simp add: s)
      moreover have "setenv_failed malloc grow e es n v ?f" using False none assms(2) unfolding failed by (simp add: env_ok_def)
      ultimately show ?thesis by blast
    qed
  next
    case (2 as p s bs)
    obtain w where w: "s = n @ 61 # w" using 2(2) by (auto simp: names_of_def names_iff)
    have fe: "findenv_r e name = Some (Some (p + length n + 1, length as))"
      using findenv_present [OF assms(2) [unfolded 2(1)] c(1) assms(4) 2(2,3)] .
    have p: "cstr (en_mem e) p s" using ok(2) 2(1) by auto
    then have cw: "cstr (en_mem e) (p + length n + 1) w" using cstr_drop [of "en_mem e" p s "length n + 1"] w by simp
    have put: "put \<longleftrightarrow> rewrite" using find_split [OF 2(2,3)] 2(1) by (simp add: put_def env_get_def)
    have es: "env_set n v (map snd es) = map snd as @ (n @ 61 # v) # map snd bs" using env_set_split [OF 2(2,3)] 2(1) by simp
    consider "\<not> rewrite" | "rewrite" "length v \<le> length w" | "rewrite" "length w < length v" by fastforce
    then show ?thesis
    proof cases
      case 1
      then have "changed e es e (map snd es)" using assms(2) by (auto simp: changed_def)
      then show ?thesis using 1 sc sl fe put by (simp add: setenv_r_def ex_bool_eq)
    next
      case 3
      have "takeWhile (\<lambda>x. \<not> names_of n x) es = as" using 2 by (simp add: takeWhile_append)
      note failed = setenv_failed_def [of malloc grow e es n v, unfolded this]
      obtain r tz e' where r: "setenv_entry malloc e name value (length v) (length as) = Some (r, tz, e')"
        "r = 0 \<and> tz = is_TZ n \<and> changed e es e' (env_set n v (map snd es)) \<or>
         r = -1 \<and> \<not> tz \<and> fst (malloc (en_mem e) (length n + length v + 2)) = NULL \<and> en_mem e' = en_mem e \<and> env_ok e' as"
        using setenv_replace [OF assms(1) assms(2) [unfolded 2(1)] c(1) assms(4) c(2)] unfolding es 2(1) [symmetric] by blast
      then have "setenv_r malloc grow e name value rewrite = Some (r, tz, e')"
        using 3 sc sl fe strlen_cstr [OF ok(1) cw] by (simp add: setenv_r_def)
      then show ?thesis using r(2) 3 put by (auto simp: failed)
    next
      case v: 2
      have ap: "apart (name, n) (p, n @ 61 # w)" using assms(3) 2(1,2) w by (simp add: name_arg_def)
      note ow = overwrite_value [OF 2(1) [unfolded w] assms(2) v(2) c(1) ap c(2)]
      then show ?thesis
        using sc sl fe put es v strlen_cstr [OF ok(1) cw] starts_TZ(2) [OF assms(4)] by (auto simp: setenv_r_def 2(1) w cstr_def)
    qed
  qed
qed

section \<open>Removing a variable\<close>

lemma shift_down_eq:
  "NULL \<notin> set bs \<Longrightarrow> shift_down (as @ p # bs @ NULL # rest) (length as) = Some (as @ bs @ NULL # NULL # rest)"
proof (induction bs arbitrary: as p)
  case Nil
  then show ?case by (subst shift_down.simps) (simp add: nth_append list_update_append)
next
  case (Cons b bs)
  have "(as @ p # (b # bs) @ NULL # rest)[length as := b] = (as @ [b]) @ b # bs @ NULL # rest"
    by (simp add: list_update_append)
  moreover have "shift_down ((as @ [b]) @ b # bs @ NULL # rest) (length as + 1) = Some ((as @ [b]) @ bs @ NULL # NULL # rest)"
    using Cons.IH [of "as @ [b]" b] Cons.prems by simp
  ultimately show ?case using Cons.prems by (subst shift_down.simps) (simp add: nth_append)
qed

lemma unsetenv_loop_eq:
  assumes "env_ok e es" "cstr (en_mem e) name n" "61 \<notin> set n"
  shows "\<exists>e'. unsetenv_loop e name = Some e' \<and> env_ok e' (filter (\<lambda>x. \<not> names_of n x) es) \<and> en_mem e' = en_mem e"
  using assms(1,2)
proof (induction es arbitrary: e rule: length_induct)
  case (1 es)
  show ?case
  proof (cases rule: env_split [of es n])
    case none: 1
    then have "filter (\<lambda>x. \<not> names_of n x) es = es" by (simp add: filter_id_conv)
    then show ?thesis
      using 1(2) findenv_absent [OF 1(2,3) assms(3) none] by (subst unsetenv_loop.simps) simp
  next
    case (2 as p s bs)
    note ok = env_okD [OF 1(2)]
    obtain rest where vec: "en_vec e = Some (map fst as @ p # map fst bs @ NULL # rest)" using ok(4) 2(1) by auto
    have "NULL \<notin> set (map fst bs)" using ok(2) 2(1) by auto
    then have sh: "shift_down (map fst as @ p # map fst bs @ NULL # rest) (length as) =
        Some (map fst (as @ bs) @ NULL # NULL # rest)"
      using shift_down_eq [of "map fst bs" "map fst as" p rest] by simp
    let ?e = "e\<lparr>en_vec := Some (map fst (as @ bs) @ NULL # NULL # rest)\<rparr>"
    have "env_ok ?e (as @ bs)" using 1(2) 2(1) by (auto simp: env_ok_def sorted_wrt_append)
    moreover have "filter (\<lambda>x. \<not> names_of n x) es = filter (\<lambda>x. \<not> names_of n x) (as @ bs)" using 2 by simp
    ultimately have "\<exists>e'. unsetenv_loop ?e name = Some e' \<and> env_ok e' (filter (\<lambda>x. \<not> names_of n x) es) \<and> en_mem e' = en_mem e"
      using 1(1) [rule_format, of "as @ bs" ?e] 1(3) 2(1) by simp
    moreover have "unsetenv_loop e name = unsetenv_loop ?e name"
      using findenv_present [OF 1(2) [unfolded 2(1)] 1(3) assms(3) 2(2,3)] vec sh
      by (subst unsetenv_loop.simps) simp
    ultimately show ?thesis by simp
  qed
qed

lemma unsetenv_eq:
  assumes "env_ok e es" "cstr (en_mem e) name n" "61 \<notin> set n" "n \<noteq> []" "name \<noteq> NULL"
  shows "\<exists>e'. unsetenv_r e name = Some (0, e') \<and> changed e es e' (env_unset n (map snd es))"
proof -
  from unsetenv_loop_eq [OF assms(1-3)] obtain e' where e': "unsetenv_loop e name = Some e'"
    "env_ok e' (filter (\<lambda>x. \<not> names_of n x) es)" "en_mem e' = en_mem e" by blast
  have "en_mem e name \<noteq> None" "en_mem e name \<noteq> Some 0" using assms(2,4) by (cases n; auto simp: cstr_Cons)+
  moreover have "changed e es e' (env_unset n (map snd es))"
    unfolding changed_def using e'
    by (intro conjI exI [of _ "filter (\<lambda>x. \<not> names_of n x) es"]) (auto simp: env_unset_def names_of_def filter_map comp_def outside_def)
  ultimately show ?thesis
    using e'(1) strchr_name [OF env_okD(1) [OF assms(1)] assms(2,5)] assms(3,5) by (auto simp: unsetenv_r_def load8_def)
qed

section \<open>Setting a variable from one string\<close>

text \<open>
  Freeing a block, whatever happened in between, leaves the addresses that were not part of it.  The memory is the program's: what an
  allocator keeps for itself, in the freed block or elsewhere, is not part of it.
\<close>

definition free_ok :: "(mem \<Rightarrow> nat \<Rightarrow> addr \<times> mem) \<Rightarrow> (mem \<Rightarrow> addr \<Rightarrow> mem) \<Rightarrow> bool" where
  "free_ok malloc free \<longleftrightarrow> (\<forall>m n p m1 m2. malloc m n = (p, m1) \<and> p \<noteq> NULL \<and> paged m2 \<and> dom m1 \<subseteq> dom m2 \<longrightarrow>
     paged (free m2 p) \<and> (\<forall>a. a \<in> dom m \<or> a \<notin> dom m1 \<longrightarrow> free m2 p a = m2 a))"

lemma strdup_eq:
  assumes "malloc_ok malloc" "paged m" "cstr m str s"
  obtains "strdup_r malloc m str = Some (NULL, m)" "malloc m (length s + 1) = (NULL, m)"
  | p m1 m2 where "malloc m (length s + 1) = (p, m1)" "strdup_r malloc m str = Some (p, m2)" "new_string m p s m2" "dom m1 = dom m2"
proof (cases rule: malloc_cases [OF assms(1,2), of "length s + 1"])
  case 1
  then show thesis using that(1) strlen_cstr [OF assms(2,3)] by (simp add: strdup_r_def)
next
  case (2 p m1)
  have b: "bytes m1 str (s @ [0])" using cstr_map_le [OF assms(3) 2(5)] by (simp add: cstr_def)
  have "disjoint_regions p (length s + 1) str (length s + 1)" using region_apart [OF 2(6) _ assms(3)] by simp
  then have f: "forward_ok p str (length (s @ [0]))" by (auto simp: forward_ok_def disjoint_regions_def)
  have mc: "memcpy m1 p str (length s + 1) = Some (p, wr m1 p (s @ [0]))" using memcpy_eq [OF b _ f] 2(4) by simp
  have "new_string m p s (wr m1 p (s @ [0]))"
    using 2 paged_wr [of m1 p "s @ [0]"] wr_map_le [OF 2(5), of p "s @ [0]"] bytes_wr_same [of m1 p "s @ [0]"] assms(3)
    by (auto simp: new_string_def cstr_def)
  moreover have "dom m1 = dom (wr m1 p (s @ [0]))" using wr_mapped [of m1 p "s @ [0]"] 2(4) by (auto simp: dom_def)
  ultimately show thesis
    using that(2) [of p m1] 2(1,2) mc strlen_cstr [OF assms(2,3)] by (simp add: strdup_r_def)
qed

lemma strndup_scan_eq: "cstr_upto m p n s \<Longrightarrow> strndup_scan n m p = Some (p + length s)"
proof (induction n arbitrary: p s)
  case (Suc n)
  then show ?case by (cases s) (auto simp: cstr_upto_Suc load8_def)
qed simp

text \<open>At most \<open>n\<close> characters are copied; the original need not end after them.\<close>

lemma strndup_eq:
  assumes "malloc_ok malloc" "paged m" "cstr_upto m str n s" "malloc m (length s + 1) = (p, m1)"
  shows "\<exists>m2. strndup malloc m str n = Some (p, m2) \<and> (if p = NULL then m2 = m else new_string m p s m2)"
proof (cases rule: malloc_cases [OF assms(1,2), of "length s + 1"])
  case 1
  then show ?thesis using assms(4) strndup_scan_eq [OF assms(3)] by (simp add: strndup_def strndup_r_def)
next
  case (2 q m')
  have s: "bytes m str s" "0 \<notin> set s" using assms(3) by (auto simp: cstr_upto_def)
  have f: "forward_ok q str (length s)"
  proof (cases "s = []")
    case False
    have "region q (length s + 1) \<inter> region str (length s) = {}"
      using 2(6) mappedD [OF bytes_mapped [OF s(1)]] by (fastforce simp: region_def)
    then have "disjoint_regions q (length s + 1) str (length s)" using False disjoint_regions_iff by simp
    then show ?thesis by (auto simp: forward_ok_def disjoint_regions_def)
  qed (auto simp: forward_ok_def)
  have mp: "mapped m' q (length s)" "mapped m' q (length (s @ [0]))" using 2(4) mapped_le [OF 2(4), of "length s"] by (simp_all del: mapped.simps)
  note mc = memcpy_eq [OF bytes_map_le [OF s(1) 2(5)] mp(1) f]
  have "wr m' q s (q + length s) \<noteq> None" using mappedD [OF 2(4), of "q + length s"] by auto
  then have st: "store8 (wr m' q s) (q + length s) 0 = Some (wr m' q (s @ [0]))" by (simp add: store8_wr wr_single wr_snoc)
  have "new_string m q s (wr m' q (s @ [0]))"
    using 2 paged_wr [OF mp(2)] wr_map_le [OF 2(5), of q "s @ [0]"] bytes_wr_same [of m' q "s @ [0]"] s(2)
    by (auto simp: new_string_def cstr_def)
  then show ?thesis
    using 2(1,2) assms(4) mc st strndup_scan_eq [OF assms(3)] by (simp add: strndup_def strndup_r_def)
qed

lemma env_ok_extend:
  assumes "env_ok e es" "en_mem e \<subseteq>\<^sub>m m" "paged m"
  shows "env_ok (e\<lparr>en_mem := m\<rparr>) es"
  using assms cstr_map_le [OF _ assms(2)] by (auto simp: env_ok_def)

text \<open>The copy of \<^verbatim>\<open>name=value\<close> is cut in two.\<close>

lemma cut_copy:
  assumes "new_string m p (n @ 61 # v) m2"
  shows "\<exists>m3. store8 m2 (p + length n) 0 = Some m3 \<and> paged m3 \<and> m \<subseteq>\<^sub>m m3 \<and> dom m3 = dom m2 \<and>
    cstr m3 p n \<and> cstr m3 (p + length n + 1) v"
proof -
  let ?m = "wr m2 (p + length n) [0]"
  have c: "cstr m2 p (n @ 61 # v)" and fresh: "region p (length n + length v + 2) \<inter> dom m = {}" and le: "m \<subseteq>\<^sub>m m2" and "paged m2"
    using assms by (auto simp: new_string_def)
  have b: "bytes m2 p n" "m2 (p + length n) = Some 61" "bytes m2 (p + length n + 1) (v @ [0])" and z: "0 \<notin> set n" "0 \<notin> set v"
    using c by (auto simp: cstr_def)
  have mp: "mapped m2 (p + length n) (length [0 :: byte])" using b(2) by simp
  have "bytes ?m p n" "bytes ?m (p + length n + 1) (v @ [0])"
    using b(1,3) by (auto simp: bytes_wr_disjoint disjoint_regions_def simp del: bytes_append)
  moreover have "?m (p + length n) = Some 0" by (simp add: wr_at)
  moreover have "region (p + length n) (length [0 :: byte]) \<inter> dom m = {}"
    using fresh by (auto simp: region_def disjoint_iff)
  from wr_map_le [OF le this] have "m \<subseteq>\<^sub>m ?m" .
  moreover have "dom ?m = dom m2" using wr_mapped [OF mp] by (auto simp: dom_def)
  ultimately show ?thesis
    using b(2) z paged_wr [OF mp \<open>paged m2\<close>] by (auto simp: store8_wr cstr_def)
qed

lemma changed_free:
  assumes "free_ok malloc free" "malloc (en_mem e) k = (p, m1)" "p \<noteq> NULL" "env_ok e es"
    "dom (en_mem e1) = dom m1" "en_mem e \<subseteq>\<^sub>m en_mem e1" "changed e1 es e2 ss"
  shows "changed e es (e2\<lparr>en_mem := free (en_mem e2) p\<rparr>) ss"
proof -
  let ?m = "free (en_mem e2) p"
  from assms(7) obtain es' where es': "env_ok e2 es'" "map snd es' = ss" "\<And>q t. outside q t e1 es \<Longrightarrow> outside q t e2 es'"
    "\<And>x. x \<in> set es' \<Longrightarrow> area x \<subseteq> - dom (en_mem e1) \<union> (\<Union>y \<in> set es. area y)" "dom (en_mem e1) \<subseteq> dom (en_mem e2)"
    by (auto simp: changed_def)
  have fr: "paged ?m" "\<And>a. a \<in> dom (en_mem e) \<or> a \<notin> dom m1 \<Longrightarrow> ?m a = en_mem e2 a"
    using assms(1) [unfolded free_ok_def, rule_format, of "en_mem e" k p m1 "en_mem e2"] assms(2,3,5) es'(5) env_okD(1) [OF es'(1)]
    by blast+
  have old: "area y \<subseteq> dom (en_mem e)" if "y \<in> set es" for y
    using env_ok_cstr [OF assms(4) that] cstr_dom [of "en_mem e" "fst y" "snd y"] by (simp add: area_def)
  have keep: "cstr ?m q t" if "cstr (en_mem e2) q t" "region q (length t + 1) \<subseteq> dom (en_mem e) \<union> - dom m1" for q t
  proof -
    have "?m (q + i) = en_mem e2 (q + i)" if "i < length (t @ [0])" for i
    proof -
      have "q + i \<in> region q (length t + 1)" using that by (simp add: region_def)
      then show ?thesis using \<open>region q (length t + 1) \<subseteq> _\<close> by (intro fr(2)) blast
    qed
    then show ?thesis using that(1) by (simp add: cstr_def bytes_nth del: bytes_append)
  qed
  have "area x \<subseteq> dom (en_mem e) \<union> - dom m1" if "x \<in> set es'" for x
    using es'(4) [OF that] old assms(5) by blast
  then have "\<forall>(q, t) \<in> set es'. q \<noteq> NULL \<and> cstr ?m q t"
    using env_ok_cstr [OF es'(1)] keep unfolding area_def by fastforce
  then have "env_ok (e2\<lparr>en_mem := ?m\<rparr>) es'"
    using es'(1) fr(1) by (simp add: env_ok_def)
  moreover have "outside q t (e2\<lparr>en_mem := ?m\<rparr>) es'" if "outside q t e es" for q t
  proof -
    have "outside q t e1 es" using that cstr_map_le [OF _ assms(6)] by (auto simp: outside_def)
    then show ?thesis using es'(3) [of q t] keep [of q t] cstr_dom [of "en_mem e" q t] that by (auto simp: outside_def)
  qed
  moreover have "area x \<subseteq> - dom (en_mem e) \<union> (\<Union>y \<in> set es. area y)" if "x \<in> set es'" for x
  proof -
    have "- dom (en_mem e1) \<subseteq> - dom (en_mem e)" using map_le_implies_dom_le [OF assms(6)] by simp
    from order_trans [OF es'(4) [OF that] Un_mono [OF this order_refl]] show ?thesis .
  qed
  moreover have "dom (en_mem e) \<subseteq> dom ?m"
  proof
    fix a assume a: "a \<in> dom (en_mem e)"
    then have "a \<in> dom (en_mem e2)" using map_le_implies_dom_le [OF assms(6)] es'(5) by blast
    then show "a \<in> dom ?m" using fr(2) [of a] a by (simp add: dom_def)
  qed
  ultimately show ?thesis using es'(2) unfolding changed_def by (intro conjI exI [of _ es']) simp_all
qed

lemma putenv_eq:
  assumes "malloc_ok malloc" "free_ok malloc free" "env_ok e es" "cstr (en_mem e) str (n @ 61 # v)" "61 \<notin> set n"
  shows "\<exists>r tz e'. putenv_r malloc free grow e str = Some (r, tz, e') \<and>
    (r = 0 \<and> tz = is_TZ n \<and> changed e es e' (env_set n v (map snd es)) \<or>
     r \<noteq> 0 \<and> (\<exists>e k. \<not> grow e k \<or> fst (malloc (en_mem e) k) = NULL))"
proof (cases rule: strdup_eq [OF assms(1) env_okD(1) [OF assms(3)] assms(4)])
  case 1
  then have "\<exists>e k. \<not> grow e k \<or> fst (malloc (en_mem e) k) = NULL" by (intro exI [of _ e] exI [of _ "length (n @ 61 # v) + 1"]) simp
  with 1 show ?thesis by (simp add: putenv_r_def ex_bool_eq)
next
  case (2 p m1 m2)
  have p: "p \<noteq> NULL" "paged m2" "cstr m2 p (n @ 61 # v)" using 2(3) by (auto simp: new_string_def)
  from cut_copy [OF 2(3)] obtain m3 where m3: "store8 m2 (p + length n) 0 = Some m3" "paged m3" "en_mem e \<subseteq>\<^sub>m m3" "dom m3 = dom m2"
    "cstr m3 p n" "cstr m3 (p + length n + 1) v" by blast
  let ?e = "e\<lparr>en_mem := m3\<rparr>"
  have ix: "index m2 p 61 = Some (p + length n)"
    using strchr_cstr [OF p(2,3), of 61] takeWhile_name [OF assms(5), of "61 # v @ [0]"] by (simp add: index_def find_byte_def)
  have ok: "env_ok ?e es" using env_ok_extend [OF assms(3) m3(3,2)] .
  have "apart (p, n) x" if "x \<in> set es" for x
    using new_string_apart [OF 2(3), of "fst x" "snd x"] env_ok_cstr [OF assms(3) that] by (auto simp: apart_def disjoint_regions_def)
  then have out: "name_arg p n ?e es" "cstr (en_mem ?e) (p + length n + 1) v"
    using m3(5,6) p(1) by (simp_all add: name_arg_def)
  from setenv_eq [OF assms(1) ok out(1) assms(5) out(2), where rewrite = True and grow = grow] obtain r tz e' where r:
    "setenv_r malloc grow ?e p (p + length n + 1) True = Some (r, tz, e')"
    "r = 0 \<and> tz = is_TZ n \<and> changed ?e es e' (env_set n v (map snd es)) \<or>
     r = -1 \<and> setenv_failed malloc grow ?e es n v e'" by auto
  have "changed e es (e'\<lparr>en_mem := free (en_mem e') p\<rparr>) (env_set n v (map snd es))"
    if "changed ?e es e' (env_set n v (map snd es))"
    using changed_free [OF assms(2) 2(1) p(1) assms(3) _ _ that] m3(3,4) 2(4) by simp
  moreover have "putenv_r malloc free grow e str = Some (r, tz, e'\<lparr>en_mem := free (en_mem e') p\<rparr>)"
    using 2(2) p(1) ix m3(1) r(1) by (simp add: putenv_r_def)
  moreover have "\<exists>e k. \<not> grow e k \<or> fst (malloc (en_mem e) k) = NULL" if "r = -1"
  proof -
    have "\<exists>k. \<not> grow ?e k \<or> fst (malloc (en_mem ?e) k) = NULL" using that r(2) by (auto simp: setenv_failed_def)
    then show ?thesis by blast
  qed
  ultimately show ?thesis using r(2) by auto
qed

section \<open>Sequences of calls\<close>

text \<open>
  A successful call changes one variable: \<open>(n, Some v)\<close> sets it, \<open>(n, None)\<close> removes it; \<^verbatim>\<open>setenv\<close> without \<^verbatim>\<open>rewrite\<close> changes
  nothing when the variable is there.  The value may be a string of the environment, as in \<^verbatim>\<open>setenv (n, getenv (k), 1)\<close>; the name must not
  be part of its own variable's string.
\<close>

inductive env_step ::
    "(mem \<Rightarrow> nat \<Rightarrow> addr \<times> mem) \<Rightarrow> (mem \<Rightarrow> addr \<Rightarrow> mem) \<Rightarrow> (env \<Rightarrow> nat \<Rightarrow> bool) \<Rightarrow> env \<Rightarrow> (byte list \<times> byte list option) list \<Rightarrow> env \<Rightarrow> bool"
  for malloc free grow where
  by_setenv: "env_ok e es \<Longrightarrow> name_arg name n e es \<Longrightarrow> cstr (en_mem e) value v \<Longrightarrow> 61 \<notin> set n \<Longrightarrow>
    setenv malloc grow e name value rewrite = Some (0, tz, e') \<Longrightarrow>
    env_step malloc free grow e (if rewrite \<or> env_get (map snd es) n = None then [(n, Some v)] else []) e'"
| by_putenv: "env_ok e es \<Longrightarrow> cstr (en_mem e) str (n @ 61 # v) \<Longrightarrow> 61 \<notin> set n \<Longrightarrow>
    putenv malloc free grow e str = Some (0, tz, e') \<Longrightarrow> env_step malloc free grow e [(n, Some v)] e'"
| by_unsetenv: "env_ok e es \<Longrightarrow> cstr (en_mem e) name n \<Longrightarrow> name \<noteq> NULL \<Longrightarrow> n \<noteq> [] \<Longrightarrow> 61 \<notin> set n \<Longrightarrow>
    unsetenv e name = Some (0, e') \<Longrightarrow> env_step malloc free grow e [(n, None)] e'"

inductive env_run ::
    "(mem \<Rightarrow> nat \<Rightarrow> addr \<times> mem) \<Rightarrow> (mem \<Rightarrow> addr \<Rightarrow> mem) \<Rightarrow> (env \<Rightarrow> nat \<Rightarrow> bool) \<Rightarrow> env \<Rightarrow> (byte list \<times> byte list option) list \<Rightarrow> env \<Rightarrow> bool"
  for malloc free grow where
  run_nil: "env_run malloc free grow e [] e"
| run_snoc: "env_run malloc free grow e h e' \<Longrightarrow> env_step malloc free grow e' c e'' \<Longrightarrow> env_run malloc free grow e (h @ c) e''"

lemma env_ok_unique:
  assumes "env_ok e es" "env_ok e es'"
  shows "map snd es = map snd es'"
proof -
  have vec: "map fst xs = takeWhile (\<lambda>p. p \<noteq> NULL) (the (en_vec e))" if xs: "env_ok e xs" for xs
  proof -
    obtain rest where "en_vec e = Some (map fst xs @ NULL # rest)" using env_okD(4) [OF xs] by blast
    moreover have "\<And>p. p \<in> set (map fst xs) \<Longrightarrow> p \<noteq> NULL" using env_ok_cstr [OF xs] by auto
    then have "takeWhile (\<lambda>p. p \<noteq> NULL) (map fst xs @ NULL # rest) = map fst xs"
      by (subst takeWhile_append2) simp_all
    ultimately show ?thesis by (simp only: option.sel)
  qed
  have "map fst es = map fst es'" using vec [OF assms(1)] vec [OF assms(2)] by simp
  moreover have "snd (es ! i) = snd (es' ! i)" if "i < length es" "fst (es ! i) = fst (es' ! i)" "i < length es'" for i
    using env_ok_cstr [OF assms(1), of "es ! i"] env_ok_cstr [OF assms(2), of "es' ! i"] that cstr_unique by fastforce
  ultimately show ?thesis
    by (metis (no_types, lifting) length_map list_eq_iff_nth_eq nth_map)
qed

definition env_change :: "byte list list \<Rightarrow> byte list \<times> byte list option \<Rightarrow> byte list list" where
  "env_change ss c = (case c of (n, v) \<Rightarrow> case v of None \<Rightarrow> env_unset n ss | Some v \<Rightarrow> env_set n v ss)"

lemma env_step_change:
  assumes "malloc_ok malloc" "free_ok malloc free" "env_step malloc free grow e c e'" "env_ok e es"
  shows "\<exists>es'. env_ok e' es' \<and> map snd es' = foldl env_change (map snd es) c \<and> list_all (\<lambda>(n, _). 61 \<notin> set n) c"
  using assms(3)
proof cases
  case (by_setenv es1 name n "value" v rewrite tz)
  have "map snd es1 = map snd es" using env_ok_unique [OF by_setenv(2) assms(4)] .
  then show ?thesis
    using setenv_eq [OF assms(1) by_setenv(2,3,5,4), where rewrite = rewrite and grow = grow] by_setenv(1,5,6)
    by (auto simp: changed_def env_change_def setenv_def split: if_splits)
next
  case (by_putenv es1 str n v tz)
  have "map snd es1 = map snd es" using env_ok_unique [OF by_putenv(2) assms(4)] .
  then show ?thesis
    using putenv_eq [OF assms(1,2) by_putenv(2,3,4), where grow = grow] by_putenv(1,4,5)
    by (auto simp: changed_def env_change_def putenv_def)
next
  case (by_unsetenv es1 name n)
  have "map snd es1 = map snd es" using env_ok_unique [OF by_unsetenv(2) assms(4)] .
  then show ?thesis
    using unsetenv_eq [OF by_unsetenv(2,3,6,5,4)] by_unsetenv(1,6,7)
    by (auto simp: changed_def env_change_def unsetenv_def)
qed

lemma env_run_change:
  assumes "env_run malloc free grow e h e'" "malloc_ok malloc" "free_ok malloc free" "env_ok e es"
  shows "\<exists>es'. env_ok e' es' \<and> map snd es' = foldl env_change (map snd es) h \<and> list_all (\<lambda>(n, _). 61 \<notin> set n) h"
  using assms(1,4)
proof induction
  case (run_snoc e h e' c e'')
  then obtain es' where h: "env_ok e' es'" "map snd es' = foldl env_change (map snd es) h" "list_all (\<lambda>(n, _). 61 \<notin> set n) h"
    by blast
  from env_step_change [OF assms(2,3) run_snoc.hyps(2) h(1)] h(2,3) show ?case by auto
qed auto

lemma env_change_foldl:
  "foldl env_change ss h = foldl (\<lambda>ss (n, v). case v of None \<Rightarrow> env_unset n ss | Some v \<Rightarrow> env_set n v ss) ss h"
  by (simp add: env_change_def [abs_def] case_prod_beta')

section \<open>Properties\<close>

text \<open>C32. The environment is a map of variables: after any sequence of successful calls of \<^verbatim>\<open>setenv\<close>, with or without \<^verbatim>\<open>rewrite\<close>, \<^verbatim>\<open>putenv\<close> and
  \<^verbatim>\<open>unsetenv\<close>, whose arguments are strings, a name not part of the string of its own variable, \<^verbatim>\<open>getenv\<close> returns
  the value that the last of them to change the name gave to it, a null pointer when that removed it, and the value of the first
  environment when no call changed the name.\<close>
theorem getenv_history:
  assumes "env_run malloc free grow e h e'" "malloc_ok malloc" "free_ok malloc free" "env_ok e es"
    "cstr (en_mem e') name k" "61 \<notin> set k"
  shows "\<exists>p. getenv e' name = Some p \<and>
    yields (en_mem e') p (case map_of (rev h) k of None \<Rightarrow> env_get (map snd es) k | Some v \<Rightarrow> v)"
proof -
  obtain es' where es': "env_ok e' es'" "map snd es' = foldl env_change (map snd es) h" "list_all (\<lambda>(n, _). 61 \<notin> set n) h"
    using env_run_change [OF assms(1-4)] by blast
  then show ?thesis
    using getenv_eq [OF es'(1) assms(5,6)] env_strings.get_history [OF es'(3) assms(6), of "map snd es"]
    by (simp add: getenv_def env_change_foldl)
qed


text \<open>\<^verbatim>\<open>unsetenv\<close> always returns: it refuses a null, empty or malformed name and otherwise removes every entry of the name,
  however many there are, keeping the other entries in order.\<close>
theorem unsetenv_correct:
  assumes "env_ok e es" "name = NULL \<or> cstr (en_mem e) name n"
  shows "if name = NULL \<or> n = [] \<or> 61 \<in> set n then unsetenv e name = Some (-1, e)
    else \<exists>e'. unsetenv e name = Some (0, e') \<and> changed e es e' (env_unset n (map snd es))"
proof (cases "name = NULL")
  case False
  then have c: "cstr (en_mem e) name n" using assms(2) by simp
  obtain q where q: "strchr (en_mem e) name 61 = Some q" "q = NULL \<longleftrightarrow> 61 \<notin> set n"
    using strchr_name [OF env_okD(1) [OF assms(1)] c False] by blast
  consider "n = []" "en_mem e name = Some 0" | b where "n \<noteq> []" "en_mem e name = Some b" "b \<noteq> 0"
    using c by (cases n) (auto simp: cstr_Nil cstr_Cons)
  then show ?thesis
  proof cases
    case (2 b)
    then show ?thesis
      using unsetenv_eq [OF assms(1) c _ 2(1) False] q False by (auto simp: unsetenv_def unsetenv_r_def load8_def)
  qed (use False in \<open>simp add: unsetenv_def unsetenv_r_def load8_def\<close>)
qed (simp add: unsetenv_def unsetenv_r_def)

subsection \<open>Concrete calls\<close>

lemma keep_free_ok: "free_ok one_block (\<lambda>m _. m)"
  by (simp add: free_ok_def)

text \<open>The environment \<^verbatim>\<open>A=x\<close>, \<^verbatim>\<open>B=y\<close>, \<^verbatim>\<open>A=z\<close>, and the strings \<^verbatim>\<open>A\<close> and \<^verbatim>\<open>q\<close>\<close>

definition small_env :: env where
  "small_env = \<lparr>en_mem = mem_image 4 [65, 61, 120, 0, 66, 61, 121, 0, 65, 61, 122, 0, 65, 0, 113, 0],
     en_vec = Some [4, 8, 12, NULL], en_alloced = False\<rparr>"

definition small_entries :: "(addr \<times> byte list) list" where
  "small_entries = [(4, [65, 61, 120]), (8, [66, 61, 121]), (12, [65, 61, 122])]"

lemma small_env_ok: "env_ok small_env small_entries"
  by (auto simp: env_ok_def small_env_def small_entries_def paged_mem_image cstr_def apart_def disjoint_regions_def)

lemma small_args: "name_arg 16 [65] small_env small_entries" "outside 16 [65] small_env small_entries" "cstr (en_mem small_env) 18 [113]"
  by (auto simp: name_arg_def outside_def small_env_def small_entries_def cstr_def apart_def disjoint_regions_def)


theorem unsetenv_correct_witness: "\<exists>e'. unsetenv small_env 16 = Some (0, e') \<and> changed small_env small_entries e' [[66, 61, 121]]"
  using unsetenv_correct [OF small_env_ok, of 16 "[65]"] small_args(2)
  by (simp add: outside_def env_unset_def small_entries_def names_def)

theorem getenv_history_witness:
  "\<exists>e' p. env_run one_block (\<lambda>m _. m) (\<lambda>_ _. True) small_env [([65], None)] e' \<and> getenv e' 16 = Some p \<and> yields (en_mem e') p None"
proof -
  have a: "cstr (en_mem small_env) 16 [65]" using small_args(2) by (simp add: outside_def)
  obtain e' where e': "unsetenv small_env 16 = Some (0, e')" "changed small_env small_entries e' (env_unset [65] (map snd small_entries))"
    using unsetenv_eq [OF small_env_ok a] by (auto simp: unsetenv_def)
  have st: "env_step one_block (\<lambda>m _. m) (\<lambda>_ _. True) small_env [([65], None)] e'"
    by (rule by_unsetenv [OF small_env_ok a]) (use e' in simp_all)
  have run: "env_run one_block (\<lambda>m _. m) (\<lambda>_ _. True) small_env [([65], None)] e'"
    using run_snoc [OF run_nil st] by simp
  have "cstr (en_mem e') 16 [65]" using e'(2) small_args(2) by (auto simp: changed_def outside_def)
  with getenv_history [OF run one_block_ok keep_free_ok small_env_ok this] run show ?thesis by auto
qed

text \<open>When there is no memory for the longer value of a variable, the null pointer is stored in the vector, and the variables after it are lost.\<close>

lemma setenv_failure_truncates:
  assumes "malloc_ok malloc" "env_ok e (as @ (p, n @ 61 # w) # bs)" "\<forall>x \<in> set as. \<not> names_of n x"
    "cstr (en_mem e) name n" "name \<noteq> NULL" "61 \<notin> set n" "cstr (en_mem e) value v" "length w < length v"
    "fst (malloc (en_mem e) (length n + length v + 2)) = NULL"
  shows "\<exists>e'. setenv_r malloc grow e name value True = Some (-1, False, e') \<and> env_ok e' as"
proof -
  note ok = env_okD [OF assms(2)]
  obtain rest where vec: "en_vec e = Some (map fst (as @ (p, n @ 61 # w) # bs) @ NULL # rest)" using ok(4) by blast
  have "names_of n (p, n @ 61 # w)" by (simp add: names_of_def names_iff)
  from findenv_present [OF assms(2,4,6) this assms(3)]
  have fe: "findenv_r e name = Some (Some (p + length n + 1, length as))" .
  have "cstr (en_mem e) p (n @ 61 # w)" using ok(2) by auto
  from cstr_drop [OF this, of "length n + 1"] have "cstr (en_mem e) (p + length n + 1) w" by simp
  note sl = strlen_cstr [OF ok(1) this] strlen_cstr [OF ok(1) assms(7)]
  let ?e = "e\<lparr>en_vec := Some (map fst as @ NULL # map fst bs @ NULL # rest)\<rparr>"
  have "setenv_entry malloc e name value (length v) (length as) = Some (-1, False, ?e)"
    by (rule setenv_entry_eq [OF assms(1) ok(1) assms(4,6,7) vec, of "length as"]) (use assms(9) in \<open>simp_all add: list_update_append\<close>)
  moreover have "env_ok ?e as" using assms(2) by (auto simp: env_ok_def sorted_wrt_append)
  moreover have "strchr (en_mem e) name 61 = Some NULL" using strchr_name [OF ok(1) assms(4,5)] assms(6) by simp
  ultimately show ?thesis using fe sl assms(8) by (simp add: setenv_r_def)
qed

end
