(* ===== verification/Periods.thy ===== *)
theory Periods
  imports Main "HOL-Library.List_Lexorder"
begin

text \<open>
  The theory of words behind the two-way string matching of \<^verbatim>\<open>str-two-way.h\<close>: periods, periods at a place of a word,
  maximal suffixes, and the theorem on critical factorizations, for words over the integers (the
  routine compares bytes as numbers, in their usual and in the reversed order).
\<close>

section \<open>Words, periods and maximal suffixes\<close>

definition period :: "'a list \<Rightarrow> nat \<Rightarrow> bool" where
  "period x p \<longleftrightarrow> 0 < p \<and> (\<forall>i. i + p < length x \<longrightarrow> x ! i = x ! (i + p))"

text \<open>A period at place \<open>l\<close>: only the positions that the place separates are compared.\<close>

definition period_at :: "'a list \<Rightarrow> nat \<Rightarrow> nat \<Rightarrow> bool" where
  "period_at x l r \<longleftrightarrow> 0 < r \<and> (\<forall>i < l. l \<le> i + r \<longrightarrow> i + r < length x \<longrightarrow> x ! i = x ! (i + r))"

definition critical :: "'a list \<Rightarrow> nat \<Rightarrow> nat \<Rightarrow> bool" where
  "critical x l p \<longleftrightarrow> period x p \<and> (\<forall>r. period_at x l r \<longrightarrow> p \<le> r)"

definition max_suffix :: "int list \<Rightarrow> nat \<Rightarrow> bool" where
  "max_suffix x s \<longleftrightarrow> s < length x \<and> (\<forall>t < length x. t \<noteq> s \<longrightarrow> drop t x < drop s x)"

lemma period_at_period: "period x p \<Longrightarrow> period_at x l p"
  by (simp add: period_def period_at_def)

lemma period_map: "inj f \<Longrightarrow> period (map f x) p \<longleftrightarrow> period x p"
  by (auto simp: period_def inj_eq)

lemma period_at_map: "inj f \<Longrightarrow> period_at (map f x) l p \<longleftrightarrow> period_at x l p"
  by (auto simp: period_at_def inj_eq)

lemma period_steps: "period x p \<Longrightarrow> i + c * p < length x \<Longrightarrow> x ! (i + c * p) = x ! i"
proof (induction c)
  case (Suc c)
  then have "x ! (i + c * p) = x ! (i + c * p + p)" by (simp add: period_def add.commute add.left_commute)
  then show ?case using Suc by (simp add: algebra_simps)
qed simp

section \<open>The order of words\<close>

lemma less_append_same [simp]: "(u @ v < u @ w) = (v < (w :: int list))"
  by (induction u) auto

lemma less_longer: "w \<noteq> [] \<Longrightarrow> v < v @ (w :: int list)"
  by (metis append_Nil2 less_append_same neq_Nil_conv Nil_less_Cons)

text \<open>The first difference decides.\<close>

definition below :: "int list \<Rightarrow> int list \<Rightarrow> bool" where
  "below u v \<longleftrightarrow> (\<exists>i. i < length u \<and> i < length v \<and> take i u = take i v \<and> u ! i < v ! i)"

lemma below_less: "below u v \<Longrightarrow> u @ a < v @ b"
proof -
  assume "below u v"
  then obtain i where i: "i < length u" "i < length v" "take i u = take i v" "u ! i < v ! i" by (auto simp: below_def)
  have "u @ a = take i u @ u ! i # (drop (Suc i) u @ a)" "v @ b = take i u @ v ! i # (drop (Suc i) v @ b)"
    using id_take_nth_drop [OF i(1)] id_take_nth_drop [OF i(2)] i(3) by (metis append.assoc append_Cons)+
  then show ?thesis using i(4) by (simp only: less_append_same Cons_less_Cons) simp
qed

lemma less_cases: "u < v \<Longrightarrow> below u v \<or> (\<exists>w. v = u @ (w :: int list))"
proof (induction u arbitrary: v)
  case (Cons a u)
  then obtain b v' where v: "v = b # v'" by (cases v) auto
  show ?case
  proof (cases "a < b")
    case True
    then show ?thesis using v by (auto simp: below_def intro!: exI [of _ 0])
  next
    case False
    with Cons.prems v have "a = b" "u < v'" by auto
    from Cons.IH [OF this(2)] show ?thesis
    proof
      assume "below u v'"
      then obtain i where "i < length u" "i < length v'" "take i u = take i v'" "u ! i < v' ! i" by (auto simp: below_def)
      then have "below (a # u) v" using v \<open>a = b\<close> by (auto simp: below_def intro!: exI [of _ "Suc i"])
      then show ?thesis ..
    qed (use v \<open>a = b\<close> in auto)
  qed
qed simp

text \<open>A word that is smaller in both orders is the beginning of the other.\<close>

lemma less_both_ways:
  assumes "u < v" "map uminus u < map uminus (v :: int list)"
  shows "\<exists>w. v = u @ w"
proof (rule ccontr)
  assume "\<nexists>w. v = u @ w"
  then obtain i where i: "i < length u" "i < length v" "take i u = take i v" "u ! i < v ! i"
    using less_cases [OF assms(1)] by (auto simp: below_def)
  then have "below (map uminus v) (map uminus u)"
    unfolding below_def by (intro exI [of _ i]) (simp add: take_map)
  then have "map uminus v @ [] < map uminus u @ []" by (rule below_less)
  then show False using assms(2) by simp
qed

section \<open>Critical factorizations\<close>

lemma take_drop_eq:
  assumes "\<And>i. i < n \<Longrightarrow> x ! (a + i) = x ! (b + i)" "a + n \<le> length x" "b + n \<le> length x"
  shows "take n (drop a x) = take n (drop b x)"
  using assms by (intro nth_equalityI) auto

lemma max_suffix_before_period:
  assumes "max_suffix x s" "period x p"
  shows "s < p"
proof (rule ccontr)
  assume "\<not> s < p"
  let ?n = "length x - s"
  have "0 < p" "s < length x" using assms by (auto simp: period_def max_suffix_def)
  have "x ! (s - p + i) = x ! (s + i)" if "i < ?n" for i
    using assms(2) that \<open>\<not> s < p\<close> by (auto simp: period_def dest!: spec [of _ "s - p + i"])
  then have "take ?n (drop (s - p) x) = take ?n (drop s x)"
    using \<open>\<not> s < p\<close> \<open>s < length x\<close> by (intro take_drop_eq) auto
  then have eq: "drop (s - p) x = drop s x @ drop ?n (drop (s - p) x)" using append_take_drop_id [of ?n "drop (s - p) x"] by simp
  have "drop ?n (drop (s - p) x) \<noteq> []" using \<open>0 < p\<close> \<open>\<not> s < p\<close> \<open>s < length x\<close> by simp
  then have "drop s x < drop (s - p) x" using less_longer eq by metis
  moreover have "drop (s - p) x < drop s x"
    using assms(1) \<open>0 < p\<close> \<open>\<not> s < p\<close> by (auto simp: max_suffix_def)
  ultimately show False by simp
qed

text \<open>No period at the place of a maximal suffix fits into the left part.\<close>

lemma period_at_max_suffix:
  assumes "max_suffix x l" "period_at x l r"
  shows "l < r"
proof (rule ccontr)
  assume "\<not> l < r"
  let ?v = "drop l x" and ?t = "drop (l - r) x"
  let ?c = "min r (length ?v)"
  have r: "0 < r" "r \<le> l" "l < length x" using assms \<open>\<not> l < r\<close> by (auto simp: period_at_def max_suffix_def)
  have "x ! (l - r + i) = x ! (l + i)" if "i < ?c" for i
    using assms(2) that r by (auto simp: period_at_def dest!: spec [of _ "l - r + i"])
  then have c: "take ?c ?t = take ?c ?v" using r by (intro take_drop_eq) auto
  have t: "?t < ?v" using assms(1) r by (auto simp: max_suffix_def)
  show False
  proof (cases "r \<le> length ?v")
    case True
    have "?t = take r ?v @ ?v"
      using c True append_take_drop_id [of r ?t] r by (simp add: min_def)
    then have "take r ?v @ ?v < take r ?v @ drop r ?v" using t append_take_drop_id [of r ?v] by simp
    then have "?v < drop (l + r) x" by (simp add: add.commute)
    then show False using assms(1) r(1) by (cases "l + r < length x") (auto simp: max_suffix_def dest!: spec [of _ "l + r"])
  next
    case False
    then have "?t = ?v @ drop (length ?v) ?t" using c append_take_drop_id [of "length ?v" ?t] by (simp add: min_def)
    moreover have "drop (length ?v) ?t \<noteq> []" using r by simp
    ultimately show False using t less_longer by (metis less_asym)
  qed
qed

text \<open>The theorem on critical factorizations: a period at the later of the two places, the beginnings of the maximal suffixes for an
  order and its reverse, is a period of the whole word.\<close>

lemma critical_place:
  assumes "max_suffix x l" "max_suffix (map uminus x) k" "k \<le> l" "period_at x l r"
  shows "period x r"
proof -
  have "l < r" using period_at_max_suffix [OF assms(1,4)] .
  have "x ! i = x ! (i + r)" if i: "i + r < length x" for i
  proof (cases "i < l")
    case True
    then show ?thesis using assms(4) i \<open>l < r\<close> by (simp add: period_at_def)
  next
    case False
    let ?v = "drop l x" and ?w = "drop (l + r) x"
    have lr: "l + r < length x" using False i by simp
    have "?w < ?v" using assms(1) lr \<open>l < r\<close> by (simp add: max_suffix_def)
    moreover have "map uminus ?w < map uminus ?v"
    proof -
      let ?y = "map uminus x"
      have eq: "take (l - k) (drop (k + r) ?y) = take (l - k) (drop k ?y)"
        using assms(3,4) lr \<open>l < r\<close> by (intro take_drop_eq) (auto simp: period_at_def ac_simps)
      have "drop (k + r) ?y < drop k ?y" using assms(2) lr \<open>l < r\<close> assms(3) by (simp add: max_suffix_def)
      then have "take (l - k) (drop k ?y) @ drop (l - k) (drop (k + r) ?y) < take (l - k) (drop k ?y) @ drop (l - k) (drop k ?y)"
        using append_take_drop_id [of "l - k" "drop (k + r) ?y"] append_take_drop_id [of "l - k" "drop k ?y"] eq by simp
      then show ?thesis using assms(3) by (simp add: drop_map ac_simps)
    qed
    ultimately obtain u where "?v = ?w @ u" using less_both_ways by blast
    moreover have "i - l < length ?w" using i False by simp
    ultimately have "?v ! (i - l) = ?w ! (i - l)" by (simp add: nth_append)
    then show ?thesis using False lr by (simp add: ac_simps)
  qed
  then show ?thesis using \<open>l < r\<close> by (simp add: period_def)
qed

lemma least_period:
  assumes "x \<noteq> []"
  obtains p where "period x p" "\<And>q. period x q \<Longrightarrow> p \<le> q"
proof -
  have "period x (length x)" using assms by (simp add: period_def)
  then show thesis using that [of "LEAST p. period x p"] LeastI [of "period x"] Least_le [of "period x"] by blast
qed

lemma critical_factorization_exists:
  assumes "max_suffix x s1" "max_suffix (map uminus x) s2"
  shows "\<exists>p. critical x (max s1 s2) p \<and> max s1 s2 < p"
proof -
  have "x \<noteq> []" using assms(1) by (auto simp: max_suffix_def)
  then obtain p where p: "period x p" "\<And>q. period x q \<Longrightarrow> p \<le> q" by (rule least_period) blast
  have inj: "inj (uminus :: int \<Rightarrow> int)" by simp
  have "period x r" if "period_at x (max s1 s2) r" for r
  proof (cases "s2 \<le> s1")
    case True
    then show ?thesis using critical_place [OF assms] that by (simp add: max_def)
  next
    case False
    have "max_suffix (map uminus (map uminus x)) s1" using assms(1) by (simp add: comp_def)
    then have "period (map uminus x) r"
      using critical_place [OF assms(2)] that False by (simp add: max_def period_at_map [OF inj])
    then show ?thesis by (simp add: period_map [OF inj])
  qed
  then have "critical x (max s1 s2) p" using p by (auto simp: critical_def)
  moreover have "period (map uminus x) p" using p(1) by (simp add: period_map [OF inj])
  then have "s1 < p" "s2 < p"
    using max_suffix_before_period [OF assms(1) p(1)] max_suffix_before_period [OF assms(2)] by simp_all
  ultimately show ?thesis by auto
qed

text \<open>A critical factorization whose right part has a period that is not one of the whole word: the period of the word is longer than the right part.\<close>

lemma long_period:
  assumes "critical x l p" "period (drop l x) q" "\<And>r. period (drop l x) r \<Longrightarrow> q \<le> r" "\<not> period x q"
  shows "length x - l < p"
proof (rule ccontr)
  assume "\<not> length x - l < p"
  then have le: "l + p \<le> length x" using assms(1) by (auto simp: critical_def period_def)
  have px: "period x p" and q: "0 < q" using assms(1,2) by (auto simp: critical_def period_def)
  define r where "r = (if p mod q = 0 then q else p mod q)"
  have r: "0 < r" "r \<le> q" using q by (auto simp: r_def intro: less_imp_le)
  have "q \<le> p" using assms(3) [of p] px by (auto simp: period_def add.assoc)
  have rp: "\<exists>c. p = r + c * q"
  proof (cases "p mod q = 0")
    case True
    then obtain d where "p = q * d" by (auto elim: dvdE)
    moreover from this \<open>q \<le> p\<close> q have "d \<noteq> 0" by (intro notI) simp
    then obtain c where "d = Suc c" by (cases d) auto
    ultimately show ?thesis using True by (intro exI [of _ c]) (simp add: r_def)
  next
    case False
    then show ?thesis by (intro exI [of _ "p div q"]) (simp add: r_def)
  qed
  then obtain c where c: "p = r + c * q" by blast
  have "x ! i = x ! (i + r)" if i: "i < l" "l \<le> i + r" "i + r < length x" for i
  proof -
    have "x ! i = x ! (i + p)" using px i(1) le by (simp add: period_def)
    also have "\<dots> = drop l x ! (i + r - l + c * q)" using i c le by (simp add: ac_simps)
    also have "\<dots> = drop l x ! (i + r - l)" using i c le by (intro period_steps [OF assms(2)]) simp
    also have "\<dots> = x ! (i + r)" using i by simp
    finally show ?thesis .
  qed
  then have "period_at x l r" using r by (simp add: period_at_def)
  then have "p \<le> r" using assms(1) by (simp add: critical_def)
  then have "p = q" using \<open>q \<le> p\<close> r by simp
  then show False using assms(4) px by simp
qed

section \<open>Shifts of the window\<close>

definition occurs :: "'a list \<Rightarrow> 'a list \<Rightarrow> nat \<Rightarrow> bool" where
  "occurs x h j \<longleftrightarrow> j + length x \<le> length h \<and> (\<forall>i < length x. h ! (j + i) = x ! i)"

lemma occursD: "occurs x h (j + d) \<Longrightarrow> d \<le> t \<Longrightarrow> t - d < length x \<Longrightarrow> h ! (j + t) = x ! (t - d)"
  by (auto simp: occurs_def dest!: spec [of _ "t - d"])

text \<open>The first mismatch in the right part: the window may move past it.\<close>

lemma shift_right_mismatch:
  assumes "critical x l p" "l \<le> i" "i < length x" "\<And>t. l \<le> t \<Longrightarrow> t < i \<Longrightarrow> h ! (j + t) = x ! t" "h ! (j + i) \<noteq> x ! i" "d \<le> i - l"
  shows "\<not> occurs x h (j + d)"
proof
  assume o: "occurs x h (j + d)"
  have px: "period x p" and "0 < p" using assms(1) by (auto simp: critical_def period_def)
  define c r where "c = d div p" and "r = d mod p"
  have d: "d = r + c * p" by (simp add: c_def r_def)
  have "h ! (j + i) = x ! (i - d)" using occursD [OF o, of i] assms(2,3,6) by simp
  moreover have "x ! (i - d) = x ! i" if "r = 0"
    using period_steps [OF px, of "i - d" c] assms(3,6) d that by simp
  ultimately have "0 < r" using assms(5) by auto
  have "x ! a = x ! (a + r)" if a: "a < l" "l \<le> a + r" for a
  proof -
    have "a + d < i" "l \<le> a + d" using a assms(2,6) d by simp_all
    then have "x ! (a + d) = h ! (j + (a + d))" using assms(4) by simp
    also have "\<dots> = x ! a" using occursD [OF o, of "a + d"] a assms(2,3) by simp
    finally show ?thesis using period_steps [OF px, of "a + r" c] \<open>a + d < i\<close> assms(3) d by (simp add: ac_simps)
  qed
  then have "period_at x l r" using \<open>0 < r\<close> by (simp add: period_at_def)
  then have "p \<le> r" using assms(1) by (simp add: critical_def)
  then show False using mod_less_divisor [OF \<open>0 < p\<close>, of d] by (simp add: r_def not_le [symmetric] del: mod_less_divisor)
qed

text \<open>The right part matches: the next occurrence is at least a period away.\<close>

lemma shift_right_match:
  assumes "critical x l p" "\<And>t. l \<le> t \<Longrightarrow> t < length x \<Longrightarrow> h ! (j + t) = x ! t" "0 < d" "d < p"
  shows "\<not> occurs x h (j + d)"
proof
  assume o: "occurs x h (j + d)"
  have "x ! a = x ! (a + d)" if a: "a < l" "l \<le> a + d" "a + d < length x" for a
    using occursD [OF o, of "a + d"] assms(2) [of "a + d"] a by simp
  then have "period_at x l d" using assms(3) by (simp add: period_at_def)
  then have "p \<le> d" using assms(1) by (simp add: critical_def)
  then show False using assms(4) by simp
qed

section \<open>Finding the maximal suffix\<close>

text \<open>The word \<open>x ! s, \<dots>, x ! (s + p - 1)\<close> is greater than what follows its beginning, by a difference.\<close>

definition head_low :: "int list \<Rightarrow> nat \<Rightarrow> nat \<Rightarrow> bool" where
  "head_low x s p \<longleftrightarrow> (\<forall>q. 0 < q \<and> q < p \<longrightarrow>
     (\<exists>d. q + d < p \<and> (\<forall>e < d. x ! (s + q + e) = x ! (s + e)) \<and> x ! (s + q + d) < x ! (s + d)))"

text \<open>The invariant of the search: the suffix from \<open>s\<close> on is greater than the longer ones, and up to \<open>j + k\<close> it repeats a
  word of length \<open>p\<close>; \<open>j + 1\<close> is where the last repetition begins.\<close>

definition suffix_inv :: "int list \<Rightarrow> nat \<Rightarrow> nat \<Rightarrow> nat \<Rightarrow> nat \<Rightarrow> bool" where
  "suffix_inv x s j k p \<longleftrightarrow> (\<exists>c > 0. j + 1 = s + c * p) \<and> 0 < k \<and> k \<le> p \<and> j + k \<le> length x \<and>
     (\<forall>t < s. drop t x < drop s x) \<and> (\<forall>i. s \<le> i \<and> i + p < j + k \<longrightarrow> x ! i = x ! (i + p)) \<and> head_low x s p"

lemma drop_less:
  assumes "a + d < length x" "b + d < length x" "\<And>e. e < d \<Longrightarrow> x ! (a + e) = x ! (b + e)" "x ! (a + d) < x ! (b + d)"
  shows "drop a x < drop b (x :: int list)"
proof -
  have "below (drop a x) (drop b x)" unfolding below_def
    using assms take_drop_eq [of d x a b] by (intro exI [of _ d]) (simp add: less_diff_conv add.commute)
  then show ?thesis using below_less [of "drop a x" "drop b x" "[]" "[]"] by simp
qed

lemma drop_less_prefix:
  assumes "a < b" "b < length x" "\<And>i. b + i < length x \<Longrightarrow> x ! (b + i) = x ! (a + i)"
  shows "drop b x < drop a (x :: int list)"
proof -
  let ?n = "length x - b"
  have "take ?n (drop a x) = take ?n (drop b x)" using assms by (intro take_drop_eq) auto
  then have "drop a x = drop b x @ drop ?n (drop a x)" using append_take_drop_id [of ?n "drop a x"] by simp
  moreover have "drop ?n (drop a x) \<noteq> []" using assms(1,2) by simp
  ultimately show ?thesis using less_longer by metis
qed

lemma rep_steps:
  "(\<And>i. s \<le> i \<Longrightarrow> i + p < e \<Longrightarrow> x ! i = x ! (i + p)) \<Longrightarrow> s + i + c * p < e \<Longrightarrow> x ! (s + i + c * p) = x ! (s + i)"
proof (induction c)
  case (Suc c)
  then have "x ! (s + i + c * p) = x ! (s + i + c * p + p)" by (simp add: algebra_simps)
  then show ?case using Suc by (simp add: algebra_simps)
qed simp

lemma suffix_invD:
  assumes "suffix_inv x s j k p"
  obtains c where "0 < c" "j + 1 = s + c * p" "0 < k" "k \<le> p" "\<And>t. t < s \<Longrightarrow> drop t x < drop s x"
    "\<And>i d. s + i + d * p < j + k \<Longrightarrow> x ! (s + i + d * p) = x ! (s + i)" "head_low x s p" "j + k \<le> length x"
proof -
  from assms obtain c where "0 < c" "j + 1 = s + c * p" by (auto simp: suffix_inv_def)
  moreover have "x ! (s + i + d * p) = x ! (s + i)" if "s + i + d * p < j + k" for i d
    using assms that by (intro rep_steps [where e = "j + k"]) (auto simp: suffix_inv_def)
  ultimately show thesis using that assms by (auto simp: suffix_inv_def)
qed

lemma suffix_inv_init: "x \<noteq> [] \<Longrightarrow> suffix_inv x 0 0 1 1"
  by (auto simp: suffix_inv_def head_low_def Suc_le_eq intro!: exI [of _ 1])

lemma suffix_inv_same:
  assumes inv: "suffix_inv x s j k p" and "j + k < length x" "x ! (j + k) = x ! (s + k - 1)"
  shows "if k \<noteq> p then suffix_inv x s j (k + 1) p else suffix_inv x s (j + p) 1 p"
proof -
  from inv obtain c where c: "0 < c" "j + 1 = s + c * p" "0 < k" "k \<le> p" "\<And>t. t < s \<Longrightarrow> drop t x < drop s x"
    "\<And>i d. s + i + d * p < j + k \<Longrightarrow> x ! (s + i + d * p) = x ! (s + i)" "head_low x s p" "j + k \<le> length x"
    by (rule suffix_invD) blast
  have jk: "j + k = s + (k - 1) + c * p" using c(2,3) by simp
  have last: "x ! i = x ! (i + p)" if "s \<le> i" "i + p = j + k" for i
  proof -
    obtain c' where "c = Suc c'" using c(1) by (cases c) auto
    then have i: "i = s + (k - 1) + c' * p" using that jk by simp
    then have "x ! i = x ! (s + (k - 1))" using c(6) [of "k - 1" c'] c(3,4) that by simp
    then show ?thesis using assms(3) c(3) that(2) by simp
  qed
  have rep: "x ! i = x ! (i + p)" if "s \<le> i" "i + p < j + k + 1" for i
    using last [of i] that inv by (cases "i + p = j + k") (auto simp: suffix_inv_def)
  have "j + p + 1 = s + Suc c * p" using c(2) by simp
  then show ?thesis using c rep assms(2) by (auto simp: suffix_inv_def)
qed

lemma suffix_inv_less:
  assumes inv: "suffix_inv x s j k p" and "j + k < length x" "x ! (j + k) < x ! (s + k - 1)"
  shows "suffix_inv x s (j + k) 1 (j + k + 1 - s)"
proof -
  from inv obtain c where c: "0 < c" "j + 1 = s + c * p" "0 < k" "k \<le> p" "\<And>t. t < s \<Longrightarrow> drop t x < drop s x"
    "\<And>i d. s + i + d * p < j + k \<Longrightarrow> x ! (s + i + d * p) = x ! (s + i)" "head_low x s p" "j + k \<le> length x"
    by (rule suffix_invD) blast
  have jk: "j + k = s + (k - 1) + c * p" using c(2,3) by simp
  let ?P = "j + k + 1 - s"
  have P: "?P = k + c * p" "s + ?P = j + k + 1" using jk c(3) by simp_all
  have "\<exists>d. q + d < ?P \<and> (\<forall>e < d. x ! (s + q + e) = x ! (s + e)) \<and> x ! (s + q + d) < x ! (s + d)" if q: "0 < q" "q < ?P" for q
  proof -
    define i r where "i = q div p" and "r = q mod p"
    have qi: "q = r + i * p" "r < p" using c(3,4) by (simp_all add: i_def r_def)
    have ic: "i \<le> c"
    proof (rule ccontr)
      assume "\<not> i \<le> c"
      then have "Suc c * p \<le> i * p" by (intro mult_right_mono) auto
      then show False using q(2) P(1) qi(1) c(4) by simp
    qed
    have rep: "x ! (s + q + e) = x ! (s + r + e)" if "q + e < ?P - 1" for e
      using c(6) [of "r + e" i] that P(2) qi(1) by (simp add: ac_simps)
    show ?thesis
    proof (cases "r = 0")
      case True
      then have i: "0 < i" using q(1) qi(1) by auto
      define d where "d = k - 1 + (c - i) * p"
      have "i * p + (c - i) * p = c * p" using ic by (metis add_mult_distrib le_add_diff_inverse)
      then have dd: "q + d = k - 1 + c * p" using qi(1) True by (simp add: d_def)
      have "s + (k - 1) + (c - i) * p < j + k" using q(1) jk dd unfolding d_def by linarith
      from c(6) [OF this] have "x ! (s + d) = x ! (s + (k - 1))" by (simp add: d_def add.assoc)
      moreover have "s + q + d = j + k" "s + k - 1 = s + (k - 1)" using jk dd c(3) by simp_all
      ultimately have "x ! (s + q + d) < x ! (s + d)" using assms(3) by simp
      moreover have "x ! (s + q + e) = x ! (s + e)" if "e < d" for e using rep [of e] that dd jk True by simp
      ultimately show ?thesis using dd P(1) c(3) by (intro exI [of _ d]) auto
    next
      case False
      then obtain d where d: "r + d < p" "\<And>e. e < d \<Longrightarrow> x ! (s + r + e) = x ! (s + e)" "x ! (s + r + d) < x ! (s + d)"
        using c(7) qi(2) unfolding head_low_def by blast
      show ?thesis
      proof (cases "q + d < ?P - 1")
        case True
        then show ?thesis using d rep by (intro exI [of _ d]) auto
      next
        case F: False
        define e where "e = ?P - 1 - q"
        have e: "q + e = ?P - 1" "e \<le> d" using q F by (simp_all add: e_def)
        have "i = c"
        proof (rule ccontr)
          assume "i \<noteq> c"
          then have "Suc i * p \<le> c * p" using ic by (intro mult_right_mono) auto
          then show False using e P(1) qi(1) d(1) c(3) by simp
        qed
        then have re: "r + e = k - 1" using e(1) P(1) qi(1) by simp
        have "s + q + e = j + k" "s + k - 1 = s + (k - 1)" using e(1) jk c(3) by simp_all
        then have "x ! (s + q + e) < x ! (s + (k - 1))" using assms(3) by simp
        also have "x ! (s + (k - 1)) \<le> x ! (s + e)"
          using d(2) [of e] d(3) e(2) re by (cases "e = d") (auto simp: add.assoc)
        finally have "x ! (s + q + e) < x ! (s + e)" .
        moreover have "x ! (s + q + f) = x ! (s + f)" if "f < e" for f using rep [of f] d(2) [of f] e that by simp
        ultimately show ?thesis using e(1) P(1) c(3) by (intro exI [of _ e]) auto
      qed
    qed
  qed
  then have "head_low x s ?P" by (simp add: head_low_def)
  moreover have "\<exists>c > 0. j + k + 1 = s + c * ?P" using P(2) by (intro exI [of _ 1]) simp
  moreover have "0 < ?P" using P(1) c(3) by simp
  ultimately show ?thesis using c(5) assms(2) P(2) by (auto simp: suffix_inv_def)
qed

lemma suffix_inv_greater:
  assumes inv: "suffix_inv x s j k p" and "j + k < length x" "x ! (s + k - 1) < x ! (j + k)"
  shows "suffix_inv x (j + 1) (j + 1) 1 1"
proof -
  from inv obtain c where c: "0 < c" "j + 1 = s + c * p" "0 < k" "k \<le> p" "\<And>t. t < s \<Longrightarrow> drop t x < drop s x"
    "\<And>i d. s + i + d * p < j + k \<Longrightarrow> x ! (s + i + d * p) = x ! (s + i)" "head_low x s p" "j + k \<le> length x"
    by (rule suffix_invD) blast
  have ip: "s + i * p + p \<le> j + 1" if "i < c" for i
    using mult_right_mono [of "Suc i" c p] that c(2) by simp
  have mult: "drop (s + i * p) x < drop (j + 1) x" if i: "i < c" for i
  proof (rule drop_less [where d = "k - 1"])
    show "j + 1 + (k - 1) < length x" using assms(2) c(3) by simp
    then show "s + i * p + (k - 1) < length x" using ip [OF i] c(3,4) by simp
    show "x ! (s + i * p + e) = x ! (j + 1 + e)" if "e < k - 1" for e
      using c(6) [of e i] c(6) [of e c] ip [OF i] c(2,4) that by (simp add: ac_simps)
    have "x ! (s + i * p + (k - 1)) = x ! (s + k - 1)" using c(6) [of "k - 1" i] ip [OF i] c(3,4) by (simp add: ac_simps)
    then show "x ! (s + i * p + (k - 1)) < x ! (j + 1 + (k - 1))" using assms(3) c(3) by simp
  qed
  have "drop t x < drop (j + 1) x" if t: "t < j + 1" for t
  proof (cases "t < s")
    case True
    then show ?thesis using c(5) [OF True] mult [OF c(1)] c(1) mult [of 0] by (auto intro: less_trans)
  next
    case False
    define i r where "i = (t - s) div p" and "r = (t - s) mod p"
    have tr: "t = s + r + i * p" "r < p" using False c(3,4) by (simp_all add: i_def r_def)
    have i: "i < c"
    proof (rule ccontr)
      assume "\<not> i < c"
      then have "c * p \<le> i * p" by simp
      then show False using t c(2) tr by linarith
    qed
    show ?thesis
    proof (cases "r = 0")
      case True
      then show ?thesis using mult [OF i] tr(1) by simp
    next
      case False
      then obtain d where d: "r + d < p" "\<And>e. e < d \<Longrightarrow> x ! (s + r + e) = x ! (s + e)" "x ! (s + r + d) < x ! (s + d)"
        using c(7) tr(2) unfolding head_low_def by blast
      have rep: "x ! (t + e) = x ! (s + r + e)" "x ! (s + i * p + e) = x ! (s + e)" if "r + e < p" for e
        using c(6) [of "r + e" i] c(6) [of e i] ip [OF i] that tr(1) c(3) by (simp_all add: ac_simps)
      have "drop t x < drop (s + i * p) x"
        using d rep ip [OF i] tr(1) c(3,8) by (intro drop_less [where d = d]) auto
      then show ?thesis using mult [OF i] by (rule less_trans)
    qed
  qed
  then show ?thesis using assms(2) c(3) by (auto simp: suffix_inv_def head_low_def intro!: exI [of _ 1])
qed

lemma suffix_inv_end:
  assumes inv: "suffix_inv x s j k p" and "j + k = length x"
  shows "max_suffix x s \<and> period (drop s x) p \<and> (\<forall>r. period (drop s x) r \<longrightarrow> p \<le> r)"
proof -
  from inv obtain c where c: "0 < c" "j + 1 = s + c * p" "0 < k" "k \<le> p" "\<And>t. t < s \<Longrightarrow> drop t x < drop s x"
    "\<And>i d. s + i + d * p < j + k \<Longrightarrow> x ! (s + i + d * p) = x ! (s + i)" "head_low x s p" "j + k \<le> length x"
    by (rule suffix_invD) blast
  have "1 * p \<le> c * p" using c(1) by (intro mult_right_mono) auto
  then have sp: "s + p \<le> length x" using c(2,3) assms(2) by linarith
  have "drop t x < drop s x" if t: "s < t" "t < length x" for t
  proof -
    define i r where "i = (t - s) div p" and "r = (t - s) mod p"
    have tr: "t = s + r + i * p" "r < p" using t(1) c(3,4) by (simp_all add: i_def r_def)
    have rep: "x ! (t + e) = x ! (s + r + e)" if "t + e < length x" for e
      using c(6) [of "r + e" i] that tr(1) assms(2) by (simp add: ac_simps)
    show ?thesis
    proof (cases "r = 0")
      case True
      then show ?thesis using t rep by (intro drop_less_prefix) auto
    next
      case False
      then obtain d where d: "r + d < p" "\<And>e. e < d \<Longrightarrow> x ! (s + r + e) = x ! (s + e)" "x ! (s + r + d) < x ! (s + d)"
        using c(7) tr(2) unfolding head_low_def by blast
      show ?thesis
      proof (cases "t + d < length x")
        case True
        then show ?thesis using d rep t by (intro drop_less [where d = d]) auto
      next
        case False
        then show ?thesis using d rep t by (intro drop_less_prefix) auto
      qed
    qed
  qed
  then have "max_suffix x s"
    using c(3,4,5) sp unfolding max_suffix_def by (auto simp: nat_neq_iff)
  moreover have "period (drop s x) p"
    using inv assms(2) c(3,4) by (auto simp: period_def suffix_inv_def ac_simps)
  moreover have "p \<le> r" if r: "period (drop s x) r" for r
  proof (rule ccontr)
    assume "\<not> p \<le> r"
    then obtain d where d: "r + d < p" "x ! (s + r + d) < x ! (s + d)"
      using c(7) r unfolding head_low_def period_def by (meson not_le)
    have "drop s x ! d = drop s x ! (d + r)" using r d(1) sp by (simp add: period_def)
    then show False using d sp by (simp add: ac_simps)
  qed
  ultimately show ?thesis by blast
qed

end
