(* ===== verification/Loops.thy ===== *)
theory Loops
  imports Main "HOL-Library.Monad_Syntax"
begin

text \<open>
  Loops whose body may fault, end the loop with a result, or go on with a new state.  A loop that does not end has the
  value \<open>None\<close>, like one that faults; the rule below shows that a loop returns.
\<close>

partial_function (option) loop :: "('s \<Rightarrow> ('r + 's) option) \<Rightarrow> 's \<Rightarrow> 'r option" where
  "loop body s = do { r \<leftarrow> body s; case r of Inl x \<Rightarrow> Some x | Inr s \<Rightarrow> loop body s }"

declare loop.simps [code]

text \<open>Total correctness of a loop: an invariant and a measure\<close>

lemma loop_rule:
  assumes "\<And>s. I s \<Longrightarrow> \<exists>r. body s = Some r \<and> (case r of Inl x \<Rightarrow> Q x | Inr s' \<Rightarrow> I s' \<and> f s' < (f s :: nat))" "I s"
  shows "\<exists>x. loop body s = Some x \<and> Q x"
  using assms(2)
proof (induction s rule: measure_induct_rule [of f])
  case (less s)
  from assms(1) [OF less.prems] obtain r where r: "body s = Some r"
    "case r of Inl x \<Rightarrow> Q x | Inr s' \<Rightarrow> I s' \<and> f s' < f s" by blast
  show ?case
  proof (cases r)
    case (Inl x)
    with r show ?thesis by (subst loop.simps) simp
  next
    case (Inr s')
    with r less.IH [of s'] show ?thesis by (subst loop.simps) simp
  qed
qed

text \<open>One loop follows another when their bodies agree along a map of the states.\<close>

lemma loop_follows:
  assumes "\<And>s. body' (f s) = map_option (map_sum id f) (body s)"
    "loop body s = Some x"
  shows "loop body' (f s) = Some x"
proof -
  have "b = body \<longrightarrow> loop body' (f s) = Some x" if "loop b s = Some x" for b
  proof (rule loop.raw_induct [where P = "\<lambda>b s x. b = body \<longrightarrow> loop body' (f s) = Some x", OF _ that])
    fix lp b s x
    assume IH: "\<And>b s x. lp b s = Some x \<Longrightarrow> b = body \<longrightarrow> loop body' (f s) = Some x"
      and eq: "b s \<bind> (\<lambda>r. case r of Inl x \<Rightarrow> Some x | Inr s \<Rightarrow> lp b s) = Some x"
    show "b = body \<longrightarrow> loop body' (f s) = Some x"
    proof
      assume b: "b = body"
      obtain r where r: "body s = Some r" "(case r of Inl x \<Rightarrow> Some x | Inr s \<Rightarrow> lp body s) = Some x"
        using eq b by (cases "b s") auto
      have "body' (f s) = Some (map_sum id f r)" using assms(1) r(1) by simp
      then show "loop body' (f s) = Some x" using r(2) IH [of body] by (subst loop.simps) (cases r; simp)
    qed
  qed
  then show ?thesis using assms(2) by blast
qed

end
