(* ===== verification/TwoWay.thy ===== *)
theory TwoWay
  imports StrCompare Periods Loops
begin

text \<open>
  Searching for a substring: \<^verbatim>\<open>str-two-way.h\<close> of \<^verbatim>\<open>src/runtime/libc/string\<close> and the three routines built on it, \<^verbatim>\<open>memmem.c\<close>,
  \<^verbatim>\<open>strstr.c\<close> and \<^verbatim>\<open>strcasestr.c\<close>, in the version compiled for speed.

  The header is included three times with different macros, which are parameters here: \<open>canon\<close> for \<^verbatim>\<open>CANON_ELEMENT\<close>, \<open>cmp\<close>
  for \<^verbatim>\<open>CMP_FUNC\<close>, and \<open>available hlen j\<close> for \<^verbatim>\<open>AVAILABLE\<close>, which returns the new known length of the haystack when
  the window at \<open>j\<close> lies in it.  The loops read needle and haystack only as \<^verbatim>\<open>CANON_ELEMENT (needle[i])\<close> and
  \<^verbatim>\<open>CANON_ELEMENT (haystack[i])\<close>, which are the functions \<open>needle\<close> and \<open>haystack\<close> below, made by
  \<open>element\<close> from the memory; they return the index of the window or \<open>None\<close> for a null pointer.  An index that starts
  at \<^verbatim>\<open>SIZE_MAX\<close>, which stands for -1, is kept one higher here, so that it is a natural number.
\<close>

section \<open>The routines\<close>

definition element :: "(byte \<Rightarrow> byte) \<Rightarrow> mem \<Rightarrow> addr \<Rightarrow> nat \<Rightarrow> byte option" where
  "element canon m p i = map_option canon (load8 m (p + i))"

text \<open>The two loops of \<^verbatim>\<open>critical_factorization\<close>; \<open>s\<close> is \<^verbatim>\<open>max_suffix + 1\<close>.\<close>

partial_function (option) max_suffix_loop ::
    "(byte \<Rightarrow> byte \<Rightarrow> bool) \<Rightarrow> (nat \<Rightarrow> byte option) \<Rightarrow> nat \<Rightarrow> nat \<Rightarrow> nat \<Rightarrow> nat \<Rightarrow> nat \<Rightarrow> (nat \<times> nat) option" where
  "max_suffix_loop lt needle needle_len s j k p =
     (if j + k < needle_len
      then do { a \<leftarrow> needle (j + k);
                b \<leftarrow> needle (s + k - 1);
                if lt a b then max_suffix_loop lt needle needle_len s (j + k) 1 (j + k + 1 - s)
                else if a = b
                then if k \<noteq> p then max_suffix_loop lt needle needle_len s j (k + 1) p
                     else max_suffix_loop lt needle needle_len s (j + p) 1 p
                else max_suffix_loop lt needle needle_len (j + 1) (j + 1) 1 1 }
      else Some (s, p))"

definition critical_factorization :: "(nat \<Rightarrow> byte option) \<Rightarrow> nat \<Rightarrow> (nat \<times> nat) option" where
  "critical_factorization needle needle_len =
     do { (s, p) \<leftarrow> max_suffix_loop (<) needle needle_len 0 0 1 1;
          (s_rev, p_rev) \<leftarrow> max_suffix_loop (>) needle needle_len 0 0 1 1;
          Some (if s_rev < s then (s, p) else (s_rev, p_rev)) }"

text \<open>Scan for matches in the right half, and in the left half (\<open>c\<close> is \<^verbatim>\<open>i + 1\<close>).\<close>

partial_function (option) right_scan ::
    "(nat \<Rightarrow> byte option) \<Rightarrow> (nat \<Rightarrow> byte option) \<Rightarrow> nat \<Rightarrow> nat \<Rightarrow> nat \<Rightarrow> nat option" where
  "right_scan needle haystack limit j i =
     (if i < limit
      then do { a \<leftarrow> needle i; b \<leftarrow> haystack (i + j);
                if a = b then right_scan needle haystack limit j (i + 1) else Some i }
      else Some i)"

partial_function (option) left_scan ::
    "(nat \<Rightarrow> byte option) \<Rightarrow> (nat \<Rightarrow> byte option) \<Rightarrow> nat \<Rightarrow> nat \<Rightarrow> nat \<Rightarrow> nat option" where
  "left_scan needle haystack memory j c =
     (if memory < c
      then do { a \<leftarrow> needle (c - 1); b \<leftarrow> haystack (c - 1 + j);
                if a = b then left_scan needle haystack memory j (c - 1) else Some c }
      else Some c)"

text \<open>The bodies of the two loops of \<^verbatim>\<open>two_way_short_needle\<close>; the state is the known length of the haystack, \<^verbatim>\<open>j\<close> and \<^verbatim>\<open>memory\<close>.\<close>

definition short_periodic ::
    "(nat \<Rightarrow> nat \<Rightarrow> nat option option) \<Rightarrow> (nat \<Rightarrow> byte option) \<Rightarrow> (nat \<Rightarrow> byte option) \<Rightarrow> nat \<Rightarrow> nat \<Rightarrow> nat \<Rightarrow>
     nat \<times> nat \<times> nat \<Rightarrow> (nat option + nat \<times> nat \<times> nat) option" where
  "short_periodic available haystack needle needle_len suffix per = (\<lambda>(hlen, j, memory).
     do { r \<leftarrow> available hlen j;
          case r of
            None \<Rightarrow> Some (Inl None)
          | Some hlen \<Rightarrow>
              do { i \<leftarrow> right_scan needle haystack needle_len j (max suffix memory);
                   if needle_len \<le> i
                   then do { c \<leftarrow> left_scan needle haystack memory j suffix;
                             if c < memory + 1 then Some (Inl (Some j))
                             else Some (Inr (hlen, j + per, needle_len - per)) }
                   else Some (Inr (hlen, j + (i - suffix + 1), 0)) } })"

definition short_distinct ::
    "(nat \<Rightarrow> nat \<Rightarrow> nat option option) \<Rightarrow> (nat \<Rightarrow> byte option) \<Rightarrow> (nat \<Rightarrow> byte option) \<Rightarrow> nat \<Rightarrow> nat \<Rightarrow> nat \<Rightarrow>
     nat \<times> nat \<Rightarrow> (nat option + nat \<times> nat) option" where
  "short_distinct available haystack needle needle_len suffix per = (\<lambda>(hlen, j).
     do { r \<leftarrow> available hlen j;
          case r of
            None \<Rightarrow> Some (Inl None)
          | Some hlen \<Rightarrow>
              do { i \<leftarrow> right_scan needle haystack needle_len j suffix;
                   if needle_len \<le> i
                   then do { c \<leftarrow> left_scan needle haystack 0 j suffix;
                             if c = 0 then Some (Inl (Some j)) else Some (Inr (hlen, j + per)) }
                   else Some (Inr (hlen, j + (i - suffix + 1))) } })"

text \<open>The result of a search as a pointer\<close>

definition at_index :: "addr \<Rightarrow> nat option \<Rightarrow> addr" where
  "at_index p r = (case r of None \<Rightarrow> NULL | Some j \<Rightarrow> p + j)"

definition two_way_short_needle ::
    "(nat \<Rightarrow> nat \<Rightarrow> nat option option) \<Rightarrow> (mem \<Rightarrow> addr \<Rightarrow> addr \<Rightarrow> nat \<Rightarrow> int option) \<Rightarrow> (byte \<Rightarrow> byte) \<Rightarrow>
     mem \<Rightarrow> addr \<Rightarrow> nat \<Rightarrow> addr \<Rightarrow> nat \<Rightarrow> addr option" where
  "two_way_short_needle available cmp canon m haystack haystack_len needle needle_len =
     (let h = element canon m haystack; x = element canon m needle in
      do { (suffix, per) \<leftarrow> critical_factorization x needle_len;
           r \<leftarrow> cmp m needle (needle + per) suffix;
           j \<leftarrow> (if r = 0 then loop (short_periodic available h x needle_len suffix per) (haystack_len, 0, 0)
                else loop (short_distinct available h x needle_len suffix (max suffix (needle_len - suffix) + 1)) (haystack_len, 0));
           Some (at_index haystack j) })"

text \<open>The bad-character table of \<^verbatim>\<open>two_way_long_needle\<close>; \<open>r\<close> characters are still to be entered.\<close>

primrec shift_fill :: "(nat \<Rightarrow> byte option) \<Rightarrow> nat \<Rightarrow> nat \<Rightarrow> (byte \<Rightarrow> nat) \<Rightarrow> (byte \<Rightarrow> nat) option" where
  "shift_fill needle needle_len 0 tab = Some tab"
| "shift_fill needle needle_len (Suc r) tab =
     (let i = needle_len - Suc r in
      do { b \<leftarrow> needle i; shift_fill needle needle_len r (tab(b := needle_len - i - 1)) })"

definition shift_table :: "(nat \<Rightarrow> byte option) \<Rightarrow> nat \<Rightarrow> (byte \<Rightarrow> nat) option" where
  "shift_table needle needle_len = shift_fill needle needle_len needle_len (\<lambda>_. needle_len)"

text \<open>The bodies of the two loops of \<^verbatim>\<open>two_way_long_needle\<close>\<close>

definition long_periodic ::
    "(nat \<Rightarrow> nat \<Rightarrow> nat option option) \<Rightarrow> (nat \<Rightarrow> byte option) \<Rightarrow> (nat \<Rightarrow> byte option) \<Rightarrow> nat \<Rightarrow> (byte \<Rightarrow> nat) \<Rightarrow> nat \<Rightarrow> nat \<Rightarrow>
     nat \<times> nat \<times> nat \<Rightarrow> (nat option + nat \<times> nat \<times> nat) option" where
  "long_periodic available haystack needle needle_len tab suffix per = (\<lambda>(hlen, j, memory).
     do { r \<leftarrow> available hlen j;
          case r of
            None \<Rightarrow> Some (Inl None)
          | Some hlen \<Rightarrow>
              do { l \<leftarrow> haystack (j + needle_len - 1);
                   let shift = tab l;
                   if 0 < shift
                   then if memory \<noteq> 0 \<and> shift < per then Some (Inr (hlen, j + (needle_len - per), 0))
                        else Some (Inr (hlen, j + shift, memory))
                   else do { i \<leftarrow> right_scan needle haystack (needle_len - 1) j (max suffix memory);
                             if needle_len - 1 \<le> i
                             then do { c \<leftarrow> left_scan needle haystack memory j suffix;
                                       if c < memory + 1 then Some (Inl (Some j))
                                       else Some (Inr (hlen, j + per, needle_len - per)) }
                             else Some (Inr (hlen, j + (i - suffix + 1), 0)) } } })"

definition long_distinct ::
    "(nat \<Rightarrow> nat \<Rightarrow> nat option option) \<Rightarrow> (nat \<Rightarrow> byte option) \<Rightarrow> (nat \<Rightarrow> byte option) \<Rightarrow> nat \<Rightarrow> (byte \<Rightarrow> nat) \<Rightarrow> nat \<Rightarrow> nat \<Rightarrow>
     nat \<times> nat \<Rightarrow> (nat option + nat \<times> nat) option" where
  "long_distinct available haystack needle needle_len tab suffix per = (\<lambda>(hlen, j).
     do { r \<leftarrow> available hlen j;
          case r of
            None \<Rightarrow> Some (Inl None)
          | Some hlen \<Rightarrow>
              do { l \<leftarrow> haystack (j + needle_len - 1);
                   let shift = tab l;
                   if 0 < shift then Some (Inr (hlen, j + shift))
                   else do { i \<leftarrow> right_scan needle haystack (needle_len - 1) j suffix;
                             if needle_len - 1 \<le> i
                             then do { c \<leftarrow> left_scan needle haystack 0 j suffix;
                                       if c = 0 then Some (Inl (Some j)) else Some (Inr (hlen, j + per)) }
                             else Some (Inr (hlen, j + (i - suffix + 1))) } } })"

definition two_way_long_needle ::
    "(nat \<Rightarrow> nat \<Rightarrow> nat option option) \<Rightarrow> (mem \<Rightarrow> addr \<Rightarrow> addr \<Rightarrow> nat \<Rightarrow> int option) \<Rightarrow> (byte \<Rightarrow> byte) \<Rightarrow>
     mem \<Rightarrow> addr \<Rightarrow> nat \<Rightarrow> addr \<Rightarrow> nat \<Rightarrow> addr option" where
  "two_way_long_needle available cmp canon m haystack haystack_len needle needle_len =
     (let h = element canon m haystack; x = element canon m needle in
      do { (suffix, per) \<leftarrow> critical_factorization x needle_len;
           tab \<leftarrow> shift_table x needle_len;
           r \<leftarrow> cmp m needle (needle + per) suffix;
           j \<leftarrow> (if r = 0 then loop (long_periodic available h x needle_len tab suffix per) (haystack_len, 0, 0)
                else loop (long_distinct available h x needle_len tab suffix (max suffix (needle_len - suffix) + 1)) (haystack_len, 0));
           Some (at_index haystack j) })"

definition LONG_NEEDLE_THRESHOLD :: nat where
  "LONG_NEEDLE_THRESHOLD = 32"

text \<open>\<^verbatim>\<open>AVAILABLE\<close> of \<^verbatim>\<open>memmem.c\<close>, and of \<^verbatim>\<open>strstr.c\<close> and \<^verbatim>\<open>strcasestr.c\<close>\<close>

definition mem_available :: "nat \<Rightarrow> nat \<Rightarrow> nat \<Rightarrow> nat option option" where
  "mem_available needle_len hlen j = Some (if j \<le> hlen - needle_len then Some hlen else None)"

definition str_available :: "mem \<Rightarrow> addr \<Rightarrow> nat \<Rightarrow> nat \<Rightarrow> nat \<Rightarrow> nat option option" where
  "str_available m haystack needle_len hlen j =
     do { r \<leftarrow> memchr m (haystack + hlen) 0 (j + needle_len - hlen);
          Some (if r = NULL \<and> j + needle_len \<noteq> 0 then Some (j + needle_len) else None) }"

definition memmem :: "mem \<Rightarrow> addr \<Rightarrow> nat \<Rightarrow> addr \<Rightarrow> nat \<Rightarrow> addr option" where
  "memmem m haystack_start haystack_len needle needle_len =
     (if needle_len = 0 then Some haystack_start
      else if haystack_len < needle_len then Some NULL
      else if needle_len < LONG_NEEDLE_THRESHOLD
      then do { b \<leftarrow> load8 m needle;
                haystack \<leftarrow> memchr m haystack_start (ucast b) haystack_len;
                if haystack = NULL \<or> needle_len = 1 then Some haystack
                else let haystack_len = haystack_len - (haystack - haystack_start) in
                     if haystack_len < needle_len then Some NULL
                     else two_way_short_needle (mem_available needle_len) memcmp (\<lambda>c. c) m haystack haystack_len needle needle_len }
      else two_way_long_needle (mem_available needle_len) memcmp (\<lambda>c. c) m haystack_start haystack_len needle needle_len)"

text \<open>\<^verbatim>\<open>while (*haystack && *needle) ok &= *haystack++ == *needle++\<close>\<close>

partial_function (option) prefix_loop :: "(byte \<Rightarrow> byte) \<Rightarrow> mem \<Rightarrow> addr \<Rightarrow> addr \<Rightarrow> bool \<Rightarrow> (addr \<times> addr \<times> bool) option" where
  "prefix_loop canon m haystack needle ok =
     do { a \<leftarrow> load8 m haystack;
          if a = 0 then Some (haystack, needle, ok)
          else do { b \<leftarrow> load8 m needle;
                    if b = 0 then Some (haystack, needle, ok)
                    else prefix_loop canon m (haystack + 1) (needle + 1) (ok \<and> canon a = canon b) } }"

definition strstr :: "mem \<Rightarrow> addr \<Rightarrow> addr \<Rightarrow> addr option" where
  "strstr m searchee lookfor =
     do { (haystack, needle, ok) \<leftarrow> prefix_loop (\<lambda>c. c) m searchee lookfor True;
          b \<leftarrow> load8 m needle;
          if b \<noteq> 0 then Some NULL
          else if ok then Some searchee
          else do { let needle_len = needle - lookfor;
                    c \<leftarrow> load8 m lookfor;
                    haystack \<leftarrow> strchr m (searchee + 1) (scast c);
                    if haystack = NULL \<or> needle_len = 1 then Some haystack
                    else let haystack_len = (if haystack > searchee + needle_len then 1 else needle_len + searchee - haystack) in
                         (if needle_len < LONG_NEEDLE_THRESHOLD then two_way_short_needle else two_way_long_needle)
                           (str_available m haystack needle_len) memcmp (\<lambda>c. c) m haystack haystack_len lookfor needle_len } }"

text \<open>\<^verbatim>\<open>tolower\<close> on an unsigned character\<close>

definition canon_lower :: "byte \<Rightarrow> byte" where
  "canon_lower c = word_of_int (the (tolower (uint c)))"

definition strcasestr :: "mem \<Rightarrow> addr \<Rightarrow> addr \<Rightarrow> addr option" where
  "strcasestr m s fnd =
     do { (haystack, needle, ok) \<leftarrow> prefix_loop canon_lower m s fnd True;
          b \<leftarrow> load8 m needle;
          if b \<noteq> 0 then Some NULL
          else if ok then Some s
          else let needle_len = needle - fnd in
               (if needle_len < LONG_NEEDLE_THRESHOLD then two_way_short_needle else two_way_long_needle)
                 (str_available m (s + 1) needle_len) strncasecmp canon_lower m (s + 1) (needle_len - 1) fnd needle_len }"

section \<open>Scans\<close>

definition reads :: "(nat \<Rightarrow> byte option) \<Rightarrow> byte list \<Rightarrow> bool" where
  "reads f xs \<longleftrightarrow> (\<forall>i < length xs. f i = Some (xs ! i))"

lemma readsD: "reads f xs \<Longrightarrow> i < length xs \<Longrightarrow> f i = Some (xs ! i)"
  by (simp add: reads_def)

lemma reads_element: "bytes m p xs \<Longrightarrow> reads (element canon m p) (map canon xs)"
  by (simp add: reads_def element_def load8_def bytes_nth)

lemma right_scan_ok:
  assumes "reads nd x" "reads hay h" "limit \<le> length x" "j + limit \<le> length h"
  shows "\<exists>i. right_scan nd hay limit j i0 = Some i \<and> i0 \<le> i \<and> (\<forall>t. i0 \<le> t \<longrightarrow> t < i \<longrightarrow> h ! (j + t) = x ! t) \<and>
    (i < limit \<longrightarrow> h ! (j + i) \<noteq> x ! i)"
proof (induction "limit - i0" arbitrary: i0)
  case 0
  then show ?case by (subst right_scan.simps) auto
next
  case (Suc d)
  then have i0: "i0 < limit" by simp
  have rd: "nd i0 = Some (x ! i0)" "hay (i0 + j) = Some (h ! (j + i0))"
    using readsD [OF assms(1), of i0] readsD [OF assms(2), of "i0 + j"] i0 assms(3,4) by (simp_all add: add.commute)
  show ?case
  proof (cases "x ! i0 = h ! (j + i0)")
    case True
    obtain i where "right_scan nd hay limit j (i0 + 1) = Some i" "i0 + 1 \<le> i" "\<forall>t. i0 + 1 \<le> t \<longrightarrow> t < i \<longrightarrow> h ! (j + t) = x ! t"
      "i < limit \<longrightarrow> h ! (j + i) \<noteq> x ! i" using Suc.hyps(1) [of "i0 + 1"] Suc.hyps(2) i0 by force
    moreover have "h ! (j + t) = x ! t" if "i0 \<le> t" "t < i" for t
      using that True calculation(3) by (cases "t = i0") auto
    moreover have "right_scan nd hay limit j i0 = right_scan nd hay limit j (i0 + 1)"
      using rd i0 True by (subst right_scan.simps) simp
    ultimately show ?thesis by (intro exI [of _ i]) simp
  next
    case False
    then show ?thesis using rd i0 by (subst right_scan.simps) auto
  qed
qed

lemma left_scan_ok:
  assumes "reads nd x" "reads hay h" "j + length x \<le> length h"
  shows "c \<le> length x \<Longrightarrow> \<exists>c'. left_scan nd hay memory j c = Some c' \<and> c' \<le> c \<and> (\<forall>t. c' \<le> t \<longrightarrow> t < c \<longrightarrow> h ! (j + t) = x ! t) \<and>
    (memory < c' \<longrightarrow> h ! (j + (c' - 1)) \<noteq> x ! (c' - 1))"
proof (induction c)
  case 0
  then show ?case by (subst left_scan.simps) auto
next
  case (Suc c)
  have rd: "nd c = Some (x ! c)" "hay (c + j) = Some (h ! (j + c))"
    using readsD [OF assms(1), of c] readsD [OF assms(2), of "c + j"] Suc.prems assms(3) by (simp_all add: add.commute)
  show ?case
  proof (cases "memory < Suc c \<and> x ! c = h ! (j + c)")
    case True
    obtain c' where "left_scan nd hay memory j c = Some c'" "c' \<le> c" "\<forall>t. c' \<le> t \<longrightarrow> t < c \<longrightarrow> h ! (j + t) = x ! t"
      "memory < c' \<longrightarrow> h ! (j + (c' - 1)) \<noteq> x ! (c' - 1)" using Suc by auto
    moreover have "h ! (j + t) = x ! t" if "c' \<le> t" "t < Suc c" for t
      using that True calculation(3) by (cases "t = c") auto
    moreover have "left_scan nd hay memory j (Suc c) = left_scan nd hay memory j c"
      using rd True by (subst left_scan.simps) simp
    ultimately show ?thesis by (intro exI [of _ c']) simp
  next
    case False
    then show ?thesis using rd by (subst left_scan.simps) auto
  qed
qed

section \<open>The factorization\<close>

lemma critical_map: "inj f \<Longrightarrow> critical (map f x) l p \<longleftrightarrow> critical x l p"
  by (simp add: critical_def period_map period_at_map)

text \<open>The order in which a loop compares bytes\<close>

locale byte_order =
  fixes lt :: "byte \<Rightarrow> byte \<Rightarrow> bool" and key :: "byte \<Rightarrow> int"
  assumes lt_key: "lt a b \<longleftrightarrow> key a < key b" and key_inj: "inj key"
begin

lemma max_suffix_loop_ok:
  assumes "reads nd x" "suffix_inv (map key x) s j k p"
  shows "\<exists>s' p'. max_suffix_loop lt nd (length x) s j k p = Some (s', p') \<and> max_suffix (map key x) s' \<and>
    period (drop s' x) p' \<and> (\<forall>r. period (drop s' x) r \<longrightarrow> p' \<le> r)"
  using assms(2)
proof (induction "(s, j, k, p)" arbitrary: s j k p
    rule: wf_induct [OF wf_measures [of "[\<lambda>(s, j, k, p). length x - s, \<lambda>(s, j, k, p). length x - (j + k)]"]])
  case 1
  let ?x = "map key x"
  note inv = 1(2)
  obtain c where c: "0 < c" "j + 1 = s + c * p" "0 < k" "k \<le> p" "j + k \<le> length x"
    using inv by (auto simp: suffix_inv_def)
  have "1 * p \<le> c * p" using c(1) by (intro mult_right_mono) auto
  then have sj: "s + p \<le> j + 1" using c(2) by linarith
  show ?case
  proof (cases "j + k < length x")
    case False
    then have "j + k = length ?x" using c(5) by simp
    from suffix_inv_end [OF inv this] show ?thesis
      using False by (subst max_suffix_loop.simps) (simp add: drop_map period_map [OF key_inj])
  next
    case jk: True
    have sk: "s + k - 1 < length x" using sj c jk by simp
    have rd: "nd (j + k) = Some (x ! (j + k))" "nd (s + k - 1) = Some (x ! (s + k - 1))"
      using readsD [OF assms(1)] jk sk by simp_all
    have kx: "?x ! (j + k) = key (x ! (j + k))" "?x ! (s + k - 1) = key (x ! (s + k - 1))" using jk sk by simp_all
    have jk': "j + k < length ?x" using jk by simp
    consider "lt (x ! (j + k)) (x ! (s + k - 1))" | "x ! (j + k) = x ! (s + k - 1)" | "lt (x ! (s + k - 1)) (x ! (j + k))"
      using key_inj by (metis injD lt_key neq_iff)
    then show ?thesis
    proof cases
      case less: 1
      then have "suffix_inv ?x s (j + k) 1 (j + k + 1 - s)" using suffix_inv_less [OF inv jk'] kx lt_key by simp
      with 1(1) jk have "\<exists>s' p'. max_suffix_loop lt nd (length x) s (j + k) 1 (j + k + 1 - s) = Some (s', p') \<and> max_suffix ?x s' \<and>
        period (drop s' x) p' \<and> (\<forall>r. period (drop s' x) r \<longrightarrow> p' \<le> r)" by simp
      then show ?thesis using rd less jk by (subst max_suffix_loop.simps) simp
    next
      case same: 2
      then have n: "\<not> lt (x ! (j + k)) (x ! (s + k - 1))" using lt_key by simp
      from same have step: "if k \<noteq> p then suffix_inv ?x s j (k + 1) p else suffix_inv ?x s (j + p) 1 p"
        using suffix_inv_same [OF inv jk'] kx by simp
      show ?thesis
      proof (cases "k \<noteq> p")
        case True
        with 1(1) jk step have "\<exists>s' p'. max_suffix_loop lt nd (length x) s j (k + 1) p = Some (s', p') \<and> max_suffix ?x s' \<and>
          period (drop s' x) p' \<and> (\<forall>r. period (drop s' x) r \<longrightarrow> p' \<le> r)" by simp
        then show ?thesis using rd same n True jk by (subst max_suffix_loop.simps) simp
      next
        case False
        with 1(1) jk step have "\<exists>s' p'. max_suffix_loop lt nd (length x) s (j + p) 1 p = Some (s', p') \<and> max_suffix ?x s' \<and>
          period (drop s' x) p' \<and> (\<forall>r. period (drop s' x) r \<longrightarrow> p' \<le> r)" by simp
        then show ?thesis using rd same n False jk by (subst max_suffix_loop.simps) simp
      qed
    next
      case greater: 3
      then have n: "\<not> lt (x ! (j + k)) (x ! (s + k - 1))" "x ! (j + k) \<noteq> x ! (s + k - 1)" using lt_key by auto
      have "suffix_inv ?x (j + 1) (j + 1) 1 1" using suffix_inv_greater [OF inv jk'] kx lt_key greater by simp
      moreover have "length x - (j + 1) < length x - s" using jk sj c(3,4) by simp
      ultimately have "\<exists>s' p'. max_suffix_loop lt nd (length x) (j + 1) (j + 1) 1 1 = Some (s', p') \<and> max_suffix ?x s' \<and>
        period (drop s' x) p' \<and> (\<forall>r. period (drop s' x) r \<longrightarrow> p' \<le> r)" using 1(1) by simp
      then show ?thesis using rd n jk by (subst max_suffix_loop.simps) simp
    qed
  qed
qed

lemma max_suffix_loop_reads:
  assumes "reads nd x" "reads nd' x" "x \<noteq> []"
  shows "max_suffix_loop lt nd (length x) 0 0 1 1 = max_suffix_loop lt nd' (length x) 0 0 1 1"
proof -
  have "map key x \<noteq> []" using assms(3) by simp
  note init = suffix_inv_init [OF this]
  obtain s p where 1: "max_suffix_loop lt nd (length x) 0 0 1 1 = Some (s, p)" "max_suffix (map key x) s" "period (drop s x) p"
    "\<forall>r. period (drop s x) r \<longrightarrow> p \<le> r" using max_suffix_loop_ok [OF assms(1) init] by blast
  obtain s' p' where 2: "max_suffix_loop lt nd' (length x) 0 0 1 1 = Some (s', p')" "max_suffix (map key x) s'" "period (drop s' x) p'"
    "\<forall>r. period (drop s' x) r \<longrightarrow> p' \<le> r" using max_suffix_loop_ok [OF assms(2) init] by blast
  have "s = s'"
  proof (rule ccontr)
    assume "s \<noteq> s'"
    then have "drop s (map key x) < drop s' (map key x)" "drop s' (map key x) < drop s (map key x)"
      using 1(2) 2(2) unfolding max_suffix_def by blast+
    then show False by (rule less_asym)
  qed
  moreover from this have "p = p'" using 1(3,4) 2(3,4) by (intro antisym) blast+
  ultimately show ?thesis using 1(1) 2(1) by simp
qed

end

interpretation upward: byte_order "(<)" uint
  by unfold_locales (simp_all add: word_less_def inj_def word_uint_eq_iff)

interpretation downward: byte_order "(>)" "\<lambda>b. - uint b"
  by unfold_locales (simp_all add: word_less_def inj_def word_uint_eq_iff)

lemma critical_factorization_reads:
  assumes "reads nd x" "reads nd' x" "x \<noteq> []"
  shows "critical_factorization nd (length x) = critical_factorization nd' (length x)"
  by (simp only: critical_factorization_def upward.max_suffix_loop_reads [OF assms] downward.max_suffix_loop_reads [OF assms])

lemma critical_factorization_ok:
  assumes "reads nd x" "x \<noteq> []"
  shows "\<exists>l q p. critical_factorization nd (length x) = Some (l, q) \<and> critical x l p \<and> l < p \<and> l < length x \<and> l + q \<le> length x \<and>
    period (drop l x) q \<and> (\<forall>r. period (drop l x) r \<longrightarrow> q \<le> r)"
proof -
  have "map uint x \<noteq> []" "map (\<lambda>b. - uint b) x \<noteq> []" using assms(2) by simp_all
  from upward.max_suffix_loop_ok [OF assms(1) suffix_inv_init [OF this(1)]]
    downward.max_suffix_loop_ok [OF assms(1) suffix_inv_init [OF this(2)]]
  obtain s1 p1 s2 p2 where
    1: "max_suffix_loop (<) nd (length x) 0 0 1 1 = Some (s1, p1)" "max_suffix (map uint x) s1" "period (drop s1 x) p1"
      "\<forall>r. period (drop s1 x) r \<longrightarrow> p1 \<le> r" and
    2: "max_suffix_loop (>) nd (length x) 0 0 1 1 = Some (s2, p2)" "max_suffix (map (\<lambda>b. - uint b) x) s2" "period (drop s2 x) p2"
      "\<forall>r. period (drop s2 x) r \<longrightarrow> p2 \<le> r" by blast
  have "max_suffix (map uminus (map uint x)) s2" using 2(2) by (simp add: comp_def)
  from critical_factorization_exists [OF 1(2) this] obtain p where p: "critical x (max s1 s2) p" "max s1 s2 < p"
    using critical_map [OF upward.key_inj] by blast
  define l q where "l = max s1 s2" and "q = (if s2 < s1 then p1 else p2)"
  have cf: "critical_factorization nd (length x) = Some (l, q)"
    using 1(1) 2(1) by (simp add: critical_factorization_def l_def q_def max_def)
  have q: "period (drop l x) q" "\<forall>r. period (drop l x) r \<longrightarrow> q \<le> r"
    using 1(3,4) 2(3,4) by (auto simp: l_def q_def max_def)
  have l: "l < length x" using 1(2) 2(2) by (simp add: l_def max_suffix_def)
  then have "period (drop l x) (length x - l)" by (simp add: period_def)
  then have "l + q \<le> length x" using q(2) l by fastforce
  then show ?thesis using cf p q l unfolding l_def by blast
qed

section \<open>Searching\<close>

definition first_at :: "'a list \<Rightarrow> 'a list \<Rightarrow> nat option \<Rightarrow> bool" where
  "first_at x h r \<longleftrightarrow> (case r of None \<Rightarrow> \<forall>j. \<not> occurs x h j | Some j \<Rightarrow> occurs x h j \<and> (\<forall>i < j. \<not> occurs x h i))"

text \<open>What \<^verbatim>\<open>AVAILABLE\<close> promises for a needle of length \<open>n\<close> and a haystack of length \<open>N\<close>; \<open>fits hlen j\<close> is what it needs of the known length.\<close>

definition avail_ok :: "(nat \<Rightarrow> nat \<Rightarrow> nat option option) \<Rightarrow> (nat \<Rightarrow> nat \<Rightarrow> bool) \<Rightarrow> nat \<Rightarrow> nat \<Rightarrow> bool" where
  "avail_ok available fits n N \<longleftrightarrow> (\<forall>hlen j. fits hlen j \<longrightarrow>
     (if j + n \<le> N then \<exists>hlen'. available hlen j = Some (Some hlen') \<and> (\<forall>i \<ge> j. fits hlen' i) else available hlen j = Some None))"

lemma no_more: "\<forall>i < j. \<not> occurs x h i \<Longrightarrow> length h < j + length x \<Longrightarrow> \<not> occurs x h i"
  by (cases "i < j") (auto simp: occurs_def)

lemma no_earlier:
  assumes "\<forall>i < j. \<not> occurs x h i" "\<And>d. d < k \<Longrightarrow> \<not> occurs x h (j + d)"
  shows "\<forall>i < j + k. \<not> occurs x h i"
proof (intro allI impI)
  fix i assume "i < j + k"
  then show "\<not> occurs x h i" using assms(1) assms(2) [of "i - j"] by (cases "i < j") auto
qed

lemma avail_cases:
  assumes "avail_ok available fits n N" "fits hlen j"
  obtains "N < j + n" "available hlen j = Some None"
  | hlen' where "j + n \<le> N" "available hlen j = Some (Some hlen')" "\<And>i. j \<le> i \<Longrightarrow> fits hlen' i"
proof -
  have "if j + n \<le> N then \<exists>hlen'. available hlen j = Some (Some hlen') \<and> (\<forall>i \<ge> j. fits hlen' i) else available hlen j = Some None"
    using assms unfolding avail_ok_def by blast
  then show thesis using that by (cases "j + n \<le> N") auto
qed

text \<open>What is excluded after a mismatch in the right half, and after one in the left half only\<close>

lemma right_shift:
  assumes "critical x l p" "l \<le> i" "i < length x" "\<And>t. l \<le> t \<Longrightarrow> t < i \<Longrightarrow> h ! (j + t) = x ! t" "h ! (j + i) \<noteq> x ! i"
    "\<forall>a < j. \<not> occurs x h a"
  shows "\<forall>a < j + (i - l + 1). \<not> occurs x h a"
  using shift_right_mismatch [OF assms(1-5)] by (intro no_earlier [OF assms(6)]) simp

lemma left_shift:
  assumes "critical x l p" "\<And>t. l \<le> t \<Longrightarrow> t < length x \<Longrightarrow> h ! (j + t) = x ! t" "c < length x" "h ! (j + c) \<noteq> x ! c" "q \<le> p"
    "\<forall>a < j. \<not> occurs x h a"
  shows "\<forall>a < j + q. \<not> occurs x h a"
proof (rule no_earlier [OF assms(6)])
  fix d assume "d < q"
  moreover have "\<not> occurs x h j" using assms(3,4) unfolding occurs_def by blast
  ultimately show "\<not> occurs x h (j + d)" using shift_right_match [OF assms(1,2)] assms(5) by (cases "d = 0") auto
qed

lemma short_periodic_ok:
  assumes "critical x l p" "l < p" "l < length x" "reads nd x" "reads hay h" "avail_ok available fits (length x) (length h)" "fits hlen 0"
  shows "\<exists>r. loop (short_periodic available hay nd (length x) l p) (hlen, 0, 0) = Some r \<and> first_at x h r"
proof -
  let ?n = "length x"
  let ?I = "\<lambda>(hlen, j, memory). fits hlen j \<and> (\<forall>i < j. \<not> occurs x h i) \<and> (memory = 0 \<or> memory = ?n - p \<and> (\<forall>i < memory. h ! (j + i) = x ! i))"
  let ?f = "\<lambda>(hlen :: nat, j, memory :: nat). length h + 1 - j"
  have px: "period x p" "0 < p" using assms(1) by (auto simp: critical_def period_def)
  show ?thesis
  proof (rule loop_rule [where I = ?I and f = ?f])
    fix s
    assume I: "?I s"
    obtain hlen j memory where s: "s = (hlen, j, memory)" by (cases s)
    have no: "\<forall>i < j. \<not> occurs x h i" and mem: "\<And>i. i < memory \<Longrightarrow> h ! (j + i) = x ! i" and mn: "memory \<le> ?n"
      using I s by auto
    show "\<exists>r. short_periodic available hay nd ?n l p s = Some r \<and> (case r of Inl r \<Rightarrow> first_at x h r | Inr s' \<Rightarrow> ?I s' \<and> ?f s' < ?f s)"
    proof (cases rule: avail_cases [OF assms(6), of hlen j])
      case 1
      then show ?case using I s by simp
    next
      case 2
      then show ?thesis using s no_more [OF no] by (simp add: short_periodic_def first_at_def)
    next
      case (3 hlen')
      obtain i where i: "right_scan nd hay ?n j (max l memory) = Some i" "max l memory \<le> i"
        "\<And>t. max l memory \<le> t \<Longrightarrow> t < i \<Longrightarrow> h ! (j + t) = x ! t" "i < ?n \<Longrightarrow> h ! (j + i) \<noteq> x ! i"
        using right_scan_ok [OF assms(4,5) order_refl 3(1), of "max l memory"] by blast
      have right: "h ! (j + t) = x ! t" if "l \<le> t" "t < i" for t using i(3) [of t] mem [of t] that by (cases "t < memory") auto
      show ?thesis
      proof (cases "?n \<le> i")
        case False
        define j' where "j' = j + (i - l + 1)"
        have "\<forall>a < j'. \<not> occurs x h a" using right_shift [OF assms(1) _ _ right i(4) no] i(2) False by (simp add: j'_def)
        moreover have "fits hlen' j'" "length h + 1 - j' < length h + 1 - j" using 3 by (simp_all add: j'_def)
        moreover have "short_periodic available hay nd ?n l p s = Some (Inr (hlen', j', 0))"
          using s i(1) 3(2) False by (simp add: short_periodic_def j'_def)
        ultimately show ?thesis using s by simp
      next
        case True
        obtain c where c: "left_scan nd hay memory j l = Some c" "c \<le> l" "\<And>t. c \<le> t \<Longrightarrow> t < l \<Longrightarrow> h ! (j + t) = x ! t"
          "memory < c \<Longrightarrow> h ! (j + (c - 1)) \<noteq> x ! (c - 1)"
          using left_scan_ok [OF assms(4,5) 3(1), of l memory] assms(3) by auto
        have rt: "h ! (j + t) = x ! t" if "l \<le> t" "t < ?n" for t using right that True by simp
        show ?thesis
        proof (cases "c \<le> memory")
          case True
          have "h ! (j + t) = x ! t" if "t < ?n" for t using mem [of t] c(3) [of t] rt [of t] True that by force
          then have "occurs x h j" using 3(1) by (simp add: occurs_def)
          then show ?thesis using s i c 3 no \<open>?n \<le> i\<close> True by (simp add: short_periodic_def first_at_def)
        next
          case False
          have "\<forall>a < j + p. \<not> occurs x h a" using left_shift [OF assms(1) rt _ c(4) order_refl no] c(2) False assms(3) by simp
          moreover have "h ! (j + p + a) = x ! a" if "a < ?n - p" for a
            using rt [of "p + a"] px(1) that assms(2) by (simp add: period_def ac_simps)
          ultimately show ?thesis using s i c 3 px(2) \<open>?n \<le> i\<close> False by (simp add: short_periodic_def)
        qed
      qed
    qed
  qed (use assms(7) in simp)
qed

lemma short_distinct_ok:
  assumes "critical x l p" "l < length x" "reads nd x" "reads hay h" "avail_ok available fits (length x) (length h)" "fits hlen 0"
    "0 < q" "q \<le> p"
  shows "\<exists>r. loop (short_distinct available hay nd (length x) l q) (hlen, 0) = Some r \<and> first_at x h r"
proof -
  let ?n = "length x"
  let ?I = "\<lambda>(hlen, j). fits hlen j \<and> (\<forall>i < j. \<not> occurs x h i)"
  let ?f = "\<lambda>(hlen :: nat, j). length h + 1 - j"
  show ?thesis
  proof (rule loop_rule [where I = ?I and f = ?f])
    fix s
    assume I: "?I s"
    obtain hlen j where s: "s = (hlen, j)" by (cases s)
    have no: "\<forall>i < j. \<not> occurs x h i" using I s by simp
    show "\<exists>r. short_distinct available hay nd ?n l q s = Some r \<and> (case r of Inl r \<Rightarrow> first_at x h r | Inr s' \<Rightarrow> ?I s' \<and> ?f s' < ?f s)"
    proof (cases rule: avail_cases [OF assms(5), of hlen j])
      case 1
      then show ?case using I s by simp
    next
      case 2
      then show ?thesis using s no_more [OF no] by (simp add: short_distinct_def first_at_def)
    next
      case (3 hlen')
      obtain i where i: "right_scan nd hay ?n j l = Some i" "l \<le> i"
        "\<And>t. l \<le> t \<Longrightarrow> t < i \<Longrightarrow> h ! (j + t) = x ! t" "i < ?n \<Longrightarrow> h ! (j + i) \<noteq> x ! i"
        using right_scan_ok [OF assms(3,4) order_refl 3(1), of l] by blast
      show ?thesis
      proof (cases "?n \<le> i")
        case False
        define j' where "j' = j + (i - l + 1)"
        have "\<forall>a < j'. \<not> occurs x h a" using right_shift [OF assms(1) i(2) _ i(3,4) no] False by (simp add: j'_def)
        moreover have "fits hlen' j'" "length h + 1 - j' < length h + 1 - j" using 3 by (simp_all add: j'_def)
        moreover have "short_distinct available hay nd ?n l q s = Some (Inr (hlen', j'))"
          using s i(1) 3(2) False by (simp add: short_distinct_def j'_def)
        ultimately show ?thesis using s by simp
      next
        case True
        obtain c where c: "left_scan nd hay 0 j l = Some c" "c \<le> l" "\<And>t. c \<le> t \<Longrightarrow> t < l \<Longrightarrow> h ! (j + t) = x ! t"
          "0 < c \<Longrightarrow> h ! (j + (c - 1)) \<noteq> x ! (c - 1)"
          using left_scan_ok [OF assms(3,4) 3(1), of l 0] assms(2) by auto
        have rt: "h ! (j + t) = x ! t" if "l \<le> t" "t < ?n" for t using i(3) that True by simp
        show ?thesis
        proof (cases "c = 0")
          case True
          have "h ! (j + t) = x ! t" if "t < ?n" for t using c(3) [of t] rt [of t] True that by force
          then have "occurs x h j" using 3(1) by (simp add: occurs_def)
          then show ?thesis using s i c 3 no \<open>?n \<le> i\<close> True by (simp add: short_distinct_def first_at_def)
        next
          case False
          have "\<forall>a < j + q. \<not> occurs x h a" using left_shift [OF assms(1) rt _ c(4) assms(8) no] c(2) False assms(2) by simp
          then show ?thesis using s i c 3 assms(7) \<open>?n \<le> i\<close> False by (simp add: short_distinct_def)
        qed
      qed
    qed
  qed (use assms(6) in simp)
qed

text \<open>The table holds for each byte its distance from the end of the needle, at the last place where it occurs.\<close>

definition table_at :: "byte list \<Rightarrow> nat \<Rightarrow> (byte \<Rightarrow> nat) \<Rightarrow> bool" where
  "table_at x i tab \<longleftrightarrow> (\<forall>b. tab b \<le> length x) \<and> (\<forall>t < i. tab (x ! t) \<le> length x - 1 - t) \<and>
     (\<forall>b. tab b < length x \<longrightarrow> x ! (length x - 1 - tab b) = b)"

lemma shift_fill_ok:
  "reads nd x \<Longrightarrow> r \<le> length x \<Longrightarrow> table_at x (length x - r) tab \<Longrightarrow>
     \<exists>tab'. shift_fill nd (length x) r tab = Some tab' \<and> table_at x (length x) tab'"
proof (induction r arbitrary: tab)
  case (Suc r)
  let ?i = "length x - Suc r"
  have i: "?i < length x" "length x - r = Suc ?i" using Suc.prems(2) by simp_all
  define tab1 where "tab1 = tab(x ! ?i := length x - ?i - 1)"
  have "table_at x (length x - r) tab1"
    unfolding table_at_def i(2) tab1_def using Suc.prems(3) i(1) by (auto simp: table_at_def less_Suc_eq)
  moreover have "shift_fill nd (length x) (Suc r) tab = shift_fill nd (length x) r tab1"
    using readsD [OF Suc.prems(1) i(1)] by (simp add: Let_def tab1_def)
  ultimately show ?case using Suc.IH [of tab1] Suc.prems(1,2) by simp
qed simp

lemma shift_table_ok: "reads nd x \<Longrightarrow> \<exists>tab. shift_table nd (length x) = Some tab \<and> table_at x (length x) tab"
  using shift_fill_ok [of nd x "length x" "\<lambda>_. length x"] by (simp add: shift_table_def table_at_def)

lemma table_shift:
  assumes "table_at x (length x) tab" "x \<noteq> []" "\<forall>a < j. \<not> occurs x h a"
  shows "\<forall>a < j + tab (h ! (j + length x - 1)). \<not> occurs x h a"
proof (rule no_earlier [OF assms(3)])
  fix d assume d: "d < tab (h ! (j + length x - 1))"
  show "\<not> occurs x h (j + d)"
  proof
    assume o: "occurs x h (j + d)"
    have "tab (h ! (j + length x - 1)) \<le> length x" using assms(1) by (simp add: table_at_def)
    then have dn: "d < length x" using d by simp
    then have "h ! (j + (length x - 1)) = x ! (length x - 1 - d)" using occursD [OF o, of "length x - 1"] by simp
    then have "tab (h ! (j + length x - 1)) \<le> length x - 1 - (length x - 1 - d)"
      using assms(1) dn unfolding table_at_def by (metis Nat.add_diff_assoc One_nat_def Suc_leI assms(2) diff_less diff_less_mono2 length_greater_0_conv less_imp_diff_less lessI)
    then show False using d dn by simp
  qed
qed

lemma long_distinct_ok:
  assumes "critical x l p" "l < length x" "reads nd x" "reads hay h" "avail_ok available fits (length x) (length h)" "fits hlen 0"
    "0 < q" "q \<le> p" "table_at x (length x) tab"
  shows "\<exists>r. loop (long_distinct available hay nd (length x) tab l q) (hlen, 0) = Some r \<and> first_at x h r"
proof -
  let ?n = "length x"
  let ?I = "\<lambda>(hlen, j). fits hlen j \<and> (\<forall>i < j. \<not> occurs x h i)"
  let ?f = "\<lambda>(hlen :: nat, j). length h + 1 - j"
  have n: "0 < ?n" using assms(2) by auto
  show ?thesis
  proof (rule loop_rule [where I = ?I and f = ?f])
    fix s
    assume I: "?I s"
    obtain hlen j where s: "s = (hlen, j)" by (cases s)
    have no: "\<forall>i < j. \<not> occurs x h i" using I s by simp
    show "\<exists>r. long_distinct available hay nd ?n tab l q s = Some r \<and> (case r of Inl r \<Rightarrow> first_at x h r | Inr s' \<Rightarrow> ?I s' \<and> ?f s' < ?f s)"
    proof (cases rule: avail_cases [OF assms(5), of hlen j])
      case 1
      then show ?case using I s by simp
    next
      case 2
      then show ?thesis using s no_more [OF no] by (simp add: long_distinct_def first_at_def)
    next
      case (3 hlen')
      let ?b = "h ! (j + ?n - 1)"
      have b: "hay (j + ?n - 1) = Some ?b" using 3(1) n by (intro readsD [OF assms(4)]) linarith
      show ?thesis
      proof (cases "0 < tab ?b")
        case True
        define j' where "j' = j + tab ?b"
        have "\<forall>a < j'. \<not> occurs x h a" using table_shift [OF assms(9) _ no] n by (simp add: j'_def)
        moreover have "fits hlen' j'" "length h + 1 - j' < length h + 1 - j" using 3 True by (simp_all add: j'_def)
        moreover have "long_distinct available hay nd ?n tab l q s = Some (Inr (hlen', j'))"
          using s b 3(2) True by (simp add: long_distinct_def j'_def)
        ultimately show ?thesis using s by simp
      next
        case tab0: False
        have jn: "j + ?n - 1 = j + (?n - 1)" using n by linarith
        from tab0 have last: "h ! (j + (?n - 1)) = x ! (?n - 1)" unfolding jn [symmetric] using assms(9) n by (auto simp: table_at_def dest!: spec [of _ ?b])
        have lim: "?n - 1 \<le> ?n" "j + (?n - 1) \<le> length h" using 3(1) by simp_all
        obtain i where i: "right_scan nd hay (?n - 1) j l = Some i" "l \<le> i"
          "\<And>t. l \<le> t \<Longrightarrow> t < i \<Longrightarrow> h ! (j + t) = x ! t" "i < ?n - 1 \<Longrightarrow> h ! (j + i) \<noteq> x ! i"
          using right_scan_ok [OF assms(3,4) lim, of l] by blast
        show ?thesis
        proof (cases "?n - 1 \<le> i")
          case False
          define j' where "j' = j + (i - l + 1)"
          have "\<forall>a < j'. \<not> occurs x h a" using right_shift [OF assms(1) i(2) _ i(3,4) no] False by (simp add: j'_def)
          moreover have "fits hlen' j'" "length h + 1 - j' < length h + 1 - j" using 3 by (simp_all add: j'_def)
          moreover have "long_distinct available hay nd ?n tab l q s = Some (Inr (hlen', j'))"
            using s b tab0 i(1) 3(2) False by (simp add: long_distinct_def j'_def)
          ultimately show ?thesis using s by simp
        next
          case True
          obtain c where c: "left_scan nd hay 0 j l = Some c" "c \<le> l" "\<And>t. c \<le> t \<Longrightarrow> t < l \<Longrightarrow> h ! (j + t) = x ! t"
            "0 < c \<Longrightarrow> h ! (j + (c - 1)) \<noteq> x ! (c - 1)"
            using left_scan_ok [OF assms(3,4) 3(1), of l 0] assms(2) by auto
          have rt: "h ! (j + t) = x ! t" if "l \<le> t" "t < ?n" for t
          proof (cases "t = ?n - 1")
            case True
            then show ?thesis using last by (simp only:)
          next
            case False
            then show ?thesis using i(3) [of t] that \<open>?n - 1 \<le> i\<close> by simp
          qed
          show ?thesis
          proof (cases "c = 0")
            case True
            have "h ! (j + t) = x ! t" if "t < ?n" for t using c(3) [of t] rt [of t] True that by force
            then have "occurs x h j" using 3(1) by (simp add: occurs_def)
            then show ?thesis using s b tab0 i c 3 no \<open>?n - 1 \<le> i\<close> True by (simp add: long_distinct_def first_at_def)
          next
            case False
            have "\<forall>a < j + q. \<not> occurs x h a" using left_shift [OF assms(1) rt _ c(4) assms(8) no] c(2) False assms(2) by simp
            then show ?thesis using s b tab0 i c 3 assms(7) \<open>?n - 1 \<le> i\<close> False by (simp add: long_distinct_def)
          qed
        qed
      qed
    qed
  qed (use assms(6) in simp)
qed

section \<open>Finding the end of the haystack\<close>

text \<open>\<^verbatim>\<open>memchr\<close> does not look at what lies beyond the word in which it finds the byte.\<close>

lemma memchr_bytes_stop:
  "bytes m p xs \<Longrightarrow> d \<in> set xs \<Longrightarrow> length xs \<le> n \<Longrightarrow> memchr_bytes d m n p = Some (find_byte p d xs)"
proof (induction xs arbitrary: p n)
  case (Cons x xs)
  then obtain k where "n = Suc k" by (cases n) auto
  with Cons show ?case by (auto simp: load8_def find_byte_Cons)
qed simp

lemma memchr_align_stop:
  "bytes m p xs \<Longrightarrow> d \<in> set xs \<Longrightarrow> length xs \<le> n \<Longrightarrow> memchr_align d m p n = Some (Inl (find_byte p d xs)) \<or>
     (\<exists>k < length xs. d \<notin> set (take k xs) \<and> (p + k) mod 4 = 0 \<and> memchr_align d m p n = Some (Inr (p + k, n - k)))"
proof (induction xs arbitrary: p n)
  case (Cons x xs)
  then have x: "m p = Some x" "bytes m (p + 1) xs" and n: "n \<noteq> 0" "length xs \<le> n - 1" by auto
  show ?case
  proof (cases "unaligned p \<and> x \<noteq> d")
    case True
    then have eq: "memchr_align d m p n = memchr_align d m (p + 1) (n - 1)"
      using x n by (subst memchr_align.simps) (simp add: load8_def)
    have "d \<in> set xs" using Cons.prems(2) True by auto
    from Cons.IH [OF x(2) this n(2)] show ?thesis
    proof
      assume "\<exists>k < length xs. d \<notin> set (take k xs) \<and> (p + 1 + k) mod 4 = 0 \<and> memchr_align d m (p + 1) (n - 1) = Some (Inr (p + 1 + k, n - 1 - k))"
      then obtain k where "k < length xs" "d \<notin> set (take k xs)" "(p + 1 + k) mod 4 = 0"
        "memchr_align d m (p + 1) (n - 1) = Some (Inr (p + 1 + k, n - 1 - k))" by (elim exE conjE)
      then have "Suc k < length (x # xs) \<and> d \<notin> set (take (Suc k) (x # xs)) \<and> (p + Suc k) mod 4 = 0 \<and>
          memchr_align d m p n = Some (Inr (p + Suc k, n - Suc k))" using True eq by (simp add: eq_commute [of d x])
      then show ?thesis by (intro disjI2 exI [of _ "Suc k"])
    qed (use eq True in \<open>simp add: find_byte_Cons\<close>)
  next
    case False
    show ?thesis
    proof (cases "unaligned p")
      case True
      then have "memchr_align d m p n = Some (Inl p)" using x n False by (subst memchr_align.simps) (simp add: load8_def)
      then show ?thesis using False True by (simp add: find_byte_Cons)
    next
      case unal: False
      then have "memchr_align d m p n = Some (Inr (p, n))" by (subst memchr_align.simps) simp
      then show ?thesis using unal by (intro disjI2 exI [of _ 0]) (simp add: unaligned_def)
    qed
  qed
qed simp

lemma memchr_words_stop:
  assumes "paged m"
  shows "p mod 4 = 0 \<Longrightarrow> bytes m p xs \<Longrightarrow> d \<in> set xs \<Longrightarrow> length xs \<le> n \<Longrightarrow>
    \<exists>k < length xs. d \<notin> set (take k xs) \<and> memchr_words (fill_mask d) m p n = Some (p + k, n - k)"
proof (induction n arbitrary: p xs rule: less_induct)
  case (less n)
  have ne: "0 < length xs" using less.prems(3) by (cases xs) auto
  show ?case
  proof (cases "4 \<le> n")
    case True
    have "m p \<noteq> None" using less.prems(2) ne by (cases xs) auto
    then have "mapped m p 4" using assms less.prems(1) by (auto simp: paged_def dest!: spec [of _ p])
    then obtain zs where z: "length zs = 4" "bytes m p zs" using mapped_ex_bytes by blast
    then obtain b0 b1 b2 b3 where zs: "zs = [b0, b1, b2, b3]" by (auto simp: numeral_eq_Suc length_Suc_conv)
    have ld: "load32 m p = Some (word32 b0 b1 b2 b3)" using z zs by (intro load32_bytes) simp
    show ?thesis
    proof (cases "d \<in> set zs")
      case True
      then show ?thesis using zs ld \<open>4 \<le> n\<close> ne by (subst memchr_words.simps) (auto simp: detectchar_word32 intro!: exI [of _ 0])
    next
      case False
      have agree: "take (min 4 (length xs)) xs = take (min 4 (length xs)) zs"
        using bytes_unique [of m p "take (min 4 (length xs)) xs" "take (min 4 (length xs)) zs"] bytes_take less.prems(2) z by simp
      have l4: "4 < length xs"
      proof (rule ccontr)
        assume "\<not> 4 < length xs"
        then have "xs = take (length xs) zs" using agree by (simp add: min_def)
        then show False using less.prems(3) False by (metis in_set_takeD)
      qed
      then have x4: "take 4 xs = zs" using agree z(1) by (simp add: min_def)
      have "d \<in> set (drop 4 xs)" using less.prems(3) x4 False append_take_drop_id [of 4 xs] by (metis Un_iff set_append)
      moreover have "(p + 4) mod 4 = 0" using less.prems(1) by simp
      moreover have "n - 4 < n" "length (drop 4 xs) \<le> n - 4" using \<open>4 \<le> n\<close> less.prems(4) by simp_all
      moreover have "bytes m (p + 4) (drop 4 xs)" using bytes_drop [OF less.prems(2)] l4 by simp
      ultimately have "\<exists>k < length (drop 4 xs). d \<notin> set (take k (drop 4 xs)) \<and>
          memchr_words (fill_mask d) m (p + 4) (n - 4) = Some (p + 4 + k, n - 4 - k)" by (intro less.IH)
      then obtain k where k: "k < length (drop 4 xs)" "d \<notin> set (take k (drop 4 xs))"
        "memchr_words (fill_mask d) m (p + 4) (n - 4) = Some (p + 4 + k, n - 4 - k)" by (elim exE conjE)
      have "d \<notin> set (take (4 + k) xs)" using k(2) x4 False by (simp add: take_add)
      moreover have "memchr_words (fill_mask d) m p n = Some (p + (4 + k), n - (4 + k))"
        using ld zs False k(3) \<open>4 \<le> n\<close> by (subst memchr_words.simps) (simp add: detectchar_word32 add.assoc eq_commute [of _ d])
      ultimately show ?thesis using k(1) by (intro exI [of _ "4 + k"]) simp
    qed
  next
    case False
    then show ?thesis using ne by (subst memchr_words.simps) (auto intro!: exI [of _ 0])
  qed
qed

lemma memchr_stop:
  assumes "paged m" "bytes m p xs" "ucast c \<in> set xs" "length xs \<le> n"
  shows "memchr m p c n = Some (find_byte p (ucast c) xs)"
proof -
  let ?d = "ucast c :: byte"
  have bs: "memchr_bytes ?d m (n - k) (p + k) = Some (find_byte p ?d xs)" if k: "k < length xs" "?d \<notin> set (take k xs)" for k
  proof -
    have "?d \<in> set (drop k xs)" using assms(3) k(2) append_take_drop_id [of k xs] by (metis Un_iff set_append)
    then show ?thesis
      using memchr_bytes_stop [OF bytes_drop [OF assms(2)], of k ?d "n - k"] k assms(4) find_byte_take [OF k(2), of p] by simp
  qed
  from memchr_align_stop [OF assms(2,3,4)] show ?thesis
  proof
    assume "\<exists>k < length xs. ?d \<notin> set (take k xs) \<and> (p + k) mod 4 = 0 \<and> memchr_align ?d m p n = Some (Inr (p + k, n - k))"
    then obtain k where k: "k < length xs" "?d \<notin> set (take k xs)" "(p + k) mod 4 = 0" "memchr_align ?d m p n = Some (Inr (p + k, n - k))"
      by (elim exE conjE)
    have dr: "?d \<in> set (drop k xs)" using assms(3) k(2) append_take_drop_id [of k xs] by (metis Un_iff set_append)
    have "length (drop k xs) \<le> n - k" using assms(4) by simp
    from memchr_words_stop [OF assms(1) k(3) bytes_drop [OF assms(2) less_imp_le [OF k(1)]] dr this]
    obtain i where i: "i < length (drop k xs)" "?d \<notin> set (take i (drop k xs))"
      "memchr_words (fill_mask ?d) m (p + k) (n - k) = Some (p + k + i, n - k - i)" by (elim exE conjE)
    have "?d \<notin> set (take (k + i) xs)" using k(2) i(2) by (simp add: take_add)
    then show ?thesis using k(4) i(1,3) bs [OF k(1,2)] bs [of "k + i"] by (simp add: memchr_def add.assoc Let_def)
  qed (simp add: memchr_def)
qed

section \<open>The searches\<close>

lemma mem_avail_ok: "n \<le> N \<Longrightarrow> avail_ok (mem_available n) (\<lambda>hlen j. hlen = N) n N"
  by (auto simp: avail_ok_def mem_available_def)

lemma str_avail_ok:
  assumes "paged m" "cstr m p hs" "p \<noteq> NULL" "0 < n"
  shows "avail_ok (str_available m p n) (\<lambda>hlen j. hlen \<le> j + n \<and> hlen \<le> length hs) n (length hs)"
  unfolding avail_ok_def
proof (intro allI impI)
  fix hlen j
  assume f: "hlen \<le> j + n \<and> hlen \<le> length hs"
  have hs: "bytes m p (hs @ [0])" "0 \<notin> set hs" using assms(2) unfolding cstr_def by blast+
  show "if j + n \<le> length hs
    then \<exists>hlen'. str_available m p n hlen j = Some (Some hlen') \<and> (\<forall>i\<ge>j. hlen' \<le> i + n \<and> hlen' \<le> length hs)
    else str_available m p n hlen j = Some None"
  proof (cases "j + n \<le> length hs")
    case True
    let ?xs = "take (j + n - hlen) (drop hlen hs)"
    have "bytes m (p + hlen) (drop hlen hs)" using hs(1) f by (intro bytes_drop) simp_all
    then have "memchr m (p + hlen) 0 (length ?xs) = Some (find_byte (p + hlen) (ucast (0 :: u32)) ?xs)"
      by (intro memchr_eq bytes_take)
    moreover have "0 \<notin> set ?xs" using hs(2) by (meson in_set_dropD in_set_takeD)
    moreover have "length ?xs = j + n - hlen" using True f by simp
    ultimately have "memchr m (p + hlen) 0 (j + n - hlen) = Some NULL" by (simp add: find_byte_def)
    then show ?thesis using True assms(4) by (simp add: str_available_def)
  next
    case False
    let ?xs = "drop hlen hs @ [0]"
    have le: "length ?xs \<le> j + n - hlen" using False f by (auto simp: Suc_le_eq)
    have "bytes m (p + hlen) (drop hlen (hs @ [0]))" using hs(1) f by (intro bytes_drop) simp_all
    then have "memchr m (p + hlen) 0 (j + n - hlen) = Some (find_byte (p + hlen) (ucast (0 :: u32)) ?xs)"
      using f le by (intro memchr_stop [OF assms(1)]) simp_all
    moreover have "find_byte (p + hlen) (ucast (0 :: u32)) ?xs \<noteq> NULL" using assms(3) by (simp add: find_byte_def)
    ultimately show ?thesis using False by (simp add: str_available_def)
  qed
qed

text \<open>What \<^verbatim>\<open>CMP_FUNC\<close> promises: it tells whether the left half of the needle is repeated one period further on.\<close>

definition cmp_ok :: "(mem \<Rightarrow> addr \<Rightarrow> addr \<Rightarrow> nat \<Rightarrow> int option) \<Rightarrow> (byte \<Rightarrow> byte) \<Rightarrow> mem \<Rightarrow> addr \<Rightarrow> byte list \<Rightarrow> bool" where
  "cmp_ok cmp canon m needle x \<longleftrightarrow> (\<forall>l q. l + q \<le> length x \<longrightarrow>
     (\<exists>r. cmp m needle (needle + q) l = Some r \<and> (r = 0 \<longleftrightarrow> take l (map canon x) = take l (drop q (map canon x)))))"

lemma memcmp_ok: "bytes m needle x \<Longrightarrow> cmp_ok memcmp (\<lambda>c. c) m needle x"
  unfolding cmp_ok_def
proof (intro allI impI)
  fix l q
  assume x: "bytes m needle x" and lq: "l + q \<le> length x"
  have "bytes m (needle + q) (drop q x)" using lq by (intro bytes_drop [OF x]) simp
  then have "memcmp m needle (needle + q) (length (take l x)) = Some (cmp_bytes (take l x) (take l (drop q x)))"
    using lq by (intro memcmp_eq bytes_take x) simp_all
  then show "\<exists>r. memcmp m needle (needle + q) l = Some r \<and>
      (r = 0 \<longleftrightarrow> take l (map (\<lambda>c. c) x) = take l (drop q (map (\<lambda>c. c) x)))"
    using lq cmp_bytes_eq_0 [of "take l x" "take l (drop q x)"] by simp
qed

lemma canon_lower_eq: "canon_lower c = lower c"
  by (simp add: canon_lower_def tolower_byte)

lemma strncasecmp_ok:
  assumes "cstr m needle x"
  shows "cmp_ok strncasecmp canon_lower m needle x"
  unfolding cmp_ok_def
proof (intro allI impI)
  fix l q
  assume lq: "l + q \<le> length x"
  have x: "bytes m needle x" "0 \<notin> set x" using assms by (simp_all add: cstr_def)
  have "bytes m (needle + q) (drop q x)" using lq by (intro bytes_drop [OF x(1)]) simp
  then have u: "cstr_upto m needle l (take l x)" "cstr_upto m (needle + q) l (take l (drop q x))"
    using x lq by (auto simp: cstr_upto_def bytes_take dest!: in_set_takeD in_set_dropD)
  have eq: "cmp_upto l (map lower (take l x)) (map lower (take l (drop q x))) = 0 \<longleftrightarrow>
      take l (map lower x) = take l (drop q (map lower x))"
    using lq cmp_bytes_eq_0 [of "take l (map lower x)" "take l (drop q (map lower x))"]
    by (simp add: cmp_upto_def take_map drop_map)
  show "\<exists>r. strncasecmp m needle (needle + q) l = Some r \<and>
      (r = 0 \<longleftrightarrow> take l (map canon_lower x) = take l (drop q (map canon_lower x)))"
    using strncasecmp_loop_eq [OF u] eq by (cases "l = 0") (simp_all add: strncasecmp_def canon_lower_eq [abs_def])
qed

text \<open>The factorization of the needle decides between the two loops.\<close>

lemma whole_period:
  assumes "period (drop l x) q" "l + q \<le> length x" "take l x = take l (drop q x)"
  shows "period x q"
  unfolding period_def
proof (intro conjI allI impI)
  show "0 < q" using assms(1) by (simp add: period_def)
  fix i
  assume i: "i + q < length x"
  show "x ! i = x ! (i + q)"
  proof (cases "i < l")
    case True
    have "x ! i = take l x ! i" using True by simp
    also have "\<dots> = take l (drop q x) ! i" by (simp only: assms(3))
    also have "\<dots> = x ! (i + q)" using True assms(2) by (simp add: add.commute)
    finally show ?thesis .
  next
    case False
    have "i - l + q < length (drop l x)" using i False by simp
    then have "drop l x ! (i - l) = drop l x ! (i - l + q)" using assms(1) unfolding period_def by blast
    then show ?thesis using False i by simp
  qed
qed

lemma period_take: "period x q \<Longrightarrow> l + q \<le> length x \<Longrightarrow> take l x = take l (drop q x)"
  by (intro nth_equalityI) (simp_all add: period_def add.commute)

lemma factor_cases:
  assumes "reads nd x" "x \<noteq> []"
  obtains l q p where "critical_factorization nd (length x) = Some (l, q)" "critical x l p" "l < p" "l < length x" "l + q \<le> length x"
    "take l x = take l (drop q x) \<Longrightarrow> q = p" "take l x \<noteq> take l (drop q x) \<Longrightarrow> max l (length x - l) + 1 \<le> p"
proof -
  from critical_factorization_ok [OF assms] obtain l q p where
    *: "critical_factorization nd (length x) = Some (l, q)" "critical x l p" "l < p" "l < length x" "l + q \<le> length x" and
    q: "period (drop l x) q" "\<forall>r. period (drop l x) r \<longrightarrow> q \<le> r" by blast
  have px: "period x p" "\<And>r. period_at x l r \<Longrightarrow> p \<le> r" using *(2) by (simp_all add: critical_def)
  have "period (drop l x) p" using px(1) by (simp add: period_def add.assoc)
  then have qp: "q \<le> p" using q(2) by blast
  show thesis
  proof (rule that [OF *])
    assume "take l x = take l (drop q x)"
    then have "period x q" by (rule whole_period [OF q(1) *(5)])
    from px(2) [OF period_at_period [OF this]] qp show "q = p" by simp
  next
    assume "take l x \<noteq> take l (drop q x)"
    then have "\<not> period x q" using period_take *(5) by blast
    then have "length x - l < p" using long_period [OF *(2) q(1)] q(2) by blast
    then show "max l (length x - l) + 1 \<le> p" using *(3) by simp
  qed
qed

lemma long_periodic_plain:
  assumes "loop (long_distinct available hay nd n tab l n) (hlen, j) = Some r"
  shows "loop (long_periodic available hay nd n tab l n) (hlen, j, 0) = Some r"
proof -
  let ?f = "\<lambda>(hlen, j). (hlen, j, 0 :: nat)"
  have "long_periodic available hay nd n tab l n (?f s) = map_option (map_sum id ?f) (long_distinct available hay nd n tab l n s)" for s
    by (cases s) (simp add: long_periodic_def long_distinct_def Let_def split: option.split Option.bind_split)
  from loop_follows [of _ ?f, OF this assms] show ?thesis by simp
qed

lemma two_way_short_ok:
  assumes "bytes m nd x" "x \<noteq> []" "bytes m hp hs" "cmp_ok cmp canon m nd x" "avail_ok available fits (length x) (length hs)" "fits hlen 0"
  shows "\<exists>r. two_way_short_needle available cmp canon m hp hlen nd (length x) = Some (at_index hp r) \<and>
    first_at (map canon x) (map canon hs) r"
proof -
  let ?X = "map canon x" and ?H = "map canon hs" and ?nd = "element canon m nd" and ?hay = "element canon m hp"
  have rd: "reads ?nd ?X" "reads ?hay ?H" using assms(1,3) by (auto intro: reads_element)
  have av: "avail_ok available fits (length ?X) (length ?H)" using assms(5) by simp
  have "?X \<noteq> []" using assms(2) by simp
  from factor_cases [OF rd(1) this] obtain l q p where
    f: "critical_factorization ?nd (length ?X) = Some (l, q)" "critical ?X l p" "l < p" "l < length ?X" "l + q \<le> length ?X"
      "take l ?X = take l (drop q ?X) \<Longrightarrow> q = p" "take l ?X \<noteq> take l (drop q ?X) \<Longrightarrow> max l (length ?X - l) + 1 \<le> p" by blast
  obtain c where c: "cmp m nd (nd + q) l = Some c" "c = 0 \<longleftrightarrow> take l ?X = take l (drop q ?X)"
    using assms(4) f(5) unfolding cmp_ok_def by auto
  show ?thesis
  proof (cases "c = 0")
    case True
    then have "q = p" using f(6) c(2) by blast
    then obtain r where "loop (short_periodic available ?hay ?nd (length ?X) l q) (hlen, 0, 0) = Some r" "first_at ?X ?H r"
      using short_periodic_ok [OF f(2,3,4) rd av assms(6)] by blast
    then show ?thesis using f(1) c(1) True by (intro exI [of _ r]) (simp add: two_way_short_needle_def)
  next
    case False
    then have "max l (length ?X - l) + 1 \<le> p" using f(7) c(2) by blast
    from short_distinct_ok [OF f(2,4) rd av assms(6) _ this]
    obtain r where "loop (short_distinct available ?hay ?nd (length ?X) l (max l (length ?X - l) + 1)) (hlen, 0) = Some r" "first_at ?X ?H r"
      by auto
    then show ?thesis using f(1) c(1) False by (intro exI [of _ r]) (simp add: two_way_short_needle_def)
  qed
qed

text \<open>
  A needle with which the search is right: a short one, or a long one for which \<^verbatim>\<open>two_way_long_needle\<close> never carries a matched prefix
  from one window to the next, because its halves differ or it has no period shorter than itself.
\<close>

definition word_at :: "byte list \<Rightarrow> nat \<Rightarrow> byte option" where
  "word_at x i = (if i < length x then Some (x ! i) else None)"

definition carries_none :: "byte list \<Rightarrow> bool" where
  "carries_none x = (case critical_factorization (word_at x) (length x) of
     None \<Rightarrow> False | Some (l, q) \<Rightarrow> q = length x \<or> take l x \<noteq> take l (drop q x))"

definition plain_needle :: "byte list \<Rightarrow> bool" where
  "plain_needle x = (length x < LONG_NEEDLE_THRESHOLD \<or> carries_none x)"

lemma reads_word_at: "reads (word_at x) x"
  by (simp add: reads_def word_at_def)

lemma two_way_long_ok:
  assumes "bytes m nd x" "x \<noteq> []" "bytes m hp hs" "cmp_ok cmp canon m nd x" "avail_ok available fits (length x) (length hs)" "fits hlen 0"
    "carries_none (map canon x)"
  shows "\<exists>r. two_way_long_needle available cmp canon m hp hlen nd (length x) = Some (at_index hp r) \<and>
    first_at (map canon x) (map canon hs) r"
proof -
  let ?X = "map canon x" and ?H = "map canon hs" and ?nd = "element canon m nd" and ?hay = "element canon m hp"
  have rd: "reads ?nd ?X" "reads ?hay ?H" using assms(1,3) by (auto intro: reads_element)
  have av: "avail_ok available fits (length ?X) (length ?H)" using assms(5) by simp
  have X: "?X \<noteq> []" using assms(2) by simp
  from factor_cases [OF rd(1) X] obtain l q p where
    f: "critical_factorization ?nd (length ?X) = Some (l, q)" "critical ?X l p" "l < p" "l < length ?X" "l + q \<le> length ?X"
      "take l ?X = take l (drop q ?X) \<Longrightarrow> q = p" "take l ?X \<noteq> take l (drop q ?X) \<Longrightarrow> max l (length ?X - l) + 1 \<le> p" by blast
  have none: "q = length ?X \<or> take l ?X \<noteq> take l (drop q ?X)"
    using assms(7) f(1) unfolding carries_none_def critical_factorization_reads [OF reads_word_at rd(1) X] by simp
  obtain c where c: "cmp m nd (nd + q) l = Some c" "c = 0 \<longleftrightarrow> take l ?X = take l (drop q ?X)"
    using assms(4) f(5) unfolding cmp_ok_def by auto
  obtain tab where tab: "shift_table ?nd (length ?X) = Some tab" "table_at ?X (length ?X) tab" using shift_table_ok [OF rd(1)] by blast
  have dist: "\<exists>r. loop (long_distinct available ?hay ?nd (length ?X) tab l d) (hlen, 0) = Some r \<and> first_at ?X ?H r"
    if "0 < d" "d \<le> p" for d by (rule long_distinct_ok [OF f(2,4) rd av assms(6) that tab(2)])
  show ?thesis
  proof (cases "c = 0")
    case True
    then have q: "q = p" "q = length ?X" using f(6) c(2) none by blast+
    then obtain r where r: "loop (long_distinct available ?hay ?nd (length ?X) tab l (length ?X)) (hlen, 0) = Some r" "first_at ?X ?H r"
      using dist [of "length ?X"] X by auto
    from long_periodic_plain [OF r(1)] show ?thesis using f(1) c(1) True q(2) tab(1) r(2)
      by (intro exI [of _ r]) (simp add: two_way_long_needle_def)
  next
    case False
    then have "max l (length ?X - l) + 1 \<le> p" using f(7) c(2) by blast
    then obtain r where "loop (long_distinct available ?hay ?nd (length ?X) tab l (max l (length ?X - l) + 1)) (hlen, 0) = Some r"
      "first_at ?X ?H r" using dist by auto
    then show ?thesis using f(1) c(1) False tab(1) by (intro exI [of _ r]) (simp add: two_way_long_needle_def)
  qed
qed

text \<open>A needle without a period shorter than itself is plain.\<close>

lemma unbordered_plain:
  assumes "x \<noteq> []" "\<And>p. period x p \<Longrightarrow> length x \<le> p"
  shows "plain_needle x"
proof -
  from factor_cases [OF reads_word_at assms(1)] obtain l q p where
    f: "critical_factorization (word_at x) (length x) = Some (l, q)" "critical x l p" "l + q \<le> length x"
      "take l x = take l (drop q x) \<Longrightarrow> q = p" by blast
  have "length x \<le> p" using assms(2) f(2) by (simp add: critical_def)
  then show ?thesis using f(1,3,4) by (auto simp: plain_needle_def carries_none_def)
qed

section \<open>The routines find the first occurrence\<close>

lemma occurs_drop: "k \<le> length h \<Longrightarrow> occurs x (drop k h) j \<longleftrightarrow> occurs x h (k + j)"
  by (auto simp: occurs_def add.assoc)

lemma first_at_drop:
  assumes "\<forall>i < k. \<not> occurs x h i" "k \<le> length h" "first_at x (drop k h) r"
  shows "first_at x h (map_option ((+) k) r)"
proof -
  have later: "\<not> occurs x h i" if "k \<le> i \<Longrightarrow> \<not> occurs x (drop k h) (i - k)" for i
    using that assms(1) occurs_drop [OF assms(2), of x "i - k"] by (cases "i < k") simp_all
  show ?thesis
  proof (cases r)
    case None
    then show ?thesis using assms(3) later by (simp add: first_at_def)
  next
    case (Some j)
    then have j: "occurs x (drop k h) j" "\<And>i. i < j \<Longrightarrow> \<not> occurs x (drop k h) i" using assms(3) by (simp_all add: first_at_def)
    have "\<not> occurs x h i" if "i < k + j" for i using j(2) [of "i - k"] that by (intro later) simp
    then show ?thesis using Some j(1) by (simp add: first_at_def occurs_drop [OF assms(2)])
  qed
qed

lemma at_index_shift: "at_index (p + k) r = at_index p (map_option ((+) k) r)"
  by (cases r) (simp_all add: at_index_def add.assoc)

text \<open>Where the first character of the needle is found first\<close>

definition first_index :: "byte \<Rightarrow> byte list \<Rightarrow> nat" where
  "first_index c h = length (takeWhile (\<lambda>b. b \<noteq> c) h)"

lemma no_occurrence_before:
  assumes "x \<noteq> []" "i < first_index (hd x) h"
  shows "\<not> occurs x h i"
proof
  assume "occurs x h i"
  then have "h ! i = hd x" using assms(1) by (force simp: occurs_def hd_conv_nth dest: spec [of _ 0])
  moreover have "h ! i \<noteq> hd x" using assms(2) nth_mem [OF assms(2) [unfolded first_index_def]]
    by (auto simp: first_index_def takeWhile_nth dest: set_takeWhileD)
  ultimately show False by blast
qed

lemma no_occurrence:
  assumes "x \<noteq> []" "hd x \<notin> set (h :: byte list)"
  shows "\<not> occurs x h i"
proof
  assume "occurs x h i"
  then have "i + length x \<le> length h" "h ! (i + 0) = x ! 0" "0 < length x" using assms(1) by (auto simp: occurs_def)
  then have "i < length h" "h ! i = hd x" using assms(1) by (linarith, simp add: hd_conv_nth)
  then show False using assms(2) nth_mem by metis
qed

lemma first_at_single:
  assumes "c \<in> set h"
  shows "first_at [c] h (Some (first_index c h))"
proof -
  have "first_index c h < length h" using assms by (induction h) (auto simp: first_index_def)
  moreover from this have "h ! first_index c h = c" unfolding first_index_def by (metis (mono_tags, lifting) nth_length_takeWhile)
  ultimately show ?thesis using no_occurrence_before [of "[c]" _ h] by (auto simp: first_at_def occurs_def)
qed

lemma too_short: "length h < length x \<Longrightarrow> first_at x h None"
  by (auto simp: first_at_def occurs_def)

lemma find_byte_index: "find_byte p c h = (if c \<in> set h then p + first_index c h else NULL)"
  by (simp add: find_byte_def first_index_def)

lemma byte_through_int: "ucast (ucast b :: u32) = (b :: byte)" "ucast (scast b :: u32) = (b :: byte)"
  by (rule bit_word_eqI, auto simp: bit_simps)+

lemma memmem_short:
  assumes "bytes m p hs" "bytes m q x" "x \<noteq> []" "length x < LONG_NEEDLE_THRESHOLD" "p \<noteq> NULL" "length x \<le> length hs"
  shows "\<exists>r. memmem m p (length hs) q (length x) = Some (at_index p r) \<and> first_at x hs r"
proof -
  let ?k = "first_index (hd x) hs"
  have ld: "load8 m q = Some (hd x)" using assms(2,3) by (cases x) (simp_all add: load8_def)
  have mc: "memchr m p (ucast (hd x)) (length hs) = Some (if hd x \<in> set hs then p + ?k else NULL)"
    using memchr_eq [OF assms(1), of "ucast (hd x)"] by (simp add: find_byte_index byte_through_int)
  have mm: "memmem m p (length hs) q (length x) =
    (let h = if hd x \<in> set hs then p + ?k else NULL in
     if h = NULL \<or> length x = 1 then Some h
     else if length hs - (h - p) < length x then Some NULL
     else two_way_short_needle (mem_available (length x)) memcmp (\<lambda>c. c) m h (length hs - (h - p)) q (length x))"
    using assms(3,4,6) ld mc by (simp add: memmem_def Let_def)
  show ?thesis
  proof (cases "hd x \<in> set hs")
    case False
    then have "first_at x hs None" using no_occurrence [OF assms(3)] by (simp add: first_at_def)
    then show ?thesis using mm False by (intro exI [of _ None]) (simp add: at_index_def)
  next
    case True
    then have k: "?k < length hs" using first_at_single [OF True] by (simp add: first_at_def occurs_def)
    have before: "\<forall>i < ?k. \<not> occurs x hs i" using no_occurrence_before [OF assms(3)] by blast
    consider "length x = 1" | "length x \<noteq> 1" "length hs - ?k < length x" | "length x \<noteq> 1" "length x \<le> length hs - ?k" by linarith
    then show ?thesis
    proof cases
      case 1
      then have "x = [hd x]" using assms(3) by (cases x) auto
      then have "first_at x hs (Some ?k)" using first_at_single [OF True] by simp
      then show ?thesis using mm True 1 by (intro exI [of _ "Some ?k"]) (simp add: at_index_def)
    next
      case 2
      then have "first_at x hs (map_option ((+) ?k) None)" using k by (intro first_at_drop [OF before] too_short) simp_all
      then show ?thesis using mm True 2 assms(5) by (intro exI [of _ None]) (simp add: at_index_def)
    next
      case 3
      have "bytes m (p + ?k) (drop ?k hs)" using k by (intro bytes_drop [OF assms(1)]) simp
      from two_way_short_ok [OF assms(2,3) this memcmp_ok [OF assms(2)] mem_avail_ok] 3(2)
      obtain r where r: "two_way_short_needle (mem_available (length x)) memcmp (\<lambda>c. c) m (p + ?k) (length hs - ?k) q (length x) =
          Some (at_index (p + ?k) r)" "first_at x (drop ?k hs) r" by auto
      have "first_at x hs (map_option ((+) ?k) r)" using k by (intro first_at_drop [OF before _ r(2)]) simp
      then show ?thesis using mm True 3 assms(5) r(1) by (auto simp: at_index_shift)
    qed
  qed
qed

lemma memmem_ok:
  assumes "bytes m p hs" "bytes m q x" "plain_needle x" "p \<noteq> NULL"
  shows "\<exists>r. memmem m p (length hs) q (length x) = Some (at_index p r) \<and> first_at x hs r"
proof -
  consider "x = []" | "x \<noteq> []" "length hs < length x" | "x \<noteq> []" "length x \<le> length hs" "length x < LONG_NEEDLE_THRESHOLD"
    | "x \<noteq> []" "length x \<le> length hs" "\<not> length x < LONG_NEEDLE_THRESHOLD" by linarith
  then show ?thesis
  proof cases
    case 1
    then show ?thesis by (intro exI [of _ "Some 0"]) (simp add: memmem_def at_index_def first_at_def occurs_def)
  next
    case 2
    then show ?thesis using too_short [of hs x] by (intro exI [of _ None]) (simp add: memmem_def at_index_def)
  next
    case 3
    then show ?thesis using memmem_short assms by blast
  next
    case 4
    then have "carries_none (map (\<lambda>c. c) x)" using assms(3) by (simp add: plain_needle_def)
    from two_way_long_ok [OF assms(2) 4(1) assms(1) memcmp_ok [OF assms(2)] mem_avail_ok [OF 4(2)] refl this] 4
    show ?thesis by (simp add: memmem_def)
  qed
qed

text \<open>The loop at the head of \<^verbatim>\<open>strstr\<close> and \<^verbatim>\<open>strcasestr\<close>\<close>

lemma prefix_loop_ok:
  assumes "cstr m p s" "cstr m q t"
  shows "prefix_loop canon m p q ok = Some (p + min (length s) (length t), q + min (length s) (length t),
    ok \<and> take (length t) (map canon s) = take (length s) (map canon t))"
  using assms
proof (induction s arbitrary: p q t ok)
  case Nil
  then show ?case by (subst prefix_loop.simps) (simp add: cstr_Nil load8_def)
next
  case (Cons c s)
  then have c: "c \<noteq> 0" "m p = Some c" "cstr m (p + 1) s" by (simp_all add: cstr_Cons)
  show ?case
  proof (cases t)
    case Nil
    then show ?thesis using Cons.prems(2) c by (subst prefix_loop.simps) (simp add: cstr_Nil load8_def)
  next
    case (Cons d t')
    then have "d \<noteq> 0" "m q = Some d" "cstr m (q + 1) t'" using Cons.prems(2) by (simp_all add: cstr_Cons)
    then show ?thesis using c Cons Cons.IH [OF c(3), of "q + 1" t'] by (subst prefix_loop.simps) (auto simp: load8_def)
  qed
qed

lemma cstr_bytes: "cstr m p s \<Longrightarrow> bytes m p s"
  by (simp add: cstr_def)

lemma load8_cstr_end: "cstr m p s \<Longrightarrow> load8 m (p + length s) = Some 0"
  by (simp add: cstr_def load8_def)

lemma load8_cstr:
  assumes "cstr m p s" "k < length s"
  shows "\<exists>b. load8 m (p + k) = Some b \<and> b \<noteq> 0"
proof -
  have "bytes m p s" "0 \<notin> set s" using assms(1) by (simp_all add: cstr_def)
  moreover from this(2) have "s ! k \<noteq> 0" using nth_mem [OF assms(2)] by (intro notI) simp
  ultimately show ?thesis using assms(2) by (simp add: load8_def bytes_nth)
qed

lemma prefix_occurs: "take (length t) s = take (length s) t \<Longrightarrow> length t \<le> length s \<Longrightarrow> occurs t s 0"
  unfolding occurs_def by simp (metis nth_take)

lemma not_prefix: "take (length t) s \<noteq> take (length s) t \<Longrightarrow> length t \<le> length s \<Longrightarrow> \<not> occurs t s 0"
  by (auto simp: occurs_def list_eq_iff_nth_eq)

text \<open>Either search, for a needle that it can handle\<close>

lemma two_way_ok:
  assumes "paged m" "cstr m hp hs" "hp \<noteq> NULL" "cstr m nd x" "x \<noteq> []" "cmp_ok cmp canon m nd x" "plain_needle (map canon x)"
    "hlen \<le> length x" "hlen \<le> length hs"
  shows "\<exists>r. (if length x < LONG_NEEDLE_THRESHOLD then two_way_short_needle else two_way_long_needle)
      (str_available m hp (length x)) cmp canon m hp hlen nd (length x) = Some (at_index hp r) \<and> first_at (map canon x) (map canon hs) r"
proof -
  have "0 < length x" using assms(5) by simp
  note avail = str_avail_ok [OF assms(1,2,3) this]
  have fits: "hlen \<le> 0 + length x \<and> hlen \<le> length hs" using assms(8,9) by simp
  show ?thesis
  proof (cases "length x < LONG_NEEDLE_THRESHOLD")
    case True
    with two_way_short_ok [OF cstr_bytes [OF assms(4)] assms(5) cstr_bytes [OF assms(2)] assms(6) avail fits] show ?thesis by simp
  next
    case False
    then have "carries_none (map canon x)" using assms(7) by (simp add: plain_needle_def)
    with two_way_long_ok [OF cstr_bytes [OF assms(4)] assms(5) cstr_bytes [OF assms(2)] assms(6) avail fits] False show ?thesis by simp
  qed
qed

text \<open>\<^verbatim>\<open>strstr\<close> when the needle is not at the start of the string\<close>

lemma strstr_unfold:
  assumes "paged m" "cstr m p s" "cstr m q t" "length t \<le> length s" "take (length t) s \<noteq> take (length s) t"
    "k = Suc (first_index (hd t) (tl s))"
  shows "strstr m p q = (let h = if hd t \<in> set (tl s) then p + k else NULL in
    if h = NULL \<or> length t = 1 then Some h
    else (if length t < LONG_NEEDLE_THRESHOLD then two_way_short_needle else two_way_long_needle)
           (str_available m h (length t)) memcmp (\<lambda>c. c) m h (if h > p + length t then 1 else length t + p - h) q (length t))"
proof -
  have t: "t \<noteq> []" using assms(5) by auto
  have ld: "load8 m q = Some (hd t)" "hd t \<noteq> 0" using assms(3) t by (cases t; simp add: cstr_Cons load8_def)+
  have "1 \<le> length s" using t assms(4) by (cases t) auto
  then have "cstr m (p + 1) (tl s)" using cstr_drop [OF assms(2), of 1] by (simp add: drop_Suc)
  then have sc: "strchr m (p + 1) (scast (hd t)) = Some (if hd t \<in> set (tl s) then p + k else NULL)"
    using strchr_cstr [OF assms(1), of "p + 1" "tl s" "scast (hd t)"] ld(2)
    by (simp add: find_byte_index byte_through_int assms(6) first_index_def takeWhile_append1)
  have "prefix_loop (\<lambda>c. c) m p q True = Some (p + length t, q + length t, False)"
    using assms(4,5) prefix_loop_ok [OF assms(2,3), of "\<lambda>c. c" True] by (simp add: min_absorb2)
  then show ?thesis using load8_cstr_end [OF assms(3)] ld(1) sc by (simp add: strstr_def Let_def)
qed

lemma strstr_later:
  assumes "paged m" "cstr m p s" "cstr m q t" "plain_needle t" "p \<noteq> NULL"
    and le: "length t \<le> length s" and no: "take (length t) s \<noteq> take (length s) t"
  shows "\<exists>r. strstr m p q = Some (at_index p r) \<and> first_at t s r"
proof -
  have t: "t \<noteq> []" using no by auto
  have s1: "1 \<le> length s" using t le by (cases t) auto
  define k where "k = Suc (first_index (hd t) (tl s))"
  note eq = strstr_unfold [OF assms(1-3) le no k_def]
  have at: "occurs t s (Suc i) \<longleftrightarrow> occurs t (tl s) i" for i using occurs_drop [OF s1, of t i] by (simp add: drop_Suc)
  have before: "\<forall>i < k. \<not> occurs t s i"
  proof (intro allI impI)
    fix i assume "i < k"
    then show "\<not> occurs t s i" using not_prefix [OF no le] no_occurrence_before [OF t, of _ "tl s"] by (cases i) (simp_all add: at k_def)
  qed
  show ?thesis
  proof (cases "hd t \<in> set (tl s)")
    case False
    have "\<not> occurs t s i" for i using not_prefix [OF no le] no_occurrence [OF t False] by (cases i) (simp_all add: at)
    then show ?thesis using eq False by (intro exI [of _ None]) (simp add: at_index_def first_at_def)
  next
    case True
    note single = first_at_single [OF True]
    have k: "k < length s" using single s1 by (auto simp: first_at_def occurs_def k_def)
    show ?thesis
    proof (cases "length t = 1")
      case one: True
      then have "t = [hd t]" using t by (cases t) auto
      then have "occurs t (tl s) (first_index (hd t) (tl s))" using single by (simp add: first_at_def)
      then have "first_at t s (Some k)" using before by (simp add: first_at_def at k_def)
      then show ?thesis using eq True one by (intro exI [of _ "Some k"]) (simp add: at_index_def)
    next
      case more: False
      let ?hlen = "if p + k > p + length t then 1 else length t + p - (p + k)"
      have hlen: "?hlen \<le> length t" "?hlen \<le> length (drop k s)" using t k le by (auto simp: Suc_le_eq)
      have "p + k \<noteq> NULL" "k \<le> length s" using assms(5) k by simp_all
      from two_way_ok [OF assms(1) cstr_drop [OF assms(2) this(2)] this(1) assms(3) t memcmp_ok [OF cstr_bytes [OF assms(3)]] _ hlen] assms(4)
      obtain r where "strstr m p q = Some (at_index (p + k) r)" "first_at t (drop k s) r" using eq True more \<open>p + k \<noteq> NULL\<close> by auto
      then show ?thesis using first_at_drop [OF before \<open>k \<le> length s\<close>] by (auto simp: at_index_shift)
    qed
  qed
qed

lemma strstr_ok:
  assumes "paged m" "cstr m p s" "cstr m q t" "plain_needle t" "p \<noteq> NULL"
  shows "\<exists>r. strstr m p q = Some (at_index p r) \<and> first_at t s r"
proof (cases "length s < length t")
  case True
  then obtain b where "load8 m (q + length s) = Some b" "b \<noteq> 0" using load8_cstr [OF assms(3)] by blast
  then show ?thesis using too_short [OF True] True prefix_loop_ok [OF assms(2,3), of "\<lambda>c. c" True]
    by (intro exI [of _ None]) (simp add: strstr_def at_index_def min_def)
next
  case False
  then have le: "length t \<le> length s" by simp
  show ?thesis
  proof (cases "take (length t) s = take (length s) t")
    case True
    then have "first_at t s (Some 0)" using prefix_occurs [OF True le] by (simp add: first_at_def)
    then show ?thesis using True le prefix_loop_ok [OF assms(2,3), of "\<lambda>c. c" True] load8_cstr_end [OF assms(3)]
      by (intro exI [of _ "Some 0"]) (simp add: strstr_def at_index_def min_def)
  qed (rule strstr_later [OF assms le])
qed

lemma strcasestr_ok:
  assumes "paged m" "cstr m p s" "cstr m q t" "plain_needle (map lower t)"
  shows "\<exists>r. strcasestr m p q = Some (at_index p r) \<and> first_at (map lower t) (map lower s) r"
proof (cases "length s < length t")
  case True
  then obtain b where "load8 m (q + length s) = Some b" "b \<noteq> 0" using load8_cstr [OF assms(3)] by blast
  then show ?thesis using too_short [of "map lower s" "map lower t"] True prefix_loop_ok [OF assms(2,3), of canon_lower True]
    by (intro exI [of _ None]) (simp add: strcasestr_def at_index_def min_def)
next
  case False
  then have le: "length (map lower t) \<le> length (map lower s)" by simp
  show ?thesis
  proof (cases "take (length t) (map lower s) = take (length s) (map lower t)")
    case True
    then have "first_at (map lower t) (map lower s) (Some 0)" using prefix_occurs [of "map lower t" "map lower s"] le by (simp add: first_at_def)
    then show ?thesis using True le prefix_loop_ok [OF assms(2,3), of canon_lower True] load8_cstr_end [OF assms(3)]
      by (intro exI [of _ "Some 0"]) (simp add: strcasestr_def at_index_def min_def canon_lower_eq [abs_def])
  next
    case no: False
    have t: "t \<noteq> []" using no by auto
    have s1: "1 \<le> length s" using t le by (cases t) auto
    have hlen: "length t - 1 \<le> length t" "length t - 1 \<le> length (drop 1 s)" using le by simp_all
    from two_way_ok [OF assms(1) cstr_drop [OF assms(2) s1] _ assms(3) t strncasecmp_ok [OF assms(3)] _ hlen] assms(4)
    obtain r where r: "(if length t < LONG_NEEDLE_THRESHOLD then two_way_short_needle else two_way_long_needle)
      (str_available m (p + 1) (length t)) strncasecmp canon_lower m (p + 1) (length t - 1) q (length t) = Some (at_index (p + 1) r)"
      "first_at (map lower t) (map lower (drop 1 s)) r" by (auto simp: canon_lower_eq [abs_def])
    have "\<not> occurs (map lower t) (map lower s) 0" using no le not_prefix [of "map lower t" "map lower s"] by simp
    then have "first_at (map lower t) (map lower s) (map_option ((+) 1) r)"
      using r(2) s1 by (intro first_at_drop) (simp_all add: drop_map)
    moreover have "strcasestr m p q = Some (at_index (p + 1) r)"
      using no le prefix_loop_ok [OF assms(2,3), of canon_lower True] load8_cstr_end [OF assms(3)] r(1)
      by (simp add: strcasestr_def min_def canon_lower_eq [abs_def])
    ultimately show ?thesis unfolding at_index_shift by blast
  qed
qed

section \<open>Needles with a short period\<close>

text \<open>
  The loop of \<^verbatim>\<open>two_way_long_needle\<close> for periodic needles resets \<^verbatim>\<open>memory\<close> after a shift by the table only when
  the shift is shorter than the period.  A needle of sixteen \<open>ab\<close> in a text that contains the needle without its first character, then
  other characters, and an \<open>ab\<close> at the end: after the first mismatch at the left end the memory is 30; the last character of
  the next window is not in the needle, and the window moves on by 32 with the memory kept; there the 30 characters that
  memory stands for are not looked at again.
\<close>

definition ab16 :: "byte list" where
  "ab16 = concat (replicate 16 [97, 98])"

definition ab_text :: "byte list" where
  "ab_text = 99 # tl ab16 @ replicate 32 99 @ [97, 98]"

lemma ab16_nth: "i < 32 \<Longrightarrow> ab16 ! i = (if even i then 97 else 98)" and length_ab16: "length ab16 = 32"
proof -
  have "\<forall>i < 32. ab16 ! i = (if even i then 97 else 98)" by code_simp
  then show "i < 32 \<Longrightarrow> ab16 ! i = (if even i then 97 else 98)" by blast
qed code_simp

lemma ab_text_nth: "i < 66 \<Longrightarrow> ab_text ! i = (if i = 0 \<or> 32 \<le> i \<and> i < 64 then 99 else if even i then 97 else 98)"
  and length_ab_text: "length ab_text = 66"
proof -
  have "\<forall>i < 66. ab_text ! i = (if i = 0 \<or> 32 \<le> i \<and> i < 64 then 99 else if even i then 97 else 98)" by code_simp
  then show "i < 66 \<Longrightarrow> ab_text ! i = (if i = 0 \<or> 32 \<le> i \<and> i < 64 then 99 else if even i then 97 else 98)" by blast
qed code_simp

lemma ab16_not_in_text: "\<not> occurs ab16 ab_text j"
proof -
  have "\<forall>j < 35. \<exists>i < 32. ab_text ! (j + i) \<noteq> ab16 ! i" by code_simp
  then show ?thesis by (auto simp: occurs_def length_ab16 length_ab_text)
qed

lemma ab16_factorization:
  assumes "\<forall>i < 32. nd i = Some (if even i then 97 else 98)"
  shows "critical_factorization nd 32 = Some (1, 2)"
  using assms by (simp add: critical_factorization_def max_suffix_loop.simps)

lemma ab16_search:
  assumes nd: "\<forall>i < 32. nd i = Some (if even i then 97 else 98)"
    and hay: "\<forall>i < 66. hay i = Some (if i = 0 \<or> 32 \<le> i \<and> i < 64 then 99 else if even i then 97 else 98)"
    and tab: "tab 98 = 0" "tab 99 = 32"
  shows "loop (long_periodic (mem_available 32) hay nd 32 tab 1 2) (66, 0, 0) = Some (Some 34)"
proof -
  let ?b = "long_periodic (mem_available 32) hay nd 32 tab 1 2"
  have "right_scan nd hay 31 0 1 = Some 31" using nd hay by (simp add: right_scan.simps)
  moreover have "left_scan nd hay 0 0 1 = Some 1" using nd hay by (simp add: left_scan.simps)
  ultimately have 1: "?b (66, 0, 0) = Some (Inr (66, 2, 30))"
    using hay tab by (simp add: long_periodic_def mem_available_def)
  have 2: "?b (66, 2, 30) = Some (Inr (66, 34, 30))"
    using hay tab by (simp add: long_periodic_def mem_available_def)
  have "right_scan nd hay 31 34 30 = Some 31" using nd hay by (simp add: right_scan.simps)
  moreover have "left_scan nd hay 30 34 1 = Some 1" by (simp add: left_scan.simps)
  ultimately have 3: "?b (66, 34, 30) = Some (Inl (Some 34))"
    using hay tab by (simp add: long_periodic_def mem_available_def)
  have "loop ?b (66, 34, 30) = Some (Some 34)" by (subst loop.simps) (simp only: 3 Option.bind.simps sum.case)
  then have "loop ?b (66, 2, 30) = Some (Some 34)" by (subst loop.simps) (simp only: 2 Option.bind.simps sum.case)
  then show ?thesis by (subst loop.simps) (simp only: 1 Option.bind.simps sum.case)
qed

lemma memmem_false_match:
  assumes "bytes m p ab_text" "bytes m q ab16"
  shows "memmem m p 66 q 32 = Some (p + 34)"
proof -
  let ?nd = "element (\<lambda>c. c) m q" and ?hay = "element (\<lambda>c. c) m p"
  have rd: "reads ?nd ab16" "reads ?hay ab_text" using reads_element [OF assms(2), of "\<lambda>c. c"] reads_element [OF assms(1), of "\<lambda>c. c"] by simp_all
  have nd: "\<forall>i < 32. ?nd i = Some (if even i then 97 else 98)" using readsD [OF rd(1)] by (simp add: length_ab16 ab16_nth)
  have hay: "\<forall>i < 66. ?hay i = Some (if i = 0 \<or> 32 \<le> i \<and> i < 64 then 99 else if even i then 97 else 98)"
    using readsD [OF rd(2)] by (simp add: length_ab_text ab_text_nth)
  obtain tab where t: "shift_table ?nd 32 = Some tab" "table_at ab16 32 tab" using shift_table_ok [OF rd(1)] by (auto simp: length_ab16)
  have "\<forall>i < 32. tab (ab16 ! i) \<le> length ab16 - 1 - i" using t(2) unfolding table_at_def by blast
  then have "tab (ab16 ! 31) \<le> length ab16 - 1 - 31" by (elim allE [of _ 31]) simp
  then have tab98: "tab 98 = 0" by (simp add: ab16_nth length_ab16)
  have tab99: "tab 99 = 32"
  proof (rule ccontr)
    assume "tab 99 \<noteq> 32"
    moreover have "tab 99 \<le> 32" using t(2) by (simp add: table_at_def length_ab16)
    ultimately have "tab 99 < length ab16" by (simp add: length_ab16)
    then have "ab16 ! (length ab16 - 1 - tab 99) = 99" using t(2) unfolding table_at_def by blast
    then show False by (simp add: ab16_nth length_ab16 split: if_splits)
  qed
  have lq: "1 + 2 \<le> length ab16" by (simp add: length_ab16)
  obtain c where "memcmp m q (q + 2) 1 = Some c" "c = 0 \<longleftrightarrow> take 1 ab16 = take 1 (drop 2 ab16)"
    using memcmp_ok [OF assms(2)] lq unfolding cmp_ok_def list.map_ident by blast
  moreover have "take 1 ab16 = take 1 (drop 2 ab16)" by code_simp
  ultimately have "memcmp m q (q + 2) 1 = Some 0" by simp
  then have "two_way_long_needle (mem_available 32) memcmp (\<lambda>c. c) m p 66 q 32 = Some (p + 34)"
    using ab16_factorization [OF nd] t(1) ab16_search [OF nd hay tab98 tab99]
    by (simp only: two_way_long_needle_def Let_def Option.bind.simps prod.case if_True refl at_index_def option.case)
  then show ?thesis by (simp add: memmem_def LONG_NEEDLE_THRESHOLD_def)
qed

section \<open>Properties\<close>

text \<open>
  C24.  \<^verbatim>\<open>memmem\<close> ends without a fault and returns the place of the first occurrence of the needle, or
  \<^verbatim>\<open>NULL\<close> when there is none, for every needle shorter than the threshold of 32 bytes, and for a longer one that
  carries no matched prefix from one window to the next.
\<close>

theorem memmem_correct:
  assumes "bytes m p hs" "bytes m q x" "plain_needle x" "p \<noteq> NULL" "length hs = n" "length x = k"
  shows "\<exists>r. memmem m p n q k = Some (at_index p r) \<and> first_at x hs r"
  using memmem_ok [OF assms(1-4)] assms(5,6) by simp

theorem memmem_correct_witness:
  "\<exists>r. memmem (mem_image 4 [1, 2, 1, 2, 1, 3, 1, 2, 1, 3]) 4 6 10 4 = Some (at_index 4 r) \<and> first_at [1, 2, 1, 3 :: byte] [1, 2, 1, 2, 1, 3] r"
  by (rule memmem_correct) (simp_all add: plain_needle_def LONG_NEEDLE_THRESHOLD_def)

text \<open>
  C12.  \<^verbatim>\<open>strstr\<close> ends without a fault and returns the first occurrence of the needle in the string, or \<^verbatim>\<open>NULL\<close>;
  the end of the string is found on the way, with the word reads of \<^verbatim>\<open>memchr\<close> that may look a little beyond it.
\<close>

theorem strstr_correct:
  assumes "paged m" "cstr m p s" "cstr m q t" "plain_needle t" "p \<noteq> NULL"
  shows "\<exists>r. strstr m p q = Some (at_index p r) \<and> first_at t s r"
  by (rule strstr_ok [OF assms])

theorem strstr_correct_witness:
  "\<exists>r. strstr (mem_image 4 [1, 2, 1, 2, 1, 3, 0, 1, 2, 1, 3, 0]) 4 11 = Some (at_index 4 r) \<and> first_at [1, 2, 1, 3 :: byte] [1, 2, 1, 2, 1, 3] r"
  by (rule strstr_correct) (simp_all add: plain_needle_def LONG_NEEDLE_THRESHOLD_def paged_mem_image cstr_def)

text \<open>
  \<^verbatim>\<open>strcasestr\<close> returns the first place where the needle occurs when upper and lower case letters are not
  told apart, or \<^verbatim>\<open>NULL\<close>.
\<close>

theorem strcasestr_correct:
  assumes "paged m" "cstr m p s" "cstr m q t" "plain_needle (map lower t)"
  shows "\<exists>r. strcasestr m p q = Some (at_index p r) \<and> first_at (map lower t) (map lower s) r"
  by (rule strcasestr_ok [OF assms])

theorem strcasestr_correct_witness:
  "\<exists>r. strcasestr (mem_image 4 [65, 98, 97, 66, 99, 0, 97, 66, 67, 0, 0, 0]) 4 10 = Some (at_index 4 r) \<and>
     first_at (map lower [97, 66, 67]) (map lower [65, 98, 97, 66, 99]) r"
  by (rule strcasestr_correct) (simp_all add: plain_needle_def LONG_NEEDLE_THRESHOLD_def paged_mem_image cstr_def)

text \<open>
  C25.  With a needle of 32 bytes and a short period, \<^verbatim>\<open>memmem\<close> reports an occurrence where there is none: the loop for periodic
  needles keeps its memory when the table moves the window by more than a period.
\<close>

theorem memmem_periodic_false_match:
  assumes "bytes m p ab_text" "bytes m q ab16" "length ab_text = n" "length ab16 = k"
  shows "memmem m p n q k = Some (p + 34) \<and> \<not> occurs ab16 ab_text 34 \<and> first_at ab16 ab_text None"
  using memmem_false_match [OF assms(1,2)] ab16_not_in_text assms(3,4) by (auto simp: first_at_def length_ab16 length_ab_text)

theorem memmem_periodic_false_match_witness:
  "memmem (mem_image 4 (ab_text @ ab16)) 4 66 70 32 = Some 38 \<and> first_at ab16 ab_text None"
proof -
  have "bytes (mem_image 4 (ab_text @ ab16)) 4 (ab_text @ ab16)" by (simp add: bytes_nth del: bytes_append)
  then have "bytes (mem_image 4 (ab_text @ ab16)) 4 ab_text" "bytes (mem_image 4 (ab_text @ ab16)) 70 ab16"
    by (simp_all add: length_ab_text)
  from memmem_periodic_false_match [OF this length_ab_text length_ab16] show ?thesis by simp
qed

end
