(* ===== verification/Stdio.thy ===== *)
theory Stdio
  imports MemCopy StrScan Loops Allocator
begin

text \<open>
  Buffered streams: the records and the routines of \<^verbatim>\<open>src/runtime/libc/stdio\<close> that output and input share
  (\<^verbatim>\<open>stdio.c\<close>, \<^verbatim>\<open>findfp.c\<close>, \<^verbatim>\<open>makebuf.c\<close>, \<^verbatim>\<open>wsetup.c\<close>, \<^verbatim>\<open>fflush.c\<close>), and the wrappers
  \<^verbatim>\<open>writer.c\<close>, \<^verbatim>\<open>readr.c\<close>, \<^verbatim>\<open>lseekr.c\<close>, \<^verbatim>\<open>fstatr.c\<close> and \<^verbatim>\<open>isattyr.c\<close> of \<^verbatim>\<open>src/runtime/libc/reent\<close>.

  A stream is a \<^verbatim>\<open>FILE\<close> whose buffers lie in the byte memory; \<open>f_ubuf\<close> and \<open>f_nbuf\<close> are the addresses of the arrays inside
  the structure.  The state has the stream the call is about, the other open streams in the order of the table, the memory,
  \<^verbatim>\<open>errno\<close> and the state \<open>'w\<close> of the system.  The system calls and the allocator are parameters: a record \<open>os\<close>.  A call gives its
  result, the \<^verbatim>\<open>errno\<close> it leaves and the new state.  The functions \<^verbatim>\<open>_read\<close>, \<^verbatim>\<open>_write\<close> and \<^verbatim>\<open>_seek\<close> of a stream are those of
  \<^verbatim>\<open>stdio.c\<close>, as \<^verbatim>\<open>std\<close> and \<^verbatim>\<open>fopen\<close> set them, and \<^verbatim>\<open>__sinit\<close> has run.  Locks are no operations in this build,
  \<^verbatim>\<open>__SCLE\<close>, \<^verbatim>\<open>HAVE_BLKSIZE\<close>, \<^verbatim>\<open>HAVE_FCNTL\<close>, \<^verbatim>\<open>_REENT_SMALL\<close> and \<^verbatim>\<open>__LARGE64_FILES\<close> are not defined.
\<close>

section \<open>Flags\<close>

definition SLBF :: "16 word" where "SLBF = 0x0001"

definition SNBF :: "16 word" where "SNBF = 0x0002"

definition SRD :: "16 word" where "SRD = 0x0004"

definition SWR :: "16 word" where "SWR = 0x0008"

definition SRW :: "16 word" where "SRW = 0x0010"

definition SEOF :: "16 word" where "SEOF = 0x0020"

definition SERR :: "16 word" where "SERR = 0x0040"

definition SMBF :: "16 word" where "SMBF = 0x0080"

definition SAPP :: "16 word" where "SAPP = 0x0100"

definition SSTR :: "16 word" where "SSTR = 0x0200"

definition SOPT :: "16 word" where "SOPT = 0x0400"

definition SNPT :: "16 word" where "SNPT = 0x0800"

definition SOFF :: "16 word" where "SOFF = 0x1000"

definition SORD :: "16 word" where "SORD = 0x2000"

definition SWID :: "u32" where "SWID = 0x2000"

definition EOF :: int where "EOF = -1"

definition EBADF :: int where "EBADF = 9"

definition ENOMEM :: int where "ENOMEM = 12"

definition ESPIPE :: int where "ESPIPE = 29"

definition BUFSIZ :: nat where "BUFSIZ = 1024"

section \<open>Streams\<close>

record FILE =
  f_p :: addr
  f_r :: int
  f_w :: int
  f_flags :: "16 word"
  f_file :: int
  bf_base :: addr
  bf_size :: int
  lbfsize :: int
  ub_base :: addr
  ub_size :: int
  f_up :: addr
  f_ur :: int
  f_ubuf :: addr
  f_nbuf :: addr
  f_blksize :: int
  f_offset :: int
  f_flags2 :: u32

record 'w os =
  sys_write :: "int \<Rightarrow> byte list \<Rightarrow> 'w \<Rightarrow> int \<times> int \<times> 'w"
  sys_read :: "int \<Rightarrow> nat \<Rightarrow> 'w \<Rightarrow> int \<times> byte list \<times> int \<times> 'w"
  sys_lseek :: "int \<Rightarrow> int \<Rightarrow> int \<Rightarrow> 'w \<Rightarrow> int \<times> int \<times> 'w"
  sys_fstat :: "int \<Rightarrow> 'w \<Rightarrow> int \<times> u32 \<times> int \<times> 'w"
  sys_isatty :: "int \<Rightarrow> 'w \<Rightarrow> int \<times> int \<times> 'w"
  os_malloc :: "mem \<Rightarrow> nat \<Rightarrow> addr \<times> mem"
  os_realloc :: "mem \<Rightarrow> addr \<Rightarrow> nat \<Rightarrow> addr \<times> mem"
  os_free :: "mem \<Rightarrow> addr \<Rightarrow> mem"

record 'w io =
  io_fp :: FILE
  io_mem :: mem
  io_errno :: int
  io_sys :: 'w
  io_others :: "FILE list"

definition upd :: "(FILE \<Rightarrow> FILE) \<Rightarrow> 'w io \<Rightarrow> 'w io" where
  "upd g s = s\<lparr>io_fp := g (io_fp s)\<rparr>"

definition flag :: "'w io \<Rightarrow> 16 word \<Rightarrow> bool" where
  "flag s k \<longleftrightarrow> f_flags (io_fp s) AND k \<noteq> 0"

definition on :: "16 word \<Rightarrow> 'w io \<Rightarrow> 'w io" where
  "on k = upd (\<lambda>f. f\<lparr>f_flags := f_flags f OR k\<rparr>)"

definition off :: "16 word \<Rightarrow> 'w io \<Rightarrow> 'w io" where
  "off k = upd (\<lambda>f. f\<lparr>f_flags := f_flags f AND NOT k\<rparr>)"

text \<open>An \<^verbatim>\<open>int\<close> taken as a \<^verbatim>\<open>size_t\<close>\<close>

definition as_size :: "int \<Rightarrow> nat" where
  "as_size w = nat (w mod 2 ^ 32)"

lemma as_size_int [simp]: "0 \<le> n \<Longrightarrow> n < 2 ^ 32 \<Longrightarrow> as_size n = nat n"
  by (simp add: as_size_def)

text \<open>\<^verbatim>\<open>ORIENT (fp, -1)\<close>\<close>

definition orient :: "'w io \<Rightarrow> 'w io" where
  "orient s = (if flag s SORD then s else upd (\<lambda>f. f\<lparr>f_flags2 := f_flags2 f AND NOT SWID\<rparr>) (on SORD s))"

definition HASUB :: "'w io \<Rightarrow> bool" where
  "HASUB s \<longleftrightarrow> ub_base (io_fp s) \<noteq> NULL"

definition FREEUB :: "'w os \<Rightarrow> 'w io \<Rightarrow> 'w io" where
  "FREEUB os s = upd (\<lambda>f. f\<lparr>ub_base := NULL\<rparr>)
     (if ub_base (io_fp s) \<noteq> f_ubuf (io_fp s) then s\<lparr>io_mem := os_free os (io_mem s) (ub_base (io_fp s))\<rparr> else s)"

text \<open>The standard streams\<close>

definition std :: "16 word \<Rightarrow> int \<Rightarrow> FILE \<Rightarrow> FILE" where
  "std flags file f = f\<lparr>f_p := 0, f_r := 0, f_w := 0, f_flags := flags, f_flags2 := 0, f_file := file, bf_base := 0, bf_size := 0,
     lbfsize := 0\<rparr>"

section \<open>System calls\<close>

text \<open>What a system call finds or leaves in memory\<close>

primrec fetch :: "mem \<Rightarrow> addr \<Rightarrow> nat \<Rightarrow> byte list option" where
  "fetch m p 0 = Some []"
| "fetch m p (Suc n) = do { b \<leftarrow> load8 m p; bs \<leftarrow> fetch m (p + 1) n; Some (b # bs) }"

primrec deliver :: "mem \<Rightarrow> addr \<Rightarrow> byte list \<Rightarrow> mem option" where
  "deliver m p [] = Some m"
| "deliver m p (b # bs) = do { m \<leftarrow> store8 m p b; deliver m (p + 1) bs }"

definition after_call :: "int \<Rightarrow> int \<Rightarrow> 'w \<Rightarrow> 'w io \<Rightarrow> 'w io" where
  "after_call ret e w s = s\<lparr>io_sys := w, io_errno := if ret = -1 \<and> e \<noteq> 0 then e else io_errno s\<rparr>"

definition write_r :: "'w os \<Rightarrow> byte list \<Rightarrow> 'w io \<Rightarrow> int \<times> 'w io" where
  "write_r os xs s = (case sys_write os (f_file (io_fp s)) xs (io_sys s) of (ret, e, w) \<Rightarrow> (ret, after_call ret e w s))"

definition read_r :: "'w os \<Rightarrow> addr \<Rightarrow> nat \<Rightarrow> 'w io \<Rightarrow> (int \<times> 'w io) option" where
  "read_r os buf n s = (case sys_read os (f_file (io_fp s)) n (io_sys s) of (ret, bs, e, w) \<Rightarrow>
     do { m \<leftarrow> deliver (io_mem s) buf bs; Some (ret, after_call ret e w (s\<lparr>io_mem := m\<rparr>)) })"

definition lseek_r :: "'w os \<Rightarrow> int \<Rightarrow> int \<Rightarrow> 'w io \<Rightarrow> int \<times> 'w io" where
  "lseek_r os pos whence s = (case sys_lseek os (f_file (io_fp s)) pos whence (io_sys s) of (ret, e, w) \<Rightarrow> (ret, after_call ret e w s))"

definition fstat_r :: "'w os \<Rightarrow> 'w io \<Rightarrow> int \<times> u32 \<times> 'w io" where
  "fstat_r os s = (case sys_fstat os (f_file (io_fp s)) (io_sys s) of (ret, mode, e, w) \<Rightarrow> (ret, mode, after_call ret e w s))"

definition isatty_r :: "'w os \<Rightarrow> 'w io \<Rightarrow> int \<times> 'w io" where
  "isatty_r os s = (case sys_isatty os (f_file (io_fp s)) (io_sys s) of (ret, e, w) \<Rightarrow> (ret, after_call ret e w s))"

text \<open>The functions of \<^verbatim>\<open>stdio.c\<close>; \<^verbatim>\<open>SEEK_SET\<close>, \<^verbatim>\<open>SEEK_CUR\<close> and \<^verbatim>\<open>SEEK_END\<close> are 0, 1 and 2.\<close>

definition sread :: "'w os \<Rightarrow> addr \<Rightarrow> int \<Rightarrow> 'w io \<Rightarrow> (int \<times> 'w io) option" where
  "sread os buf n s =
     do { (ret, s) \<leftarrow> read_r os buf (nat n) s;
          Some (ret, if 0 \<le> ret then upd (\<lambda>f. f\<lparr>f_offset := f_offset f + ret\<rparr>) s else off SOFF s) }"

definition swrite :: "'w os \<Rightarrow> addr \<Rightarrow> int \<Rightarrow> 'w io \<Rightarrow> (int \<times> 'w io) option" where
  "swrite os buf n s =
     (let s = off SOFF (if flag s SAPP then snd (lseek_r os 0 2 s) else s) in
      do { xs \<leftarrow> fetch (io_mem s) buf (nat n); Some (write_r os xs s) })"

definition sseek :: "'w os \<Rightarrow> int \<Rightarrow> int \<Rightarrow> 'w io \<Rightarrow> int \<times> 'w io" where
  "sseek os offset whence s =
     (let (ret, s) = lseek_r os offset whence s in
      if ret = -1 then (ret, off SOFF s) else (ret, upd (\<lambda>f. f\<lparr>f_offset := ret\<rparr>) (on SOFF s)))"

section \<open>Buffers and flushing\<close>

definition no_buffer :: "'w io \<Rightarrow> 'w io" where
  "no_buffer = upd (\<lambda>f. f\<lparr>bf_base := f_nbuf f, f_p := f_nbuf f, bf_size := 1\<rparr>)"

text \<open>\<^verbatim>\<open>__smakebuf_r\<close> also registers \<^verbatim>\<open>_cleanup_r\<close>, which \<^verbatim>\<open>__sinit\<close> has done before; that is no part of the state here.\<close>

definition smakebuf_r :: "'w os \<Rightarrow> 'w io \<Rightarrow> 'w io" where
  "smakebuf_r os s =
     (if flag s SNBF then no_buffer s
      else
        let (ret, mode, s) = (if f_file (io_fp s) < 0 then (-1, 0, s) else fstat_r os s);
            couldbetty = (\<not> ret < 0 \<and> mode AND 0xF000 = 0x2000);
            size = (if ret < 0 \<and> flag s SMBF then 64 else BUFSIZ);
            s = (if \<not> ret < 0 \<and> mode AND 0xF000 = 0x8000 then upd (\<lambda>f. f\<lparr>f_blksize := 1024\<rparr>) (on SOPT s) else on SNPT s);
            (p, m) = os_malloc os (io_mem s) size
        in if p = NULL then (if flag s SSTR then s else no_buffer (on SNBF s))
           else
             let s = upd (\<lambda>f. f\<lparr>bf_base := p, f_p := p, bf_size := int size\<rparr>) (on SMBF (s\<lparr>io_mem := m\<rparr>)) in
             if couldbetty
             then let (tty, s) = isatty_r os s in if tty \<noteq> 0 then on SLBF s else s
             else s)"
text \<open>\<^verbatim>\<open>__swsetup_r\<close>: a stream that was read is turned to writing, it gets a buffer, and \<^verbatim>\<open>_w\<close> is set.\<close>

definition write_mode :: "'w os \<Rightarrow> 'w io \<Rightarrow> 'w io" where
  "write_mode os s =
     (if flag s SWR then s
      else on SWR (if flag s SRD
                   then let s = (if HASUB s then FREEUB os s else s) in
                        upd (\<lambda>f. f\<lparr>f_r := 0, f_p := bf_base f\<rparr>) (off (SRD OR SEOF) s)
                   else s))"

definition write_count :: "'w io \<Rightarrow> 'w io" where
  "write_count s =
     (if flag s SLBF then upd (\<lambda>f. f\<lparr>f_w := 0, lbfsize := - bf_size f\<rparr>) s
      else upd (\<lambda>f. f\<lparr>f_w := if flag s SNBF then 0 else bf_size f\<rparr>) s)"

definition swsetup_r :: "'w os \<Rightarrow> 'w io \<Rightarrow> int \<times> 'w io" where
  "swsetup_r os s =
     (if \<not> flag s SWR \<and> \<not> flag s SRW then (EOF, s)
      else
        let s = write_mode os s;
            s = (if bf_base (io_fp s) = NULL \<and> (\<not> flag s SSTR \<or> flag s SMBF) then smakebuf_r os s else s);
            s = write_count s
        in (if bf_base (io_fp s) = NULL \<and> flag s SMBF then EOF else 0, s))"

definition cantwrite :: "'w os \<Rightarrow> 'w io \<Rightarrow> bool \<times> 'w io" where
  "cantwrite os s =
     (if \<not> flag s SWR \<or> bf_base (io_fp s) = NULL then let (r, s) = swsetup_r os s in (r \<noteq> 0, s) else (False, s))"

text \<open>The loop of \<^verbatim>\<open>_fflush_r\<close>\<close>

function flush_loop :: "'w os \<Rightarrow> addr \<Rightarrow> int \<Rightarrow> 'w io \<Rightarrow> (int \<times> 'w io) option" where
  "flush_loop os p n s =
     (if 0 < n
      then do { (t, s) \<leftarrow> swrite os p n s;
                if t \<le> 0 then Some (EOF, on SERR s) else flush_loop os (p + nat t) (n - t) s }
      else Some (0, s))"
  by pat_completeness auto

termination by (relation "measure (\<lambda>(os, p, n, s). nat n)") auto

declare flush_loop.simps [simp del]

text \<open>\<^verbatim>\<open>_fflush_r\<close> on a stream that is not written\<close>

definition fflush_read :: "'w os \<Rightarrow> 'w io \<Rightarrow> int \<times> 'w io" where
  "fflush_read os s =
     (let s = on SNPT s in
      if 0 < f_r (io_fp s) \<or> 0 < f_ur (io_fp s)
      then
        let known = flag s SOFF;
            (curoff, s) = (if known then (f_offset (io_fp s), s) else sseek os 0 1 s)
        in if \<not> known \<and> curoff = -1
           then if io_errno s = ESPIPE then (0, s) else (EOF, on SERR s)
           else
             let curoff = (if flag s SRD then curoff - f_r (io_fp s) - (if HASUB s then f_ur (io_fp s) else 0) else curoff);
                 (pos, s) = sseek os curoff 0 s
             in if pos = curoff
                then let s = upd (\<lambda>f. f\<lparr>f_r := 0, f_p := bf_base f\<rparr>) (off SNPT s);
                         s = (if flag s SOFF then upd (\<lambda>f. f\<lparr>f_offset := curoff\<rparr>) s else s)
                     in (0, if HASUB s then FREEUB os s else s)
                else (EOF, on SERR s)
      else (0, s))"

definition fflush_r :: "'w os \<Rightarrow> 'w io \<Rightarrow> (int \<times> 'w io) option" where
  "fflush_r os s =
     (if \<not> flag s SWR then Some (fflush_read os s)
      else
        let p = bf_base (io_fp s) in
        if p = NULL then Some (0, s)
        else
          let n = int (f_p (io_fp s)) - int p in
          flush_loop os p n (upd (\<lambda>f. f\<lparr>f_p := p, f_w := if flag s (SLBF OR SNBF) then 0 else bf_size f\<rparr>) s))"

section \<open>Flags as bits\<close>

named_theorems io_simps \<open>fields and flags after updates of a stream\<close>

definition fbit :: "'w io \<Rightarrow> nat \<Rightarrow> bool" where
  "fbit s n \<longleftrightarrow> bit (f_flags (io_fp s)) n"

lemma flag_word_bit: "f AND (2 ^ n :: 16 word) \<noteq> 0 \<longleftrightarrow> bit f n"
  by (simp add: and_exp_eq_0_iff_not_bit)

lemma mask_eqs: "SLBF = 2 ^ 0" "SNBF = 2 ^ 1" "SRD = 2 ^ 2" "SWR = 2 ^ 3" "SRW = 2 ^ 4" "SEOF = 2 ^ 5" "SERR = 2 ^ 6" "SMBF = 2 ^ 7"
    "SAPP = 2 ^ 8" "SSTR = 2 ^ 9" "SOPT = 2 ^ 10" "SNPT = 2 ^ 11" "SOFF = 2 ^ 12" "SORD = 2 ^ 13"
  by (simp_all add: SLBF_def SNBF_def SRD_def SWR_def SRW_def SEOF_def SERR_def SMBF_def SAPP_def SSTR_def SOPT_def SNPT_def
      SOFF_def SORD_def)

lemma flag_exp: "flag s (2 ^ n) = fbit s n"
  by (simp add: flag_def fbit_def flag_word_bit)

lemma flag_bits [io_simps]: "flag s SLBF = fbit s 0" "flag s SNBF = fbit s 1" "flag s SRD = fbit s 2" "flag s SWR = fbit s 3"
    "flag s SRW = fbit s 4" "flag s SEOF = fbit s 5" "flag s SERR = fbit s 6" "flag s SMBF = fbit s 7" "flag s SAPP = fbit s 8"
    "flag s SSTR = fbit s 9" "flag s SOPT = fbit s 10" "flag s SNPT = fbit s 11" "flag s SOFF = fbit s 12" "flag s SORD = fbit s 13"
  unfolding mask_eqs by (rule flag_exp)+

lemma flag_or [io_simps]: "flag s (a OR b) \<longleftrightarrow> flag s a \<or> flag s b"
  by (simp add: flag_def bit.conj_disj_distrib or_eq_0_iff)

lemma mask_bits: "bit SLBF n \<longleftrightarrow> n = 0" "bit SNBF n \<longleftrightarrow> n = 1" "bit SRD n \<longleftrightarrow> n = 2" "bit SWR n \<longleftrightarrow> n = 3" "bit SRW n \<longleftrightarrow> n = 4"
    "bit SEOF n \<longleftrightarrow> n = 5" "bit SERR n \<longleftrightarrow> n = 6" "bit SMBF n \<longleftrightarrow> n = 7" "bit SAPP n \<longleftrightarrow> n = 8" "bit SSTR n \<longleftrightarrow> n = 9"
    "bit SOPT n \<longleftrightarrow> n = 10" "bit SNPT n \<longleftrightarrow> n = 11" "bit SOFF n \<longleftrightarrow> n = 12" "bit SORD n \<longleftrightarrow> n = 13"
  unfolding mask_eqs by (simp_all only: bit_exp_iff) auto

lemma fbit_bound: "fbit s n \<Longrightarrow> n < 16"
  using bit_imp_le_length by (fastforce simp: fbit_def)

lemma fbit_on [io_simps]: "fbit (on k s) n \<longleftrightarrow> fbit s n \<or> bit k n"
  by (simp add: fbit_def on_def upd_def bit_simps)

lemma fbit_off [io_simps]: "fbit (off k s) n \<longleftrightarrow> fbit s n \<and> \<not> bit k n"
  using fbit_bound [of s n] by (auto simp: fbit_def off_def upd_def bit_simps)

lemma fbit_upd [io_simps]: "(\<And>f. f_flags (g f) = f_flags f) \<Longrightarrow> fbit (upd g s) n = fbit s n"
  by (simp add: fbit_def upd_def)

lemma fbit_simps [simp]: "fbit (s\<lparr>io_mem := m\<rparr>) n = fbit s n" "fbit (s\<lparr>io_errno := e\<rparr>) n = fbit s n" "fbit (s\<lparr>io_sys := w\<rparr>) n = fbit s n"
  by (simp_all add: fbit_def)

lemma io_upd [io_simps]: "io_fp (upd g s) = g (io_fp s)" "io_mem (upd g s) = io_mem s" "io_errno (upd g s) = io_errno s"
    "io_sys (upd g s) = io_sys s" "io_others (upd g s) = io_others s"
  by (simp_all add: upd_def)

text \<open>Everything of a stream but its flags\<close>

definition shape :: "FILE \<Rightarrow> FILE" where
  "shape f = f\<lparr>f_flags := 0, f_flags2 := 0\<rparr>"

lemma io_on [io_simps]: "io_mem (on k s) = io_mem s" "io_errno (on k s) = io_errno s" "io_sys (on k s) = io_sys s"
    "io_others (on k s) = io_others s" "shape (io_fp (on k s)) = shape (io_fp s)"
    "io_mem (off k s) = io_mem s" "io_errno (off k s) = io_errno s" "io_sys (off k s) = io_sys s"
    "io_others (off k s) = io_others s" "shape (io_fp (off k s)) = shape (io_fp s)"
  by (simp_all add: on_def off_def upd_def shape_def)

lemma shape_fields:
  assumes "shape f = shape g"
  shows "f_p f = f_p g" "f_r f = f_r g" "f_w f = f_w g" "f_file f = f_file g" "bf_base f = bf_base g" "bf_size f = bf_size g"
    "lbfsize f = lbfsize g" "ub_base f = ub_base g" "ub_size f = ub_size g" "f_up f = f_up g" "f_ur f = f_ur g" "f_ubuf f = f_ubuf g"
    "f_nbuf f = f_nbuf g" "f_blksize f = f_blksize g" "f_offset f = f_offset g"
  using assms by (cases f; cases g; simp add: shape_def)+

lemma fields_on [io_simps]:
  "f_p (io_fp (on k s)) = f_p (io_fp s)" "f_r (io_fp (on k s)) = f_r (io_fp s)" "f_w (io_fp (on k s)) = f_w (io_fp s)"
  "f_file (io_fp (on k s)) = f_file (io_fp s)" "bf_base (io_fp (on k s)) = bf_base (io_fp s)" "bf_size (io_fp (on k s)) = bf_size (io_fp s)"
  "lbfsize (io_fp (on k s)) = lbfsize (io_fp s)" "ub_base (io_fp (on k s)) = ub_base (io_fp s)" "ub_size (io_fp (on k s)) = ub_size (io_fp s)"
  "f_up (io_fp (on k s)) = f_up (io_fp s)" "f_ur (io_fp (on k s)) = f_ur (io_fp s)" "f_ubuf (io_fp (on k s)) = f_ubuf (io_fp s)"
  "f_nbuf (io_fp (on k s)) = f_nbuf (io_fp s)"
  by (simp_all add: on_def upd_def)

lemma fields_off [io_simps]:
  "f_p (io_fp (off k s)) = f_p (io_fp s)" "f_r (io_fp (off k s)) = f_r (io_fp s)" "f_w (io_fp (off k s)) = f_w (io_fp s)"
  "f_file (io_fp (off k s)) = f_file (io_fp s)" "bf_base (io_fp (off k s)) = bf_base (io_fp s)" "bf_size (io_fp (off k s)) = bf_size (io_fp s)"
  "lbfsize (io_fp (off k s)) = lbfsize (io_fp s)" "ub_base (io_fp (off k s)) = ub_base (io_fp s)" "ub_size (io_fp (off k s)) = ub_size (io_fp s)"
  "f_up (io_fp (off k s)) = f_up (io_fp s)" "f_ur (io_fp (off k s)) = f_ur (io_fp s)" "f_ubuf (io_fp (off k s)) = f_ubuf (io_fp s)"
  "f_nbuf (io_fp (off k s)) = f_nbuf (io_fp s)"
  by (simp_all add: off_def upd_def)

section \<open>Writing\<close>

lemma fetch_bytes: "bytes m p xs \<Longrightarrow> fetch m p (length xs) = Some xs"
  by (induction xs arbitrary: p) (simp_all add: load8_def)

text \<open>The calls that neither read nor write leave alone what an observer \<open>obs\<close> sees of the system.\<close>

definition quiet :: "'w os \<Rightarrow> int \<Rightarrow> ('w \<Rightarrow> 'o) \<Rightarrow> bool" where
  "quiet os fd obs \<longleftrightarrow>
     (\<forall>pos whence w r e w'. sys_lseek os fd pos whence w = (r, e, w') \<longrightarrow> obs w' = obs w) \<and>
     (\<forall>w r mode e w'. sys_fstat os fd w = (r, mode, e, w') \<longrightarrow> obs w' = obs w) \<and>
     (\<forall>w r e w'. sys_isatty os fd w = (r, e, w') \<longrightarrow> obs w' = obs w)"

text \<open>
  What output needs of the system: \<open>out w\<close> is what was written to the descriptor so far, in order, and \<open>fl w\<close> counts the writes
  that failed.  A write takes a prefix of what it is given, and nothing when it fails; the other calls write nothing.
\<close>

definition device :: "'w os \<Rightarrow> int \<Rightarrow> ('w \<Rightarrow> byte list) \<Rightarrow> ('w \<Rightarrow> nat) \<Rightarrow> bool" where
  "device os fd out fl \<longleftrightarrow> quiet os fd (\<lambda>w. (out w, fl w)) \<and>
     (\<forall>xs w r e w'. sys_write os fd xs w = (r, e, w') \<longrightarrow> r \<le> int (length xs) \<and> out w' = out w @ take (nat r) xs \<and>
       fl w' = (if r \<le> 0 \<and> xs \<noteq> [] then Suc (fl w) else fl w))"

lemma device_quiet: "device os fd out fl \<Longrightarrow> quiet os fd (\<lambda>w. (out w, fl w))"
  by (simp add: device_def)

text \<open>Only the flags in \<open>B\<close>, \<^verbatim>\<open>errno\<close> and the state of the system differ.\<close>

definition kept :: "nat set \<Rightarrow> 'w io \<Rightarrow> 'w io \<Rightarrow> bool" where
  "kept B s s' \<longleftrightarrow> io_mem s' = io_mem s \<and> io_others s' = io_others s \<and> shape (io_fp s') = shape (io_fp s) \<and>
     (\<forall>n. n \<notin> B \<longrightarrow> fbit s' n = fbit s n)"

lemma kept_trans: "kept B s s' \<Longrightarrow> kept C s' s'' \<Longrightarrow> B \<union> C \<subseteq> D \<Longrightarrow> kept D s s''"
  by (auto simp: kept_def)

lemma kept_on: "kept {n. bit k n} s (on k s)" and kept_off: "kept {n. bit k n} s (off k s)"
  by (simp_all add: kept_def io_simps)

lemma kept_after_call: "kept {} s (after_call r e w s)" and sys_after_call [simp]: "io_sys (after_call r e w s) = w"
  by (simp_all add: kept_def after_call_def fbit_def)

lemma lseek_kept:
  assumes "quiet os (f_file (io_fp s)) out"
  shows "\<exists>r s'. lseek_r os pos whence s = (r, s') \<and> kept {} s s' \<and> out (io_sys s') = out (io_sys s)"
proof -
  obtain r e w where "sys_lseek os (f_file (io_fp s)) pos whence (io_sys s) = (r, e, w)" by (metis prod_cases3)
  then show ?thesis using assms kept_after_call by (simp add: lseek_r_def quiet_def)
qed

lemma keptD:
  assumes "kept B s s'"
  shows "io_mem s' = io_mem s" "io_others s' = io_others s" "f_p (io_fp s') = f_p (io_fp s)" "f_w (io_fp s') = f_w (io_fp s)"
    "f_file (io_fp s') = f_file (io_fp s)" "bf_base (io_fp s') = bf_base (io_fp s)" "bf_size (io_fp s') = bf_size (io_fp s)"
    "lbfsize (io_fp s') = lbfsize (io_fp s)" "f_nbuf (io_fp s') = f_nbuf (io_fp s)" "f_r (io_fp s') = f_r (io_fp s)"
    "ub_base (io_fp s') = ub_base (io_fp s)" "f_ubuf (io_fp s') = f_ubuf (io_fp s)" "f_up (io_fp s') = f_up (io_fp s)"
    "f_ur (io_fp s') = f_ur (io_fp s)" "ub_size (io_fp s') = ub_size (io_fp s)"
  using assms shape_fields [of "io_fp s'" "io_fp s"] by (simp_all add: kept_def)

lemma kept_fbit: "kept B s s' \<Longrightarrow> n \<notin> B \<Longrightarrow> fbit s' n = fbit s n"
  by (simp add: kept_def)

lemma swrite_ok:
  assumes "device os (f_file (io_fp s)) out fl" "bytes (io_mem s) p xs"
  shows "\<exists>t s'. swrite os p (int (length xs)) s = Some (t, s') \<and> t \<le> int (length xs) \<and> kept {12} s s' \<and>
    out (io_sys s') = out (io_sys s) @ take (nat t) xs \<and>
    fl (io_sys s') = (if t \<le> 0 \<and> xs \<noteq> [] then Suc (fl (io_sys s)) else fl (io_sys s))"
proof -
  define s1 where "s1 = off SOFF (if flag s SAPP then snd (lseek_r os 0 2 s) else s)"
  obtain r s0 where s0: "lseek_r os 0 2 s = (r, s0)" "kept {} s s0" "out (io_sys s0) = out (io_sys s)" "fl (io_sys s0) = fl (io_sys s)"
    using lseek_kept [OF device_quiet [OF assms(1)], of 0 2] by auto
  have k: "kept {12} s s1" "out (io_sys s1) = out (io_sys s)" "fl (io_sys s1) = fl (io_sys s)"
    using s0 kept_off [of SOFF s] kept_trans [OF s0(2) kept_off [of SOFF s0]] by (auto simp: s1_def io_simps mask_bits)
  obtain t e w where t: "sys_write os (f_file (io_fp s1)) xs (io_sys s1) = (t, e, w)" by (metis prod_cases3)
  have "device os (f_file (io_fp s1)) out fl" using assms(1) keptD(5) [OF k(1)] by simp
  then have "t \<le> int (length xs)" "out w = out (io_sys s1) @ take (nat t) xs"
    "fl w = (if t \<le> 0 \<and> xs \<noteq> [] then Suc (fl (io_sys s1)) else fl (io_sys s1))" using t unfolding device_def by blast+
  moreover have "swrite os p (int (length xs)) s = Some (t, after_call t e w s1)"
    using fetch_bytes [OF assms(2)] keptD(1) [OF k(1)] t by (simp add: swrite_def write_r_def Let_def s1_def [symmetric])
  moreover have "kept {12} s (after_call t e w s1)" by (rule kept_trans [OF k(1) kept_after_call]) simp
  ultimately show ?thesis using k(2,3) by simp
qed

lemma flush_loop_ok:
  assumes "device os (f_file (io_fp s)) out fl" "bytes (io_mem s) p xs"
  shows "\<exists>r s'. flush_loop os p (int (length xs)) s = Some (r, s') \<and> kept {6, 12} s s' \<and>
    (r = 0 \<and> fbit s' 6 = fbit s 6 \<and> fl (io_sys s') = fl (io_sys s) \<and> out (io_sys s') = out (io_sys s) @ xs \<or>
     r = EOF \<and> fbit s' 6 \<and> fl (io_sys s') = Suc (fl (io_sys s)) \<and> (\<exists>k < length xs. out (io_sys s') = out (io_sys s) @ take k xs))"
  using assms
proof (induction "length xs" arbitrary: xs p s rule: less_induct)
  case less
  show ?case
  proof (cases "xs = []")
    case True
    then show ?thesis by (simp add: flush_loop.simps kept_def)
  next
    case False
    obtain t s1 where t: "swrite os p (int (length xs)) s = Some (t, s1)" "t \<le> int (length xs)" "kept {12} s s1"
      "out (io_sys s1) = out (io_sys s) @ take (nat t) xs"
      "fl (io_sys s1) = (if t \<le> 0 \<and> xs \<noteq> [] then Suc (fl (io_sys s)) else fl (io_sys s))" using swrite_ok [OF less.prems] by blast
    show ?thesis
    proof (cases "t \<le> 0")
      case True
      have "kept {6, 12} s (on SERR s1)" by (rule kept_trans [OF t(3) kept_on]) (simp add: mask_bits)
      then show ?thesis using t True False by (subst flush_loop.simps) (auto simp: io_simps mask_bits intro!: exI [of _ 0])
    next
      case pos: False
      let ?ys = "drop (nat t) xs"
      have ys: "bytes (io_mem s1) (p + nat t) ?ys" using less.prems(2) t(2,3) keptD(1) [OF t(3)] by (simp add: bytes_drop)
      have lt: "length ?ys < length xs" using False pos by (simp add: length_greater_0_conv)
      have "device os (f_file (io_fp s1)) out fl" using less.prems(1) keptD(5) [OF t(3)] by simp
      from less.hyps [OF lt this ys]
      obtain r s' where r: "flush_loop os (p + nat t) (int (length ?ys)) s1 = Some (r, s')" "kept {6, 12} s1 s'"
        "r = 0 \<and> fbit s' 6 = fbit s1 6 \<and> fl (io_sys s') = fl (io_sys s1) \<and> out (io_sys s') = out (io_sys s1) @ ?ys \<or>
         r = EOF \<and> fbit s' 6 \<and> fl (io_sys s') = Suc (fl (io_sys s1)) \<and> (\<exists>k < length ?ys. out (io_sys s') = out (io_sys s1) @ take k ?ys)" by (elim exE conjE)
      have "int (length ?ys) = int (length xs) - t" using pos t(2) by simp
      then have "flush_loop os p (int (length xs)) s = Some (r, s')" using t(1) r(1) pos False by (subst flush_loop.simps) simp
      moreover have "kept {6, 12} s s'" by (rule kept_trans [OF t(3) r(2)]) simp
      moreover have "r = 0 \<and> fbit s' 6 = fbit s 6 \<and> fl (io_sys s') = fl (io_sys s) \<and> out (io_sys s') = out (io_sys s) @ xs \<or>
          r = EOF \<and> fbit s' 6 \<and> fl (io_sys s') = Suc (fl (io_sys s)) \<and> (\<exists>k < length xs. out (io_sys s') = out (io_sys s) @ take k xs)"
        using r(3)
      proof (elim disjE conjE exE)
        fix k assume "r = EOF" "fbit s' 6" "fl (io_sys s') = Suc (fl (io_sys s1))" "k < length ?ys" "out (io_sys s') = out (io_sys s1) @ take k ?ys"
        moreover have "take (nat t) xs @ take k ?ys = take (nat t + k) xs" by (simp add: take_add)
        ultimately show ?thesis using t(4,5) pos t(2) by (intro disjI2 conjI exI [of _ "nat t + k"]) simp_all
      qed (use t(4,5) pos kept_fbit [OF t(3)] in simp)
      ultimately show ?thesis by blast
    qed
  qed
qed

section \<open>Streams ready to be written\<close>

text \<open>
  The buffer holds \<open>pend\<close>, the bytes not yet written.  The count \<^verbatim>\<open>_w\<close> is zero for an unbuffered stream, minus the
  number of pending bytes for a line buffered one, and the room left for a fully buffered one.
\<close>

definition mode_ok :: "'w io \<Rightarrow> byte list \<Rightarrow> bool" where
  "mode_ok s pend \<longleftrightarrow> (let f = io_fp s in
     if fbit s 1 then \<not> fbit s 0 \<and> bf_size f = 1 \<and> pend = [] \<and> f_w f = 0 \<and> lbfsize f = 0
     else if fbit s 0 then lbfsize f = - bf_size f \<and> f_w f = - int (length pend) \<and> 10 \<notin> set pend
     else lbfsize f = 0 \<and> f_w f = bf_size f - int (length pend))"

definition buffer_ok :: "'w io \<Rightarrow> byte list \<Rightarrow> bool" where
  "buffer_ok s pend \<longleftrightarrow> (let f = io_fp s in
     fbit s 3 \<and> \<not> fbit s 9 \<and> bf_base f \<noteq> NULL \<and> 0 < bf_size f \<and> bf_size f < 2 ^ 31 \<and> f_p f = bf_base f + length pend \<and>
     int (length pend) \<le> bf_size f \<and> bytes (io_mem s) (bf_base f) pend \<and> mapped (io_mem s) (bf_base f) (nat (bf_size f)))"

definition ready :: "'w io \<Rightarrow> byte list \<Rightarrow> bool" where
  "ready s pend \<longleftrightarrow> buffer_ok s pend \<and> mode_ok s pend"

lemma buffer_okD:
  assumes "buffer_ok s pend"
  shows "fbit s 3" "\<not> fbit s 9" "bf_base (io_fp s) \<noteq> NULL" "0 < bf_size (io_fp s)" "bf_size (io_fp s) < 2 ^ 31"
    "f_p (io_fp s) = bf_base (io_fp s) + length pend" "int (length pend) \<le> bf_size (io_fp s)"
    "bytes (io_mem s) (bf_base (io_fp s)) pend" "mapped (io_mem s) (bf_base (io_fp s)) (nat (bf_size (io_fp s)))"
  using assms by (simp_all add: buffer_ok_def Let_def)

text \<open>What output on a stream leaves alone: its buffer and mode, the other streams, and the memory outside its buffer\<close>

definition same_stream :: "'w io \<Rightarrow> 'w io \<Rightarrow> bool" where
  "same_stream s s' \<longleftrightarrow> bf_base (io_fp s') = bf_base (io_fp s) \<and> bf_size (io_fp s') = bf_size (io_fp s) \<and>
     f_file (io_fp s') = f_file (io_fp s) \<and> f_nbuf (io_fp s') = f_nbuf (io_fp s) \<and> lbfsize (io_fp s') = lbfsize (io_fp s) \<and>
     io_others s' = io_others s \<and> (\<forall>n. n \<notin> {6, 12, 13} \<longrightarrow> fbit s' n = fbit s n) \<and> (fbit s 6 \<longrightarrow> fbit s' 6) \<and>
     dom (io_mem s') = dom (io_mem s) \<and>
     (\<forall>a. a \<notin> region (bf_base (io_fp s)) (nat (bf_size (io_fp s))) \<longrightarrow> io_mem s' a = io_mem s a)"

lemma same_stream_refl [simp]: "same_stream s s"
  by (simp add: same_stream_def)

lemma same_stream_trans: "same_stream s s' \<Longrightarrow> same_stream s' s'' \<Longrightarrow> same_stream s s''"
  by (simp add: same_stream_def)

lemma same_streamD:
  assumes "same_stream s s'"
  shows "bf_base (io_fp s') = bf_base (io_fp s)" "bf_size (io_fp s') = bf_size (io_fp s)" "f_file (io_fp s') = f_file (io_fp s)"
    "\<And>n. n \<notin> {6, 12, 13} \<Longrightarrow> fbit s' n = fbit s n"
  using assms by (simp_all add: same_stream_def)

lemma kept_same_stream: "kept B s s' \<Longrightarrow> B \<subseteq> {6, 12} \<Longrightarrow> (fbit s 6 \<Longrightarrow> fbit s' 6) \<Longrightarrow> same_stream s s'"
  using keptD [of B s s'] kept_fbit [of B s s'] by (auto simp: same_stream_def)

lemma fflush_ok:
  assumes "device os (f_file (io_fp s)) out fl" "buffer_ok s pend" "\<not> fbit s 1 \<or> \<not> fbit s 0 \<and> bf_size (io_fp s) = 1"
    "lbfsize (io_fp s) = (if fbit s 0 then - bf_size (io_fp s) else 0)"
  shows "\<exists>r s'. fflush_r os s = Some (r, s') \<and> ready s' [] \<and> same_stream s s' \<and> io_mem s' = io_mem s \<and>
    (r = 0 \<and> fbit s' 6 = fbit s 6 \<and> fl (io_sys s') = fl (io_sys s) \<and> out (io_sys s') = out (io_sys s) @ pend \<or>
     r = EOF \<and> fbit s' 6 \<and> fl (io_sys s') = Suc (fl (io_sys s)) \<and> (\<exists>k < length pend. out (io_sys s') = out (io_sys s) @ take k pend))"
proof -
  let ?s = "upd (\<lambda>f. f\<lparr>f_p := bf_base f, f_w := if flag s (SLBF OR SNBF) then 0 else bf_size f\<rparr>) s"
  note b = buffer_okD [OF assms(2)]
  have s1: "f_file (io_fp ?s) = f_file (io_fp s)" "io_mem ?s = io_mem s" "io_sys ?s = io_sys s" "\<And>n. fbit ?s n = fbit s n"
    by (simp_all add: io_simps)
  obtain r s' where r: "flush_loop os (bf_base (io_fp s)) (int (length pend)) ?s = Some (r, s')" "kept {6, 12} ?s s'"
    "r = 0 \<and> fbit s' 6 = fbit ?s 6 \<and> fl (io_sys s') = fl (io_sys ?s) \<and> out (io_sys s') = out (io_sys ?s) @ pend \<or>
     r = EOF \<and> fbit s' 6 \<and> fl (io_sys s') = Suc (fl (io_sys ?s)) \<and> (\<exists>k < length pend. out (io_sys s') = out (io_sys ?s) @ take k pend)"
    using flush_loop_ok [of os ?s out fl "bf_base (io_fp s)" pend] assms(1) b(8) unfolding s1 by blast
  note k = keptD [OF r(2)]
  have "fflush_r os s = Some (r, s')" using r(1) b(1,3,6) by (simp add: fflush_r_def io_simps Let_def upd_def)
  moreover have "ready s' []" using b assms(3,4) k kept_fbit [OF r(2)]
    by (auto simp: ready_def buffer_ok_def mode_ok_def Let_def io_simps)
  moreover have "same_stream s s'" using k kept_fbit [OF r(2)] r(3) by (auto simp: same_stream_def io_simps)
  moreover have "io_mem s' = io_mem s" using k(1) by (simp add: io_simps)
  ultimately show ?thesis using r(3) unfolding s1 by blast
qed

lemma ready_modes:
  assumes "ready s pend"
  shows "buffer_ok s pend" "\<not> fbit s 1 \<or> \<not> fbit s 0 \<and> bf_size (io_fp s) = 1"
    "lbfsize (io_fp s) = (if fbit s 0 then - bf_size (io_fp s) else 0)"
  using assms by (auto simp: ready_def mode_ok_def Let_def split: if_splits)

section \<open>Making a stream ready\<close>

text \<open>A stream that was opened but has no buffer yet\<close>

definition fresh :: "'w io \<Rightarrow> bool" where
  "fresh s \<longleftrightarrow> (let f = io_fp s in
     bf_base f = NULL \<and> f_r f = 0 \<and> f_ur f = 0 \<and> f_w f \<le> 0 \<and> lbfsize f = 0 \<and> (fbit s 3 \<or> fbit s 4 \<and> \<not> fbit s 2) \<and> \<not> fbit s 7 \<and> \<not> fbit s 9 \<and> \<not> (fbit s 0 \<and> fbit s 1) \<and>
     f_nbuf f \<noteq> NULL \<and> io_mem s (f_nbuf f) \<noteq> None \<and> paged (io_mem s))"

text \<open>The buffer is a new block or the byte \<^verbatim>\<open>_nbuf\<close> in the structure; nothing else in memory changes.\<close>

definition got_buffer :: "'w io \<Rightarrow> 'w io \<Rightarrow> bool" where
  "got_buffer s s' \<longleftrightarrow> f_file (io_fp s') = f_file (io_fp s) \<and> f_nbuf (io_fp s') = f_nbuf (io_fp s) \<and> io_others s' = io_others s \<and>
     io_mem s \<subseteq>\<^sub>m io_mem s' \<and> paged (io_mem s') \<and> fbit s' 6 = fbit s 6 \<and>
     (region (bf_base (io_fp s')) (nat (bf_size (io_fp s'))) = {f_nbuf (io_fp s)} \<or>
      region (bf_base (io_fp s')) (nat (bf_size (io_fp s'))) \<inter> dom (io_mem s) = {})"

lemma fstat_ok:
  assumes "quiet os (f_file (io_fp s)) out"
  shows "\<exists>r mode s'. fstat_r os s = (r, mode, s') \<and> kept {} s s' \<and> out (io_sys s') = out (io_sys s)"
proof -
  obtain r mode e w where "sys_fstat os (f_file (io_fp s)) (io_sys s) = (r, mode, e, w)" by (metis prod_cases4)
  then show ?thesis using assms kept_after_call by (simp add: fstat_r_def quiet_def)
qed

lemma isatty_ok:
  assumes "quiet os (f_file (io_fp s)) out"
  shows "\<exists>r s'. isatty_r os s = (r, s') \<and> kept {} s s' \<and> out (io_sys s') = out (io_sys s)"
proof -
  obtain r e w where "sys_isatty os (f_file (io_fp s)) (io_sys s) = (r, e, w)" by (metis prod_cases3)
  then show ?thesis using assms kept_after_call by (simp add: isatty_r_def quiet_def)
qed

text \<open>What \<^verbatim>\<open>__smakebuf_r\<close> does: it uses \<^verbatim>\<open>_nbuf\<close>, or a new block of \<^verbatim>\<open>BUFSIZ\<close> bytes and, for a terminal, line buffering.\<close>

definition made_buffer :: "'w os \<Rightarrow> 'w io \<Rightarrow> 'w io \<Rightarrow> bool" where
  "made_buffer os s s' \<longleftrightarrow> got_buffer s s' \<and> bf_base (io_fp s') \<noteq> NULL \<and> 0 < bf_size (io_fp s') \<and> bf_size (io_fp s') < 2 ^ 31 \<and>
     f_p (io_fp s') = bf_base (io_fp s') \<and> lbfsize (io_fp s') = lbfsize (io_fp s) \<and>
     mapped (io_mem s') (bf_base (io_fp s')) (nat (bf_size (io_fp s'))) \<and>
     (\<forall>n \<in> {2, 3, 4, 5, 6, 8, 9, 12, 13}. fbit s' n = fbit s n) \<and>
     (if fbit s' 1 then bf_size (io_fp s') = 1 \<and> fbit s' 0 = fbit s 0 else \<not> fbit s 1)"

lemma no_buffer_made:
  assumes "io_mem s (f_nbuf (io_fp s)) \<noteq> None" "f_nbuf (io_fp s) \<noteq> NULL" "paged (io_mem s)" "fbit s 1"
  shows "made_buffer os s (no_buffer s)"
  using assms by (auto simp: made_buffer_def got_buffer_def no_buffer_def io_simps region_def)

lemma made_kept:
  assumes "kept B s t" "made_buffer os t s'" "B \<subseteq> {1, 10, 11}" "1 \<in> B \<Longrightarrow> \<not> fbit s 1"
  shows "made_buffer os s s'"
proof -
  note k = keptD [OF assms(1)]
  have f: "fbit t n = fbit s n" if "n \<notin> {1, 10, 11}" for n using kept_fbit [OF assms(1)] assms(3) that by blast
  have "\<not> fbit t 1 \<Longrightarrow> \<not> fbit s 1" using kept_fbit [OF assms(1), of 1] assms(4) by (cases "1 \<in> B") simp_all
  moreover have "got_buffer s s'" using assms(2) by (simp add: made_buffer_def got_buffer_def k f)
  ultimately show ?thesis using assms(2) by (simp add: made_buffer_def k f split: if_splits)
qed

lemma smakebuf_new:
  assumes "paged (io_mem s)" "os_malloc os (io_mem s) BUFSIZ = (p, m)" "p \<noteq> NULL" "malloc_ok (os_malloc os)" "\<not> fbit s 1"
    "s1 = upd (\<lambda>f. f\<lparr>bf_base := p, f_p := p, bf_size := int BUFSIZ\<rparr>) (on SMBF (s\<lparr>io_mem := m\<rparr>))" "kept B s1 s2" "B \<subseteq> {0}"
  shows "made_buffer os s s2"
proof -
  have m: "paged m" "mapped m p BUFSIZ" "io_mem s \<subseteq>\<^sub>m m" "region p BUFSIZ \<inter> dom (io_mem s) = {}"
    using malloc_cases [OF assms(4,1), of BUFSIZ] assms(2,3) by auto
  note k = keptD [OF assms(7)]
  have f: "fbit s2 n \<longleftrightarrow> fbit s n \<or> n = 7" if "n \<noteq> 0" for n
  proof -
    have "n \<notin> B" using assms(8) that by auto
    from kept_fbit [OF assms(7) this] show ?thesis by (simp add: assms(6) io_simps mask_bits)
  qed
  show ?thesis using m assms(3,5) f by (auto simp: made_buffer_def got_buffer_def k assms(6) io_simps BUFSIZ_def)
qed

lemma smakebuf_ok:
  assumes "quiet os (f_file (io_fp s)) out" "malloc_ok (os_malloc os)" "io_mem s (f_nbuf (io_fp s)) \<noteq> None" "f_nbuf (io_fp s) \<noteq> NULL"
    "paged (io_mem s)" "\<not> fbit s 7" "\<not> fbit s 9"
  shows "made_buffer os s (smakebuf_r os s) \<and> out (io_sys (smakebuf_r os s)) = out (io_sys s) \<and>
    (fbit (smakebuf_r os s) 1 \<longleftrightarrow> fbit s 1 \<or> fst (os_malloc os (io_mem s) BUFSIZ) = NULL)"
proof (cases "fbit s 1")
  case True
  then show ?thesis using no_buffer_made [OF assms(3,4,5)] by (simp add: smakebuf_r_def io_simps no_buffer_def)
next
  case False
  define q where "q = (if f_file (io_fp s) < 0 then (-1, 0, s) else fstat_r os s)"
  obtain ret mode s1 where q1: "q = (ret, mode, s1)" "kept {} s s1" "out (io_sys s1) = out (io_sys s)"
  proof (cases "f_file (io_fp s) < 0")
    case True
    then show thesis by (intro that [of "-1" 0 s]) (simp_all add: q_def kept_def)
  next
    case False
    then show thesis using fstat_ok [OF assms(1)] that by (auto simp: q_def)
  qed
  define reg where "reg \<longleftrightarrow> \<not> ret < 0 \<and> mode AND 0xF000 = 0x8000"
  define tty where "tty \<longleftrightarrow> \<not> ret < 0 \<and> mode AND 0xF000 = 0x2000"
  define s2 where "s2 = (if reg then upd (\<lambda>f. f\<lparr>f_blksize := 1024\<rparr>) (on SOPT s1) else on SNPT s1)"
  have f2: "fbit s2 n \<longleftrightarrow> fbit s n \<or> (if reg then n = 10 else n = 11)" for n
    using kept_fbit [OF q1(2)] by (simp add: s2_def io_simps mask_bits)
  note k1 = keptD [OF q1(2)]
  have s2: "io_mem s2 = io_mem s" "io_sys s2 = io_sys s1" "f_nbuf (io_fp s2) = f_nbuf (io_fp s)" "f_file (io_fp s2) = f_file (io_fp s)"
    "io_others s2 = io_others s" "lbfsize (io_fp s2) = lbfsize (io_fp s)" by (simp_all add: s2_def io_simps k1)
  have made: "made_buffer os s s'" if "made_buffer os s2 s'" for s'
    using that unfolding made_buffer_def got_buffer_def s2 f2 by (simp cong: if_cong)
  obtain p m where pm: "os_malloc os (io_mem s) BUFSIZ = (p, m)" by fastforce
  define s3 where "s3 = upd (\<lambda>f. f\<lparr>bf_base := p, f_p := p, bf_size := int BUFSIZ\<rparr>) (on SMBF (s2\<lparr>io_mem := m\<rparr>))"
  have eq: "smakebuf_r os s = (if p = NULL then no_buffer (on SNBF s2)
      else if tty then let (t, s') = isatty_r os s3 in if t \<noteq> 0 then on SLBF s' else s' else s3)"
  proof -
    have "flag s1 SMBF = False" using assms(6) kept_fbit [OF q1(2)] by (simp add: io_simps)
    moreover have "flag s2 SSTR = False" using assms(7) by (simp add: io_simps f2)
    ultimately show ?thesis
      using q1(1) pm False k1(1) s2(1)
      by (simp add: smakebuf_r_def flag_bits(2) q_def [symmetric] reg_def [symmetric] tty_def [symmetric] s2_def [symmetric] s3_def [symmetric] Let_def)
  qed
  show ?thesis
  proof (cases "p = NULL")
    case True
    have made1: "made_buffer os (on SNBF s2) (no_buffer (on SNBF s2))"
      using assms(3,4,5) s2 by (intro no_buffer_made) (simp_all add: io_simps mask_bits)
    have "made_buffer os s2 (no_buffer (on SNBF s2))"
      by (rule made_kept [OF kept_on made1]) (use False in \<open>simp_all add: mask_bits f2\<close>)
    then show ?thesis using made eq True pm q1(3) s2(2) by (simp add: no_buffer_def io_simps mask_bits)
  next
    case new: False
    have d: "quiet os (f_file (io_fp s3)) out" using assms(1) s2 by (simp add: s3_def io_simps)
    have "kept {} s3 s3" by (simp add: kept_def)
    moreover obtain t s4 where t: "isatty_r os s3 = (t, s4)" "kept {} s3 s4" "out (io_sys s4) = out (io_sys s3)" using isatty_ok [OF d] by blast
    moreover have "kept {0} s3 (on SLBF s4)" by (rule kept_trans [OF t(2) kept_on]) (simp add: mask_bits)
    ultimately have k: "kept {0} s3 (smakebuf_r os s)" "out (io_sys (smakebuf_r os s)) = out (io_sys s3)"
      using eq new by (auto simp: io_simps kept_def)
    have "made_buffer os s2 (smakebuf_r os s)"
      using assms(2,5) False s2(1) pm new by (intro smakebuf_new [OF _ _ _ _ _ s3_def k(1)]) (simp_all add: f2)
    moreover have "\<not> fbit (smakebuf_r os s) 1" using kept_fbit [OF k(1), of 1] False by (simp add: s3_def io_simps mask_bits f2)
    ultimately show ?thesis using made k(2) q1(3) s2(2) False pm new by (simp add: s3_def io_simps)
  qed
qed

lemma cantwrite_fresh:
  assumes "fresh s" "device os (f_file (io_fp s)) out fl" "malloc_ok (os_malloc os)" "fbit s 0 \<Longrightarrow> fst (os_malloc os (io_mem s) BUFSIZ) \<noteq> NULL"
  shows "\<exists>s'. cantwrite os s = (False, s') \<and> ready s' [] \<and> got_buffer s s' \<and> out (io_sys s') = out (io_sys s) \<and> fl (io_sys s') = fl (io_sys s)"
proof -
  have f: "bf_base (io_fp s) = NULL" "lbfsize (io_fp s) = 0" "fbit s 3 \<or> fbit s 4 \<and> \<not> fbit s 2" "\<not> fbit s 7" "\<not> fbit s 9"
    "\<not> (fbit s 0 \<and> fbit s 1)" "f_nbuf (io_fp s) \<noteq> NULL" "io_mem s (f_nbuf (io_fp s)) \<noteq> None" "paged (io_mem s)"
    using assms(1) unfolding fresh_def Let_def by blast+
  define s1 where "s1 = write_mode os s"
  have s1: "io_mem s1 = io_mem s" "io_sys s1 = io_sys s" "io_others s1 = io_others s" "shape (io_fp s1) = shape (io_fp s)"
    "\<And>n. fbit s1 n \<longleftrightarrow> fbit s n \<or> n = 3" using f(3) by (auto simp: s1_def write_mode_def io_simps mask_bits)
  note sh = shape_fields [OF s1(4)]
  define s2 where "s2 = smakebuf_r os s1"
  have "quiet os (f_file (io_fp s1)) (\<lambda>w. (out w, fl w))" using device_quiet [OF assms(2)] sh by simp
  from smakebuf_ok [OF this assms(3), folded s2_def] f s1 sh
  have made: "made_buffer os s1 s2" and o: "out (io_sys s2) = out (io_sys s)" "fl (io_sys s2) = fl (io_sys s)" and
    nb: "fbit s2 1 \<longleftrightarrow> fbit s 1 \<or> fst (os_malloc os (io_mem s) BUFSIZ) = NULL" by simp_all
  have lb: "lbfsize (io_fp s2) = 0" "bf_base (io_fp s2) \<noteq> NULL" using made f(2) sh by (simp_all add: made_buffer_def)
  define s3 where "s3 = write_count s2"
  have base: "bf_base (io_fp s1) = NULL" "flag s1 SSTR = False" "bf_base (io_fp s3) \<noteq> NULL"
    using f(1,5) sh lb(2) s1(5) by (simp_all add: s3_def write_count_def io_simps)
  have "\<not> (\<not> flag s SWR \<and> \<not> flag s SRW)" using f(3) by (auto simp: flag_bits)
  then have "swsetup_r os s = (0, s3)"
    using base by (auto simp: swsetup_r_def Let_def s1_def [symmetric] s2_def [symmetric] s3_def [symmetric])
  then have "cantwrite os s = (False, s3)" using f(1) by (simp add: cantwrite_def)
  moreover have "\<not> (fbit s2 0 \<and> fbit s2 1)"
    using nb assms(4) f(6) made s1(5) by (auto simp: made_buffer_def split: if_splits)
  then have "ready s3 []"
    using made lb f(5) s1(5) by (auto simp: ready_def buffer_ok_def mode_ok_def made_buffer_def s3_def write_count_def io_simps Let_def split: if_splits)
  moreover have "got_buffer s s3" using made s1 sh by (simp add: made_buffer_def got_buffer_def s3_def write_count_def io_simps)
  moreover have "out (io_sys s3) = out (io_sys s)" "fl (io_sys s3) = fl (io_sys s)" using o by (simp_all add: s3_def write_count_def io_simps)
  ultimately show ?thesis by blast
qed

lemma cantwrite_ready: "ready s pend \<Longrightarrow> cantwrite os s = (False, s)"
  by (simp add: cantwrite_def ready_def buffer_ok_def Let_def io_simps)

end
