(* ===== verification/StdioOut.thy ===== *)
theory StdioOut
  imports Stdio
begin

text \<open>
  Output on a stream: \<^verbatim>\<open>wbuf.c\<close>, \<^verbatim>\<open>fvwrite.c\<close>, the macro \<^verbatim>\<open>putc\<close> of \<^verbatim>\<open>stdio.h\<close>, and the routines built on them,
  \<^verbatim>\<open>putc.c\<close>, \<^verbatim>\<open>fputc.c\<close>, \<^verbatim>\<open>fputs.c\<close>, \<^verbatim>\<open>puts.c\<close>, \<^verbatim>\<open>fwrite.c\<close> and \<^verbatim>\<open>setvbuf.c\<close>.

  The loops of \<^verbatim>\<open>__sfvwrite_r\<close> are bodies of \<open>loop\<close>; their state has the rest of the current region (\<^verbatim>\<open>p\<close>, \<^verbatim>\<open>len\<close>), the regions that
  follow, \<^verbatim>\<open>uio_resid\<close> and the stream.
\<close>

section \<open>The routines\<close>

text \<open>\<^verbatim>\<open>*fp->_p++ = c\<close>\<close>

definition push_char :: "byte \<Rightarrow> 'w io \<Rightarrow> 'w io option" where
  "push_char c s = do { m \<leftarrow> store8 (io_mem s) (f_p (io_fp s)) c; Some (upd (\<lambda>f. f\<lparr>f_p := f_p f + 1\<rparr>) (s\<lparr>io_mem := m\<rparr>)) }"

text \<open>\<^verbatim>\<open>__swbuf_r\<close>: \<open>stuff_char\<close> puts the character into a buffer with \<open>n\<close> bytes and flushes it when it is full or a line ends.\<close>

definition stuff_char :: "'w os \<Rightarrow> byte \<Rightarrow> int \<Rightarrow> 'w io \<Rightarrow> (int \<times> 'w io) option" where
  "stuff_char os c n s =
     do { s \<leftarrow> push_char c (upd (\<lambda>f. f\<lparr>f_w := f_w f - 1\<rparr>) s);
          if n + 1 = bf_size (io_fp s) \<or> flag s SLBF \<and> c = 10
          then do { (r, s) \<leftarrow> fflush_r os s; Some (if r \<noteq> 0 then EOF else uint c, s) }
          else Some (uint c, s) }"

definition swbuf_r :: "'w os \<Rightarrow> int \<Rightarrow> 'w io \<Rightarrow> (int \<times> 'w io) option" where
  "swbuf_r os c s =
     (let (cant, s) = cantwrite os (upd (\<lambda>f. f\<lparr>f_w := lbfsize f\<rparr>) s) in
      if cant then Some (EOF, (on SERR s)\<lparr>io_errno := EBADF\<rparr>)
      else
        let c = word_of_int c :: byte; s = orient s; n = int (f_p (io_fp s)) - int (bf_base (io_fp s)) in
        if bf_size (io_fp s) \<le> n
        then do { (r, s) \<leftarrow> fflush_r os s; if r \<noteq> 0 then Some (EOF, s) else stuff_char os c 0 s }
        else stuff_char os c n s)"

text \<open>The macro \<^verbatim>\<open>__sputc_r\<close>\<close>

definition sputc_r :: "'w os \<Rightarrow> int \<Rightarrow> 'w io \<Rightarrow> (int \<times> 'w io) option" where
  "sputc_r os c s =
     (let s = upd (\<lambda>f. f\<lparr>f_w := f_w f - 1\<rparr>) s; b = word_of_int c :: byte in
      if f_w (io_fp s) < 0
      then if lbfsize (io_fp s) \<le> f_w (io_fp s)
           then do { m \<leftarrow> store8 (io_mem s) (f_p (io_fp s)) b;
                     let s = s\<lparr>io_mem := m\<rparr>;
                     if b \<noteq> 10 then Some (uint b, upd (\<lambda>f. f\<lparr>f_p := f_p f + 1\<rparr>) s) else swbuf_r os 10 s }
           else swbuf_r os c s
      else do { s \<leftarrow> push_char b s; Some (uint b, s) })"

definition putc_r :: "'w os \<Rightarrow> int \<Rightarrow> 'w io \<Rightarrow> (int \<times> 'w io) option" where
  "putc_r os c s = sputc_r os c s"

definition fputc_r :: "'w os \<Rightarrow> int \<Rightarrow> 'w io \<Rightarrow> (int \<times> 'w io) option" where
  "fputc_r os ch s = putc_r os ch s"

text \<open>\<^verbatim>\<open>GETIOV\<close>: the next region that is not empty\<close>

fun getiov :: "addr \<Rightarrow> nat \<Rightarrow> (addr \<times> nat) list \<Rightarrow> (addr \<times> nat \<times> (addr \<times> nat) list) option" where
  "getiov p 0 [] = None"
| "getiov p 0 ((base, len) # iov) = getiov base len iov"
| "getiov p (Suc n) iov = Some (p, Suc n, iov)"

text \<open>\<^verbatim>\<open>COPY (n)\<close>, then \<^verbatim>\<open>fp->_p += n\<close>\<close>

definition COPY :: "addr \<Rightarrow> int \<Rightarrow> 'w io \<Rightarrow> 'w io option" where
  "COPY p n s =
     do { (_, m) \<leftarrow> memmove (io_mem s) (f_p (io_fp s)) p (as_size n);
          Some (upd (\<lambda>f. f\<lparr>f_p := nat (int (f_p f) + n)\<rparr>) (s\<lparr>io_mem := m\<rparr>)) }"

text \<open>What a step of a loop did: an error, or \<^verbatim>\<open>w\<close> bytes\<close>

datatype 'w wrote = Failed "'w io" | Wrote int "'w io"

definition direct :: "'w os \<Rightarrow> addr \<Rightarrow> int \<Rightarrow> 'w io \<Rightarrow> 'w wrote option" where
  "direct os p n s = do { (w, s) \<leftarrow> swrite os p n s; Some (if w \<le> 0 then Failed s else Wrote w s) }"

definition fill_and_flush :: "'w os \<Rightarrow> addr \<Rightarrow> int \<Rightarrow> 'w io \<Rightarrow> 'w wrote option" where
  "fill_and_flush os p w s =
     do { s \<leftarrow> COPY p w s; (r, s) \<leftarrow> fflush_r os s; Some (if r \<noteq> 0 then Failed s else Wrote w s) }"

definition fill_and_done :: "addr \<Rightarrow> int \<Rightarrow> 'w io \<Rightarrow> 'w wrote option" where
  "fill_and_done p w s = do { s \<leftarrow> COPY p w s; Some (Wrote w (upd (\<lambda>f. f\<lparr>f_w := f_w f - w\<rparr>) s)) }"

text \<open>More room for the string of the \<^verbatim>\<open>asprintf\<close> family; \<open>None\<close> inside is an error.\<close>

definition grow_string :: "'w os \<Rightarrow> nat \<Rightarrow> 'w io \<Rightarrow> (('w io + 'w io)) option" where
  "grow_string os len s =
     (let f = io_fp s;
          curpos = int (f_p f) - int (bf_base f);
          size = bf_size f * 3 div 2;
          newsize = (if as_size size < as_size (curpos + int len + 1) then curpos + int len + 1 else size);
          moved = (\<lambda>str s. upd (\<lambda>f. f\<lparr>bf_base := str, f_p := nat (int str + curpos), bf_size := newsize, f_w := newsize - curpos\<rparr>) s)
      in if flag s SOPT
         then let (str, m) = os_malloc os (io_mem s) (as_size newsize) in
              if str = NULL then Some (Inl (s\<lparr>io_errno := ENOMEM\<rparr>))
              else do { (_, m) \<leftarrow> memcpy m str (bf_base f) (as_size curpos);
                        Some (Inr (moved str (on SMBF (off SOPT (s\<lparr>io_mem := m\<rparr>))))) }
         else let (str, m) = os_realloc os (io_mem s) (bf_base f) (as_size newsize) in
              if str = NULL then Some (Inl (s\<lparr>io_mem := os_free os (io_mem s) (bf_base f), io_errno := ENOMEM\<rparr>))
              else Some (Inr (moved str (s\<lparr>io_mem := m\<rparr>))))"

definition string_write :: "'w os \<Rightarrow> addr \<Rightarrow> nat \<Rightarrow> 'w io \<Rightarrow> 'w wrote option" where
  "string_write os p len s =
     (let w = f_w (io_fp s); grows = (as_size w \<le> len \<and> flag s (SMBF OR SOPT)) in
      do { r \<leftarrow> (if grows then grow_string os len s else Some (Inr s));
           case r of
             Inl s \<Rightarrow> Some (Failed s)
           | Inr s \<Rightarrow>
               let w = (if grows then int len else w); w = (if len < as_size w then int len else w) in
               do { s \<leftarrow> COPY p w (upd (\<lambda>f. f\<lparr>f_w := f_w f - w\<rparr>) s); Some (Wrote (int len) s) } })"

text \<open>One round of the loops for unbuffered and for fully buffered streams\<close>

definition nbf_write :: "'w os \<Rightarrow> addr \<Rightarrow> nat \<Rightarrow> 'w io \<Rightarrow> 'w wrote option" where
  "nbf_write os p len s = direct os p (int (min len BUFSIZ)) s"

definition fbf_write :: "'w os \<Rightarrow> addr \<Rightarrow> nat \<Rightarrow> 'w io \<Rightarrow> 'w wrote option" where
  "fbf_write os p len s =
     (let f = io_fp s in
      if flag s SSTR then string_write os p len s
      else if bf_base f < f_p f \<and> as_size (f_w f) < len then fill_and_flush os p (f_w f) s
      else if as_size (bf_size f) \<le> len then direct os p (bf_size f) s
      else fill_and_done p (int len) s)"
text \<open>The end of a round: \<^verbatim>\<open>goto err\<close>, or on to the next bytes while some are left\<close>

definition next_round :: "addr \<Rightarrow> nat \<Rightarrow> (addr \<times> nat) list \<Rightarrow> int \<Rightarrow> 'w wrote \<Rightarrow>
    int \<times> int \<times> 'w io + addr \<times> nat \<times> (addr \<times> nat) list \<times> int \<times> 'w io" where
  "next_round p len iov resid r = (case r of
     Failed s \<Rightarrow> Inl (EOF, resid, on SERR s)
   | Wrote w s \<Rightarrow> if resid - w = 0 then Inl (0, 0, s)
                 else Inr (nat (int p + w), as_size (int len - w), iov, resid - w, s))"

definition buf_body :: "(addr \<Rightarrow> nat \<Rightarrow> 'w io \<Rightarrow> 'w wrote option) \<Rightarrow> addr \<times> nat \<times> (addr \<times> nat) list \<times> int \<times> 'w io \<Rightarrow>
    (int \<times> int \<times> 'w io + addr \<times> nat \<times> (addr \<times> nat) list \<times> int \<times> 'w io) option" where
  "buf_body write = (\<lambda>(p, len, iov, resid, s).
     do { (p, len, iov) \<leftarrow> getiov p len iov; r \<leftarrow> write p len s; Some (next_round p len iov resid r) })"

text \<open>The loop for line buffered streams; \<open>nl\<close> is \<^verbatim>\<open>nldist\<close> when \<^verbatim>\<open>nlknown\<close> is set.\<close>

definition newline_dist :: "mem \<Rightarrow> addr \<Rightarrow> nat \<Rightarrow> int option" where
  "newline_dist m p len = do { q \<leftarrow> memchr m p 10 len; Some (if q \<noteq> NULL then int q + 1 - int p else int len + 1) }"

definition lbf_write :: "'w os \<Rightarrow> addr \<Rightarrow> int \<Rightarrow> 'w io \<Rightarrow> 'w wrote option" where
  "lbf_write os p k s =
     (let f = io_fp s; w = f_w f + bf_size f in
      if bf_base f < f_p f \<and> w < k then fill_and_flush os p w s
      else if bf_size f \<le> k then direct os p (bf_size f) s
      else fill_and_done p k s)"

text \<open>One round; a newline that was copied is flushed and forgotten.\<close>

definition lbf_step :: "'w os \<Rightarrow> addr \<Rightarrow> nat \<Rightarrow> int \<Rightarrow> 'w io \<Rightarrow> (int option \<times> 'w wrote) option" where
  "lbf_step os p len nldist s =
     do { r \<leftarrow> lbf_write os p (if len < as_size nldist then int len else nldist) s;
          case r of
            Failed s \<Rightarrow> Some (None, Failed s)
          | Wrote w s \<Rightarrow>
              if nldist - w = 0 then do { (e, s) \<leftarrow> fflush_r os s; Some (None, if e \<noteq> 0 then Failed s else Wrote w s) }
              else Some (Some (nldist - w), Wrote w s) }"

definition lbf_body :: "'w os \<Rightarrow> int option \<times> addr \<times> nat \<times> (addr \<times> nat) list \<times> int \<times> 'w io \<Rightarrow>
    (int \<times> int \<times> 'w io + int option \<times> addr \<times> nat \<times> (addr \<times> nat) list \<times> int \<times> 'w io) option" where
  "lbf_body os = (\<lambda>(nl, p, len, iov, resid, s).
     do { let nl = (if len = 0 then None else nl);
          (p, len, iov) \<leftarrow> getiov p len iov;
          nldist \<leftarrow> (case nl of Some d \<Rightarrow> Some d | None \<Rightarrow> newline_dist (io_mem s) p len);
          (nl, r) \<leftarrow> lbf_step os p len nldist s;
          Some (map_sum id (Pair nl) (next_round p len iov resid r)) })"

definition sfvwrite_r :: "'w os \<Rightarrow> (addr \<times> nat) list \<Rightarrow> int \<Rightarrow> 'w io \<Rightarrow> (int \<times> int \<times> 'w io) option" where
  "sfvwrite_r os iov resid s =
     (if resid = 0 then Some (0, 0, s)
      else
        let (cant, s) = cantwrite os s in
        if cant then Some (EOF, resid, (on SERR s)\<lparr>io_errno := EBADF\<rparr>)
        else if flag s SNBF then loop (buf_body (nbf_write os)) (NULL, 0, iov, resid, s)
        else if \<not> flag s SLBF then loop (buf_body (fbf_write os)) (NULL, 0, iov, resid, s)
        else loop (lbf_body os) (None, NULL, 0, iov, resid, s))"

definition fputs_r :: "'w os \<Rightarrow> addr \<Rightarrow> 'w io \<Rightarrow> (int \<times> 'w io) option" where
  "fputs_r os str s =
     do { n \<leftarrow> strlen (io_mem s) str;
          (r, _, s) \<leftarrow> sfvwrite_r os [(str, n)] (int_of_size n) (orient s);
          Some (r, s) }"

text \<open>\<open>newline\<close> is the address of the literal.\<close>

definition puts_r :: "'w os \<Rightarrow> addr \<Rightarrow> addr \<Rightarrow> 'w io \<Rightarrow> (int \<times> 'w io) option" where
  "puts_r os newline str s =
     do { c \<leftarrow> strlen (io_mem s) str;
          (r, _, s) \<leftarrow> sfvwrite_r os [(str, c), (newline, 1)] (int_of_size (c + 1)) (orient s);
          Some (if r \<noteq> 0 then EOF else 10, s) }"

definition fwrite_r :: "'w os \<Rightarrow> addr \<Rightarrow> nat \<Rightarrow> nat \<Rightarrow> 'w io \<Rightarrow> (nat \<times> 'w io) option" where
  "fwrite_r os buf sz count s =
     (let n = as_size (int count * int sz) in
      do { (r, resid, s) \<leftarrow> sfvwrite_r os [(buf, n)] (int_of_size n) (orient s);
           Some (if r = 0 then count else as_size (int n - resid) div sz, s) })"

text \<open>\<^verbatim>\<open>setvbuf\<close>: \<open>unbuffer\<close> is what follows the label \<^verbatim>\<open>nbf\<close>, \<open>use_buffer\<close> the end; \<^verbatim>\<open>_IOFBF\<close>, \<^verbatim>\<open>_IOLBF\<close> and \<^verbatim>\<open>_IONBF\<close> are 0, 1 and 2.\<close>

definition unbuffer :: "'w io \<Rightarrow> 'w io" where
  "unbuffer s = upd (\<lambda>f. f\<lparr>f_w := 0\<rparr>) (no_buffer (on SNBF s))"

definition use_buffer :: "int \<Rightarrow> addr \<Rightarrow> nat \<Rightarrow> 'w io \<Rightarrow> 'w io" where
  "use_buffer mode buf sz s =
     (let s = (if mode = 1 then upd (\<lambda>f. f\<lparr>lbfsize := - int sz\<rparr>) (on SLBF s) else s);
          s = upd (\<lambda>f. f\<lparr>bf_base := buf, f_p := buf, bf_size := int sz\<rparr>) s
      in if flag s SWR then upd (\<lambda>f. f\<lparr>f_w := if flag s (SLBF OR SNBF) then 0 else int sz\<rparr>) s else s)"

definition setvbuf :: "'w os \<Rightarrow> addr \<Rightarrow> int \<Rightarrow> nat \<Rightarrow> 'w io \<Rightarrow> (int \<times> 'w io) option" where
  "setvbuf os buf mode sz s =
     (if mode \<notin> {0, 1, 2} \<or> int_of_size sz < 0 then Some (EOF, s)
      else do {
        (_, s) \<leftarrow> fflush_r os s;
        let s = upd (\<lambda>f. f\<lparr>f_r := 0, lbfsize := 0\<rparr>) s;
        let s = (if flag s SMBF then s\<lparr>io_mem := os_free os (io_mem s) (bf_base (io_fp s))\<rparr> else s);
        let s = off (SLBF OR SNBF OR SMBF) s;
        if mode = 2 then Some (0, unbuffer s)
        else if buf \<noteq> NULL then Some (0, use_buffer mode buf sz s)
        else
          let sz = (if sz = 0 then BUFSIZ else sz);
              (p1, m1) = os_malloc os (io_mem s) sz;
              (p2, m2) = os_malloc os m1 BUFSIZ
          in Some (if p1 \<noteq> NULL then (0, use_buffer mode p1 sz (on SMBF (s\<lparr>io_mem := m1\<rparr>)))
                   else if p2 \<noteq> NULL then (0, use_buffer mode p2 BUFSIZ (on SMBF (s\<lparr>io_mem := m2\<rparr>)))
                   else (EOF, unbuffer (s\<lparr>io_mem := m2\<rparr>))) })"

definition setbuf :: "'w os \<Rightarrow> addr \<Rightarrow> 'w io \<Rightarrow> (int \<times> 'w io) option" where
  "setbuf os buf s = setvbuf os buf (if buf \<noteq> NULL then 0 else 2) BUFSIZ s"

section \<open>Characters\<close>

text \<open>
  The contract of an output call on a stream whose content so far, written or pending, is \<open>xs\<close>: on success the content
  grows by \<open>ys\<close>; on an error the error flag is set and what reached the device is a prefix of what should have.
\<close>

definition content :: "('w \<Rightarrow> byte list) \<Rightarrow> 'w io \<Rightarrow> byte list \<Rightarrow> bool" where
  "content out s xs \<longleftrightarrow> (\<exists>pend. ready s pend \<and> xs = out (io_sys s) @ pend)"

definition extends :: "('w \<Rightarrow> byte list) \<Rightarrow> ('w \<Rightarrow> nat) \<Rightarrow> bool \<Rightarrow> byte list \<Rightarrow> byte list \<Rightarrow> 'w io \<Rightarrow> 'w io \<Rightarrow> bool" where
  "extends out fl good xs ys s s' \<longleftrightarrow> same_stream s s' \<and>
     (if good then content out s' (xs @ ys) \<and> fbit s' 6 = fbit s 6 \<and> fl (io_sys s') = fl (io_sys s)
      else fbit s' 6 \<and> fl (io_sys s') = Suc (fl (io_sys s)) \<and> (\<exists>pend. ready s' pend) \<and>
        (\<exists>k < length (xs @ ys). out (io_sys s') = take k (xs @ ys)))"

lemma ready_upd_w:
  "ready s pend \<Longrightarrow> buffer_ok (upd (\<lambda>f. f\<lparr>f_w := w\<rparr>) s) pend"
  by (simp add: ready_def buffer_ok_def Let_def io_simps)

lemma buffer_push:
  assumes "buffer_ok s pend" "int (length pend) < bf_size (io_fp s)"
  shows "\<exists>s'. push_char c s = Some s' \<and> buffer_ok s' (pend @ [c]) \<and> same_stream s s' \<and>
    s' = upd (\<lambda>f. f\<lparr>f_p := f_p f + 1\<rparr>) (s\<lparr>io_mem := wr (io_mem s) (f_p (io_fp s)) [c]\<rparr>)"
proof -
  note b = buffer_okD [OF assms(1)]
  have at: "io_mem s (f_p (io_fp s)) \<noteq> None" using b(6,9) assms(2) by (auto simp: mapped_nth)
  let ?m = "wr (io_mem s) (f_p (io_fp s)) [c]"
  have "bytes ?m (bf_base (io_fp s)) pend" using b(6,8) by (subst bytes_wr_disjoint) (auto simp: disjoint_regions_def)
  moreover have "bytes ?m (bf_base (io_fp s) + length pend) [c]" using b(6) by (metis bytes_wr_same)
  moreover have "mapped ?m (bf_base (io_fp s)) (nat (bf_size (io_fp s)))" using b(9) at by (subst mapped_wr) simp_all
  moreover have "dom ?m = dom (io_mem s)" using at by (auto simp: wr_single)
  ultimately show ?thesis using b assms(2) at
    by (auto simp: push_char_def mem_simps buffer_ok_def same_stream_def io_simps Let_def region_def wr_at)
qed

text \<open>A stream whose buffer is in order; \<^verbatim>\<open>_w\<close> may be anything.\<close>

definition armed :: "'w io \<Rightarrow> byte list \<Rightarrow> bool" where
  "armed s pend \<longleftrightarrow> buffer_ok s pend \<and> (\<not> fbit s 1 \<or> \<not> fbit s 0 \<and> bf_size (io_fp s) = 1 \<and> pend = []) \<and>
     lbfsize (io_fp s) = (if fbit s 0 then - bf_size (io_fp s) else 0) \<and> (fbit s 0 \<longrightarrow> 10 \<notin> set pend)"

lemma ready_armed: "ready s pend \<Longrightarrow> armed s pend"
  by (auto simp: ready_def armed_def mode_ok_def Let_def split: if_splits)

lemma armed_upd_w [simp]: "armed (upd (\<lambda>f. f\<lparr>f_w := w f\<rparr>) s) pend = armed s pend"
  by (simp add: armed_def buffer_ok_def Let_def io_simps)

lemma same_stream_upd: "same_stream (upd (\<lambda>f. f\<lparr>f_w := w f\<rparr>) s) s' = same_stream s s'"
  by (simp add: same_stream_def io_simps)

lemma flush_armed:
  assumes "device os (f_file (io_fp s)) out fl" "buffer_ok s pend" "\<not> fbit s 1 \<or> \<not> fbit s 0 \<and> bf_size (io_fp s) = 1"
    "lbfsize (io_fp s) = (if fbit s 0 then - bf_size (io_fp s) else 0)"
  obtains s' where "fflush_r os s = Some (0, s')" "ready s' []" "same_stream s s'" "fbit s' 6 = fbit s 6" "fl (io_sys s') = fl (io_sys s)" "out (io_sys s') = out (io_sys s) @ pend"
  | s' k where "fflush_r os s = Some (EOF, s')" "ready s' []" "same_stream s s'" "fbit s' 6"
      "fl (io_sys s') = Suc (fl (io_sys s))" "k < length pend" "out (io_sys s') = out (io_sys s) @ take k pend"
  using fflush_ok [OF assms] by blast

lemma uint_not_EOF [simp]: "uint (c :: byte) \<noteq> EOF" "EOF \<noteq> uint c" "EOF \<noteq> 0"
proof -
  have "0 \<le> uint c" by simp
  then have "uint c \<noteq> - 1" by linarith
  then show "uint c \<noteq> EOF" "EOF \<noteq> uint c" "EOF \<noteq> 0" by (simp_all add: EOF_def eq_commute [of "- 1"])
qed

lemma stuff_char_ok:
  assumes "device os (f_file (io_fp s)) out fl" "armed s pend" "int (length pend) < bf_size (io_fp s)"
    "mode_ok s pend \<or> fbit s 1 \<or> fbit s 0 \<and> c = 10" "xs = out (io_sys s) @ pend"
  shows "\<exists>r s'. stuff_char os c (int (length pend)) s = Some (r, s') \<and> extends out fl (r \<noteq> EOF) xs [c] s s' \<and> (r \<noteq> EOF \<longrightarrow> r = uint c)"
proof -
  define s1 where "s1 = upd (\<lambda>f. f\<lparr>f_w := f_w f - 1\<rparr>) s"
  have a: "armed s1 pend" "bf_size (io_fp s1) = bf_size (io_fp s)" using assms(2) by (simp_all add: s1_def io_simps)
  have b1: "buffer_ok s1 pend" using a(1) by (simp add: armed_def)
  obtain s2 where s2: "push_char c s1 = Some s2" "buffer_ok s2 (pend @ [c])" "same_stream s1 s2"
    and s2_eq: "s2 = upd (\<lambda>f. f\<lparr>f_p := f_p f + 1\<rparr>) (s1\<lparr>io_mem := wr (io_mem s1) (f_p (io_fp s1)) [c]\<rparr>)"
    using buffer_push [OF b1, of c] assms(3) a(2) by auto
  have st: "same_stream s s2" using s2(3) by (simp add: s1_def same_stream_upd)
  have f: "\<And>n. fbit s2 n = fbit s n" "f_w (io_fp s2) = f_w (io_fp s) - 1" "bf_size (io_fp s2) = bf_size (io_fp s)"
    "lbfsize (io_fp s2) = lbfsize (io_fp s)" "f_file (io_fp s2) = f_file (io_fp s)" "io_sys s2 = io_sys s"
    by (simp_all add: s2_eq s1_def io_simps fbit_def)
  note u = stuff_char_def [of os c "int (length pend)" s, folded s1_def, unfolded s2(1) flag_bits]
  show ?thesis
  proof (cases "int (length pend) + 1 = bf_size (io_fp s2) \<or> fbit s2 0 \<and> c = 10")
    case True
    have d: "device os (f_file (io_fp s2)) out fl" using assms(1) f(5) by simp
    have m: "\<not> fbit s2 1 \<or> \<not> fbit s2 0 \<and> bf_size (io_fp s2) = 1" "lbfsize (io_fp s2) = (if fbit s2 0 then - bf_size (io_fp s2) else 0)"
      using assms(2) f by (auto simp: armed_def)
    show ?thesis
    proof (cases rule: flush_armed [OF d s2(2) m])
      case (1 s')
      then show ?thesis using u True st f assms(5) same_stream_trans [OF st]
        by (auto simp: extends_def content_def intro!: exI [of _ s'])
    next
      case (2 s' k)
      have "out (io_sys s') = take (length (out (io_sys s)) + k) (xs @ [c])" using 2(7) f(6) assms(5) by simp
      moreover have "length (out (io_sys s)) + k < length (xs @ [c])" using 2(6) s2(2) assms(5) by simp
      ultimately have "\<exists>k < length (xs @ [c]). out (io_sys s') = take k (xs @ [c])" by blast
      then show ?thesis using 2(1-5) u True st f same_stream_trans [OF st] unfolding extends_def by auto
    qed
  next
    case False
    have "mode_ok s pend" using assms(2,3,4) False f by (auto simp: armed_def)
    then have "ready s2 (pend @ [c])" using s2(2) False f by (auto simp: ready_def mode_ok_def Let_def split: if_splits)
    then show ?thesis using u False st f assms(5) by (auto simp: extends_def content_def)
  qed
qed

lemma shape_orient: "shape (io_fp (orient s)) = shape (io_fp s)" and io_orient [io_simps]: "io_mem (orient s) = io_mem s"
    "io_sys (orient s) = io_sys s" "io_others (orient s) = io_others s"
  by (simp_all add: orient_def on_def upd_def shape_def)

lemmas fields_orient [io_simps] = shape_fields [OF shape_orient]

lemma fbit_orient [io_simps]: "fbit (orient s) n \<longleftrightarrow> fbit s n \<or> n = 13"
  by (auto simp: orient_def io_simps mask_bits)

lemma ready_orient: "ready (orient s) pend = ready s pend" "armed (orient s) pend = armed s pend" "mode_ok (orient s) pend = mode_ok s pend"
  by (simp_all add: ready_def armed_def buffer_ok_def mode_ok_def Let_def io_simps)

lemma same_stream_orient: "same_stream s (orient s)"
  by (simp add: same_stream_def io_simps)

lemma extends_from:
  "same_stream s t \<Longrightarrow> fbit t 6 = fbit s 6 \<Longrightarrow> fl (io_sys t) = fl (io_sys s) \<Longrightarrow> extends out fl good xs ys t s' \<Longrightarrow> extends out fl good xs ys s s'"
  using same_stream_trans by (auto simp: extends_def)

text \<open>The body of \<^verbatim>\<open>__swbuf_r\<close> once the stream can be written\<close>

lemma swbuf_step:
  assumes "device os (f_file (io_fp s)) out fl" "armed s pend" "xs = out (io_sys s) @ pend"
    "bf_size (io_fp s) \<le> int (length pend) \<or> mode_ok s pend \<or> fbit s 1 \<or> fbit s 0 \<and> c = 10"
    "n = int (f_p (io_fp s)) - int (bf_base (io_fp s))"
  shows "\<exists>r s'. (if bf_size (io_fp s) \<le> n
        then do { (r, s) \<leftarrow> fflush_r os s; if r \<noteq> 0 then Some (EOF, s) else stuff_char os c 0 s }
        else stuff_char os c n s) = Some (r, s') \<and> extends out fl (r \<noteq> EOF) xs [c] s s' \<and> (r \<noteq> EOF \<longrightarrow> r = uint c)"
proof -
  have b: "buffer_ok s pend" and m: "\<not> fbit s 1 \<or> \<not> fbit s 0 \<and> bf_size (io_fp s) = 1"
      "lbfsize (io_fp s) = (if fbit s 0 then - bf_size (io_fp s) else 0)" using assms(2) by (auto simp: armed_def)
  have n: "n = int (length pend)" using assms(5) buffer_okD(6) [OF b] by simp
  show ?thesis
  proof (cases "bf_size (io_fp s) \<le> n")
    case full: True
    show ?thesis
    proof (cases rule: flush_armed [OF assms(1) b m])
      case (1 t)
      have d: "device os (f_file (io_fp t)) out fl" using assms(1) same_streamD(3) [OF 1(3)] by simp
      have z: "int (length []) < bf_size (io_fp t)" using buffer_okD(4) [OF b] same_streamD(2) [OF 1(3)] by simp
      have "mode_ok t []" "xs = out (io_sys t) @ []" using 1(2,6) assms(3) by (simp_all add: ready_def)
      with stuff_char_ok [OF d ready_armed [OF 1(2)] z, of c xs] obtain r s' where
        "stuff_char os c 0 t = Some (r, s')" "extends out fl (r \<noteq> EOF) xs [c] t s'" "r \<noteq> EOF \<longrightarrow> r = uint c" by auto
      then show ?thesis using full 1(1) extends_from [OF 1(3-5)] by auto
    next
      case (2 t k)
      have "out (io_sys t) = take (length (out (io_sys s)) + k) (xs @ [c])" using 2(6,7) assms(3) by simp
      moreover have "length (out (io_sys s)) + k < length (xs @ [c])" using 2(6) assms(3) by simp
      ultimately have "\<exists>k < length (xs @ [c]). out (io_sys t) = take k (xs @ [c])" by blast
      then show ?thesis using full 2(1-5) unfolding extends_def by auto
    qed
  next
    case False
    with n assms(4) stuff_char_ok [OF assms(1,2) _ _ assms(3), of c] show ?thesis by auto
  qed
qed

lemma swbuf_ok:
  assumes "device os (f_file (io_fp s)) out fl" "armed s pend" "xs = out (io_sys s) @ pend"
    "int (length pend) = bf_size (io_fp s) \<or> fbit s 1 \<or> fbit s 0 \<and> word_of_int c = (10 :: byte)"
  shows "\<exists>r s'. swbuf_r os c s = Some (r, s') \<and> extends out fl (r \<noteq> EOF) xs [word_of_int c] s s' \<and> (r \<noteq> EOF \<longrightarrow> r = uint (word_of_int c :: byte))"
proof -
  define s1 where "s1 = upd (\<lambda>f. f\<lparr>f_w := lbfsize f\<rparr>) s"
  have a: "armed s1 pend" using assms(2) by (simp add: s1_def)
  then have "cantwrite os s1 = (False, s1)" by (simp add: cantwrite_def armed_def buffer_ok_def Let_def io_simps)
  then have eq: "swbuf_r os c s = (let t = orient s1; n = int (f_p (io_fp t)) - int (bf_base (io_fp t)) in
      if bf_size (io_fp t) \<le> n then do { (r, s) \<leftarrow> fflush_r os t; if r \<noteq> 0 then Some (EOF, s) else stuff_char os (word_of_int c) 0 s }
      else stuff_char os (word_of_int c) n t)" by (simp add: swbuf_r_def s1_def Let_def)
  have "\<exists>r s'. swbuf_r os c s = Some (r, s') \<and> extends out fl (r \<noteq> EOF) xs [word_of_int c] (orient s1) s' \<and> (r \<noteq> EOF \<longrightarrow> r = uint (word_of_int c :: byte))"
    unfolding eq Let_def
    by (rule swbuf_step [OF _ _ _ _ refl]) (use a assms in \<open>auto simp: ready_orient io_simps s1_def\<close>)
  moreover have "same_stream s (orient s1)" "fbit (orient s1) 6 = fbit s 6" "fl (io_sys (orient s1)) = fl (io_sys s)"
    using same_stream_orient [of s1] by (simp_all add: s1_def same_stream_upd io_simps)
  ultimately show ?thesis using extends_from by blast
qed

text \<open>A stream that can be written is ready, or becomes so with the first call.\<close>

definition opens :: "('w \<Rightarrow> byte list) \<Rightarrow> ('w \<Rightarrow> nat) \<Rightarrow> 'w io \<Rightarrow> byte list \<Rightarrow> 'w io \<Rightarrow> bool" where
  "opens out fl s pend t \<longleftrightarrow> ready s pend \<and> t = s \<or>
     fresh s \<and> pend = [] \<and> ready t [] \<and> got_buffer s t \<and> out (io_sys t) = out (io_sys s) \<and> fl (io_sys t) = fl (io_sys s)"

definition writable :: "'w os \<Rightarrow> 'w io \<Rightarrow> byte list \<Rightarrow> bool" where
  "writable os s pend \<longleftrightarrow> ready s pend \<or>
     fresh s \<and> pend = [] \<and> malloc_ok (os_malloc os) \<and> (fbit s 0 \<longrightarrow> fst (os_malloc os (io_mem s) BUFSIZ) \<noteq> NULL)"

lemma opensD:
  assumes "opens out fl s pend t"
  shows "ready t pend" "out (io_sys t) = out (io_sys s)" "f_file (io_fp t) = f_file (io_fp s)" "io_others t = io_others s"
    "io_mem s \<subseteq>\<^sub>m io_mem t" "f_nbuf (io_fp t) = f_nbuf (io_fp s)" "fl (io_sys t) = fl (io_sys s)"
  using assms by (auto simp: opens_def got_buffer_def)

lemma cantwrite_opens:
  assumes "writable os s pend" "device os (f_file (io_fp s)) out fl"
  shows "\<exists>t. cantwrite os s = (False, t) \<and> opens out fl s pend t"
proof (cases "ready s pend")
  case True
  then show ?thesis using cantwrite_ready [OF True] by (auto simp: opens_def)
next
  case False
  then have "fresh s" "pend = []" "malloc_ok (os_malloc os)" "fbit s 0 \<Longrightarrow> fst (os_malloc os (io_mem s) BUFSIZ) \<noteq> NULL"
    using assms(1) by (auto simp: writable_def)
  with cantwrite_fresh [OF this(1) assms(2)] show ?thesis unfolding opens_def by blast
qed

lemma fresh_upd_w:
  assumes "fresh s" "w (io_fp s) \<le> 0"
  shows "fresh (upd (\<lambda>f. f\<lparr>f_w := w f\<rparr>) s)"
  using assms by (simp add: fresh_def Let_def io_simps)

lemma swbuf_fresh:
  assumes "device os (f_file (io_fp s)) out fl" "fresh s" "malloc_ok (os_malloc os)" "fbit s 0 \<Longrightarrow> fst (os_malloc os (io_mem s) BUFSIZ) \<noteq> NULL"
  shows "\<exists>r t s'. swbuf_r os c s = Some (r, s') \<and> opens out fl s [] t \<and> extends out fl (r \<noteq> EOF) (out (io_sys s)) [word_of_int c] t s' \<and>
    (r \<noteq> EOF \<longrightarrow> r = uint (word_of_int c :: byte))"
proof -
  define s1 where "s1 = upd (\<lambda>f. f\<lparr>f_w := lbfsize f\<rparr>) s"
  have fr: "fresh s1" unfolding s1_def using assms(2) by (intro fresh_upd_w) (simp_all add: fresh_def Let_def)
  have d: "device os (f_file (io_fp s1)) out fl" using assms(1) by (simp add: s1_def io_simps)
  obtain t where t: "cantwrite os s1 = (False, t)" "ready t []" "got_buffer s1 t" "out (io_sys t) = out (io_sys s1)" "fl (io_sys t) = fl (io_sys s1)"
    using cantwrite_fresh [OF fr d assms(3)] assms(4) by (auto simp: s1_def io_simps)
  have op: "opens out fl s [] t" using t assms(2) by (simp add: opens_def s1_def got_buffer_def io_simps)
  have eq: "swbuf_r os c s = (let t = orient t; n = int (f_p (io_fp t)) - int (bf_base (io_fp t)) in
      if bf_size (io_fp t) \<le> n then do { (r, s) \<leftarrow> fflush_r os t; if r \<noteq> 0 then Some (EOF, s) else stuff_char os (word_of_int c) 0 s }
      else stuff_char os (word_of_int c) n t)" using t(1) by (simp add: swbuf_r_def s1_def Let_def)
  have "\<exists>r s'. swbuf_r os c s = Some (r, s') \<and> extends out fl (r \<noteq> EOF) (out (io_sys s)) [word_of_int c] (orient t) s' \<and>
      (r \<noteq> EOF \<longrightarrow> r = uint (word_of_int c :: byte))"
    unfolding eq Let_def
    by (rule swbuf_step [OF _ _ _ _ refl, where pend = "[]"])
      (use assms(1) ready_armed [OF t(2)] t(2) opensD(2,3) [OF op] in \<open>auto simp: ready_orient io_simps ready_def\<close>)
  moreover have "fbit (orient t) 6 = fbit t 6" "fl (io_sys (orient t)) = fl (io_sys t)" by (simp_all add: io_simps)
  ultimately show ?thesis using op extends_from [OF same_stream_orient] by blast
qed

lemma sputc_ok:
  assumes "device os (f_file (io_fp s)) out fl" "writable os s pend"
  shows "\<exists>r t s'. sputc_r os c s = Some (r, s') \<and> opens out fl s pend t \<and>
    extends out fl (r \<noteq> EOF) (out (io_sys s) @ pend) [word_of_int c] t s' \<and> (r \<noteq> EOF \<longrightarrow> r = uint (word_of_int c :: byte))"
proof (cases "ready s pend")
  case fr: False
  then have f: "fresh s" "pend = []" "malloc_ok (os_malloc os)" "fbit s 0 \<Longrightarrow> fst (os_malloc os (io_mem s) BUFSIZ) \<noteq> NULL"
    using assms(2) by (auto simp: writable_def)
  define s1 where "s1 = upd (\<lambda>f. f\<lparr>f_w := f_w f - 1\<rparr>) s"
  have w: "f_w (io_fp s) \<le> 0" "lbfsize (io_fp s) = 0" using f(1) by (simp_all add: fresh_def Let_def)
  then have eq: "sputc_r os c s = swbuf_r os c s1" by (simp add: sputc_r_def s1_def Let_def io_simps)
  have fr1: "fresh s1" unfolding s1_def using f(1) w by (intro fresh_upd_w) simp_all
  have d: "device os (f_file (io_fp s1)) out fl" and same: "fbit s1 0 = fbit s 0" "io_mem s1 = io_mem s" "io_sys s1 = io_sys s"
    using assms(1) by (simp_all add: s1_def io_simps)
  have op: "opens out fl s1 [] t \<Longrightarrow> opens out fl s [] t" for t
    using f(1) fr f(2) w by (auto simp: opens_def s1_def got_buffer_def io_simps ready_def buffer_ok_def fresh_def Let_def)
  have "fbit s1 0 \<Longrightarrow> fst (os_malloc os (io_mem s1) BUFSIZ) \<noteq> NULL" using f(4) same by simp
  from swbuf_fresh [OF d fr1 f(3) this, of c] show ?thesis unfolding eq f(2) same(3) using op by auto
next
  case True
  note b = buffer_okD [OF ready_modes(1) [OF True]]
  define s1 where "s1 = upd (\<lambda>f. f\<lparr>f_w := f_w f - 1\<rparr>) s"
  let ?b = "word_of_int c :: byte"
  have a: "armed s1 pend" "f_w (io_fp s1) = f_w (io_fp s) - 1" "lbfsize (io_fp s1) = lbfsize (io_fp s)" "io_sys s1 = io_sys s"
      "f_file (io_fp s1) = f_file (io_fp s)" "bf_size (io_fp s1) = bf_size (io_fp s)" "\<And>n. fbit s1 n = fbit s n"
    using ready_armed [OF True] by (simp_all add: s1_def io_simps)
  have st: "same_stream s s1" by (simp add: s1_def same_stream_def io_simps)
  have opn: "opens out fl s pend s" using True by (simp add: opens_def)
  have swb: "\<exists>r s'. swbuf_r os d s2 = Some (r, s') \<and> extends out fl (r \<noteq> EOF) (out (io_sys s) @ pend) [word_of_int d] s s' \<and>
      (r \<noteq> EOF \<longrightarrow> r = uint (word_of_int d :: byte))"
    if h: "int (length pend) = bf_size (io_fp s) \<or> fbit s 1 \<or> fbit s 0 \<and> word_of_int d = (10 :: byte)" "armed s2 pend"
      "same_stream s s2" "io_sys s2 = io_sys s" "fbit s2 6 = fbit s 6" for d s2
  proof -
    have d: "device os (f_file (io_fp s2)) out fl" using assms(1) same_streamD(3) [OF h(3)] by simp
    have "int (length pend) = bf_size (io_fp s2) \<or> fbit s2 1 \<or> fbit s2 0 \<and> word_of_int d = (10 :: byte)"
      using h(1) same_streamD(2,4) [OF h(3)] by simp
    from swbuf_ok [OF d h(2) refl this]
    obtain r s' where "swbuf_r os d s2 = Some (r, s')" "extends out fl (r \<noteq> EOF) (out (io_sys s2) @ pend) [word_of_int d] s2 s'"
      "r \<noteq> EOF \<longrightarrow> r = uint (word_of_int d :: byte)" by (elim exE conjE)
    then show ?thesis using extends_from [OF h(3,5), where fl = fl] unfolding h(4) by (intro exI conjI) simp_all
  qed
  have push: "\<exists>s'. push_char ?b s1 = Some s' \<and> extends out fl True (out (io_sys s) @ pend) [?b] s s' \<and>
      s' = upd (\<lambda>f. f\<lparr>f_p := f_p f + 1\<rparr>) (s1\<lparr>io_mem := wr (io_mem s1) (f_p (io_fp s1)) [?b]\<rparr>)"
    if lt: "int (length pend) < bf_size (io_fp s)" and nb: "\<not> fbit s 1" "\<not> (fbit s 0 \<and> ?b = 10)"
  proof -
    have "buffer_ok s1 pend" using a(1) by (simp add: armed_def)
    then obtain s' where s': "push_char ?b s1 = Some s'" "buffer_ok s' (pend @ [?b])" "same_stream s1 s'"
      and eq: "s' = upd (\<lambda>f. f\<lparr>f_p := f_p f + 1\<rparr>) (s1\<lparr>io_mem := wr (io_mem s1) (f_p (io_fp s1)) [?b]\<rparr>)"
      using buffer_push [of s1 pend ?b] lt a(6) by auto
    have "mode_ok s pend" using True by (simp add: ready_def)
    then have "mode_ok s' (pend @ [?b])"
      using nb a(2,3,6,7) unfolding mode_ok_def Let_def by (auto simp: eq io_simps fbit_def split: if_splits)
    then have "content out s' ((out (io_sys s) @ pend) @ [?b])" "fbit s' 6 = fbit s 6" "io_sys s' = io_sys s"
      using s'(2) a(4,7) by (auto simp: content_def ready_def eq io_simps fbit_def)
    then show ?thesis using s'(1,3) same_stream_trans [OF st] eq by (auto simp: extends_def)
  qed
  consider "0 \<le> f_w (io_fp s1)" | "f_w (io_fp s1) < 0" "lbfsize (io_fp s1) \<le> f_w (io_fp s1)" | "f_w (io_fp s1) < 0" "f_w (io_fp s1) < lbfsize (io_fp s1)"
    by linarith
  then show ?thesis
  proof cases
    case 1
    then have "\<not> fbit s 1" "\<not> fbit s 0" "int (length pend) < bf_size (io_fp s)"
      using True a(2) by (auto simp: ready_def mode_ok_def Let_def split: if_splits)
    then obtain s' where "push_char ?b s1 = Some s'" "extends out fl True (out (io_sys s) @ pend) [?b] s s'" using push by blast
    then show ?thesis using opn 1 by (auto simp: sputc_r_def s1_def [symmetric] Let_def)
  next
    case 2
    then have lb: "\<not> fbit s 1" "fbit s 0" "int (length pend) < bf_size (io_fp s)"
      using True a(2,3) b(4) by (auto simp: ready_def mode_ok_def Let_def split: if_splits)
    define s2 where "s2 = s1\<lparr>io_mem := wr (io_mem s1) (f_p (io_fp s1)) [?b]\<rparr>"
    have at: "io_mem s1 (f_p (io_fp s1)) \<noteq> None" using b(6,9) lb(3) by (auto simp: mapped_nth s1_def io_simps)
    have eq: "sputc_r os c s = (if ?b \<noteq> 10 then Some (uint ?b, upd (\<lambda>f. f\<lparr>f_p := f_p f + 1\<rparr>) s2) else swbuf_r os 10 s2)"
      using 2 at by (simp add: sputc_r_def s1_def [symmetric] s2_def mem_simps Let_def)
    show ?thesis
    proof (cases "?b = 10")
      case nl: True
      have "bytes (io_mem s2) (bf_base (io_fp s)) pend"
        unfolding s2_def using b(6,8) by (simp, subst bytes_wr_disjoint) (auto simp: disjoint_regions_def s1_def io_simps)
      then have "armed s2 pend" using a(1) at by (auto simp: armed_def buffer_ok_def Let_def s2_def s1_def io_simps fbit_def)
      moreover have "same_stream s s2"
        using b(6,9) lb(3) at by (auto simp: same_stream_def s2_def s1_def io_simps fbit_def region_def wr_single)
      moreover have "io_sys s2 = io_sys s" "fbit s2 6 = fbit s 6" by (simp_all add: s2_def s1_def io_simps)
      ultimately have "\<exists>r s'. swbuf_r os 10 s2 = Some (r, s') \<and> extends out fl (r \<noteq> EOF) (out (io_sys s) @ pend) [word_of_int 10] s s' \<and>
          (r \<noteq> EOF \<longrightarrow> r = uint (word_of_int 10 :: byte))" using lb(2) by (intro swb) simp_all
      then show ?thesis using opn nl eq by auto
    next
      case False
      then have "\<not> (fbit s 0 \<and> ?b = 10)" by simp
      from push [OF lb(3,1) this] have "extends out fl True (out (io_sys s) @ pend) [?b] s (upd (\<lambda>f. f\<lparr>f_p := f_p f + 1\<rparr>) s2)"
        unfolding s2_def by (elim exE conjE) simp
      then show ?thesis using eq False opn by (intro exI [of _ "uint ?b"] exI [of _ s] exI [of _ "upd (\<lambda>f. f\<lparr>f_p := f_p f + 1\<rparr>) s2"]) simp
    qed
  next
    case 3
    then have "int (length pend) = bf_size (io_fp s) \<or> fbit s 1"
      using True a(2,3) b(7) by (auto simp: ready_def mode_ok_def Let_def split: if_splits)
    then show ?thesis using swb [of c s1] a st opn 3 by (auto simp: sputc_r_def s1_def [symmetric] Let_def)
  qed
qed

section \<open>Regions\<close>

lemma kept_ready: "kept B s s' \<Longrightarrow> B \<subseteq> {6, 12, 13} \<Longrightarrow> ready s' pend = ready s pend"
proof -
  assume k: "kept B s s'" and "B \<subseteq> {6, 12, 13}"
  then have "fbit s' n = fbit s n" if "n \<notin> {6, 12, 13}" for n using kept_fbit [OF k] that by blast
  then show ?thesis by (simp add: ready_def buffer_ok_def mode_ok_def Let_def keptD [OF k])
qed

lemma direct_ok:
  assumes "device os (f_file (io_fp s)) out fl" "ready s pend" "bytes (io_mem s) p ys"
  obtains s' where "direct os p (int (length ys)) s = Some (Failed s')" "ready s' pend" "same_stream s s'" "out (io_sys s') = out (io_sys s)"
      "ys \<noteq> [] \<Longrightarrow> fl (io_sys s') = Suc (fl (io_sys s))"
  | t s' where "direct os p (int (length ys)) s = Some (Wrote t s')" "0 < t" "t \<le> int (length ys)" "ready s' pend" "same_stream s s'"
      "fbit s' 6 = fbit s 6" "fl (io_sys s') = fl (io_sys s)" "out (io_sys s') = out (io_sys s) @ take (nat t) ys"
proof -
  obtain t s' where t: "swrite os p (int (length ys)) s = Some (t, s')" "t \<le> int (length ys)" "kept {12} s s'"
    "out (io_sys s') = out (io_sys s) @ take (nat t) ys"
    "fl (io_sys s') = (if t \<le> 0 \<and> ys \<noteq> [] then Suc (fl (io_sys s)) else fl (io_sys s))" using swrite_ok [OF assms(1,3)] by blast
  have "ready s' pend" "fbit s' 6 = fbit s 6" using kept_ready [OF t(3)] assms(2) kept_fbit [OF t(3), of 6] by simp_all
  moreover from this(2) have "same_stream s s'" by (intro kept_same_stream [OF t(3)]) simp_all
  ultimately show thesis using t that by (cases "t \<le> 0") (simp_all add: direct_def)
qed

lemma copy_ok:
  assumes "buffer_ok s pend" "bytes (io_mem s) p ys" "int (length pend + length ys) \<le> bf_size (io_fp s)" "n = int (length ys)"
  shows "\<exists>s'. COPY p n s = Some s' \<and> buffer_ok s' (pend @ ys) \<and> same_stream s s' \<and>
    s' = upd (\<lambda>f. f\<lparr>f_p := f_p f + length ys\<rparr>) (s\<lparr>io_mem := wr (io_mem s) (f_p (io_fp s)) ys\<rparr>)"
proof -
  note b = buffer_okD [OF assms(1)]
  have small: "int (length ys) < 2 ^ 31" using assms(3) b(5) by linarith
  then have n: "as_size n = length ys" "length ys < 2 ^ 31" using assms(4) by (simp_all add: as_size_int)
  have mp: "mapped (io_mem s) (f_p (io_fp s)) (length ys)"
    using b(6,9) assms(3) mapped_add [of "io_mem s" "bf_base (io_fp s)" "length pend" "length ys"]
    by (simp add: mapped_le [OF b(9)])
  let ?m = "wr (io_mem s) (f_p (io_fp s)) ys"
  have "bytes ?m (bf_base (io_fp s)) pend" using b(6,8) by (subst bytes_wr_disjoint) (auto simp: disjoint_regions_def)
  moreover have "bytes ?m (bf_base (io_fp s) + length pend) ys" using b(6) by (metis bytes_wr_same)
  moreover have "mapped ?m (bf_base (io_fp s)) (nat (bf_size (io_fp s)))" using b(9) mp by simp
  moreover have "dom ?m = dom (io_mem s)" using wr_mapped [OF mp] by (auto simp: dom_def)
  moreover have "memmove (io_mem s) (f_p (io_fp s)) p (as_size n) = Some (f_p (io_fp s), ?m)"
    unfolding n(1) by (rule memmove_eq [OF assms(2) mp n(2)])
  moreover have "nat (int x + n) = x + length ys" for x by (simp add: assms(4) nat_add_distrib)
  moreover have "?m a = io_mem s a" if "a \<notin> region (bf_base (io_fp s)) (nat (bf_size (io_fp s)))" for a
    using that b(6) assms(3) by (intro wr_apply_out) (auto simp: region_def)
  ultimately show ?thesis using b assms(3)
    by (simp add: COPY_def buffer_ok_def same_stream_def io_simps Let_def fbit_def)
qed

lemma flush_modes_kept:
  assumes "same_stream s s'" "ready s pend"
  shows "\<not> fbit s' 1 \<or> \<not> fbit s' 0 \<and> bf_size (io_fp s') = 1" "lbfsize (io_fp s') = (if fbit s' 0 then - bf_size (io_fp s') else 0)"
  using assms(1) ready_modes(2,3) [OF assms(2)] by (auto simp: same_stream_def)

lemma fill_and_flush_ok:
  assumes "device os (f_file (io_fp s)) out fl" "ready s pend" "bytes (io_mem s) p ys" "int (length pend + length ys) \<le> bf_size (io_fp s)"
    "n = int (length ys)"
  obtains s' k where "fill_and_flush os p n s = Some (Failed s')" "ready s' []" "same_stream s s'"
      "fl (io_sys s') = Suc (fl (io_sys s))" "k < length (pend @ ys)" "out (io_sys s') = out (io_sys s) @ take k (pend @ ys)"
  | s' where "fill_and_flush os p n s = Some (Wrote n s')" "ready s' []" "same_stream s s'" "fbit s' 6 = fbit s 6"
      "fl (io_sys s') = fl (io_sys s)" "out (io_sys s') = out (io_sys s) @ pend @ ys"
proof -
  obtain s1 where c: "COPY p n s = Some s1" "buffer_ok s1 (pend @ ys)" "same_stream s s1"
    and s1: "s1 = upd (\<lambda>f. f\<lparr>f_p := f_p f + length ys\<rparr>) (s\<lparr>io_mem := wr (io_mem s) (f_p (io_fp s)) ys\<rparr>)"
    using copy_ok [OF ready_modes(1) [OF assms(2)] assms(3,4,5)] by blast
  have d: "device os (f_file (io_fp s1)) out fl" using assms(1) same_streamD(3) [OF c(3)] by simp
  have e: "io_sys s1 = io_sys s" "fbit s1 6 = fbit s 6" by (simp_all add: s1 io_simps)
  show thesis
  proof (cases rule: flush_armed [OF d c(2) flush_modes_kept [OF c(3) assms(2)]])
    case (1 s')
    then show thesis using c(1) e same_stream_trans [OF c(3)] by (intro that(2) [of s']) (simp_all add: fill_and_flush_def)
  next
    case (2 s' k)
    then show thesis using c(1) e same_stream_trans [OF c(3)] by (intro that(1) [of s' k]) (simp_all add: fill_and_flush_def)
  qed
qed

lemma fill_and_done_ok:
  assumes "ready s pend" "bytes (io_mem s) p ys" "int (length pend + length ys) \<le> bf_size (io_fp s)" "n = int (length ys)" "\<not> fbit s 1"
  shows "\<exists>s'. fill_and_done p n s = Some (Wrote n s') \<and> buffer_ok s' (pend @ ys) \<and> same_stream s s' \<and> fbit s' 6 = fbit s 6 \<and>
    io_sys s' = io_sys s \<and> (fbit s 0 \<and> 10 \<in> set ys \<or> ready s' (pend @ ys))"
proof -
  obtain s1 where c: "COPY p n s = Some s1" "buffer_ok s1 (pend @ ys)" "same_stream s s1"
    and s1: "s1 = upd (\<lambda>f. f\<lparr>f_p := f_p f + length ys\<rparr>) (s\<lparr>io_mem := wr (io_mem s) (f_p (io_fp s)) ys\<rparr>)"
    using copy_ok [OF ready_modes(1) [OF assms(1)] assms(2,3,4)] by blast
  define s2 where "s2 = upd (\<lambda>f. f\<lparr>f_w := f_w f - n\<rparr>) s1"
  have "buffer_ok s2 (pend @ ys)" using c(2) by (simp add: s2_def buffer_ok_def Let_def io_simps)
  moreover have "same_stream s s2" using c(3) by (simp add: s2_def same_stream_def io_simps)
  moreover have "mode_ok s pend" using assms(1) by (simp add: ready_def)
  then have "fbit s 0 \<and> 10 \<in> set ys \<or> mode_ok s2 (pend @ ys)"
    using assms(4,5) by (auto simp: mode_ok_def Let_def s2_def s1 io_simps split: if_splits)
  ultimately show ?thesis using c(1) by (auto simp: fill_and_done_def s2_def s1 io_simps ready_def)
qed

text \<open>What one round promises: it fails, with a prefix written, or it takes \<open>w\<close> bytes of the region.\<close>

definition round_ok :: "('w \<Rightarrow> byte list) \<Rightarrow> ('w \<Rightarrow> nat) \<Rightarrow> byte list \<Rightarrow> byte list \<Rightarrow> 'w io \<Rightarrow> 'w wrote \<Rightarrow> bool" where
  "round_ok out fl pend cur s r = (case r of
     Failed s' \<Rightarrow> same_stream s s' \<and> fl (io_sys s') = Suc (fl (io_sys s)) \<and> (\<exists>pend'. ready s' pend') \<and>
       (\<exists>k < length (pend @ cur). out (io_sys s') = out (io_sys s) @ take k (pend @ cur))
   | Wrote w s' \<Rightarrow> 0 \<le> w \<and> w \<le> int (length cur) \<and> same_stream s s' \<and> fbit s' 6 = fbit s 6 \<and> fl (io_sys s') = fl (io_sys s) \<and>
       (\<exists>pend'. ready s' pend' \<and> out (io_sys s') @ pend' = out (io_sys s) @ pend @ take (nat w) cur \<and> (w = 0 \<longrightarrow> pend \<noteq> [] \<and> pend' = [])))"

lemma nbf_write_ok:
  assumes "device os (f_file (io_fp s)) out fl" "ready s pend" "fbit s 1" "bytes (io_mem s) p cur" "cur \<noteq> []"
  shows "\<exists>r. nbf_write os p (length cur) s = Some r \<and> round_ok out fl pend cur s r"
proof -
  let ?ys = "take BUFSIZ cur"
  have pend: "pend = []" using assms(2,3) by (simp add: ready_def mode_ok_def Let_def)
  have n: "int (min (length cur) BUFSIZ) = int (length ?ys)" by simp
  show ?thesis
  proof (cases rule: direct_ok [OF assms(1,2) bytes_take [OF assms(4), of BUFSIZ]])
    case (1 s')
    then show ?thesis using assms(5) unfolding nbf_write_def n
      by (intro exI [of _ "Failed s'"]) (auto simp: round_ok_def pend BUFSIZ_def intro!: exI [of _ 0])
  next
    case (2 t s')
    have "take (nat t) ?ys = take (nat t) cur" using 2(2,3) by simp
    then show ?thesis using 2 unfolding nbf_write_def n pend by (intro exI [of _ "Wrote t s'"]) (auto simp: round_ok_def)
  qed
qed

lemma take_of_take: "take k (xs @ take n ys) = take (min k (length xs + n)) (xs @ ys)"
proof -
  have "xs @ take n ys = take (length xs + n) (xs @ ys)" by simp
  then show ?thesis by (simp only: take_take)
qed

lemma fbf_write_ok:
  assumes "device os (f_file (io_fp s)) out fl" "ready s pend" "\<not> fbit s 1" "\<not> fbit s 0" "bytes (io_mem s) p cur" "cur \<noteq> []" "length cur < 2 ^ 31"
  shows "\<exists>r. fbf_write os p (length cur) s = Some r \<and> round_ok out fl pend cur s r"
proof -
  note b = buffer_okD [OF ready_modes(1) [OF assms(2)]]
  let ?size = "bf_size (io_fp s)"
  have w: "f_w (io_fp s) = ?size - int (length pend)" using assms(2-4) by (simp add: ready_def mode_ok_def Let_def)
  have full: "bf_base (io_fp s) < f_p (io_fp s) \<longleftrightarrow> pend \<noteq> []" using b(6) by auto
  have nums: "as_size ?size = nat ?size" "as_size (f_w (io_fp s)) = nat (f_w (io_fp s))" using b(4,5,7) w by simp_all
  have u: "fbf_write os p (length cur) s =
    (if pend \<noteq> [] \<and> nat (f_w (io_fp s)) < length cur then fill_and_flush os p (f_w (io_fp s)) s
     else if nat ?size \<le> length cur then direct os p ?size s
     else fill_and_done p (int (length cur)) s)" using b(2) by (simp add: fbf_write_def Let_def flag_bits full nums)
  consider "pend \<noteq> []" "nat (f_w (io_fp s)) < length cur" | "\<not> (pend \<noteq> [] \<and> nat (f_w (io_fp s)) < length cur)" "nat ?size \<le> length cur"
    | "\<not> (pend \<noteq> [] \<and> nat (f_w (io_fp s)) < length cur)" "\<not> nat ?size \<le> length cur" by blast
  then show ?thesis
  proof cases
    case 1
    let ?ys = "take (nat (f_w (io_fp s))) cur"
    have ys: "f_w (io_fp s) = int (length ?ys)" "int (length pend + length ?ys) \<le> ?size" using 1(2) w b(7) by simp_all
    show ?thesis
    proof (cases rule: fill_and_flush_ok [OF assms(1,2) bytes_take [OF assms(5)] ys(2) ys(1)])
      case (1 s' k)
      then show ?thesis using u \<open>pend \<noteq> []\<close> \<open>nat (f_w (io_fp s)) < length cur\<close>
        unfolding take_of_take by (intro exI [of _ "Failed s'"]) (auto simp: round_ok_def simp del: take_append intro!: exI [of _ k])
    next
      case (2 s')
      then show ?thesis using u \<open>pend \<noteq> []\<close> \<open>nat (f_w (io_fp s)) < length cur\<close> w b(7)
        by (intro exI [of _ "Wrote (f_w (io_fp s)) s'"]) (auto simp: round_ok_def intro!: exI [of _ "[]"])
    qed
  next
    case 2
    then have pend: "pend = []" using w b(4) by (cases pend) auto
    let ?ys = "take (nat ?size) cur"
    have n: "?size = int (length ?ys)" using 2(2) b(4) by simp
    show ?thesis
    proof (cases rule: direct_ok [OF assms(1,2) bytes_take [OF assms(5), of "nat ?size"], folded n])
      case (1 s')
      then show ?thesis using u pend 2 b(4) assms(6) by (intro exI [of _ "Failed s'"]) (auto simp: round_ok_def intro!: exI [of _ 0])
    next
      case (2 t s')
      have "take (nat t) ?ys = take (nat t) cur" using 2(2,3) by (simp add: min_def)
      then show ?thesis using 2 u pend \<open>nat ?size \<le> length cur\<close> by (intro exI [of _ "Wrote t s'"]) (auto simp: round_ok_def)
    qed
  next
    case 3
    then have fit: "int (length pend + length cur) \<le> ?size" using w b(7) by (cases "pend = []") auto
    obtain s' where "fill_and_done p (int (length cur)) s = Some (Wrote (int (length cur)) s')" "same_stream s s'" "fbit s' 6 = fbit s 6"
      "io_sys s' = io_sys s" "ready s' (pend @ cur)" using fill_and_done_ok [OF assms(2,5) fit refl assms(3)] assms(4) by blast
    then show ?thesis using u 3 assms(6) by (intro exI [of _ "Wrote (int (length cur)) s'"]) (auto simp: round_ok_def)
  qed
qed

text \<open>A list of regions with their bytes, as \<^verbatim>\<open>uio_iov\<close> describes it, in memory that is not the buffer's\<close>

definition sizes :: "(addr \<times> byte list) list \<Rightarrow> (addr \<times> nat) list" where
  "sizes rs = map (\<lambda>(p, xs). (p, length xs)) rs"

definition data :: "(addr \<times> byte list) list \<Rightarrow> byte list" where
  "data rs = concat (map snd rs)"

definition region_ok :: "'w io \<Rightarrow> addr \<times> byte list \<Rightarrow> bool" where
  "region_ok s r \<longleftrightarrow> (case r of (p, xs) \<Rightarrow> bytes (io_mem s) p xs \<and> (xs \<noteq> [] \<longrightarrow> p \<noteq> NULL) \<and>
     region p (length xs) \<inter> region (bf_base (io_fp s)) (nat (bf_size (io_fp s))) = {})"

definition regions :: "'w io \<Rightarrow> (addr \<times> byte list) list \<Rightarrow> bool" where
  "regions s rs \<longleftrightarrow> (\<forall>r \<in> set rs. region_ok s r)"

lemma data_Cons [simp]: "data ((p, xs) # rs) = xs @ data rs" and data_Nil [simp]: "data [] = []"
  by (simp_all add: data_def)

lemma region_ok_same:
  assumes "same_stream s s'" "region_ok s r"
  shows "region_ok s' r"
proof -
  obtain p xs where r: "r = (p, xs)" by (cases r)
  have x: "bytes (io_mem s) p xs" "region p (length xs) \<inter> region (bf_base (io_fp s)) (nat (bf_size (io_fp s))) = {}"
    using assms(2) by (simp_all add: region_ok_def r)
  have "io_mem s' (p + i) = io_mem s (p + i)" if "i < length xs" for i
  proof -
    have "p + i \<in> region p (length xs)" using that by (simp add: region_def)
    then have "p + i \<notin> region (bf_base (io_fp s)) (nat (bf_size (io_fp s)))" using x(2) by (simp add: disjoint_iff)
    then show ?thesis using assms(1) by (simp add: same_stream_def)
  qed
  then have "bytes (io_mem s') p xs" using x(1) by (simp add: bytes_nth)
  then show ?thesis using assms(2) same_streamD(1,2) [OF assms(1)] by (simp add: region_ok_def r)
qed

lemma regions_same: "same_stream s s' \<Longrightarrow> regions s rs \<Longrightarrow> regions s' rs"
  using region_ok_same [of s s'] by (simp add: regions_def del: split_paired_All)

lemma regions_advance:
  assumes "regions s ((p, xs) # rs)" "n \<le> length xs"
  shows "regions s ((p + n, drop n xs) # rs)"
proof -
  have r: "region_ok s (p, xs)" "regions s rs" using assms(1) by (simp_all add: regions_def)
  have "region (p + n) (length (drop n xs)) \<subseteq> region p (length xs)" using assms(2) by (auto simp: region_def)
  then have "region_ok s (p + n, drop n xs)" using r(1) assms(2) bytes_drop by (auto simp: region_ok_def)
  then show ?thesis using r(2) by (simp add: regions_def)
qed

lemma regions_subset: "regions s rs \<Longrightarrow> set rs' \<subseteq> set rs \<Longrightarrow> regions s rs'"
  by (auto simp: regions_def)

lemma getiov_ok:
  "data ((p, cur) # rest) \<noteq> [] \<Longrightarrow> \<exists>p' cur' rest'. getiov p (length cur) (sizes rest) = Some (p', length cur', sizes rest') \<and> cur' \<noteq> [] \<and>
     data ((p', cur') # rest') = data ((p, cur) # rest) \<and> set ((p', cur') # rest') \<subseteq> set ((p, cur) # rest) \<and>
     (cur \<noteq> [] \<longrightarrow> p' = p \<and> cur' = cur \<and> rest' = rest)"
proof (induction rest arbitrary: p cur)
  case Nil
  then show ?case by (cases cur) (auto simp: sizes_def)
next
  case (Cons r rest)
  obtain q ys where r: "r = (q, ys)" by (cases r)
  show ?case
  proof (cases cur)
    case Nil
    then have "data ((q, ys) # rest) \<noteq> []" using Cons.prems r by simp
    from Cons.IH [OF this] obtain p' cur' rest' where "getiov q (length ys) (sizes rest) = Some (p', length cur', sizes rest')" "cur' \<noteq> []"
      "data ((p', cur') # rest') = data ((q, ys) # rest)" "set ((p', cur') # rest') \<subseteq> set ((q, ys) # rest)" by blast
    then show ?thesis using Nil r by (intro exI [of _ p'] exI [of _ cur'] exI [of _ rest']) (auto simp: sizes_def)
  next
    case (Cons c cs)
    then show ?thesis by (intro exI [of _ p] exI [of _ cur] exI [of _ "r # rest"]) (simp add: sizes_def)
  qed
qed

text \<open>The invariant of the loops: \<open>all\<close> is the rest of the data, \<open>X\<close> the content the stream will have in the end.\<close>

definition loop_inv :: "('w \<Rightarrow> byte list) \<Rightarrow> ('w \<Rightarrow> nat) \<Rightarrow> byte list \<Rightarrow> 'w io \<Rightarrow> addr \<Rightarrow> byte list \<Rightarrow> (addr \<times> byte list) list \<Rightarrow> int \<Rightarrow> 'w io \<Rightarrow> byte list \<Rightarrow> bool" where
  "loop_inv out fl X s0 p cur rest resid s pend \<longleftrightarrow>
     regions s ((p, cur) # rest) \<and>
     resid = int (length (data ((p, cur) # rest))) \<and> 0 < resid \<and> resid < 2 ^ 31 \<and> ready s pend \<and> same_stream s0 s \<and> fbit s 6 = fbit s0 6 \<and> fl (io_sys s) = fl (io_sys s0) \<and>
     X = out (io_sys s) @ pend @ data ((p, cur) # rest)"

definition write_result :: "('w \<Rightarrow> byte list) \<Rightarrow> ('w \<Rightarrow> nat) \<Rightarrow> byte list \<Rightarrow> 'w io \<Rightarrow> int \<Rightarrow> int \<times> int \<times> 'w io \<Rightarrow> bool" where
  "write_result out fl X s0 n = (\<lambda>(r, resid, s). same_stream s0 s \<and>
     (r = 0 \<and> resid = 0 \<and> content out s X \<and> fbit s 6 = fbit s0 6 \<and> fl (io_sys s) = fl (io_sys s0) \<or>
      r = EOF \<and> 0 < resid \<and> resid \<le> n \<and> fbit s 6 \<and> fl (io_sys s) = Suc (fl (io_sys s0)) \<and>
        (\<exists>pend. ready s pend) \<and> (\<exists>k < length X. out (io_sys s) = take k X)))"

definition next_ok :: "('w \<Rightarrow> byte list) \<Rightarrow> ('w \<Rightarrow> nat) \<Rightarrow> byte list \<Rightarrow> 'w io \<Rightarrow> int \<Rightarrow> int \<times> int \<times> 'w io + addr \<times> nat \<times> (addr \<times> nat) list \<times> int \<times> 'w io \<Rightarrow> bool" where
  "next_ok out fl X s0 f r = (case r of
     Inl x \<Rightarrow> \<exists>n. write_result out fl X s0 n x \<and> 2 * n \<le> f
   | Inr (p, len, iov, resid, s) \<Rightarrow> \<exists>cur rest pend. len = length cur \<and> iov = sizes rest \<and> loop_inv out fl X s0 p cur rest resid s pend \<and>
       2 * resid + (if pend = [] then 0 else 1) < f)"

lemma write_result_mono: "write_result out fl X s0 k x \<Longrightarrow> k \<le> n \<Longrightarrow> write_result out fl X s0 n x"
  by (auto simp: write_result_def)

lemma ready_pend_unique: "ready s pend \<Longrightarrow> ready s pend' \<Longrightarrow> pend = pend'"
  using bytes_unique [of "io_mem s" "bf_base (io_fp s)" pend pend'] by (auto simp: ready_def buffer_ok_def Let_def)

lemma next_round_ok:
  assumes inv: "loop_inv out fl X s0 p cur rest resid s pend" and cur: "cur \<noteq> []" and r: "round_ok out fl pend cur s r"
  shows "next_ok out fl X s0 (2 * resid + (if pend = [] then 0 else 1)) (next_round p (length cur) (sizes rest) resid r)"
proof -
  have i: "regions s ((p, cur) # rest)" "resid = int (length (data ((p, cur) # rest)))" "0 < resid" "resid < 2 ^ 31" "ready s pend"
    "same_stream s0 s" "fbit s 6 = fbit s0 6" "X = out (io_sys s) @ pend @ data ((p, cur) # rest)"
    and fi: "fl (io_sys s) = fl (io_sys s0)" using inv unfolding loop_inv_def by blast+
  show ?thesis
  proof (cases r)
    case (Failed s')
    have f: "same_stream s s'" "\<exists>pend'. ready s' pend'" "\<exists>k < length (pend @ cur). out (io_sys s') = out (io_sys s) @ take k (pend @ cur)"
      "fl (io_sys s') = Suc (fl (io_sys s))" using r Failed by (simp_all add: round_ok_def)
    obtain k where k: "k < length (pend @ cur)" "out (io_sys s') = out (io_sys s) @ take k (pend @ cur)" using f(3) by blast
    have "take k (pend @ cur) = take k (pend @ data ((p, cur) # rest))" using k(1) by simp
    then have "out (io_sys s') = take (length (out (io_sys s)) + k) X" unfolding k(2) i(8) by simp
    moreover have "length (out (io_sys s)) + k < length X" using k(1) i(8) by simp
    ultimately have ex: "\<exists>k < length X. out (io_sys (on SERR s')) = take k X" unfolding io_on by blast
    have k6: "kept {6} s' (on SERR s')" using kept_on [of SERR s'] by (simp add: mask_bits)
    have "same_stream s' (on SERR s')" by (rule kept_same_stream [OF k6]) (simp_all add: io_simps mask_bits)
    then have sm: "same_stream s0 (on SERR s')" using same_stream_trans [OF i(6)] same_stream_trans [OF f(1)] by blast
    have rdy: "\<exists>pend'. ready (on SERR s') pend'" using kept_ready [OF k6] f(2) by simp
    have "fbit (on SERR s') 6" "fl (io_sys (on SERR s')) = Suc (fl (io_sys s0))" using f(4) fi by (simp_all add: io_simps mask_bits)
    then have "write_result out fl X s0 resid (EOF, resid, on SERR s')" using ex sm rdy i(3) unfolding write_result_def by simp
    then show ?thesis using Failed by (auto simp: next_ok_def next_round_def)
  next
    case (Wrote w s')
    obtain pend' where w: "0 \<le> w" "w \<le> int (length cur)" "same_stream s s'" "fbit s' 6 = fbit s 6" "ready s' pend'"
      "out (io_sys s') @ pend' = out (io_sys s) @ pend @ take (nat w) cur" "w = 0 \<Longrightarrow> pend \<noteq> [] \<and> pend' = []"
      and fw: "fl (io_sys s') = fl (io_sys s)" using r Wrote by (auto simp: round_ok_def)
    have st: "same_stream s0 s'" by (rule same_stream_trans [OF i(6) w(3)])
    let ?cur = "drop (nat w) cur"
    have X: "X = out (io_sys s') @ pend' @ data ((p + nat w, ?cur) # rest)"
    proof -
      have "X = (out (io_sys s) @ pend @ take (nat w) cur) @ ?cur @ data rest" using i(8) by simp
      then show ?thesis by (simp only: w(6) [symmetric]) simp
    qed
    have len: "resid - w = int (length (data ((p + nat w, ?cur) # rest)))" using i(2) w(1,2) by simp
    show ?thesis
    proof (cases "resid - w = 0")
      case True
      then have "length (data ((p + nat w, ?cur) # rest)) = 0" using len by linarith
      then have "data ((p + nat w, ?cur) # rest) = []" by (simp only: length_0_conv)
      then have "content out s' X" using X w(5) by (auto simp: content_def)
      then show ?thesis using Wrote True st w(4) i(3,7) fw fi by (auto simp: next_ok_def next_round_def write_result_def intro!: exI [of _ 0])
    next
      case False
      have p: "nat (int p + w) = p + nat w" using w(1) by (simp add: nat_add_distrib)
      have "int (length cur) < 2 ^ 31" using i(2,4) by simp
      then have "0 \<le> int (length cur) - w" "int (length cur) - w < 2 ^ 32" using w(1,2) by simp_all
      then have l: "as_size (int (length cur) - w) = length ?cur" using w(1) by (simp add: nat_diff_distrib)
      have "regions s' ((p + nat w, ?cur) # rest)" using w(1,2) by (intro regions_advance regions_same [OF w(3) i(1)]) simp
      moreover have "0 < resid - w" using False len by simp
      ultimately have "loop_inv out fl X s0 (p + nat w) ?cur rest (resid - w) s' pend'"
        using len i(4,7) w(1,4,5) st X fw fi unfolding loop_inv_def by simp
      moreover have "2 * (resid - w) + (if pend' = [] then 0 else 1) < 2 * resid + (if pend = [] then 0 else 1)"
        using w(1,7) by (cases "w = 0") auto
      ultimately have "\<exists>c rs q. length ?cur = length c \<and> sizes rest = sizes rs \<and> loop_inv out fl X s0 (p + nat w) c rs (resid - w) s' q \<and>
          2 * (resid - w) + (if q = [] then 0 else 1) < 2 * resid + (if pend = [] then 0 else 1)" by blast
      moreover have "next_round p (length cur) (sizes rest) resid r = Inr (p + nat w, length ?cur, sizes rest, resid - w, s')"
        using Wrote False p l by (simp add: next_round_def)
      ultimately show ?thesis unfolding next_ok_def by simp
    qed
  qed
qed

text \<open>The loops for unbuffered and fully buffered streams\<close>

lemma buf_loop_ok:
  assumes wrt: "\<And>s p cur pend. ready s pend \<Longrightarrow> same_stream s0 s \<Longrightarrow> bytes (io_mem s) p cur \<Longrightarrow> cur \<noteq> [] \<Longrightarrow> length cur < 2 ^ 31 \<Longrightarrow>
      \<exists>r. write p (length cur) s = Some r \<and> round_ok out fl pend cur s r"
    and inv: "loop_inv out fl X s0 p0 cur0 rest0 n s0 pend0"
  shows "\<exists>x. loop (buf_body write) (p0, length cur0, sizes rest0, n, s0) = Some x \<and> write_result out fl X s0 n x"
proof (rule loop_rule [where I = "\<lambda>(p, len, iov, resid, s). \<exists>cur rest pend. len = length cur \<and> iov = sizes rest \<and> resid \<le> n \<and>
      loop_inv out fl X s0 p cur rest resid s pend"
      and f = "\<lambda>(p, len, iov, resid, s). nat (2 * resid + (if f_p (io_fp s) = bf_base (io_fp s) then 0 else 1))"])
  show "case (p0, length cur0, sizes rest0, n, s0) of (p, len, iov, resid, s) \<Rightarrow> \<exists>cur rest pend. len = length cur \<and> iov = sizes rest \<and>
      resid \<le> n \<and> loop_inv out fl X s0 p cur rest resid s pend" using inv by auto
  fix st
  assume "case st of (p, len, iov, resid, s) \<Rightarrow> \<exists>cur rest pend. len = length cur \<and> iov = sizes rest \<and> resid \<le> n \<and>
      loop_inv out fl X s0 p cur rest resid s pend"
  then obtain p cur rest resid s pend where st: "st = (p, length cur, sizes rest, resid, s)" "resid \<le> n" "loop_inv out fl X s0 p cur rest resid s pend"
    by (cases st) auto
  have i: "regions s ((p, cur) # rest)" "resid = int (length (data ((p, cur) # rest)))" "0 < resid" "resid < 2 ^ 31" "ready s pend"
    "same_stream s0 s" using st(3) unfolding loop_inv_def by blast+
  have "data ((p, cur) # rest) \<noteq> []" using i(2,3) by auto
  from getiov_ok [OF this] obtain p' cur' rest' where g: "getiov p (length cur) (sizes rest) = Some (p', length cur', sizes rest')" "cur' \<noteq> []"
    "data ((p', cur') # rest') = data ((p, cur) # rest)" "set ((p', cur') # rest') \<subseteq> set ((p, cur) # rest)" by (elim exE conjE)
  have inv': "loop_inv out fl X s0 p' cur' rest' resid s pend"
    using st(3) regions_subset [OF i(1) g(4)] unfolding loop_inv_def g(3) by blast
  have b: "bytes (io_mem s) p' cur'" using regions_subset [OF i(1) g(4)] by (simp add: regions_def region_ok_def)
  have "length cur' \<le> length (data ((p', cur') # rest'))" by simp
  then have "length cur' < 2 ^ 31" using i(2,4) unfolding g(3) [symmetric] by simp
  from wrt [OF i(5,6) b g(2) this] obtain r where r: "write p' (length cur') s = Some r" "round_ok out fl pend cur' s r" by (elim exE conjE)
  have e: "buf_body write st = Some (next_round p' (length cur') (sizes rest') resid r)" using g(1) r(1) by (simp add: buf_body_def st(1))
  have empty: "ready t q \<Longrightarrow> f_p (io_fp t) = bf_base (io_fp t) \<longleftrightarrow> q = []" for t :: "'a io" and q by (simp add: ready_def buffer_ok_def Let_def)
  note nxt = next_round_ok [OF inv' g(2) r(2)]
  show "\<exists>r. buf_body write st = Some r \<and> (case r of Inl x \<Rightarrow> write_result out fl X s0 n x
      | Inr s' \<Rightarrow> (case s' of (p, len, iov, resid, s) \<Rightarrow> \<exists>cur rest pend. len = length cur \<and> iov = sizes rest \<and> resid \<le> n \<and>
          loop_inv out fl X s0 p cur rest resid s pend) \<and>
        (case s' of (p, len, iov, resid, s) \<Rightarrow> nat (2 * resid + (if f_p (io_fp s) = bf_base (io_fp s) then 0 else 1)))
        < (case st of (p, len, iov, resid, s) \<Rightarrow> nat (2 * resid + (if f_p (io_fp s) = bf_base (io_fp s) then 0 else 1))))"
  proof (cases "next_round p' (length cur') (sizes rest') resid r")
    case (Inl x)
    then obtain k where "write_result out fl X s0 k x" "2 * k \<le> 2 * resid + (if pend = [] then 0 else 1)" using nxt by (auto simp: next_ok_def)
    moreover from this(2) have "k \<le> n" using st(2) by (simp split: if_splits)
    ultimately show ?thesis using e Inl by (simp add: write_result_mono)
  next
    case (Inr st')
    obtain p1 len1 iov1 resid1 s1 where st': "st' = (p1, len1, iov1, resid1, s1)" by (cases st')
    then obtain cur1 rest1 pend1 where n: "len1 = length cur1" "iov1 = sizes rest1" "loop_inv out fl X s0 p1 cur1 rest1 resid1 s1 pend1"
      "2 * resid1 + (if pend1 = [] then 0 else 1) < 2 * resid + (if pend = [] then 0 else 1)" using nxt Inr by (auto simp: next_ok_def)
    have "resid1 \<le> n" using n(4) st(2) by (simp split: if_splits)
    moreover have "0 < resid1" "ready s1 pend1" using n(3) by (simp_all add: loop_inv_def)
    then have "nat (2 * resid1 + (if f_p (io_fp s1) = bf_base (io_fp s1) then 0 else 1)) <
        nat (2 * resid + (if f_p (io_fp s) = bf_base (io_fp s) then 0 else 1))" using n(4) i(3,5) empty by simp
    ultimately show ?thesis using e Inr n(1-3) by (auto simp: st' st(1))
  qed
qed

text \<open>Line buffered streams: \<open>nl\<close> is at most the distance to the first newline.\<close>

definition nl_ok :: "int option \<Rightarrow> byte list \<Rightarrow> bool" where
  "nl_ok nl cur \<longleftrightarrow> (case nl of None \<Rightarrow> True | Some d \<Rightarrow> 1 \<le> d \<and> d \<le> int (length cur) + 1 \<and> 10 \<notin> set (take (nat (d - 1)) cur))"

lemma newline_dist_ok:
  assumes "bytes m p cur" "p \<noteq> NULL"
  shows "\<exists>d. newline_dist m p (length cur) = Some d \<and> nl_ok (Some d) cur"
proof -
  have mc: "memchr m p 10 (length cur) = Some (find_byte p 10 cur)" using memchr_eq [OF assms(1), of 10] by simp
  let ?k = "length (takeWhile (\<lambda>b. b \<noteq> 10) cur)"
  have nl: "10 \<notin> set (take ?k cur)" by (metis (mono_tags, lifting) set_takeWhileD takeWhile_eq_take)
  show ?thesis
  proof (cases "10 \<in> set cur")
    case True
    then have "?k < length cur" by (rule takeWhile_neq_nth [THEN conjunct1])
    then show ?thesis using mc nl True assms(2) by (simp add: newline_dist_def find_byte_def nl_ok_def)
  next
    case False
    then show ?thesis using mc by (simp add: newline_dist_def find_byte_def nl_ok_def)
  qed
qed

text \<open>The bytes of one round, before a flush for a newline\<close>

lemma lbf_write_ok:
  assumes "device os (f_file (io_fp s)) out fl" "ready s pend" "\<not> fbit s 1" "fbit s 0" "bytes (io_mem s) p cur" "1 \<le> k" "k \<le> int (length cur)"
  shows "(\<exists>s'. lbf_write os p k s = Some (Failed s') \<and> round_ok out fl pend cur s (Failed s')) \<or>
    (\<exists>w s' pend'. lbf_write os p k s = Some (Wrote w s') \<and> 0 \<le> w \<and> w \<le> k \<and> same_stream s s' \<and> fbit s' 6 = fbit s 6 \<and> fl (io_sys s') = fl (io_sys s) \<and> buffer_ok s' pend' \<and>
       out (io_sys s') @ pend' = out (io_sys s) @ pend @ take (nat w) cur \<and> (w = 0 \<longrightarrow> pend \<noteq> [] \<and> pend' = []) \<and>
       (ready s' pend' \<or> w = k \<and> 10 \<in> set (take (nat k) cur)) \<and> (\<exists>u. out (io_sys s') = out (io_sys s) @ u))"
proof -
  note b = buffer_okD [OF ready_modes(1) [OF assms(2)]]
  let ?size = "bf_size (io_fp s)"
  define w where "w = f_w (io_fp s) + ?size"
  have w: "w = ?size - int (length pend)" using assms(2-4) by (simp add: w_def ready_def mode_ok_def Let_def)
  have u: "lbf_write os p k s = (if pend \<noteq> [] \<and> w < k then fill_and_flush os p w s
      else if ?size \<le> k then direct os p ?size s else fill_and_done p k s)"
    using b(6) by (simp add: lbf_write_def Let_def w_def [symmetric])
  consider "pend \<noteq> []" "w < k" | "\<not> (pend \<noteq> [] \<and> w < k)" "?size \<le> k" | "\<not> (pend \<noteq> [] \<and> w < k)" "\<not> ?size \<le> k" by blast
  then show ?thesis
  proof cases
    case 1
    let ?ys = "take (nat w) cur"
    have ys: "w = int (length ?ys)" "int (length pend + length ?ys) \<le> ?size" using 1(2) w b(7) assms(7) by simp_all
    show ?thesis
    proof (cases rule: fill_and_flush_ok [OF assms(1,2) bytes_take [OF assms(5)] ys(2) ys(1)])
      case (1 s' n)
      then show ?thesis using u \<open>pend \<noteq> []\<close> \<open>w < k\<close> unfolding take_of_take by (auto simp: round_ok_def simp del: take_append intro!: exI [of _ n])
    next
      case (2 s')
      then have "lbf_write os p k s = Some (Wrote w s')" using u \<open>pend \<noteq> []\<close> \<open>w < k\<close> by simp
      then show ?thesis using 2 \<open>pend \<noteq> []\<close> \<open>w < k\<close> w b(7) ready_modes(1) by (intro disjI2 exI [of _ w] exI [of _ s'] exI [of _ "[]"]) simp
    qed
  next
    case 2
    then have pend: "pend = []" using w b(4) by (cases pend) auto
    let ?ys = "take (nat ?size) cur"
    have n: "?size = int (length ?ys)" using 2(2) b(4) assms(7) by simp
    show ?thesis
    proof (cases rule: direct_ok [OF assms(1,2) bytes_take [OF assms(5), of "nat ?size"], folded n])
      case (1 s')
      have "cur \<noteq> []" using assms(6,7) by auto
      then show ?thesis using 1 u pend 2 b(4) by (intro disjI1 exI [of _ s']) (auto simp: round_ok_def intro!: exI [of _ 0])
    next
      case (2 t s')
      have "take (nat t) ?ys = take (nat t) cur" using 2(2,3) by (simp add: min_def)
      moreover have "lbf_write os p k s = Some (Wrote t s')" using u pend \<open>?size \<le> k\<close> 2(1) by simp
      ultimately show ?thesis using 2 pend \<open>?size \<le> k\<close> n ready_modes(1) by (intro disjI2 exI [of _ t] exI [of _ s'] exI [of _ "[]"]) simp
    qed
  next
    case 3
    let ?ys = "take (nat k) cur"
    have k: "k = int (length ?ys)" using assms(6,7) by simp
    have fit: "int (length pend + length ?ys) \<le> ?size" using 3 w b(7) k by (cases pend) auto
    obtain s' where "fill_and_done p k s = Some (Wrote k s')" "same_stream s s'" "fbit s' 6 = fbit s 6"
      "io_sys s' = io_sys s" "buffer_ok s' (pend @ ?ys)" "fbit s 0 \<and> 10 \<in> set ?ys \<or> ready s' (pend @ ?ys)"
      using fill_and_done_ok [OF assms(2) bytes_take [OF assms(5)] fit k assms(3)] by (elim exE conjE)
    then show ?thesis using u 3 assms(6) by (intro disjI2 exI [of _ k] exI [of _ s'] exI [of _ "pend @ ?ys"]) (simp, blast)
  qed
qed

lemma lbf_step_ok:
  assumes "device os (f_file (io_fp s)) out fl" "ready s pend" "\<not> fbit s 1" "fbit s 0" "bytes (io_mem s) p cur" "cur \<noteq> []" "length cur < 2 ^ 31"
    "nl_ok (Some d) cur"
  shows "\<exists>nl r. lbf_step os p (length cur) d s = Some (nl, r) \<and> round_ok out fl pend cur s r \<and>
    (\<forall>w s'. r = Wrote w s' \<longrightarrow> nl_ok nl (drop (nat w) cur))"
proof -
  have d: "1 \<le> d" "d \<le> int (length cur) + 1" "10 \<notin> set (take (nat (d - 1)) cur)" using assms(8) by (simp_all add: nl_ok_def)
  define k where "k = (if length cur < as_size d then int (length cur) else d)"
  have small: "int (length cur) < 2 ^ 31" using assms(7) by simp
  moreover from this have "d < 2 ^ 32" using d(2) by simp
  ultimately have "as_size d = nat d" using d(1) by simp
  then have k: "k = min (int (length cur)) d" using d(1) by (auto simp: k_def)
  have k1: "1 \<le> k" "k \<le> int (length cur)" using k d(1) assms(6) by (cases cur; simp)+
  note u = lbf_step_def [of os p "length cur" d s, folded k_def]
  from lbf_write_ok [OF assms(1-5) k1] show ?thesis
  proof (rule disjE)
    assume "\<exists>s'. lbf_write os p k s = Some (Failed s') \<and> round_ok out fl pend cur s (Failed s')"
    then show ?thesis using u by auto
  next
    assume "\<exists>w s' pend'. lbf_write os p k s = Some (Wrote w s') \<and> 0 \<le> w \<and> w \<le> k \<and> same_stream s s' \<and> fbit s' 6 = fbit s 6 \<and> fl (io_sys s') = fl (io_sys s) \<and> buffer_ok s' pend' \<and>
       out (io_sys s') @ pend' = out (io_sys s) @ pend @ take (nat w) cur \<and> (w = 0 \<longrightarrow> pend \<noteq> [] \<and> pend' = []) \<and>
       (ready s' pend' \<or> w = k \<and> 10 \<in> set (take (nat k) cur)) \<and> (\<exists>u. out (io_sys s') = out (io_sys s) @ u)"
    then obtain w s' pend' u where w: "lbf_write os p k s = Some (Wrote w s')" "0 \<le> w" "w \<le> k" "same_stream s s'" "fbit s' 6 = fbit s 6" "buffer_ok s' pend'"
      "out (io_sys s') @ pend' = out (io_sys s) @ pend @ take (nat w) cur" "w = 0 \<longrightarrow> pend \<noteq> [] \<and> pend' = []"
      and fw: "fl (io_sys s') = fl (io_sys s)"
      and rd: "ready s' pend' \<or> w = k \<and> 10 \<in> set (take (nat k) cur)" and o: "out (io_sys s') = out (io_sys s) @ u" by (elim exE conjE)
    show ?thesis
    proof (cases "d - w = 0")
      case False
      have "ready s' pend'"
      proof (rule ccontr)
        assume "\<not> ready s' pend'"
        then have "w = k" "10 \<in> set (take (nat k) cur)" using rd by blast+
        moreover from this(1) have "k \<le> d - 1" using False k by linarith
        then have "set (take (nat k) cur) \<subseteq> set (take (nat (d - 1)) cur)" by (intro set_take_subset_set_take) simp
        ultimately show False using d(3) by blast
      qed
      then have "round_ok out fl pend cur s (Wrote w s')" using w fw k1(2) by (auto simp: round_ok_def)
      moreover have "nl_ok (Some (d - w)) (drop (nat w) cur)"
      proof -
        have "set (take (nat (d - w - 1)) (drop (nat w) cur)) \<subseteq> set (take (nat (d - 1)) cur)"
        proof -
          have "take (nat (d - w - 1)) (drop (nat w) cur) = drop (nat w) (take (nat (d - 1)) cur)"
            using w(2,3) k False by (simp add: drop_take nat_diff_distrib')
          then show ?thesis using set_drop_subset by metis
        qed
        then show ?thesis using d w(2,3) k False by (auto simp: nl_ok_def)
      qed
      ultimately show ?thesis using u w(1) False by simp
    next
      case True
      have dv: "device os (f_file (io_fp s')) out fl" using assms(1) same_streamD(3) [OF w(4)] by simp
      show ?thesis
      proof (cases rule: flush_armed [OF dv w(6) flush_modes_kept [OF w(4) assms(2)]])
        case (1 t)
        have "round_ok out fl pend cur s (Wrote w t)"
          using w fw 1 k1 k True same_stream_trans [OF w(4)] by (auto simp: round_ok_def)
        then show ?thesis using u w(1) True 1(1) by (simp add: nl_ok_def)
      next
        case (2 t n)
        have "u @ pend' = pend @ take (nat w) cur" using w(7) o by simp
        then have "u @ take n pend' = take (length u + n) (pend @ take (nat w) cur)" by (metis take_add append_eq_conv_conj)
        then have "out (io_sys t) = out (io_sys s) @ take (min (length u + n) (length pend + nat w)) (pend @ cur)"
          unfolding take_of_take using 2(7) o by simp
        moreover have "length u + length pend' = length pend + nat w" using \<open>u @ pend' = pend @ take (nat w) cur\<close> w(2,3) k1(2)
          by (metis length_append length_take min.absorb2 nat_le_iff order_trans)
        then have "min (length u + n) (length pend + nat w) < length (pend @ cur)" using 2(6) w(3) k1(2) by simp
        ultimately have "\<exists>j < length (pend @ cur). out (io_sys t) = out (io_sys s) @ take j (pend @ cur)" by blast
        then have "round_ok out fl pend cur s (Failed t)" using 2(2,5) fw same_stream_trans [OF w(4) 2(3)] unfolding round_ok_def by auto
        then show ?thesis using u w(1) True 2(1) by simp
      qed
    qed
  qed
qed


lemma nl_ok_Nil: "nl_ok (if length cur = 0 then None else nl) cur' \<longleftrightarrow> (cur \<noteq> [] \<longrightarrow> nl_ok nl cur')"
  by (simp add: nl_ok_def)

definition lbf_inv :: "('w \<Rightarrow> byte list) \<Rightarrow> ('w \<Rightarrow> nat) \<Rightarrow> byte list \<Rightarrow> 'w io \<Rightarrow> int \<Rightarrow> int option \<times> addr \<times> nat \<times> (addr \<times> nat) list \<times> int \<times> 'w io \<Rightarrow> bool" where
  "lbf_inv out fl X s0 n = (\<lambda>(nl, p, len, iov, resid, s). \<exists>cur rest pend. len = length cur \<and> iov = sizes rest \<and> resid \<le> n \<and>
     (cur \<noteq> [] \<longrightarrow> nl_ok nl cur) \<and> loop_inv out fl X s0 p cur rest resid s pend)"

definition lbf_measure :: "int option \<times> addr \<times> nat \<times> (addr \<times> nat) list \<times> int \<times> 'w io \<Rightarrow> nat" where
  "lbf_measure = (\<lambda>(nl, p, len, iov, resid, s). nat (2 * resid + (if f_p (io_fp s) = bf_base (io_fp s) then 0 else 1)))"

lemma ready_empty: "ready s pend \<Longrightarrow> f_p (io_fp s) = bf_base (io_fp s) \<longleftrightarrow> pend = []"
  by (simp add: ready_def buffer_ok_def Let_def)

lemma lbf_loop_ok:
  assumes "device os (f_file (io_fp s0)) out fl" "\<not> fbit s0 1" "fbit s0 0" "lbf_inv out fl X s0 n (nl0, p0, len0, iov0, n, s0)"
  shows "\<exists>x. loop (lbf_body os) (nl0, p0, len0, iov0, n, s0) = Some x \<and> write_result out fl X s0 n x"
proof (rule loop_rule [where I = "lbf_inv out fl X s0 n" and f = lbf_measure])
  show "lbf_inv out fl X s0 n (nl0, p0, len0, iov0, n, s0)" by fact
  fix st :: "int option \<times> addr \<times> nat \<times> (addr \<times> nat) list \<times> int \<times> 'a io"
  assume "lbf_inv out fl X s0 n st"
  then obtain nl p cur rest resid s pend where st: "st = (nl, p, length cur, sizes rest, resid, s)" "resid \<le> n"
    "cur \<noteq> [] \<longrightarrow> nl_ok nl cur" "loop_inv out fl X s0 p cur rest resid s pend"
    by (cases st) (auto simp: lbf_inv_def)
  have i: "regions s ((p, cur) # rest)" "resid = int (length (data ((p, cur) # rest)))" "0 < resid" "resid < 2 ^ 31" "ready s pend"
    "same_stream s0 s" using st(4) unfolding loop_inv_def by blast+
  have "data ((p, cur) # rest) \<noteq> []" using i(2,3) by auto
  from getiov_ok [OF this] obtain p' cur' rest' where g: "getiov p (length cur) (sizes rest) = Some (p', length cur', sizes rest')" "cur' \<noteq> []"
    "data ((p', cur') # rest') = data ((p, cur) # rest)" "set ((p', cur') # rest') \<subseteq> set ((p, cur) # rest)"
    "cur \<noteq> [] \<longrightarrow> p' = p \<and> cur' = cur \<and> rest' = rest" by (elim exE conjE)
  have inv': "loop_inv out fl X s0 p' cur' rest' resid s pend"
    using st(4) regions_subset [OF i(1) g(4)] unfolding loop_inv_def g(3) by blast
  have b: "bytes (io_mem s) p' cur'" "p' \<noteq> NULL" using regions_subset [OF i(1) g(4)] g(2) by (simp_all add: regions_def region_ok_def)
  have "length cur' \<le> length (data ((p', cur') # rest'))" by simp
  then have small: "length cur' < 2 ^ 31" using i(2,4) unfolding g(3) [symmetric] by simp
  define nl1 where "nl1 = (if cur = [] then None else nl)"
  obtain d where d: "(case nl1 of Some d \<Rightarrow> Some d | None \<Rightarrow> newline_dist (io_mem s) p' (length cur')) = Some d" "nl_ok (Some d) cur'"
  proof (cases nl1)
    case None
    then show thesis using newline_dist_ok [OF b] that by auto
  next
    case (Some d)
    then have "cur \<noteq> []" "nl = Some d" by (auto simp: nl1_def split: if_splits)
    then show thesis using Some g(5) st(3) that by simp
  qed
  have dv: "device os (f_file (io_fp s)) out fl" "\<not> fbit s 1" "fbit s 0" using assms(1-3) same_streamD(3,4) [OF i(6)] by simp_all
  from lbf_step_ok [OF dv(1) i(5) dv(2,3) b(1) g(2) small d(2)] obtain nl' r where
    r: "lbf_step os p' (length cur') d s = Some (nl', r)" "round_ok out fl pend cur' s r" "\<forall>w s'. r = Wrote w s' \<longrightarrow> nl_ok nl' (drop (nat w) cur')"
    by (elim exE conjE)
  have e: "lbf_body os st = Some (map_sum id (Pair nl') (next_round p' (length cur') (sizes rest') resid r))"
    using g(1) d(1) r(1) by (simp add: lbf_body_def st(1) nl1_def [symmetric] Let_def)
  note nxt = next_round_ok [OF inv' g(2) r(2)]
  show "\<exists>r. lbf_body os st = Some r \<and> (case r of Inl x \<Rightarrow> write_result out fl X s0 n x
      | Inr s' \<Rightarrow> lbf_inv out fl X s0 n s' \<and> lbf_measure s' < lbf_measure st)"
  proof (cases "next_round p' (length cur') (sizes rest') resid r")
    case (Inl x)
    then obtain k where "write_result out fl X s0 k x" "2 * k \<le> 2 * resid + (if pend = [] then 0 else 1)" using nxt by (auto simp: next_ok_def)
    moreover from this(2) have "k \<le> n" using st(2) by (simp split: if_splits)
    ultimately show ?thesis using e Inl by (simp add: write_result_mono)
  next
    case (Inr st')
    obtain w s1 where w: "r = Wrote w s1" "st' = (nat (int p' + w), as_size (int (length cur') - w), sizes rest', resid - w, s1)"
      using Inr by (cases r) (auto simp: next_round_def split: if_splits)
    have wb: "0 \<le> w" "w \<le> int (length cur')" "same_stream s s1" using r(2) w(1) by (auto simp: round_ok_def)
    from nxt Inr w(2) obtain cur1 rest1 pend1 where n: "as_size (int (length cur') - w) = length cur1" "sizes rest' = sizes rest1"
      "loop_inv out fl X s0 (nat (int p' + w)) cur1 rest1 (resid - w) s1 pend1"
      "2 * (resid - w) + (if pend1 = [] then 0 else 1) < 2 * resid + (if pend = [] then 0 else 1)" by (auto simp: next_ok_def)
    have "regions s1 ((p' + nat w, drop (nat w) cur') # rest')"
      using wb(1,2) by (intro regions_advance regions_same [OF wb(3)] regions_subset [OF i(1) g(4)]) simp
    moreover have p: "nat (int p' + w) = p' + nat w" using wb(1) by (simp add: nat_add_distrib)
    moreover have "int (length cur') < 2 ^ 31" using small by simp
    then have "0 \<le> int (length cur') - w" "int (length cur') - w < 2 ^ 32" using wb(1,2) by simp_all
    then have len: "length cur1 = length (drop (nat w) cur')" using n(1) wb(1) by (simp add: nat_diff_distrib)
    moreover have "regions s1 ((nat (int p' + w), cur1) # rest1)" using n(3) by (simp add: loop_inv_def)
    ultimately have "cur1 = drop (nat w) cur'" by (intro bytes_unique [of "io_mem s1" "p' + nat w"]) (simp_all add: regions_def region_ok_def)
    then have "nl_ok nl' cur1" using r(3) w(1) by simp
    then have "lbf_inv out fl X s0 n (nl', st')" using n st(2) wb(1) w(2) unfolding lbf_inv_def by auto
    moreover have "0 < resid - w" "ready s1 pend1" using n(3) by (simp_all add: loop_inv_def)
    then have "lbf_measure (nl', st') < lbf_measure st"
      using n(4) i(3) ready_empty [OF i(5)] ready_empty [of s1 pend1] by (simp add: lbf_measure_def st(1) w(2))
    ultimately show ?thesis using e Inr by simp
  qed
qed

end
