(* ===== verification/StdioCalls.thy ===== *)
theory StdioCalls
  imports StdioOut
begin

text \<open>
  What the output routines promise: every call on a stream that can be written adds its bytes to the content of the stream, and
  it fails, with the error flag set, exactly when a write to the device fails, for all three kinds of buffering; sequences of calls keep
  their order.  A counter of the failed writes ties the two sides together.

  The contract leaves one case out: a line buffered stream that still has to get its buffer when there is no memory for it
  (\<open>writable\<close>).  There the order is lost, which the section before the properties shows.
\<close>

section \<open>The contract of an output call\<close>

text \<open>
  The content of a stream is what was written to the device and what its buffer holds.  Data a caller hands over must lie outside
  the stream: not in its buffer, and not in the byte \<^verbatim>\<open>_nbuf\<close>, which becomes the buffer of an unbuffered stream.
\<close>

definition carries :: "'w os \<Rightarrow> ('w \<Rightarrow> byte list) \<Rightarrow> ('w \<Rightarrow> nat) \<Rightarrow> 'w io \<Rightarrow> byte list \<Rightarrow> bool" where
  "carries os out fl s X \<longleftrightarrow> device os (f_file (io_fp s)) out fl \<and> paged (io_mem s) \<and> (\<exists>pend. writable os s pend \<and> X = out (io_sys s) @ pend)"

definition clear_of :: "'w io \<Rightarrow> addr \<times> byte list \<Rightarrow> bool" where
  "clear_of s r \<longleftrightarrow> (case r of (p, xs) \<Rightarrow> bytes (io_mem s) p xs \<and> (xs \<noteq> [] \<longrightarrow> p \<noteq> NULL) \<and> f_nbuf (io_fp s) \<notin> region p (length xs) \<and>
     (bf_base (io_fp s) \<noteq> NULL \<longrightarrow> region p (length xs) \<inter> region (bf_base (io_fp s)) (nat (bf_size (io_fp s))) = {}))"

text \<open>What a call leaves alone\<close>

definition frame :: "'w io \<Rightarrow> 'w io \<Rightarrow> bool" where
  "frame s s' \<longleftrightarrow> f_file (io_fp s') = f_file (io_fp s) \<and> io_others s' = io_others s \<and> (\<forall>r. clear_of s r \<longrightarrow> clear_of s' r)"

text \<open>
  A call that succeeds adds \<open>ys\<close> to the content.  One that fails sets the error flag; the device then has a prefix of
  the content it should have, and the stream can still be used.
\<close>

definition outcome :: "'w os \<Rightarrow> ('w \<Rightarrow> byte list) \<Rightarrow> ('w \<Rightarrow> nat) \<Rightarrow> bool \<Rightarrow> byte list \<Rightarrow> byte list \<Rightarrow> 'w io \<Rightarrow> 'w io \<Rightarrow> bool" where
  "outcome os out fl good X ys s s' \<longleftrightarrow> frame s s' \<and>
     (if good then carries os out fl s' (X @ ys) \<and> fbit s' 6 = fbit s 6 \<and> fl (io_sys s') = fl (io_sys s)
      else fbit s' 6 \<and> fl (io_sys s') = Suc (fl (io_sys s)) \<and> (\<exists>Y. carries os out fl s' Y) \<and>
        (\<exists>k < length (X @ ys). out (io_sys s') = take k (X @ ys)))"

lemma frame_trans: "frame s t \<Longrightarrow> frame t s' \<Longrightarrow> frame s s'"
  by (simp add: frame_def)

lemma outcome_trans:
  assumes "frame s t" "fbit t 6 = fbit s 6" "fl (io_sys t) = fl (io_sys s)" "outcome os out fl good (X @ ys) zs t s'"
  shows "outcome os out fl good X (ys @ zs) s s'"
  using assms(2-4) frame_trans [OF assms(1)] unfolding outcome_def append_assoc by (simp del: take_append length_append)

lemma clear_of_region_ok: "clear_of s r \<Longrightarrow> bf_base (io_fp s) \<noteq> NULL \<Longrightarrow> region_ok s r"
  by (auto simp: clear_of_def region_ok_def)

lemma clear_of_same:
  assumes "same_stream s s'" "bf_base (io_fp s) \<noteq> NULL" "clear_of s r"
  shows "clear_of s' r"
proof -
  have "region_ok s' r" using region_ok_same [OF assms(1)] clear_of_region_ok [OF assms(3,2)] by blast
  moreover have "f_nbuf (io_fp s') = f_nbuf (io_fp s)" using assms(1) by (simp add: same_stream_def)
  ultimately show ?thesis using assms(3) by (auto simp: clear_of_def region_ok_def)
qed

lemma clear_of_got:
  assumes "got_buffer s t" "clear_of s r"
  shows "clear_of t r"
proof -
  obtain p xs where r: "r = (p, xs)" by (cases r)
  have x: "bytes (io_mem s) p xs" "f_nbuf (io_fp s) \<notin> region p (length xs)" using assms(2) by (simp_all add: clear_of_def r)
  have sub: "region p (length xs) \<subseteq> dom (io_mem s)" using x(1) by (auto simp: region_def bytes_nth dom_def nat_le_iff_add)
  have "region (bf_base (io_fp t)) (nat (bf_size (io_fp t))) = {f_nbuf (io_fp s)} \<or>
      region (bf_base (io_fp t)) (nat (bf_size (io_fp t))) \<inter> dom (io_mem s) = {}" using assms(1) by (simp add: got_buffer_def)
  then have "region p (length xs) \<inter> region (bf_base (io_fp t)) (nat (bf_size (io_fp t))) = {}" using x(2) sub by (elim disjE) auto
  then show ?thesis using assms bytes_map_le [OF x(1)] by (simp add: clear_of_def r got_buffer_def)
qed

lemma clear_of_opens: "opens out fl s pend t \<Longrightarrow> clear_of s r \<Longrightarrow> clear_of t r"
  using clear_of_got [of s t r] by (auto simp: opens_def)

lemma opens_frame:
  assumes "opens out fl s pend t"
  shows "frame s t"
  using opensD [OF assms] clear_of_opens [OF assms] unfolding frame_def by blast

lemma paged_dom:
  assumes "dom m' = dom m"
  shows "paged m' = paged m"
proof -
  have "m' a = None \<longleftrightarrow> m a = None" for a using assms domIff [of a m] domIff [of a m'] by blast
  then show ?thesis by (simp add: paged_def mapped_nth)
qed

lemma ready_base: "ready s pend \<Longrightarrow> bf_base (io_fp s) \<noteq> NULL"
  by (simp add: ready_def buffer_ok_def Let_def)

lemma extends_outcome:
  assumes "device os (f_file (io_fp s)) out fl" "paged (io_mem s)" "opens out fl s pend t" "extends out fl good (out (io_sys s) @ pend) ys t s'"
  shows "outcome os out fl good (out (io_sys s) @ pend) ys s s'"
proof -
  note o = opensD [OF assms(3)]
  have st: "same_stream t s'" using assms(4) by (simp add: extends_def)
  then have "frame t s'" using clear_of_same [OF st ready_base [OF o(1)]] unfolding frame_def same_stream_def by blast
  then have f: "frame s s'" by (rule frame_trans [OF opens_frame [OF assms(3)]])
  have d: "device os (f_file (io_fp s')) out fl" using assms(1) f by (simp add: frame_def)
  have "paged (io_mem t)" using assms(2,3) by (auto simp: opens_def got_buffer_def)
  then have pg: "paged (io_mem s')" using paged_dom [of "io_mem s'" "io_mem t"] st by (simp add: same_stream_def)
  have e: "fbit t 6 = fbit s 6" "fl (io_sys t) = fl (io_sys s)" using assms(3) by (auto simp: opens_def got_buffer_def)
  have carries: "carries os out fl s' Y" if "content out s' Y" for Y using that d pg by (auto simp: carries_def content_def writable_def)
  have any: "\<exists>Y. carries os out fl s' Y" if "\<exists>pend. ready s' pend" using that carries unfolding content_def by blast
  show ?thesis
  proof (cases good)
    case True
    then have "content out s' ((out (io_sys s) @ pend) @ ys)" "fbit s' 6 = fbit s 6"
      "fl (io_sys s') = fl (io_sys s)" using assms(4) e by (simp_all add: extends_def)
    then show ?thesis using True f carries by (simp add: outcome_def)
  next
    case False
    then have "fbit s' 6" "fl (io_sys s') = Suc (fl (io_sys s))" "\<exists>pend. ready s' pend"
      "\<exists>k < length ((out (io_sys s) @ pend) @ ys). out (io_sys s') = take k ((out (io_sys s) @ pend) @ ys)"
      using assms(4) e unfolding extends_def by (simp_all del: take_append length_append)
    then show ?thesis using False f any unfolding outcome_def by (simp only: if_False simp_thms)
  qed
qed

lemma orient_frame: "frame s (orient s)"
  by (simp add: frame_def clear_of_def io_simps)

lemma fresh_orient: "fresh (orient s) = fresh s" and nbuf_orient: "f_nbuf (io_fp (orient s)) = f_nbuf (io_fp s)"
  by (simp_all add: fresh_def Let_def io_simps)

lemma carries_orient: "carries os out fl (orient s) X = carries os out fl s X"
  by (simp add: carries_def writable_def ready_orient fresh_orient io_simps)

lemma outcome_orient: "outcome os out fl good X ys (orient s) s' \<Longrightarrow> outcome os out fl good X ys s s'"
  using frame_trans [OF orient_frame] by (auto simp: outcome_def io_simps)

section \<open>Regions\<close>

lemma sfvwrite_ok:
  assumes "carries os out fl s X" "\<forall>r \<in> set rs. clear_of s r" "length (data rs) < 2 ^ 31"
  shows "\<exists>r n s'. sfvwrite_r os (sizes rs) (int (length (data rs))) s = Some (r, n, s') \<and> outcome os out fl (r = 0) X (data rs) s s' \<and>
    (if r = 0 then n = 0 else r = EOF \<and> 0 < n \<and> n \<le> int (length (data rs)))"
proof (cases "data rs = []")
  case True
  then show ?thesis using assms(1) by (simp add: sfvwrite_r_def outcome_def frame_def)
next
  case False
  obtain pend where w: "device os (f_file (io_fp s)) out fl" "writable os s pend" "X = out (io_sys s) @ pend" "paged (io_mem s)"
    using assms(1) by (auto simp: carries_def)
  from cantwrite_opens [OF w(2,1)] obtain t where t: "cantwrite os s = (False, t)" "opens out fl s pend t" by (elim exE conjE)
  note o = opensD [OF t(2)]
  define n where "n = int (length (data rs))"
  have "bf_base (io_fp t) \<noteq> NULL" using o(1) by (simp add: ready_def buffer_ok_def Let_def)
  then have rg: "regions t ((NULL, []) # rs)" using clear_of_opens [OF t(2)] assms(2) clear_of_region_ok [of t]
    by (auto simp: regions_def region_ok_def region_def)
  have "int (length (data rs)) < 2 ^ 31" using assms(3) by simp
  then have inv: "loop_inv out fl (X @ data rs) t NULL [] rs n t pend"
    using rg False o(1,2) w(3) by (simp add: loop_inv_def n_def)
  have d: "device os (f_file (io_fp t)) out fl" using w(1) o(3) by simp
  have "\<exists>x. (if flag t SNBF then loop (buf_body (nbf_write os)) (NULL, 0, sizes rs, n, t)
        else if \<not> flag t SLBF then loop (buf_body (fbf_write os)) (NULL, 0, sizes rs, n, t)
        else loop (lbf_body os) (None, NULL, 0, sizes rs, n, t)) = Some x \<and> write_result out fl (X @ data rs) t n x"
  proof -
    have dev: "device os (f_file (io_fp u)) out fl" if "same_stream t u" for u using d same_streamD(3) [OF that] by simp
    have bits: "fbit u 0 = fbit t 0" "fbit u 1 = fbit t 1" if "same_stream t u" for u using same_streamD(4) [OF that] by simp_all
    consider "fbit t 1" | "\<not> fbit t 1" "\<not> fbit t 0" | "\<not> fbit t 1" "fbit t 0" by blast
    then show ?thesis
    proof cases
      case 1
      have "\<exists>x. loop (buf_body (nbf_write os)) (NULL, length ([] :: byte list), sizes rs, n, t) = Some x \<and> write_result out fl (X @ data rs) t n x"
        using 1 by (intro buf_loop_ok [OF _ inv] nbf_write_ok dev) (simp_all only: bits not_False_eq_True)
      then show ?thesis using 1 by (simp add: flag_bits)
    next
      case 2
      have "\<exists>x. loop (buf_body (fbf_write os)) (NULL, length ([] :: byte list), sizes rs, n, t) = Some x \<and> write_result out fl (X @ data rs) t n x"
        using 2 by (intro buf_loop_ok [OF _ inv] fbf_write_ok dev) (simp_all only: bits not_False_eq_True)
      then show ?thesis using 2 by (simp add: flag_bits)
    next
      case 3
      have "lbf_inv out fl (X @ data rs) t n (None, NULL, 0, sizes rs, n, t)" using inv unfolding lbf_inv_def by auto
      from lbf_loop_ok [OF d 3 this] show ?thesis using 3 by (simp add: flag_bits)
    qed
  qed
  moreover have "n \<noteq> 0" using False by (simp add: n_def)
  ultimately obtain r k s' where x: "sfvwrite_r os (sizes rs) n s = Some (r, k, s')" "write_result out fl (X @ data rs) t n (r, k, s')"
    using t(1) by (auto simp: sfvwrite_r_def)
  then have "extends out fl (r = 0) X (data rs) t s'" "if r = 0 then k = 0 else r = EOF \<and> 0 < k \<and> k \<le> n"
    by (auto simp: write_result_def extends_def)
  then show ?thesis using x(1) extends_outcome [OF w(1,4) t(2)] unfolding w(3) n_def by blast
qed


section \<open>The calls\<close>

lemma putc_ok:
  assumes "carries os out fl s X"
  shows "\<exists>r s'. putc_r os c s = Some (r, s') \<and> outcome os out fl (r \<noteq> EOF) X [word_of_int c] s s' \<and>
    (r \<noteq> EOF \<longrightarrow> r = uint (word_of_int c :: byte))"
proof -
  obtain pend where w: "device os (f_file (io_fp s)) out fl" "writable os s pend" "X = out (io_sys s) @ pend" "paged (io_mem s)"
    using assms by (auto simp: carries_def)
  from sputc_ok [OF w(1,2)] extends_outcome [OF w(1,4)] show ?thesis unfolding putc_r_def w(3) by blast
qed

lemma sfvwrite_calls:
  assumes "carries os out fl s X" "\<forall>r \<in> set rs. clear_of s r" "data rs = xs" "sizes rs = iov" "length xs < 2 ^ 31"
  obtains r n s' where "sfvwrite_r os iov (int_of_size (length xs)) (orient s) = Some (r, n, s')"
    "outcome os out fl (r = 0) X xs s s'" "if r = 0 then n = 0 else r = EOF \<and> 0 < n \<and> n \<le> int (length xs)"
proof -
  have "carries os out fl (orient s) X" "\<forall>r \<in> set rs. clear_of (orient s) r" "length (data rs) < 2 ^ 31"
    using assms(1,2,3,5) orient_frame [of s] unfolding frame_def carries_orient by blast+
  from sfvwrite_ok [OF this] show thesis
    using that outcome_orient unfolding assms(3,4) int_of_size_small [OF assms(5)] by blast
qed

lemma fputs_ok:
  assumes "carries os out fl s X" "cstr (io_mem s) str xs" "clear_of s (str, xs)" "length xs < 2 ^ 31"
  shows "\<exists>r s'. fputs_r os str s = Some (r, s') \<and> outcome os out fl (r = 0) X xs s s' \<and> r \<in> {0, EOF}"
proof -
  have "strlen (io_mem s) str = Some (length xs)" using assms(1,2) by (intro strlen_cstr) (simp_all add: carries_def)
  moreover have "\<forall>r \<in> set [(str, xs)]. clear_of s r" using assms(3) by simp
  ultimately show ?thesis using assms(4)
    by (elim sfvwrite_calls [OF assms(1), where xs = xs and iov = "[(str, length xs)]"]) (auto simp: sizes_def fputs_r_def split: if_splits)
qed

lemma puts_ok:
  assumes "carries os out fl s X" "cstr (io_mem s) str xs" "clear_of s (str, xs)" "clear_of s (newline, [10])" "length xs < 2 ^ 31 - 1"
  shows "\<exists>r s'. puts_r os newline str s = Some (r, s') \<and> outcome os out fl (r \<noteq> EOF) X (xs @ [10]) s s' \<and> r \<in> {10, EOF}"
proof -
  have "strlen (io_mem s) str = Some (length xs)" using assms(1,2) by (intro strlen_cstr) (simp_all add: carries_def)
  moreover have "\<forall>r \<in> set [(str, xs), (newline, [10])]. clear_of s r" using assms(3,4) by simp
  ultimately show ?thesis using assms(5)
    by (elim sfvwrite_calls [OF assms(1), where xs = "xs @ [10]" and iov = "[(str, length xs), (newline, 1)]"])
      (auto simp: sizes_def puts_r_def EOF_def split: if_splits)
qed

lemma fwrite_ok:
  assumes "carries os out fl s X" "clear_of s (buf, xs)" "length xs = count * sz" "length xs < 2 ^ 31"
  shows "\<exists>n s'. fwrite_r os buf sz count s = Some (n, s') \<and> outcome os out fl (n = count) X xs s s' \<and> n \<le> count"
proof -
  have "int (length xs) < 2 ^ 32" using assms(4) by simp
  then have n: "as_size (int count * int sz) = length xs" unfolding of_nat_mult [symmetric] assms(3) [symmetric] by (subst as_size_int) simp_all
  have "\<forall>r \<in> set [(buf, xs)]. clear_of s r" using assms(2) by simp
  from sfvwrite_calls [OF assms(1) this, of xs "[(buf, length xs)]"] assms(4) obtain r k s' where
    r: "sfvwrite_r os [(buf, length xs)] (int_of_size (length xs)) (orient s) = Some (r, k, s')" "outcome os out fl (r = 0) X xs s s'"
      "if r = 0 then k = 0 else r = EOF \<and> 0 < k \<and> k \<le> int (length xs)" by (auto simp: sizes_def)
  show ?thesis
  proof (cases "r = 0")
    case True
    then show ?thesis using r(1,2) unfolding fwrite_r_def Let_def n by simp
  next
    case False
    then have k: "0 < k" "k \<le> int (length xs)" using r(3) by simp_all
    have "int (length xs) < 2 ^ 31" using assms(4) by simp
    then have "as_size (int (length xs) - k) = nat (int (length xs) - k)" using k by simp
    moreover have "nat (int (length xs) - k) < count * sz" using k assms(3) by linarith
    ultimately have "as_size (int (length xs) - k) div sz < count" by (simp add: less_mult_imp_div_less)
    then show ?thesis using r(1,2) False unfolding fwrite_r_def Let_def n by simp
  qed
qed

lemma flush_ok:
  assumes "carries os out fl s X"
  shows "\<exists>r s'. fflush_r os s = Some (r, s') \<and> outcome os out fl (r = 0) X [] s s' \<and> r \<in> {0, EOF} \<and> (r = 0 \<longleftrightarrow> out (io_sys s') = X)"
proof -
  obtain pend where w: "device os (f_file (io_fp s)) out fl" "writable os s pend" "X = out (io_sys s) @ pend" "paged (io_mem s)"
    using assms by (auto simp: carries_def)
  show ?thesis
  proof (cases "ready s pend")
    case True
    have op: "opens out fl s pend s" using True by (simp add: opens_def)
    from fflush_ok [OF w(1) ready_modes [OF True]] obtain r s' where r: "fflush_r os s = Some (r, s')" "ready s' []" "same_stream s s'"
      "r = 0 \<and> fbit s' 6 = fbit s 6 \<and> fl (io_sys s') = fl (io_sys s) \<and> out (io_sys s') = out (io_sys s) @ pend \<or>
       r = EOF \<and> fbit s' 6 \<and> fl (io_sys s') = Suc (fl (io_sys s)) \<and> (\<exists>k < length pend. out (io_sys s') = out (io_sys s) @ take k pend)" by (elim exE conjE)
    have pre: "out (io_sys s) @ take k pend = take (length (out (io_sys s)) + k) ((out (io_sys s) @ pend) @ [])" for k by simp
    have "extends out fl (r = 0) (out (io_sys s) @ pend) [] s s'"
      using r(4)
    proof (elim disjE conjE)
      assume "r = 0" "fbit s' 6 = fbit s 6" "fl (io_sys s') = fl (io_sys s)" "out (io_sys s') = out (io_sys s) @ pend"
      then show ?thesis using r(2,3) by (auto simp: extends_def content_def)
    next
      assume e: "r = EOF" "fbit s' 6" "fl (io_sys s') = Suc (fl (io_sys s))" "\<exists>k < length pend. out (io_sys s') = out (io_sys s) @ take k pend"
      then obtain k where k: "k < length pend" "out (io_sys s') = out (io_sys s) @ take k pend" by blast
      then have "\<exists>j < length ((out (io_sys s) @ pend) @ []). out (io_sys s') = take j ((out (io_sys s) @ pend) @ [])"
        unfolding k(2) pre by (intro exI [of _ "length (out (io_sys s)) + k"]) simp
      then show ?thesis using r(2,3) e(1-3) unfolding extends_def by (simp only: uint_not_EOF if_False simp_thms) blast
    qed
    from extends_outcome [OF w(1,4) op this] have "outcome os out fl (r = 0) X [] s s'" unfolding w(3) .
    moreover have "r = 0 \<longleftrightarrow> out (io_sys s') = X" "r \<in> {0, EOF}"
      using r(4) w(3) by (auto dest: arg_cong [where f = length])
    ultimately show ?thesis using r(1) w(3) by auto
  next
    case False
    then have f: "fresh s" "pend = []" using w(2) by (auto simp: writable_def)
    define s' where "s' = (if flag s SWR then s else on SNPT s)"
    have eq: "fflush_r os s = Some (0, s')"
      using f(1) by (auto simp: fflush_r_def fflush_read_def s'_def fresh_def Let_def io_simps)
    have fr: "fresh s'" "f_file (io_fp s') = f_file (io_fp s)" "io_mem s' = io_mem s" "io_sys s' = io_sys s" "fbit s' 0 = fbit s 0" "fbit s' 6 = fbit s 6"
      using f(1) by (auto simp: s'_def fresh_def Let_def io_simps mask_bits)
    have "frame s s'" by (simp add: s'_def frame_def clear_of_def io_simps)
    then have "outcome os out fl True X [] s s'" using w f(1) fr False by (auto simp: outcome_def carries_def writable_def f(2))
    then show ?thesis using eq f(2) w(3) fr(4) by simp
  qed
qed


section \<open>Sequences of calls\<close>

text \<open>The specification of a client: a list of requests, which stops at the first that fails.\<close>

datatype request = Putc int | Fputs addr "byte list" | Puts addr addr "byte list" | Fwrite addr "byte list" | Fflush

fun perform :: "'w os \<Rightarrow> request \<Rightarrow> 'w io \<Rightarrow> (bool \<times> 'w io) option" where
  "perform os (Putc c) s = do { (r, s) \<leftarrow> putc_r os c s; Some (r \<noteq> EOF, s) }"
| "perform os (Fputs p xs) s = do { (r, s) \<leftarrow> fputs_r os p s; Some (r \<noteq> EOF, s) }"
| "perform os (Puts newline p xs) s = do { (r, s) \<leftarrow> puts_r os newline p s; Some (r \<noteq> EOF, s) }"
| "perform os (Fwrite p xs) s = do { (n, s) \<leftarrow> fwrite_r os p 1 (length xs) s; Some (n = length xs, s) }"
| "perform os Fflush s = do { (r, s) \<leftarrow> fflush_r os s; Some (r \<noteq> EOF, s) }"

fun performs :: "'w os \<Rightarrow> request list \<Rightarrow> 'w io \<Rightarrow> (bool \<times> 'w io) option" where
  "performs os [] s = Some (True, s)"
| "performs os (q # qs) s = do { (good, s) \<leftarrow> perform os q s; if good then performs os qs s else Some (False, s) }"

fun payload :: "request \<Rightarrow> byte list" where
  "payload (Putc c) = [word_of_int c]"
| "payload (Fputs p xs) = xs"
| "payload (Puts newline p xs) = xs @ [10]"
| "payload (Fwrite p xs) = xs"
| "payload Fflush = []"

text \<open>The bytes of a request are in memory, outside the stream.\<close>

fun sound :: "'w io \<Rightarrow> request \<Rightarrow> bool" where
  "sound s (Putc c) \<longleftrightarrow> True"
| "sound s (Fputs p xs) \<longleftrightarrow> 0 \<notin> set xs \<and> clear_of s (p, xs @ [0]) \<and> length xs < 2 ^ 31 - 1"
| "sound s (Puts newline p xs) \<longleftrightarrow> 0 \<notin> set xs \<and> clear_of s (p, xs @ [0]) \<and> clear_of s (newline, [10]) \<and> length xs < 2 ^ 31 - 1"
| "sound s (Fwrite p xs) \<longleftrightarrow> clear_of s (p, xs) \<and> length xs < 2 ^ 31"
| "sound s Fflush \<longleftrightarrow> True"

lemma sound_frame: "frame s s' \<Longrightarrow> sound s q \<Longrightarrow> sound s' q"
  by (cases q) (simp_all add: frame_def)

lemma clear_of_string:
  assumes "0 \<notin> set xs" "clear_of s (p, xs @ [0])"
  shows "cstr (io_mem s) p xs" "clear_of s (p, xs)"
  using assms by (auto simp: clear_of_def cstr_def region_def)

lemma perform_ok:
  assumes "carries os out fl s X" "sound s q"
  shows "\<exists>good s'. perform os q s = Some (good, s') \<and> outcome os out fl good X (payload q) s s'"
proof (cases q)
  case (Putc c)
  then show ?thesis using putc_ok [OF assms(1), of c] by auto
next
  case (Fputs p xs)
  then have "0 \<notin> set xs" "clear_of s (p, xs @ [0])" "length xs < 2 ^ 31" using assms(2) by simp_all
  from fputs_ok [OF assms(1) clear_of_string [OF this(1,2)] this(3)] show ?thesis
    unfolding Fputs by (elim exE conjE insertE emptyE) (auto simp: EOF_def)
next
  case (Puts newline p xs)
  then have "0 \<notin> set xs" "clear_of s (p, xs @ [0])" "clear_of s (newline, [10])" "length xs < 2 ^ 31 - 1" using assms(2) by simp_all
  from puts_ok [OF assms(1) clear_of_string [OF this(1,2)] this(3,4)] show ?thesis
    unfolding Puts by (elim exE conjE) simp
next
  case (Fwrite p xs)
  then have "clear_of s (p, xs)" "length xs = length xs * 1" "length xs < 2 ^ 31" using assms(2) by simp_all
  from fwrite_ok [OF assms(1) this] show ?thesis unfolding Fwrite by (elim exE conjE) simp
next
  case Fflush
  from flush_ok [OF assms(1)] show ?thesis unfolding Fflush by (elim exE conjE insertE emptyE) (auto simp: EOF_def)
qed

lemma performs_ok:
  assumes "carries os out fl s X" "\<forall>q \<in> set qs. sound s q"
  shows "\<exists>good s'. performs os qs s = Some (good, s') \<and> outcome os out fl good X (concat (map payload qs)) s s'"
  using assms
proof (induction qs arbitrary: s X)
  case Nil
  then show ?case by (intro exI [of _ True] exI [of _ s]) (simp add: outcome_def frame_def)
next
  case (Cons q qs)
  have "sound s q" using Cons.prems(2) by simp
  from perform_ok [OF Cons.prems(1) this] obtain good t where p: "perform os q s = Some (good, t)" "outcome os out fl good X (payload q) s t"
    by (elim exE conjE)
  show ?case
  proof (cases good)
    case True
    then have t: "frame s t" "carries os out fl t (X @ payload q)" "fbit t 6 = fbit s 6"
      "fl (io_sys t) = fl (io_sys s)" using p(2) by (simp_all add: outcome_def)
    have "\<forall>q \<in> set qs. sound t q" using Cons.prems(2) sound_frame [OF t(1)] by simp
    from Cons.IH [OF t(2) this] obtain g s' where "performs os qs t = Some (g, s')"
      "outcome os out fl g (X @ payload q) (concat (map payload qs)) t s'" by (elim exE conjE)
    then show ?thesis using p(1) True outcome_trans [OF t(1,3,4)] by simp
  next
    case False
    then have b: "frame s t" "fbit t 6" "fl (io_sys t) = Suc (fl (io_sys s))" "\<exists>Y. carries os out fl t Y"
      "\<exists>k < length (X @ payload q). out (io_sys t) = take k (X @ payload q)" using p(2) unfolding outcome_def by simp_all
    then obtain k where k: "k < length (X @ payload q)" "out (io_sys t) = take k (X @ payload q)" by blast
    then have "out (io_sys t) = take k (X @ concat (map payload (q # qs)))" "k < length (X @ concat (map payload (q # qs)))" by simp_all
    then have "\<exists>k < length (X @ concat (map payload (q # qs))). out (io_sys t) = take k (X @ concat (map payload (q # qs)))" by blast
    then have "outcome os out fl False X (concat (map payload (q # qs))) s t" using b(1-4) unfolding outcome_def by (simp only: if_False simp_thms)
    then show ?thesis using p(1) False by auto
  qed
qed


section \<open>Choosing a buffer\<close>

text \<open>
  \<^verbatim>\<open>setvbuf\<close> on a stream opened for writing, before its first use, gives it the buffer of the caller or a new block, and the kind of
  buffering asked for.  Without memory the stream becomes unbuffered, and the result is \<^verbatim>\<open>EOF\<close>.
\<close>

definition buffers :: "'w io \<Rightarrow> bool \<Rightarrow> bool \<Rightarrow> bool" where
  "buffers s line none \<longleftrightarrow> flag s SLBF = line \<and> flag s SNBF = none"

lemma unbuffer_ready:
  assumes "fbit s 3" "\<not> fbit s 9" "\<not> fbit s 0" "lbfsize (io_fp s) = 0" "f_nbuf (io_fp s) \<noteq> NULL" "io_mem s (f_nbuf (io_fp s)) \<noteq> None"
  shows "ready (unbuffer s) [] \<and> buffers (unbuffer s) False True \<and> io_mem (unbuffer s) = io_mem s \<and> io_sys (unbuffer s) = io_sys s"
  using assms by (simp add: unbuffer_def no_buffer_def ready_def buffer_ok_def mode_ok_def buffers_def Let_def io_simps mask_bits)

lemma use_buffer_ready:
  assumes "fbit s 3" "\<not> fbit s 9" "\<not> fbit s 0" "\<not> fbit s 1" "lbfsize (io_fp s) = 0" "mapped (io_mem s) p n" "0 < n" "n < 2 ^ 31" "p \<noteq> NULL"
  shows "ready (use_buffer mode p n s) [] \<and> buffers (use_buffer mode p n s) (mode = 1) False \<and>
    io_mem (use_buffer mode p n s) = io_mem s \<and> io_sys (use_buffer mode p n s) = io_sys s"
proof -
  have "int n < 2 ^ 31" using assms(8) by simp
  then show ?thesis using assms(1-7,9)
    by (simp add: use_buffer_def ready_def buffer_ok_def mode_ok_def buffers_def Let_def io_simps mask_bits)
qed

lemma setvbuf_ok:
  assumes "fresh s" "fbit s 3" "malloc_ok (os_malloc os)" "mode \<in> {0, 1, 2}" "sz < 2 ^ 31"
    "buf \<noteq> NULL \<Longrightarrow> 0 < sz \<and> mapped (io_mem s) buf sz"
  shows "\<exists>r s'. setvbuf os buf mode sz s = Some (r, s') \<and> ready s' [] \<and> io_sys s' = io_sys s \<and> io_mem s \<subseteq>\<^sub>m io_mem s' \<and>
    (r = 0 \<and> buffers s' (mode = 1) (mode = 2) \<or> r = EOF \<and> mode \<noteq> 2 \<and> buf = NULL \<and> buffers s' False True)"
proof -
  have f: "bf_base (io_fp s) = NULL" "\<not> fbit s 7" "\<not> fbit s 9" "f_nbuf (io_fp s) \<noteq> NULL" "io_mem s (f_nbuf (io_fp s)) \<noteq> None" "paged (io_mem s)"
    using assms(1) by (simp_all add: fresh_def Let_def)
  define t where "t = off (SLBF OR SNBF OR SMBF) (upd (\<lambda>f. f\<lparr>f_r := 0, lbfsize := 0\<rparr>) s)"
  have t: "io_mem t = io_mem s" "io_sys t = io_sys s" "f_nbuf (io_fp t) = f_nbuf (io_fp s)" "lbfsize (io_fp t) = 0"
    "fbit t 3" "\<not> fbit t 9" "\<not> fbit t 0" "\<not> fbit t 1" using assms(2) f(3) by (simp_all add: t_def io_simps mask_bits bit_or_iff)
  have fl: "fflush_r os s = Some (0, s)" using f(1) assms(2) by (simp add: fflush_r_def flag_bits)
  have size: "\<not> int_of_size sz < 0" using int_of_size_small [OF assms(5)] by simp
  have eq: "setvbuf os buf mode sz s = (if mode = 2 then Some (0, unbuffer t)
      else if buf \<noteq> NULL then Some (0, use_buffer mode buf sz t)
      else let sz = (if sz = 0 then BUFSIZ else sz); (p1, m1) = os_malloc os (io_mem s) sz; (p2, m2) = os_malloc os m1 BUFSIZ in
           Some (if p1 \<noteq> NULL then (0, use_buffer mode p1 sz (on SMBF (t\<lparr>io_mem := m1\<rparr>)))
                 else if p2 \<noteq> NULL then (0, use_buffer mode p2 BUFSIZ (on SMBF (t\<lparr>io_mem := m2\<rparr>)))
                 else (EOF, unbuffer (t\<lparr>io_mem := m2\<rparr>))))"
    using assms(4) size f(2) by (simp add: setvbuf_def fl flag_bits fbit_upd t_def [symmetric] t(1))
  consider "mode = 2" | "mode \<noteq> 2" "buf \<noteq> NULL" | "mode \<noteq> 2" "buf = NULL" by blast
  then show ?thesis
  proof cases
    case 1
    then show ?thesis using eq unbuffer_ready [of t] t f by simp
  next
    case 2
    then show ?thesis using eq use_buffer_ready [of t buf sz mode] t f assms(5,6) by simp
  next
    case 3
    define n where "n = (if sz = 0 then BUFSIZ else sz)"
    have n: "0 < n" "n < 2 ^ 31" using assms(5) by (simp_all add: n_def BUFSIZ_def)
    obtain p1 m1 p2 m2 where p: "os_malloc os (io_mem s) n = (p1, m1)" "os_malloc os m1 BUFSIZ = (p2, m2)" by fastforce
    have new: "ready u [] \<and> buffers u (mode = 1) False \<and> io_mem u = m \<and> io_sys u = io_sys s"
      if "u = use_buffer mode q k (on SMBF (t\<lparr>io_mem := m\<rparr>))" "mapped m q k" "0 < k" "k < 2 ^ 31" "q \<noteq> NULL" for u q k m
      using use_buffer_ready [of "on SMBF (t\<lparr>io_mem := m\<rparr>)" q k mode] t that by (simp add: io_simps mask_bits)
    have B: "0 < BUFSIZ" "BUFSIZ < 2 ^ 31" by (simp_all add: BUFSIZ_def)
    show ?thesis
    proof (cases rule: malloc_cases [OF assms(3) f(6), of n])
      case 1
      note failed = this
      then have m1: "p1 = NULL" "m1 = io_mem s" using p(1) by simp_all
      show ?thesis
      proof (cases rule: malloc_cases [OF assms(3) f(6), of BUFSIZ])
        case 1
        then have "p2 = NULL" "m2 = io_mem s" using p(2) m1 by simp_all
        then show ?thesis using eq 3 p m1 unbuffer_ready [of "t\<lparr>io_mem := m2\<rparr>"] t f by (simp add: n_def [symmetric])
      next
        case (2 q m)
        then have "p2 = q" "m2 = m" using p(2) m1 by simp_all
        then show ?thesis using eq 3 p m1 2 new [OF refl 2(4) B 2(2)] by (simp add: n_def [symmetric])
      qed
    next
      case (2 q m)
      then have "p1 = q" "m1 = m" using p(1) by simp_all
      then show ?thesis using eq 3 p 2 new [OF refl 2(4) n 2(2)] by (simp add: n_def [symmetric])
    qed
  qed
qed

section \<open>No memory for a line buffered stream\<close>

text \<open>
  When there is no memory for the buffer of a line buffered stream, \<^verbatim>\<open>__smakebuf_r\<close> makes it unbuffered, too: both flags are set.
\<close>

definition both :: "'w io \<Rightarrow> byte list \<Rightarrow> bool" where
  "both s pend \<longleftrightarrow> buffer_ok s pend \<and> fbit s 0 \<and> fbit s 1 \<and> bf_size (io_fp s) = 1 \<and> lbfsize (io_fp s) = -1 \<and>
     f_w (io_fp s) = - int (length pend)"

text \<open>A device that takes all it is given\<close>

definition takes_all :: "'w os \<Rightarrow> int \<Rightarrow> bool" where
  "takes_all os fd \<longleftrightarrow> (\<forall>xs w. fst (sys_write os fd xs w) = int (length xs))"

lemma swrite_all:
  assumes "device os (f_file (io_fp s)) out fl" "takes_all os (f_file (io_fp s))" "bytes (io_mem s) p xs"
  shows "\<exists>s'. swrite os p (int (length xs)) s = Some (int (length xs), s') \<and> kept {12} s s' \<and> out (io_sys s') = out (io_sys s) @ xs"
proof -
  obtain t s' where t: "swrite os p (int (length xs)) s = Some (t, s')" "kept {12} s s'" "out (io_sys s') = out (io_sys s) @ take (nat t) xs"
    using swrite_ok [OF assms(1,3)] by blast
  define s1 where "s1 = off SOFF (if flag s SAPP then snd (lseek_r os 0 2 s) else s)"
  have "f_file (io_fp s1) = f_file (io_fp s)" by (simp add: s1_def lseek_r_def after_call_def io_simps split: prod.splits)
  moreover have "fetch (io_mem s) p (length xs) = Some xs" by (rule fetch_bytes [OF assms(3)])
  moreover have "io_mem s1 = io_mem s" by (simp add: s1_def lseek_r_def after_call_def io_simps split: prod.splits)
  ultimately have "t = fst (sys_write os (f_file (io_fp s)) xs (io_sys s1))"
    using t(1) by (auto simp: swrite_def Let_def s1_def [symmetric] write_r_def split: prod.splits)
  then have "t = int (length xs)" using assms(2) by (simp add: takes_all_def)
  then show ?thesis using t by simp
qed

lemma both_kept: "kept {12} s s' \<Longrightarrow> both s' pend = both s pend"
  using kept_fbit [of "{12}" s s'] by (simp add: both_def buffer_ok_def Let_def keptD)

lemma both_flush:
  assumes "device os (f_file (io_fp s)) out fl" "takes_all os (f_file (io_fp s))" "buffer_ok s pend" "fbit s 0" "fbit s 1"
    "bf_size (io_fp s) = 1" "lbfsize (io_fp s) = -1"
  shows "\<exists>s'. fflush_r os s = Some (0, s') \<and> both s' [] \<and> kept {12} (upd (\<lambda>f. f\<lparr>f_p := bf_base f, f_w := 0\<rparr>) s) s' \<and>
    out (io_sys s') = out (io_sys s) @ pend"
proof -
  note b = buffer_okD [OF assms(3)]
  define t where "t = upd (\<lambda>f. f\<lparr>f_p := bf_base f, f_w := 0\<rparr>) s"
  have t: "f_file (io_fp t) = f_file (io_fp s)" "io_mem t = io_mem s" "io_sys t = io_sys s" "both t []"
    using assms(4-7) b by (simp_all add: t_def both_def buffer_ok_def Let_def io_simps)
  have eq: "fflush_r os s = flush_loop os (bf_base (io_fp s)) (int (length pend)) t"
    using b(1,3,6) assms(4) by (simp add: fflush_r_def Let_def flag_bits flag_or t_def upd_def)
  show ?thesis
  proof (cases "pend = []")
    case True
    then show ?thesis using eq t by (simp add: flush_loop.simps t_def [symmetric] kept_def)
  next
    case False
    obtain s' where s': "swrite os (bf_base (io_fp s)) (int (length pend)) t = Some (int (length pend), s')" "kept {12} t s'"
      "out (io_sys s') = out (io_sys s) @ pend" using swrite_all [of os t out fl "bf_base (io_fp s)" pend] assms(1,2) b(8) t by auto
    moreover have "flush_loop os (bf_base (io_fp s) + nat (int (length pend))) (int (length pend) - int (length pend)) s' = Some (0, s')"
      by (simp add: flush_loop.simps)
    ultimately have "fflush_r os s = Some (0, s')" using eq False by (simp add: flush_loop.simps [of os "bf_base (io_fp s)"])
    then show ?thesis using s' t both_kept [OF s'(2)] by (simp add: t_def [symmetric])
  qed
qed

text \<open>The first character is written at once, the second one waits in the buffer, and a block of bytes goes past it.\<close>

lemma both_open:
  assumes "fresh s" "fbit s 0" "device os (f_file (io_fp s)) out fl" "malloc_ok (os_malloc os)" "fst (os_malloc os (io_mem s) BUFSIZ) = NULL"
  shows "\<exists>t. cantwrite os s = (False, t) \<and> both t [] \<and> got_buffer s t \<and> out (io_sys t) = out (io_sys s)"
proof -
  have f: "bf_base (io_fp s) = NULL" "lbfsize (io_fp s) = 0" "fbit s 3 \<or> fbit s 4 \<and> \<not> fbit s 2" "\<not> fbit s 7" "\<not> fbit s 9"
    "f_nbuf (io_fp s) \<noteq> NULL" "io_mem s (f_nbuf (io_fp s)) \<noteq> None" "paged (io_mem s)"
    using assms(1) unfolding fresh_def Let_def by blast+
  define s1 where "s1 = write_mode os s"
  have s1: "io_mem s1 = io_mem s" "io_sys s1 = io_sys s" "io_others s1 = io_others s" "shape (io_fp s1) = shape (io_fp s)"
    "\<And>n. fbit s1 n \<longleftrightarrow> fbit s n \<or> n = 3" using f(3) by (auto simp: s1_def write_mode_def io_simps mask_bits)
  note sh = shape_fields [OF s1(4)]
  define s2 where "s2 = smakebuf_r os s1"
  have "quiet os (f_file (io_fp s1)) out" using assms(3) sh by (simp add: device_def quiet_def)
  from smakebuf_ok [OF this assms(4), folded s2_def] f s1 sh assms(5)
  have made: "made_buffer os s1 s2" and o: "out (io_sys s2) = out (io_sys s)" and nb: "fbit s2 1" by simp_all
  define s3 where "s3 = write_count s2"
  have m: "bf_base (io_fp s2) \<noteq> NULL" "bf_size (io_fp s2) = 1" "fbit s2 0" "fbit s2 3" "\<not> fbit s2 9" "f_p (io_fp s2) = bf_base (io_fp s2)"
    "mapped (io_mem s2) (bf_base (io_fp s2)) (nat (bf_size (io_fp s2)))"
    using made nb s1(5) f(5) assms(2) by (auto simp: made_buffer_def simp del: mapped.simps)
  have "\<not> (\<not> flag s SWR \<and> \<not> flag s SRW)" using f(3) by (auto simp: flag_bits)
  moreover have "bf_base (io_fp s1) = NULL" "flag s1 SSTR = False" "bf_base (io_fp s3) \<noteq> NULL"
    using f(1,5) sh m(1) s1(5) by (simp_all add: s3_def write_count_def io_simps)
  ultimately have "swsetup_r os s = (0, s3)"
    by (auto simp: swsetup_r_def Let_def s1_def [symmetric] s2_def [symmetric] s3_def [symmetric])
  then have "cantwrite os s = (False, s3)" using f(1) by (simp add: cantwrite_def)
  moreover have "both s3 []" using m nb by (simp add: s3_def write_count_def both_def buffer_ok_def Let_def io_simps)
  moreover have "got_buffer s s3" using made s1 sh by (simp add: made_buffer_def got_buffer_def s3_def write_count_def io_simps)
  moreover have "out (io_sys s3) = out (io_sys s)" using o by (simp add: s3_def write_count_def io_simps)
  ultimately show ?thesis by blast
qed

lemma both_orient: "both (orient s) pend = both s pend"
  by (simp add: both_def buffer_ok_def Let_def io_simps)

lemma both_first:
  assumes "fresh s" "fbit s 0" "device os (f_file (io_fp s)) out fl" "takes_all os (f_file (io_fp s))" "malloc_ok (os_malloc os)"
    "fst (os_malloc os (io_mem s) BUFSIZ) = NULL"
  shows "\<exists>s'. putc_r os c s = Some (uint (word_of_int c :: byte), s') \<and> both s' [] \<and> f_file (io_fp s') = f_file (io_fp s) \<and>
    out (io_sys s') = out (io_sys s) @ [word_of_int c] \<and> (\<forall>r. clear_of s r \<longrightarrow> clear_of s' r)"
proof -
  let ?c = "word_of_int c :: byte"
  define s1 where "s1 = upd (\<lambda>f. f\<lparr>f_w := lbfsize f\<rparr>) (upd (\<lambda>f. f\<lparr>f_w := f_w f - 1\<rparr>) s)"
  have w: "f_w (io_fp s) \<le> 0" "lbfsize (io_fp s) = 0" "bf_base (io_fp s) = NULL" using assms(1) by (simp_all add: fresh_def Let_def)
  have fr: "fresh s1" unfolding s1_def using assms(1) w by (intro fresh_upd_w) (simp_all add: io_simps)
  have same: "f_file (io_fp s1) = f_file (io_fp s)" "io_mem s1 = io_mem s" "io_sys s1 = io_sys s" "fbit s1 0" "f_nbuf (io_fp s1) = f_nbuf (io_fp s)"
    "io_others s1 = io_others s" "fbit s1 6 = fbit s 6" using assms(2) by (simp_all add: s1_def io_simps)
  have dev: "device os (f_file (io_fp s1)) out fl" "fst (os_malloc os (io_mem s1) BUFSIZ) = NULL" using assms(3,6) same by simp_all
  from both_open [OF fr same(4) dev(1) assms(5) dev(2)] obtain t where t: "cantwrite os s1 = (False, t)" "both t []" "got_buffer s1 t"
    "out (io_sys t) = out (io_sys s1)" by (elim exE conjE)
  define t1 where "t1 = orient t"
  have t1: "both t1 []" "f_file (io_fp t1) = f_file (io_fp s)" "io_mem t1 = io_mem t" "out (io_sys t1) = out (io_sys s)"
    "bf_base (io_fp t1) = bf_base (io_fp t)" using t same by (simp_all add: t1_def both_orient got_buffer_def io_simps)
  define t2 where "t2 = upd (\<lambda>f. f\<lparr>f_w := f_w f - 1\<rparr>) t1"
  have b2: "buffer_ok t2 []" using t1(1) by (auto simp: t2_def both_def buffer_ok_def Let_def io_simps)
  have "int (length []) < bf_size (io_fp t2)" using t1(1) by (simp add: t2_def both_def io_simps)
  from buffer_push [OF b2 this, of ?c] obtain t3 where t3: "push_char ?c t2 = Some t3" "buffer_ok t3 [?c]" "same_stream t2 t3"
    "t3 = upd (\<lambda>f. f\<lparr>f_p := f_p f + 1\<rparr>) (t2\<lparr>io_mem := wr (io_mem t2) (f_p (io_fp t2)) [?c]\<rparr>)" by auto
  have f3: "fbit t3 0" "fbit t3 1" "bf_size (io_fp t3) = 1" "lbfsize (io_fp t3) = -1" "f_file (io_fp t3) = f_file (io_fp s)" "io_sys t3 = io_sys t1"
    using t1(1,2) by (simp_all add: t3(4) t2_def both_def io_simps fbit_def)
  have d3: "device os (f_file (io_fp t3)) out fl" "takes_all os (f_file (io_fp t3))" using assms(3,4) f3(5) by simp_all
  from both_flush [OF d3 t3(2) f3(1-4)] obtain s' where s': "fflush_r os t3 = Some (0, s')" "both s' []"
    "kept {12} (upd (\<lambda>f. f\<lparr>f_p := bf_base f, f_w := 0\<rparr>) t3) s'" "out (io_sys s') = out (io_sys t3) @ [?c]" by (elim exE conjE)
  have n: "int (f_p (io_fp t1)) - int (bf_base (io_fp t1)) = 0" "bf_size (io_fp t1) = 1" "fbit t1 0"
    using t1(1) by (simp_all add: both_def buffer_ok_def Let_def)
  have "stuff_char os ?c 0 t1 = Some (uint ?c, s')"
    using t3(1) s'(1) f3(3) by (simp add: stuff_char_def t2_def)
  then have "swbuf_r os c (upd (\<lambda>f. f\<lparr>f_w := f_w f - 1\<rparr>) s) = Some (uint ?c, s')"
    using t(1) n by (simp add: swbuf_r_def s1_def [symmetric] t1_def [symmetric] Let_def)
  then have "putc_r os c s = Some (uint ?c, s')" using w by (simp add: putc_r_def sputc_r_def Let_def io_simps)
  moreover have "clear_of s' r" if "clear_of s r" for r
  proof -
    have "clear_of s1 r" using that by (simp add: clear_of_def s1_def io_simps)
    then have "clear_of t r" by (rule clear_of_got [OF t(3)])
    moreover have "same_stream t t2" using same_stream_orient [of t] by (simp add: t2_def t1_def same_stream_def io_simps)
    moreover have "same_stream (upd (\<lambda>f. f\<lparr>f_p := bf_base f, f_w := 0\<rparr>) t3) s'"
      using kept_fbit [OF s'(3), of 6] by (intro kept_same_stream [OF s'(3)]) simp_all
    then have "same_stream t3 s'" by (simp add: same_stream_def io_simps)
    moreover have "bf_base (io_fp t) \<noteq> NULL" using t(2) by (simp add: both_def buffer_ok_def Let_def)
    ultimately show ?thesis using t3(3) same_stream_trans clear_of_same by metis
  qed
  ultimately show ?thesis using s'(2,4) f3 t1(4) keptD(5) [OF s'(3)] by (auto simp: io_simps)
qed

lemma both_second:
  assumes "both s []" "word_of_int c \<noteq> (10 :: byte)"
  shows "\<exists>s'. putc_r os c s = Some (uint (word_of_int c :: byte), s') \<and> both s' [word_of_int c] \<and> same_stream s s' \<and> io_sys s' = io_sys s"
proof -
  let ?c = "word_of_int c :: byte"
  have b: "buffer_ok s []" "f_w (io_fp s) = 0" "lbfsize (io_fp s) = -1" "fbit s 0" "fbit s 1" "bf_size (io_fp s) = 1"
    using assms(1) by (simp_all add: both_def)
  define t where "t = upd (\<lambda>f. f\<lparr>f_w := f_w f - 1\<rparr>) s"
  have t: "buffer_ok t []" "f_w (io_fp t) = -1" "lbfsize (io_fp t) = -1" "fbit t 0" "fbit t 1" "bf_size (io_fp t) = 1" "io_sys t = io_sys s"
    using b by (simp_all add: t_def buffer_ok_def Let_def io_simps)
  have "int (length []) < bf_size (io_fp t)" using t(6) by simp
  from buffer_push [OF t(1) this, of ?c] obtain s' where s': "push_char ?c t = Some s'" "buffer_ok s' [?c]" "same_stream t s'"
    "s' = upd (\<lambda>f. f\<lparr>f_p := f_p f + 1\<rparr>) (t\<lparr>io_mem := wr (io_mem t) (f_p (io_fp t)) [?c]\<rparr>)" by auto
  obtain m where m: "store8 (io_mem t) (f_p (io_fp t)) ?c = Some m" "s' = upd (\<lambda>f. f\<lparr>f_p := f_p f + 1\<rparr>) (t\<lparr>io_mem := m\<rparr>)"
    using s'(1) by (auto simp: push_char_def split: bind_splits)
  have "putc_r os c s = Some (uint ?c, s')"
    using m t(2,3) assms(2) by (simp add: putc_r_def sputc_r_def Let_def t_def [symmetric])
  moreover have "both s' [?c]" using s'(2) t by (simp add: both_def s'(4) fbit_def io_simps)
  moreover have "same_stream s s'" using s'(3) by (simp add: t_def same_stream_def io_simps)
  ultimately show ?thesis using s'(4) t(7) by (auto simp: io_simps)
qed

lemma both_block:
  assumes "both s pend" "device os (f_file (io_fp s)) out fl" "takes_all os (f_file (io_fp s))" "bytes (io_mem s) buf xs"
    "length xs = count * sz" "0 < length xs" "length xs \<le> BUFSIZ"
  shows "\<exists>s'. fwrite_r os buf sz count s = Some (count, s') \<and> both s' pend \<and> f_file (io_fp s') = f_file (io_fp s) \<and>
    out (io_sys s') = out (io_sys s) @ xs"
proof -
  define t where "t = orient s"
  have t: "both t pend" "f_file (io_fp t) = f_file (io_fp s)" "io_mem t = io_mem s" "io_sys t = io_sys s"
    using assms(1) by (simp_all add: t_def both_orient io_simps)
  have "\<exists>s'. swrite os buf (int (length xs)) t = Some (int (length xs), s') \<and> kept {12} t s' \<and> out (io_sys s') = out (io_sys t) @ xs"
    using assms(2-4) t by (intro swrite_all) simp_all
  then obtain s' where s': "swrite os buf (int (length xs)) t = Some (int (length xs), s')" "kept {12} t s'"
    "out (io_sys s') = out (io_sys t) @ xs" by blast
  have "nbf_write os buf (length xs) t = Some (Wrote (int (length xs)) s')"
    using s'(1) assms(6,7) by (simp add: nbf_write_def direct_def min_absorb1)
  moreover have "getiov NULL 0 [(buf, length xs)] = Some (buf, length xs, [])" using assms(6) by (cases "length xs") simp_all
  ultimately have "loop (buf_body (nbf_write os)) (NULL, 0, [(buf, length xs)], int (length xs), t) = Some (0, 0, s')"
    by (subst loop.simps) (simp add: buf_body_def next_round_def)
  moreover have "cantwrite os t = (False, t)" "flag t SNBF"
    using t(1) by (simp_all add: cantwrite_def both_def buffer_ok_def Let_def flag_bits)
  ultimately have w: "sfvwrite_r os [(buf, length xs)] (int (length xs)) t = Some (0, 0, s')"
    using assms(6) by (simp add: sfvwrite_r_def)
  have small: "length xs < 2 ^ 31" using assms(7) by (simp add: BUFSIZ_def)
  then have "int (length xs) < 2 ^ 32" by simp
  then have "as_size (int count * int sz) = length xs" unfolding of_nat_mult [symmetric] assms(5) [symmetric] by (subst as_size_int) simp_all
  then have "fwrite_r os buf sz count s = Some (count, s')"
    using w int_of_size_small [OF small] by (simp add: fwrite_r_def t_def)
  then show ?thesis using s'(2,3) t both_kept [OF s'(2)] keptD(5) [OF s'(2)] by auto
qed

section \<open>Properties\<close>

lemma outcome_iff: "outcome os out fl good X ys s s' \<Longrightarrow> good \<longleftrightarrow> fl (io_sys s') = fl (io_sys s)"
  by (cases good) (simp_all add: outcome_def)

text \<open>
  C38.  A character written with \<^verbatim>\<open>putc\<close> to a stream that can be written, whatever its buffering, is added to the content, and
  \<^verbatim>\<open>putc\<close> returns it.  It returns \<^verbatim>\<open>EOF\<close> exactly when a write to the device failed; then the error flag is set and the device
  has a strict prefix of the content.
\<close>

theorem putc_correct:
  assumes "carries os out fl s X"
  shows "\<exists>r s'. putc_r os c s = Some (r, s') \<and> outcome os out fl (r \<noteq> EOF) X [word_of_int c] s s' \<and>
    (r \<noteq> EOF \<longleftrightarrow> fl (io_sys s') = fl (io_sys s)) \<and> (r \<noteq> EOF \<longrightarrow> r = uint (word_of_int c :: byte))"
  using putc_ok [OF assms, of c] outcome_iff by blast

text \<open>
  C37.  \<^verbatim>\<open>fwrite\<close> returns the number of items it was given exactly when no write to the device failed, and then all their bytes were
  added to the content of the stream, through its buffer or past it.  Otherwise exactly one write failed, the last, \<^verbatim>\<open>fwrite\<close> returns less, the
  error flag is set, and the device has a strict prefix of the content.
\<close>

theorem fwrite_correct:
  assumes "carries os out fl s X" "clear_of s (buf, xs)" "length xs = count * sz" "length xs < 2 ^ 31"
  shows "\<exists>n s'. fwrite_r os buf sz count s = Some (n, s') \<and> outcome os out fl (n = count) X xs s s' \<and>
    (n = count \<longleftrightarrow> fl (io_sys s') = fl (io_sys s)) \<and> n \<le> count"
  using fwrite_ok [OF assms] outcome_iff by blast

text \<open>
  C39.  \<^verbatim>\<open>fflush\<close> on a stream that can be written returns 0 exactly when the device has the whole content afterwards, and
  exactly when no write failed.  Otherwise it returns \<^verbatim>\<open>EOF\<close>, the error flag is set, and the device has a strict prefix of the content.
\<close>

theorem fflush_correct:
  assumes "carries os out fl s X"
  shows "\<exists>r s'. fflush_r os s = Some (r, s') \<and> outcome os out fl (r = 0) X [] s s' \<and> r \<in> {0, EOF} \<and>
    (r = 0 \<longleftrightarrow> out (io_sys s') = X) \<and> (r = 0 \<longleftrightarrow> fl (io_sys s') = fl (io_sys s))"
  using flush_ok [OF assms] outcome_iff by blast

text \<open>
  C11.  A sequence of calls of \<^verbatim>\<open>putc\<close>, \<^verbatim>\<open>fputs\<close>, \<^verbatim>\<open>puts\<close>, \<^verbatim>\<open>fwrite\<close> and \<^verbatim>\<open>fflush\<close> that succeed writes the bytes of all of them, in
  their order: the device has all but what is pending in the buffer, which is nothing for an unbuffered stream and no complete line for a
  line buffered one.  A call fails exactly when a write to the device failed; then the device has a strict prefix of these bytes and the error
  flag is set.
\<close>

theorem output_history:
  assumes "carries os out fl s X" "\<forall>q \<in> set qs. sound s q"
  shows "\<exists>good s'. performs os qs s = Some (good, s') \<and> frame s s' \<and> (good \<longleftrightarrow> fl (io_sys s') = fl (io_sys s)) \<and>
    (if good then fbit s' 6 = fbit s 6 \<and> (\<exists>pend. out (io_sys s') @ pend = X @ concat (map payload qs) \<and>
         (flag s' SNBF \<longrightarrow> pend = []) \<and> (flag s' SLBF \<longrightarrow> 10 \<notin> set pend))
     else flag s' SERR \<and> (\<exists>k < length (X @ concat (map payload qs)). out (io_sys s') = take k (X @ concat (map payload qs))))"
proof -
  obtain good s' where p: "performs os qs s = Some (good, s')" "outcome os out fl good X (concat (map payload qs)) s s'"
    using performs_ok [OF assms] by blast
  have g: "good \<longleftrightarrow> fl (io_sys s') = fl (io_sys s)" by (rule outcome_iff [OF p(2)])
  show ?thesis
  proof (cases good)
    case True
    then obtain pend where pend: "writable os s' pend" "out (io_sys s') @ pend = X @ concat (map payload qs)"
      using p(2) by (auto simp: outcome_def carries_def)
    have "flag s' SNBF \<longrightarrow> pend = []" "flag s' SLBF \<longrightarrow> 10 \<notin> set pend"
      using pend(1) by (auto simp: writable_def ready_def mode_ok_def Let_def flag_bits split: if_splits)
    moreover have "frame s s'" "fbit s' 6 = fbit s 6" using p(2) True by (simp_all add: outcome_def)
    ultimately show ?thesis using p(1) True g pend(2) by (intro exI [of _ True] exI [of _ s']) auto
  next
    case False
    then have "frame s s'" "flag s' SERR" "\<exists>k < length (X @ concat (map payload qs)). out (io_sys s') = take k (X @ concat (map payload qs))"
      using p(2) unfolding outcome_def flag_bits by (simp_all only: if_False simp_thms)
    then show ?thesis using p(1) g False by (intro exI [of _ False] exI [of _ s'] conjI) (simp_all only: if_False simp_thms)
  qed
qed

text \<open>
  C40.  When there is no memory for the buffer of \<^verbatim>\<open>stdout\<close>, which \<^verbatim>\<open>__sinit\<close> makes line buffered, \<^verbatim>\<open>__smakebuf_r\<close> adds
  \<^verbatim>\<open>__SNBF\<close> and leaves \<^verbatim>\<open>__SLBF\<close>.  Then \<^verbatim>\<open>putc\<close> keeps a character in \<^verbatim>\<open>_nbuf\<close> and \<^verbatim>\<open>__sfvwrite_r\<close> writes past it:
  on a device that takes every write, after \<^verbatim>\<open>putc (a)\<close> and \<^verbatim>\<open>putc (b)\<close>, for any \<^verbatim>\<open>b\<close> but the newline, an \<^verbatim>\<open>fwrite\<close> of any
  block up to \<^verbatim>\<open>BUFSIZ\<close> bytes and \<^verbatim>\<open>fflush\<close>, all of which succeed, the block stands before \<^verbatim>\<open>b\<close> on the device.
\<close>

theorem stdout_out_of_order:
  assumes "fresh s" "fbit s 0" "device os (f_file (io_fp s)) out fl" "takes_all os (f_file (io_fp s))" "malloc_ok (os_malloc os)"
    "fst (os_malloc os (io_mem s) BUFSIZ) = NULL" "word_of_int b \<noteq> (10 :: byte)" "clear_of s (buf, xs)"
    "length xs = count * sz" "0 < length xs" "length xs \<le> BUFSIZ"
  shows "\<exists>s1 s2 s3 s4. putc_r os a s = Some (uint (word_of_int a :: byte), s1) \<and> putc_r os b s1 = Some (uint (word_of_int b :: byte), s2) \<and>
    fwrite_r os buf sz count s2 = Some (count, s3) \<and> fflush_r os s3 = Some (0, s4) \<and> flag s1 SLBF \<and> flag s1 SNBF \<and>
    out (io_sys s4) = out (io_sys s) @ [word_of_int a] @ xs @ [word_of_int b]"
proof -
  obtain s1 where s1: "putc_r os a s = Some (uint (word_of_int a :: byte), s1)" "both s1 []" "f_file (io_fp s1) = f_file (io_fp s)"
    "out (io_sys s1) = out (io_sys s) @ [word_of_int a]" "clear_of s1 (buf, xs)"
    using both_first [OF assms(1-6), of a] assms(8) by blast
  obtain s2 where s2: "putc_r os b s1 = Some (uint (word_of_int b :: byte), s2)" "both s2 [word_of_int b]" "same_stream s1 s2" "io_sys s2 = io_sys s1"
    using both_second [OF s1(2) assms(7)] by blast
  have "bf_base (io_fp s1) \<noteq> NULL" using s1(2) by (simp add: both_def buffer_ok_def Let_def)
  from clear_of_same [OF s2(3) this s1(5)] have x: "bytes (io_mem s2) buf xs" by (simp add: clear_of_def)
  have d: "device os (f_file (io_fp s2)) out fl" "takes_all os (f_file (io_fp s2))" using assms(3,4) s1(3) same_streamD(3) [OF s2(3)] by simp_all
  obtain s3 where s3: "fwrite_r os buf sz count s2 = Some (count, s3)" "both s3 [word_of_int b]" "f_file (io_fp s3) = f_file (io_fp s2)"
    "out (io_sys s3) = out (io_sys s2) @ xs" using both_block [OF s2(2) d x assms(9-11)] by blast
  have e: "buffer_ok s3 [word_of_int b]" "fbit s3 0" "fbit s3 1" "bf_size (io_fp s3) = 1" "lbfsize (io_fp s3) = -1"
    using s3(2) by (simp_all add: both_def)
  have d3: "device os (f_file (io_fp s3)) out fl" "takes_all os (f_file (io_fp s3))" using d s3(3) by simp_all
  obtain s4 where s4: "fflush_r os s3 = Some (0, s4)" "out (io_sys s4) = out (io_sys s3) @ [word_of_int b]"
    using both_flush [OF d3 e] by blast
  have "flag s1 SLBF" "flag s1 SNBF" using s1(2) by (simp_all add: both_def flag_bits)
  then show ?thesis using s1(1,4) s2(1,4) s3(1,4) s4 by simp
qed

section \<open>A console\<close>

text \<open>A stream as \<^verbatim>\<open>std\<close> sets it can be written, and gets its buffer with the first call.\<close>

lemma std_fresh:
  assumes "io_fp s = std (if line then SWR OR SLBF else SWR) fd f" "f_ur f = 0" "f_nbuf f \<noteq> NULL" "io_mem s (f_nbuf f) \<noteq> None" "paged (io_mem s)"
  shows "fresh s"
  using assms by (simp add: fresh_def Let_def std_def fbit_def mask_bits bit_or_iff)

text \<open>A console that takes every write, \<^verbatim>\<open>stdout\<close> before its first use, and a memory with a string at 4, \<^verbatim>\<open>_nbuf\<close> at 8 and a newline at 12\<close>

definition console :: "(mem \<Rightarrow> nat \<Rightarrow> addr \<times> mem) \<Rightarrow> byte list os" where
  "console malloc = \<lparr>sys_write = (\<lambda>fd xs w. (int (length xs), 0, w @ xs)), sys_read = (\<lambda>fd n w. (0, [], 0, w)),
     sys_lseek = (\<lambda>fd pos whence w. (-1, ESPIPE, w)), sys_fstat = (\<lambda>fd w. (0, 0x2000, 0, w)), sys_isatty = (\<lambda>fd w. (1, 0, w)),
     os_malloc = malloc, os_realloc = (\<lambda>m p n. (NULL, m)), os_free = (\<lambda>m p. m)\<rparr>"

definition unused :: FILE where
  "unused = \<lparr>f_p = 0, f_r = 0, f_w = 0, f_flags = 0, f_file = 0, bf_base = 0, bf_size = 0, lbfsize = 0, ub_base = 0, ub_size = 0,
     f_up = 0, f_ur = 0, f_ubuf = 9, f_nbuf = 8, f_blksize = 0, f_offset = 0, f_flags2 = 0\<rparr>"

definition stdout_with :: "16 word \<Rightarrow> byte list io" where
  "stdout_with flags = \<lparr>io_fp = std flags 1 unused, io_mem = mem_image 4 [99, 100, 0, 0, 0, 0, 0, 0, 10, 0, 0, 0], io_errno = 0, io_sys = [],
     io_others = []\<rparr>"

lemma console_device: "device (console malloc) fd (\<lambda>w. w) (\<lambda>w. 0)"
  by (simp add: device_def quiet_def console_def)

lemma stdout_carries:
  assumes "malloc_ok malloc"
  shows "carries (console malloc) (\<lambda>w. w) (\<lambda>w. 0) (stdout_with SWR) []"
  using assms console_device
  by (simp add: carries_def writable_def fresh_def Let_def stdout_with_def std_def unused_def fbit_def mask_bits paged_mem_image console_def)

lemma stdout_clear: "clear_of (stdout_with f) (4, [99, 100])" "clear_of (stdout_with f) (4, [99, 100, 0])" "clear_of (stdout_with f) (12, [10])"
  by (simp_all add: clear_of_def stdout_with_def std_def unused_def region_def)

text \<open>
  A system whose calls do not count the writes that failed becomes one that does, so the counter is no restriction; and a disk of
  limited size, without memory for a buffer.
\<close>

definition counted :: "'w os \<Rightarrow> ('w \<times> nat) os" where
  "counted os = \<lparr>sys_write = (\<lambda>fd xs (w, k). case sys_write os fd xs w of (r, e, w) \<Rightarrow> (r, e, w, if r \<le> 0 \<and> xs \<noteq> [] then Suc k else k)),
     sys_read = (\<lambda>fd n (w, k). case sys_read os fd n w of (r, xs, e, w) \<Rightarrow> (r, xs, e, w, k)),
     sys_lseek = (\<lambda>fd pos whence (w, k). case sys_lseek os fd pos whence w of (r, e, w) \<Rightarrow> (r, e, w, k)),
     sys_fstat = (\<lambda>fd (w, k). case sys_fstat os fd w of (r, mode, e, w) \<Rightarrow> (r, mode, e, w, k)),
     sys_isatty = (\<lambda>fd (w, k). case sys_isatty os fd w of (r, e, w) \<Rightarrow> (r, e, w, k)),
     os_malloc = os_malloc os, os_realloc = os_realloc os, os_free = os_free os\<rparr>"

lemma counted_device:
  assumes "quiet os fd out" "\<And>xs w r e w'. sys_write os fd xs w = (r, e, w') \<Longrightarrow> r \<le> int (length xs) \<and> out w' = out w @ take (nat r) xs"
  shows "device (counted os) fd (\<lambda>w. out (fst w)) snd"
proof -
  have "quiet (counted os) fd (\<lambda>w. (out (fst w), snd w))"
    using assms(1) unfolding quiet_def counted_def by (auto split: prod.splits)
  then show ?thesis using assms(2) unfolding device_def by (auto simp: counted_def split: prod.splits)
qed

definition disk :: "nat \<Rightarrow> byte list os" where
  "disk room = (console (\<lambda>m n. (NULL, m)))\<lparr>sys_write := \<lambda>fd xs w.
     if room \<le> length w then (-1, 28, w) else let ys = take (room - length w) xs in (int (length ys), 0, w @ ys)\<rparr>"

definition stdout_counted :: "16 word \<Rightarrow> (byte list \<times> nat) io" where
  "stdout_counted flags = \<lparr>io_fp = std flags 1 unused, io_mem = mem_image 4 [99, 100, 0, 0, 0, 0, 0, 0, 10, 0, 0, 0], io_errno = 0,
     io_sys = ([], 0), io_others = []\<rparr>"

lemma disk_device: "device (counted (disk room)) fd fst snd"
proof -
  have "quiet (disk room) fd (\<lambda>w. w)" by (simp add: quiet_def disk_def console_def)
  moreover have "r \<le> int (length xs) \<and> w' = w @ take (nat r) xs" if "sys_write (disk room) fd xs w = (r, e, w')" for xs w r e w'
  proof -
    have "take (min (length xs) k) xs = take k xs" for k by (cases "length xs \<le> k") simp_all
    then show ?thesis using that by (auto simp: disk_def Let_def split: if_splits)
  qed
  ultimately have "device (counted (disk room)) fd (\<lambda>w. fst w) snd" by (rule counted_device)
  then show ?thesis by simp
qed

lemma disk_carries: "carries (counted (disk room)) fst snd (stdout_counted SWR) []"
  using disk_device [of room] by (simp add: carries_def writable_def fresh_def Let_def stdout_counted_def std_def unused_def fbit_def
      mask_bits paged_mem_image counted_def disk_def console_def malloc_ok_def)

lemma stdout_counted_clear: "clear_of (stdout_counted f) (4, [99, 100])"
  by (simp add: clear_of_def stdout_counted_def std_def unused_def region_def)

theorem putc_correct_witness:
  "\<exists>r s'. putc_r (console one_block) 65 (stdout_with SWR) = Some (r, s') \<and>
    outcome (console one_block) (\<lambda>w. w) (\<lambda>w. 0) (r \<noteq> EOF) [] [65] (stdout_with SWR) s' \<and> r = 65"
  using putc_correct [OF stdout_carries [OF one_block_ok], of 65] by auto

theorem fwrite_correct_witness:
  "(\<exists>s'. fwrite_r (console one_block) 4 1 2 (stdout_with SWR) = Some (2, s') \<and>
     outcome (console one_block) (\<lambda>w. w) (\<lambda>w. 0) True [] [99, 100] (stdout_with SWR) s') \<and>
   (\<exists>s'. fwrite_r (counted (disk 1)) 4 1 2 (stdout_counted SWR) = Some (1, s') \<and>
     outcome (counted (disk 1)) fst snd False [] [99, 100] (stdout_counted SWR) s' \<and> io_sys s' = ([99], 1))"
proof -
  have x: "map_option (\<lambda>(n, s). (n, io_sys s)) (fwrite_r (counted (disk 1)) 4 1 2 (stdout_counted SWR)) = Some (1, [99], 1)" by code_simp
  obtain n s' where s': "fwrite_r (counted (disk 1)) 4 1 2 (stdout_counted SWR) = Some (n, s')"
    "outcome (counted (disk 1)) fst snd (n = 2) [] [99, 100] (stdout_counted SWR) s'"
    using fwrite_correct [OF disk_carries [of 1] stdout_counted_clear, of 2 1] by auto
  moreover have "n = 1" "io_sys s' = ([99], 1)" using x s'(1) by simp_all
  ultimately show ?thesis using fwrite_correct [OF stdout_carries [OF one_block_ok] stdout_clear(1), of 2 1] by auto
qed

theorem fflush_correct_witness:
  "\<exists>s'. fflush_r (console one_block) (stdout_with SWR) = Some (0, s') \<and>
    outcome (console one_block) (\<lambda>w. w) (\<lambda>w. 0) True [] [] (stdout_with SWR) s' \<and> io_sys s' = []"
  using fflush_correct [OF stdout_carries [OF one_block_ok]] by auto

theorem output_history_witness:
  "\<exists>s' pend. performs (console one_block) [Putc 65, Puts 12 4 [99, 100], Fwrite 4 [99, 100]] (stdout_with SWR) = Some (True, s') \<and>
    io_sys s' @ pend = [65, 99, 100, 10, 99, 100] \<and> (flag s' SNBF \<longrightarrow> pend = []) \<and> (flag s' SLBF \<longrightarrow> 10 \<notin> set pend)"
proof -
  let ?qs = "[Putc 65, Puts 12 4 [99, 100], Fwrite 4 [99, 100]]"
  have q: "\<forall>q \<in> set ?qs. sound (stdout_with SWR) q" using stdout_clear by simp
  have d: "[] @ concat (map payload ?qs) = [65, 99, 100, 10, 99, 100]" by simp
  show ?thesis using output_history [OF stdout_carries [OF one_block_ok] q] unfolding d by auto
qed

lemma stdout_line_fresh: "fresh (stdout_with (SWR OR SLBF))" "fbit (stdout_with (SWR OR SLBF)) 0"
  by (simp_all add: fresh_def Let_def stdout_with_def std_def unused_def fbit_def mask_bits bit_or_iff paged_mem_image)

lemma no_memory_ok: "malloc_ok (\<lambda>m n. (NULL, m))"
  by (simp add: malloc_ok_def)

theorem stdout_out_of_order_witness:
  "\<exists>s1 s2 s3 s4. putc_r (console (\<lambda>m n. (NULL, m))) 97 (stdout_with (SWR OR SLBF)) = Some (97, s1) \<and>
    putc_r (console (\<lambda>m n. (NULL, m))) 98 s1 = Some (98, s2) \<and> fwrite_r (console (\<lambda>m n. (NULL, m))) 4 1 2 s2 = Some (2, s3) \<and>
    fflush_r (console (\<lambda>m n. (NULL, m))) s3 = Some (0, s4) \<and> io_sys s4 = [97, 99, 100, 98]"
proof -
  have "takes_all (console (\<lambda>m n. (NULL, m))) fd" for fd by (simp add: takes_all_def console_def)
  from stdout_out_of_order [OF stdout_line_fresh console_device this, of 98 4 "[99, 100]" 2 1 97] show ?thesis
    using no_memory_ok stdout_clear(1) by (simp add: console_def BUFSIZ_def stdout_with_def) blast
qed

end
