(* ===== verification/Spec2Isabelle.thy ===== *)
theory Spec2Isabelle
  imports StrScan MemCopy StrCopy StrCompare StrTok Ctype Multibyte StrTol SortSearch SearchTree HashTable CTime StdNum BigDouble AtExit Environ TwoWay StdioCalls
begin

text \<open>
  This library verifies the C run-time library of llxvm, \<^verbatim>\<open>src/runtime/libc\<close>.  llxvm compiles C to
  bytecode: \<^verbatim>\<open>llxvm-cc\<close> (C++) translates LLVM code to an assembler for the virtual machine, a
  run-time system in the host language (\<^verbatim>\<open>src/runtime/java\<close>, \<^verbatim>\<open>src/runtime/dotnet\<close>) provides the memory and the
  system calls, and every compiled program is linked with the C library, a newlib compiled by
  \<^verbatim>\<open>clang -m32\<close>.  The library is the C part of the repository and the subject of these theories.

  \<^bold>\<open>The machine.\<close>  \<^verbatim>\<open>CMem\<close> is the prelude.  A memory is a partial map from addresses to bytes, 32-bit
  words are little endian, \<^verbatim>\<open>char\<close> is signed.  A routine that reads and writes memory is a function to
  an \<open>option\<close>: \<open>None\<close> stands for an access to memory that does not exist, for an index outside a
  static table, for undefined arithmetic, and for a loop that never ends (such loops are
  \<^verbatim>\<open>partial_function (option)\<close>; the others are terminating functions, so no fuel is needed anywhere).
  A theorem that a routine is \<open>Some r\<close> thus states that it stops, touches existing memory only and
  returns \<open>r\<close>.  Addresses are natural numbers and do not wrap around; the contents of memory and
  all arithmetic whose overflow matters are machine words.  \<^verbatim>\<open>paged\<close> says that memory comes in
  aligned words, which the word-at-a-time loops need because they read beyond the end of a string.
  \<^verbatim>\<open>cstr\<close>, \<^verbatim>\<open>bytes\<close> and \<^verbatim>\<open>mapped\<close> describe strings and regions, and \<^verbatim>\<open>wr\<close> the memory after a write.
  Memory from \<^verbatim>\<open>malloc\<close> enters the operations that allocate as an argument: the address it returned
  (\<^verbatim>\<open>NULL\<close> when it failed), or a function that gives the address and the memory with the new block; what the
  operations need of it is that the block is new, \<open>malloc_ok\<close> of \<^verbatim>\<open>Allocator\<close>; the data of the allocator itself are not part of
  the memory of the model.  \<^verbatim>\<open>Loops\<close> has the loop combinator of the
  larger routines, with the rule that proves by an invariant and a measure that a loop returns.

  \<^bold>\<open>Strings.\<close>  \<^verbatim>\<open>WordScan\<close> holds the macros \<^verbatim>\<open>DETECTNULL\<close>, \<^verbatim>\<open>DETECTCHAR\<close> and the byte and word loops
  that most of \<^verbatim>\<open>string/\<close> is made of; the locale \<^verbatim>\<open>block_test\<close> states what a test of a word must
  detect, and is interpreted for the three tests the code uses.  \<^verbatim>\<open>StrScan\<close> (\<^verbatim>\<open>strlen\<close>, \<^verbatim>\<open>strnlen\<close>,
  \<^verbatim>\<open>strchr\<close>, \<^verbatim>\<open>strrchr\<close>, \<^verbatim>\<open>memchr\<close>, \<^verbatim>\<open>strspn\<close>, \<^verbatim>\<open>strcspn\<close>, \<^verbatim>\<open>strpbrk\<close>) finds the first or last position
  of what is searched for, for every alignment.  \<^verbatim>\<open>MemCopy\<close> (\<^verbatim>\<open>memcpy\<close>, \<^verbatim>\<open>memmove\<close>, \<^verbatim>\<open>memset\<close>, \<^verbatim>\<open>memccpy\<close>,
  \<^verbatim>\<open>swab\<close> and relatives) shows the exact memory afterwards, overlapping moves included; the locale
  \<^verbatim>\<open>chunk_copier\<close> covers the loops by words and by blocks of four words.  \<^verbatim>\<open>StrCopy\<close>
  (\<^verbatim>\<open>strcpy\<close>, \<^verbatim>\<open>strncpy\<close>, \<^verbatim>\<open>strcat\<close>, \<^verbatim>\<open>strncat\<close>, \<^verbatim>\<open>strlcpy\<close>, \<^verbatim>\<open>strlcat\<close>, \<^verbatim>\<open>strxfrm\<close>), \<^verbatim>\<open>StrCompare\<close> (\<^verbatim>\<open>memcmp\<close>, \<^verbatim>\<open>strcmp\<close>,
  \<^verbatim>\<open>strncmp\<close>, \<^verbatim>\<open>strcasecmp\<close> and relatives) and \<^verbatim>\<open>StrTok\<close> (\<^verbatim>\<open>strtok_r\<close>, \<^verbatim>\<open>strtok\<close>, \<^verbatim>\<open>strsep\<close>; the saved
  pointer is state that is passed in and returned, and repeated calls yield exactly the tokens)
  are the rest of the routines on single bytes.  \<^verbatim>\<open>Periods\<close> and \<^verbatim>\<open>TwoWay\<close> hold the substring search of \<^verbatim>\<open>str-two-way.h\<close>
  with its two searches for short and for long needles, and \<^verbatim>\<open>memmem\<close>, \<^verbatim>\<open>strstr\<close> and \<^verbatim>\<open>strcasestr\<close> on it: \<^verbatim>\<open>Periods\<close> proves the
  critical factorization theorem on lists, \<^verbatim>\<open>TwoWay\<close> that \<^verbatim>\<open>critical_factorization\<close> computes such a
  factorization and that the searches find the first occurrence, for the needles on which they are right.

  \<^bold>\<open>Characters and numbers.\<close>  \<^verbatim>\<open>Ctype\<close> transcribes the table of \<^verbatim>\<open>ctype/ctype_.c\<close> and the predicates and
  conversions that index it, and shows that they are the ASCII classes on every \<^verbatim>\<open>int\<close> they may be
  called with.  \<^verbatim>\<open>Multibyte\<close> holds \<^verbatim>\<open>_mbtowc_r\<close> and \<^verbatim>\<open>_wctomb_r\<close> of \<^verbatim>\<open>stdlib/\<close> for UTF-8, Shift-JIS, EUC-JP and
  JIS, with the conversion state: round trips, and which bytes are read.  These are the branches under \<^verbatim>\<open>_MB_CAPABLE\<close>, which nothing
  in the repository defines: its own build has only the end of the two functions, one byte for a character.  \<^verbatim>\<open>StrTol\<close> holds \<^verbatim>\<open>strtol\<close>,
  \<^verbatim>\<open>strtoul\<close>, their 64-bit forms and \<^verbatim>\<open>atoi\<close>, \<^verbatim>\<open>atol\<close>, \<^verbatim>\<open>atoll\<close>: value, end pointer, overflow and \<^verbatim>\<open>errno\<close>.
  \<^verbatim>\<open>StdNum\<close> holds the absolute values and divisions, the pseudo-random generators with integer
  results, and \<^verbatim>\<open>a64l\<close>, \<^verbatim>\<open>l64a\<close>.  \<^verbatim>\<open>Bignum\<close>, \<^verbatim>\<open>BigDivide\<close> and \<^verbatim>\<open>BigDouble\<close> hold the numbers of arbitrary length of
  \<^verbatim>\<open>mprec.c\<close>, kept in lists of 32-bit words with the free lists they come from, and \<^verbatim>\<open>quorem\<close> of \<^verbatim>\<open>dtoa.c\<close>: every operation is
  compared with the one on natural numbers, \<^verbatim>\<open>d2b\<close> with the value of the bits of a \<^verbatim>\<open>double\<close>.

  \<^bold>\<open>Searching.\<close>  \<^verbatim>\<open>Comparator\<close> states as a locale what the routines of \<^verbatim>\<open>search/\<close> rely on in the
  comparison function of the caller, a total preorder on the elements; the order of \<^verbatim>\<open>strcmp\<close> is an
  interpretation.  \<^verbatim>\<open>SortSearch\<close> holds \<^verbatim>\<open>qsort\<close> and \<^verbatim>\<open>bsearch\<close> on the list of the elements, the exchange of two
  elements also on the byte memory, with a refinement between the two.  \<^verbatim>\<open>SearchTree\<close> holds \<^verbatim>\<open>tsearch\<close>,
  \<^verbatim>\<open>tfind\<close>, \<^verbatim>\<open>tdelete\<close>, \<^verbatim>\<open>twalk\<close> and \<^verbatim>\<open>tdestroy\<close> on a heap of nodes; the invariant of every reachable state
  is that the heap is a search tree and has no other nodes.  \<^verbatim>\<open>HashTable\<close> holds \<^verbatim>\<open>hcreate_r\<close>,
  \<^verbatim>\<open>hsearch_r\<close>, \<^verbatim>\<open>hdestroy_r\<close> and the hash function; tables refine finite maps from strings.

  \<^bold>\<open>Time.\<close>  \<^verbatim>\<open>CTime\<close> holds \<^verbatim>\<open>_mktm_r\<close> under \<^verbatim>\<open>gmtime_r\<close> and \<^verbatim>\<open>localtime_r\<close>, the computation of the changes to
  and from daylight saving time, and \<^verbatim>\<open>mktime\<close>; the theorems compare them with the Gregorian calendar
  and with each other.

  \<^bold>\<open>The process.\<close>  \<^verbatim>\<open>AtExit\<close> holds the table of \<^verbatim>\<open>__atexit.c\<close>, the registrations, \<^verbatim>\<open>__call_exitprocs\<close> and \<^verbatim>\<open>exit\<close>; what a
  registered function does is a parameter, it may register others.  The theorems give the order of the calls.  \<^verbatim>\<open>Environ\<close> holds
  the environment, strings in memory and a vector of their addresses, with \<^verbatim>\<open>getenv\<close>, \<^verbatim>\<open>setenv\<close>, \<^verbatim>\<open>unsetenv\<close> and \<^verbatim>\<open>putenv\<close>; along
  every sequence of calls it refines a map from names to values.

  \<^bold>\<open>Streams.\<close>  \<^verbatim>\<open>Stdio\<close> has the record \<^verbatim>\<open>FILE\<close> with its buffer in memory, the system calls as a record of parameters, and the
  routines of \<^verbatim>\<open>stdio/\<close> that give a stream its buffer, turn it to writing and flush it.  \<^verbatim>\<open>StdioOut\<close> has \<^verbatim>\<open>putc\<close>, the
  loops of \<^verbatim>\<open>__sfvwrite_r\<close> for unbuffered, fully buffered and line buffered streams, and \<^verbatim>\<open>fputs\<close>, \<^verbatim>\<open>puts\<close>, \<^verbatim>\<open>fwrite\<close>,
  \<^verbatim>\<open>setvbuf\<close>.  \<^verbatim>\<open>StdioCalls\<close> states their contract: what the device has and what is pending in the buffer make up the
  content of the stream, every call adds its bytes to the content, or it fails with a prefix written, and it fails exactly when a write to
  the device fails (a counter of the failed writes, which exists only in the theorems, says so); sequences of calls keep their order.
  A fresh line buffered stream without memory for its buffer is outside the contract: \<^verbatim>\<open>stdout_out_of_order\<close> shows what it does.

  \<^bold>\<open>This theory\<close> has the property that spans components: a table of strings in memory is ordered and
  searched by \<^verbatim>\<open>qsort\<close>, \<^verbatim>\<open>bsearch\<close> and \<^verbatim>\<open>strcmp\<close> together.

  \<^bold>\<open>Defects.\<close>  Where the code misbehaves, the definitions do too, and the theorems carry the hypothesis that
  avoids the case or a lemma shows it: \<^verbatim>\<open>memccpy_misses_255\<close>, \<^verbatim>\<open>strrchr_256_runs_past_the_end\<close>,
  \<^verbatim>\<open>mbtowc_restart_overread\<close>, \<^verbatim>\<open>log2_terminates_iff\<close>, \<^verbatim>\<open>localtime_yday_past_new_year\<close>, \<^verbatim>\<open>a64l_digit_R64\<close>,
  \<^verbatim>\<open>strtol_correct\<close> (a prefix \<^verbatim>\<open>0x\<close> without a digit), \<^verbatim>\<open>mktime_correct\<close> (times that do not fit are wrapped),
  \<^verbatim>\<open>memmem_periodic_false_match\<close>, \<^verbatim>\<open>setenv_failure_truncates\<close>, \<^verbatim>\<open>atexit_stale_argument\<close>, \<^verbatim>\<open>stdout_out_of_order\<close>.

  \<^bold>\<open>Not modelled.\<close>  \<^verbatim>\<open>llxvm-cc\<close> and the run-time systems are not C.  Of the library:
  \<^item> \<^verbatim>\<open>posix/\<close>, \<^verbatim>\<open>unix/\<close>, \<^verbatim>\<open>signal/\<close>, \<^verbatim>\<open>syscalls/\<close> and most of \<^verbatim>\<open>reent/\<close> are wrappers around the host, whose behaviour is
    not in the repository's C code;
  \<^item> of \<^verbatim>\<open>stdio/\<close>, the formats of \<^verbatim>\<open>printf\<close> and \<^verbatim>\<open>scanf\<close> (variable arguments and floating point), the opening, closing and
    positioning of files, and wide characters; the loops of \<^verbatim>\<open>__sfvwrite_r\<close> for strings are defined, but no theorem is about them;
  \<^item> \<^verbatim>\<open>iconv/\<close> (nearly all of its lines are tables of character sets), the wide-character classes and strings, and the wrappers of the
    multibyte routines;
  \<^item> floating point: \<^verbatim>\<open>dtoa.c\<close> but for \<^verbatim>\<open>quorem\<close>, \<^verbatim>\<open>strtod.c\<close>, \<^verbatim>\<open>drand48.c\<close>, and of \<^verbatim>\<open>mprec.c\<close> \<^verbatim>\<open>ulp\<close>, \<^verbatim>\<open>b2d\<close>, \<^verbatim>\<open>ratio\<close>
    and the tables of powers of ten, which compute with \<^verbatim>\<open>double\<close> values;
  \<^item> \<^verbatim>\<open>mallocr.c\<close>, the allocator behind the parameters mentioned above, and the hash files of \<^verbatim>\<open>search/\<close>;
  \<^item> \<^verbatim>\<open>argz/\<close>, option parsing, messages, locales and the printers of dates;
  \<^item> the branches compiled only with \<^verbatim>\<open>PREFER_SIZE_OVER_SPEED\<close>, and the other hash functions of \<^verbatim>\<open>hash_func.c\<close>: they are not in
    the build.
\<close>

section \<open>Tables of strings\<close>

text \<open>The comparison function that calls \<^verbatim>\<open>strcmp\<close> on two pointers of a table.\<close>

definition ptr_cmp :: "mem \<Rightarrow> addr \<Rightarrow> addr \<Rightarrow> int" where
  "ptr_cmp m p q = (case strcmp m p q of Some r \<Rightarrow> r | None \<Rightarrow> 0)"

lemma ptr_cmp_eq: "paged m \<Longrightarrow> cstr m p s \<Longrightarrow> cstr m q t \<Longrightarrow> ptr_cmp m p q = cmp_str s t"
  by (simp add: ptr_cmp_def strcmp_eq)

lemma ptr_cmp_comparator:
  assumes "paged m"
  shows "comparator (ptr_cmp m) {p. \<exists>s. cstr m p s}"
proof
  fix p q r assume "p \<in> {p. \<exists>s. cstr m p s}" "q \<in> {p. \<exists>s. cstr m p s}"
  then obtain s t where st: "cstr m p s" "cstr m q t" by blast
  then show "ptr_cmp m p q < 0 \<longleftrightarrow> 0 < ptr_cmp m q p"
    using cmp_str_minus [of s t] by (simp add: ptr_cmp_eq assms)
  assume "r \<in> {p. \<exists>s. cstr m p s}" and le: "ptr_cmp m p q \<le> 0" "ptr_cmp m q r \<le> 0"
  then obtain u where u: "cstr m r u" by blast
  have "0 \<notin> set s" "0 \<notin> set t" "0 \<notin> set u" using st u by (auto simp: cstr_def)
  then show "ptr_cmp m p r \<le> 0" using le cmp_str_trans [of s t u] st u by (simp add: ptr_cmp_eq assms)
qed

definition table_str :: "addr \<Rightarrow> byte list" where
  "table_str p = (if p = 8 then [98] else if p = 10 then [97] else [99])"

text \<open>
  C13.  A table of pointers to strings, ordered by \<^verbatim>\<open>qsort\<close> with \<^verbatim>\<open>strcmp\<close> as the comparison function, is a
  permutation of the table in lexicographic order of the strings, and \<^verbatim>\<open>bsearch\<close> on it finds a string
  equal to the key exactly when the table has one.
\<close>

theorem string_table_correct:
  assumes "paged m" "\<forall>p \<in> set ps. cstr m p (str p)" "cstr m k w"
  defines "q \<equiv> qsort (ptr_cmp m) ps 0 (length ps)"
  shows "mset q = mset ps \<and>
    sorted_wrt (\<lambda>p p'. str p = str p' \<or> (str p, str p') \<in> lexord {(x, y). x < y}) q \<and>
    (case bsearch k q (length ps) 4 (ptr_cmp m) of
       Some i \<Rightarrow> i < length ps \<and> str (q ! i) = w
     | None \<Rightarrow> w \<notin> str ` set ps)"
proof -
  let ?S = "{p. \<exists>s. cstr m p s}"
  note C = ptr_cmp_comparator [OF assms(1)]
  have sub: "set ps \<subseteq> ?S" "k \<in> ?S" using assms(2,3) by auto
  have nz: "0 \<notin> set (str p)" if "p \<in> set ps" for p using assms(2) that by (auto simp: cstr_def)
  have nk: "0 \<notin> set w" using assms(3) by (simp add: cstr_def)
  have perm: "length q = length ps"
    using qsort_range [OF C, of 0 "length ps" ps] sub by (auto simp: q_def dest: mset_eq_length)
  then have q: "sorted_wrt (\<lambda>p p'. ptr_cmp m p p' \<le> 0) q" "mset q = mset ps"
    using qsort_range [OF C, of 0 "length ps" ps] sub perm by (simp_all add: q_def)
  have set: "set q = set ps" by (metis q(2) set_mset_mset)
  have "sorted_wrt (\<lambda>p p'. str p = str p' \<or> (str p, str p') \<in> lexord {(x, y). x < y}) q"
  proof (rule sorted_wrt_mono_rel [OF _ q(1)])
    fix p p' assume p: "p \<in> set q" "p' \<in> set q" "ptr_cmp m p p' \<le> 0"
    then have "cmp_str (str p) (str p') \<le> 0" using assms(1,2) set by (simp add: ptr_cmp_eq [of _ _ "str p" _ "str p'"])
    then show "str p = str p' \<or> (str p, str p') \<in> lexord {(x, y). x < y}"
      using cmp_str_eq_0 [of "str p" "str p'"] cmp_str_less_iff [of "str p" "str p'"] nz p set by fastforce
  qed
  moreover have eq: "ptr_cmp m k p = 0 \<longleftrightarrow> str p = w" if "p \<in> set ps" for p
    using ptr_cmp_eq [OF assms(1,3), of p "str p"] cmp_str_eq_0 [OF nk nz [OF that]] assms(2) that by auto
  have "q ! i \<in> set ps" if "i < length ps" for i
    using that set nth_mem [of i q] q(2) by (metis mset_eq_length)
  then have "case bsearch k q (length ps) 4 (ptr_cmp m) of
       Some i \<Rightarrow> i < length ps \<and> str (q ! i) = w | None \<Rightarrow> w \<notin> str ` set ps"
    using bsearch_of_qsort [OF C sub, of 4] eq by (auto simp: q_def [symmetric] split: option.splits)
  ultimately show ?thesis using q(2) by blast
qed
theorem string_table_correct_witness:
  "let m = mem_image 8 [98, 0, 97, 0, 99, 0, 97, 0]; ps = [8, 10, 12]; q = qsort (ptr_cmp m) ps 0 (length ps) in
   mset q = mset ps \<and>
   sorted_wrt (\<lambda>p p'. table_str p = table_str p' \<or> (table_str p, table_str p') \<in> lexord {(x, y). x < y}) q \<and>
   (case bsearch 14 q (length ps) 4 (ptr_cmp m) of
      Some i \<Rightarrow> i < length ps \<and> table_str (q ! i) = [97]
    | None \<Rightarrow> [97] \<notin> table_str ` set ps)"
  unfolding Let_def
  by (rule string_table_correct) (simp_all add: paged_mem_image cstr_def table_str_def)

end
